(* ===== verification/Kernel_Prelude.thy ===== *)
theory Kernel_Prelude
  imports Main "HOL-Library.Word"
begin

unbundle bit_operations_syntax

text \<open>
  Shared vocabulary of the development: the machine types of the kernel, the faults a
  kernel routine can end in, page-frame arithmetic and the rounding macros, and the
  generic facts on words, lists and results that the component theories use.
\<close>

section \<open>Machine types and constants\<close>

type_synonym u64 = "64 word"
type_synonym u32 = "32 word"
type_synonym phys_addr_t = u64

text \<open>
  The values of \<open>include/linux/kernel.h\<close>, \<open>include/linux/numa.h\<close>,
  \<open>arch/arm64/include/asm/page-def.h\<close> and \<open>arch/arm64/include/asm/cache.h\<close> under
  \<open>arch/arm64/configs/defconfig\<close>: 4K pages and eight NUMA nodes.
\<close>

definition PHYS_ADDR_MAX :: phys_addr_t where
  "PHYS_ADDR_MAX = NOT 0"

definition ULLONG_MAX :: u64 where
  "ULLONG_MAX = NOT 0"

definition PAGE_SHIFT :: nat where
  "PAGE_SHIFT = 12"

definition PAGE_SIZE :: u64 where
  "PAGE_SIZE = push_bit PAGE_SHIFT 1"

definition SMP_CACHE_BYTES :: u64 where
  "SMP_CACHE_BYTES = push_bit 6 1"

definition MAX_NUMNODES :: int where
  "MAX_NUMNODES = 2 ^ 3"

definition NUMA_NO_NODE :: int where
  "NUMA_NO_NODE = - 1"

definition ENOMEM :: int where
  "ENOMEM = 12"

definition EINVAL :: int where
  "EINVAL = 22"

definition EBUSY :: int where
  "EBUSY = 16"

definition EFAULT :: int where
  "EFAULT = 14"

definition ERANGE :: int where
  "ERANGE = 34"

definition EOVERFLOW :: int where
  "EOVERFLOW = 75"

section \<open>Results: what a routine that may not return yields\<close>

text \<open>
  \<open>BUG_ON\<close> and \<open>panic\<close> stop the machine, so a routine that contains one yields a
  \<open>fault\<close> instead of a value. \<open>Hang\<close> marks a loop of the code that can never end because
  nothing it tests changes. \<open>Out_of_fuel\<close> is no behaviour of the code: it marks a recursion
  of the model that was cut, and the theorems show that it does not occur.
\<close>

datatype fault = Bug | Panic | Hang | Out_of_fuel

type_synonym 'a res = "fault + 'a"

text \<open>Sequencing: a fault ends the routine.\<close>

fun and_then :: "'a res \<Rightarrow> ('a \<Rightarrow> 'b res) \<Rightarrow> 'b res" where
  "and_then (Inl e) f = Inl e"
| "and_then (Inr x) f = f x"

section \<open>Rounding and page frames\<close>

definition round_up :: "u64 \<Rightarrow> u64 \<Rightarrow> u64" where
  "round_up x y = ((x - 1) OR (y - 1)) + 1"

definition round_down :: "u64 \<Rightarrow> u64 \<Rightarrow> u64" where
  "round_down x y = x AND NOT (y - 1)"

definition PFN_UP :: "u64 \<Rightarrow> u64" where
  "PFN_UP x = drop_bit PAGE_SHIFT (x + PAGE_SIZE - 1)"

definition PFN_DOWN :: "u64 \<Rightarrow> u64" where
  "PFN_DOWN x = drop_bit PAGE_SHIFT x"

definition PFN_PHYS :: "u64 \<Rightarrow> u64" where
  "PFN_PHYS x = push_bit PAGE_SHIFT x"

definition PAGE_ALIGN :: "u64 \<Rightarrow> u64" where
  "PAGE_ALIGN x = (x + (PAGE_SIZE - 1)) AND NOT (PAGE_SIZE - 1)"

definition clamp :: "u64 \<Rightarrow> u64 \<Rightarrow> u64 \<Rightarrow> u64" where
  "clamp val lo hi = min (max val lo) hi"

section \<open>Facts on words\<close>

lemma unat_u32: "x < 2 ^ 32 \<Longrightarrow> unat (word_of_nat x :: u32) = x"
  by (simp add: unat_of_nat)

lemma unat_u64: "x < 2 ^ 64 \<Longrightarrow> unat (word_of_nat x :: u64) = x"
  by (simp add: unat_of_nat)

lemma unat_add_no_wrap:
  fixes c e sz :: "'a :: len word"
  assumes "unat c + unat sz \<le> unat e"
  shows "unat (c + sz) = unat c + unat sz"
proof -
  have "unat e < 2 ^ LENGTH('a)" by (rule unsigned_less)
  with assms have "unat c + unat sz < 2 ^ LENGTH('a)" by linarith
  then show ?thesis by (simp add: unat_add_lem)
qed

lemma word_block_fits:
  fixes c e sz :: "'a :: len word"
  assumes "c \<le> e" and "sz \<le> e - c"
  shows "c \<le> c + sz" and "c + sz \<le> e"
proof -
  have "unat c + unat sz \<le> unat e" using assms by (simp add: word_le_nat_alt unat_sub)
  with unat_add_no_wrap [OF this] show "c \<le> c + sz" "c + sz \<le> e" by (simp_all add: word_le_nat_alt)
qed

lemma word_block_below:
  fixes c e sz :: "'a :: len word"
  assumes "sz \<le> e" and "c \<le> e - sz"
  shows "c \<le> c + sz" and "c + sz \<le> e"
proof -
  have "unat c + unat sz \<le> unat e" using assms by (simp add: word_le_nat_alt unat_sub)
  with unat_add_no_wrap [OF this] show "c \<le> c + sz" "c + sz \<le> e" by (simp_all add: word_le_nat_alt)
qed

lemma word_less_suc: "(v :: 'a :: len word) < c \<Longrightarrow> v + 1 \<le> c"
  by (rule inc_le)

lemma word_pred_less: "(x :: 'a :: len word) \<noteq> 0 \<Longrightarrow> x \<le> c \<Longrightarrow> x - 1 < c"
  by (auto simp: word_less_nat_alt word_le_nat_alt unat_minus_one unat_gt_0 [symmetric])

lemma word_le_or: "(x :: 'a :: len word) \<le> x OR y"
  by (simp add: word_le_def unsigned_or_eq or_greater_eq)

lemma word_and_le: "(x :: 'a :: len word) AND y \<le> x"
  by (simp add: word_le_def unsigned_and_eq)

lemma mask_sub_one: "(2 :: 'a :: len word) ^ k - 1 = mask k"
  by (simp add: mask_eq_exp_minus_1)

lemma round_up_ge: "round_up x (2 ^ k) \<noteq> 0 \<Longrightarrow> x \<le> round_up x (2 ^ k)"
proof -
  let ?o = "(x - 1) OR (2 ^ k - 1)"
  assume "round_up x (2 ^ k) \<noteq> 0"
  then have "?o \<noteq> - 1" by (auto simp: round_up_def)
  then have "?o < ?o + 1" using inc_less_eq_iff [of ?o ?o] by (simp add: linorder_not_le [symmetric])
  then have "x - 1 < ?o + 1" using word_le_or [of "x - 1" "2 ^ k - 1"] by (rule le_less_trans [rotated])
  then show ?thesis unfolding round_up_def by (rule dec_less_imp_less_eq)
qed

lemma aligned_unat: "c AND (2 ^ k - 1) = 0 \<longleftrightarrow> unat (c :: u64) = 2 ^ k * (unat c div 2 ^ k)"
proof -
  have "c AND (2 ^ k - 1) = take_bit k c" by (simp add: mask_sub_one take_bit_eq_mask)
  moreover have "unat (take_bit k c) = unat c mod 2 ^ k"
    by (subst unsigned_take_bit_eq) (rule take_bit_eq_mod)
  moreover have "take_bit k c = 0 \<longleftrightarrow> unat (take_bit k c) = 0" by (simp only: unsigned_eq_0_iff)
  moreover have "unat c = 2 ^ k * (unat c div 2 ^ k) + unat c mod 2 ^ k" by simp
  ultimately show ?thesis by (metis add.right_neutral add_left_cancel)
qed

lemma drop_bit_div_eq: "drop_bit k (v :: u64) = drop_bit k w \<Longrightarrow> unat v div 2 ^ k = unat w div 2 ^ k"
proof -
  assume "drop_bit k v = drop_bit k w"
  then have "drop_bit k (unat v) = drop_bit k (unat w)" by (simp only: unat_drop_bit_eq [symmetric])
  then show ?thesis by (simp only: drop_bit_eq_div)
qed

lemma round_up_aligned:
  assumes "k < 64"
  shows "round_up x (2 ^ k) AND (2 ^ k - 1) = 0"
proof -
  let ?o = "(x - 1) OR mask k"
  have "take_bit k (uint ?o) = mask k"
    using assms by (intro bit_eqI) (auto simp: bit_simps)
  then have "take_bit k (uint ?o + 1) = 0" by (simp only: take_bit_eq_mask_iff)
  then have "uint (take_bit k (?o + 1)) = 0"
    using assms by (simp add: unsigned_take_bit_eq uint_word_arith_bintrs)
  then have "take_bit k (?o + 1) = 0" by (simp only: unsigned_eq_0_iff)
  then show ?thesis by (simp add: round_up_def mask_sub_one take_bit_eq_mask)
qed

lemma or_mask_less:
  assumes "v < c" and "c AND (2 ^ k - 1) = 0"
  shows "v OR (2 ^ k - 1) < (c :: u64)"
proof -
  define q where "q = unat c div 2 ^ k"
  have c: "unat c = 2 ^ k * q" using assms(2) by (simp add: aligned_unat q_def)
  have "drop_bit k (v OR mask k) = drop_bit k v" by (rule bit_word_eqI) (auto simp: bit_simps)
  then have eq: "unat (v OR mask k) div 2 ^ k = unat v div 2 ^ k" by (rule drop_bit_div_eq)
  have "unat v < 2 ^ k * q" using assms(1) c by (simp add: word_less_nat_alt)
  then have "unat v div 2 ^ k < q" by (simp add: less_mult_imp_div_less mult.commute)
  then have "unat (v OR mask k) div 2 ^ k < q" by (simp only: eq)
  then have "unat (v OR mask k) < unat c" using c by (simp add: div_less_iff_less_mult mult.commute)
  then show ?thesis by (simp add: word_less_nat_alt mask_sub_one)
qed

lemma round_up_least:
  assumes "x \<le> c" and "c AND (2 ^ k - 1) = 0"
  shows "round_up x (2 ^ k) \<le> c"
proof (cases "x = 0")
  case False
  from or_mask_less [OF word_pred_less [OF this assms(1)] assms(2)] show ?thesis
    unfolding round_up_def by (rule word_less_suc)
qed (simp add: round_up_def)

lemma round_down_le: "round_down x y \<le> x"
  by (simp add: round_down_def word_and_le)

lemma round_down_aligned: "round_down x (2 ^ k) AND (2 ^ k - 1) = 0"
  unfolding round_down_def by (simp add: bit_eq_iff bit_simps)

lemma round_down_greatest:
  assumes "c \<le> x" and "c AND (2 ^ k - 1) = 0"
  shows "c \<le> round_down x (2 ^ k)"
proof -
  have "drop_bit k (round_down x (2 ^ k)) = drop_bit k x"
    unfolding round_down_def mask_sub_one
    by (rule bit_word_eqI) (auto simp: bit_simps dest: bit_imp_le_length)
  then have "unat (round_down x (2 ^ k)) div 2 ^ k = unat x div 2 ^ k" by (rule drop_bit_div_eq)
  moreover have "unat c div 2 ^ k \<le> unat x div 2 ^ k"
    using assms(1) by (intro div_le_mono) (simp add: word_le_nat_alt)
  ultimately have "2 ^ k * (unat c div 2 ^ k) \<le> 2 ^ k * (unat (round_down x (2 ^ k)) div 2 ^ k)"
    by simp
  then show ?thesis
    using assms(2) round_down_aligned [of x k] unfolding aligned_unat word_le_nat_alt by linarith
qed

lemma unat_round_down: "unat (round_down x (2 ^ k)) = 2 ^ k * (unat x div 2 ^ k)"
proof -
  have "drop_bit k (round_down x (2 ^ k)) = drop_bit k x"
    unfolding round_down_def mask_sub_one
    by (rule bit_word_eqI) (auto simp: bit_simps dest: bit_imp_le_length)
  then have "unat (round_down x (2 ^ k)) div 2 ^ k = unat x div 2 ^ k" by (rule drop_bit_div_eq)
  then show ?thesis using round_down_aligned [of x k] unfolding aligned_unat by simp
qed

lemma PAGE_ALIGN_alt: "PAGE_ALIGN x = round_down (x + 4095) (2 ^ 12)"
  by (simp add: PAGE_ALIGN_def round_down_def PAGE_SIZE_def PAGE_SHIFT_def)

lemma PAGE_ALIGN_ge:
  assumes "unat x < 2 ^ 63"
  shows "unat x \<le> unat (PAGE_ALIGN x)"
proof -
  have "unat (x + 4095) = unat x + 4095"
    using assms by (simp add: unat_add_lem [THEN iffD1])
  then have "unat (PAGE_ALIGN x) = 4096 * ((unat x + 4095) div 4096)"
    unfolding PAGE_ALIGN_alt unat_round_down by simp
  then show ?thesis by simp
qed

lemma and_then_assoc: "and_then (and_then m f) g = and_then m (\<lambda>x. and_then (f x) g)"
  by (cases m) auto

lemma and_then_Inr_iff: "and_then m f = Inr y \<longleftrightarrow> (\<exists>x. m = Inr x \<and> f x = Inr y)"
  by (cases m) auto

end
