(* ===== verification/Memblock_Regions.thy ===== *)
theory Memblock_Regions
  imports Kernel_Prelude
begin

unbundle bit_operations_syntax

text \<open>
  The region arrays of \<open>mm/memblock.c\<close>: \<open>struct memblock_region\<close>,
  \<open>struct memblock_type\<close> and the routines that work on one array (insertion, merging,
  removal, the two passes of \<open>memblock_add_range\<close>, the splitting loop of
  \<open>memblock_isolate_range\<close>, binary search).

  The list \<open>mt_regions\<close> holds the first \<open>cnt\<close> entries of the C array, so that
  \<open>type->cnt\<close> is its length (\<open>mt_cnt\<close>); the code never reads an entry at or beyond
  \<open>cnt\<close>. \<open>mt_max\<close> is the capacity of the array.
\<close>

section \<open>Data\<close>

text \<open>\<open>enum memblock_flags\<close>, kept as the bit mask it is used as.\<close>

type_synonym memblock_flags = u32

definition MEMBLOCK_NONE :: memblock_flags where "MEMBLOCK_NONE = 0"
definition MEMBLOCK_HOTPLUG :: memblock_flags where "MEMBLOCK_HOTPLUG = 1"
definition MEMBLOCK_MIRROR :: memblock_flags where "MEMBLOCK_MIRROR = 2"
definition MEMBLOCK_NOMAP :: memblock_flags where "MEMBLOCK_NOMAP = 4"

record memblock_region =
  rgn_base :: phys_addr_t
  rgn_size :: phys_addr_t
  rgn_flags :: memblock_flags
  rgn_nid :: int

text \<open>Where an array lives: one of the two static arrays, or an array \<open>memblock_double_array\<close> allocated.\<close>

datatype regions_ptr = Memory_init_regions | Reserved_init_regions | At_phys phys_addr_t

record memblock_type =
  mt_name :: string
  mt_max :: nat
  mt_total_size :: phys_addr_t
  mt_regions :: "memblock_region list"
  mt_array :: regions_ptr

definition mt_cnt :: "memblock_type \<Rightarrow> nat" where
  "mt_cnt t = length (mt_regions t)"

abbreviation rgn_end :: "memblock_region \<Rightarrow> phys_addr_t" where
  "rgn_end r \<equiv> rgn_base r + rgn_size r"

definition memblock_is_hotpluggable :: "memblock_region \<Rightarrow> bool" where
  "memblock_is_hotpluggable m = (rgn_flags m AND MEMBLOCK_HOTPLUG \<noteq> 0)"

definition memblock_is_mirror :: "memblock_region \<Rightarrow> bool" where
  "memblock_is_mirror m = (rgn_flags m AND MEMBLOCK_MIRROR \<noteq> 0)"

definition memblock_is_nomap :: "memblock_region \<Rightarrow> bool" where
  "memblock_is_nomap m = (rgn_flags m AND MEMBLOCK_NOMAP \<noteq> 0)"

definition memblock_set_region_flags :: "memblock_flags \<Rightarrow> memblock_region \<Rightarrow> memblock_region" where
  "memblock_set_region_flags flags r = r\<lparr>rgn_flags := rgn_flags r OR flags\<rparr>"

definition memblock_clear_region_flags :: "memblock_flags \<Rightarrow> memblock_region \<Rightarrow> memblock_region" where
  "memblock_clear_region_flags flags r = r\<lparr>rgn_flags := rgn_flags r AND NOT flags\<rparr>"

definition memblock_set_region_node :: "int \<Rightarrow> memblock_region \<Rightarrow> memblock_region" where
  "memblock_set_region_node nid r = r\<lparr>rgn_nid := nid\<rparr>"

definition empty_region :: memblock_region where
  "empty_region = \<lparr>rgn_base = 0, rgn_size = 0, rgn_flags = 0, rgn_nid = MAX_NUMNODES\<rparr>"

section \<open>Operations on one array\<close>

definition memblock_cap_size :: "phys_addr_t \<Rightarrow> phys_addr_t \<Rightarrow> phys_addr_t" where
  "memblock_cap_size base sz = min sz (PHYS_ADDR_MAX - base)"

definition memblock_addrs_overlap ::
    "phys_addr_t \<Rightarrow> phys_addr_t \<Rightarrow> phys_addr_t \<Rightarrow> phys_addr_t \<Rightarrow> bool" where
  "memblock_addrs_overlap base1 size1 base2 size2 \<longleftrightarrow>
     base1 < base2 + size2 \<and> base2 < base1 + size1"

definition memblock_overlaps_region :: "memblock_type \<Rightarrow> phys_addr_t \<Rightarrow> phys_addr_t \<Rightarrow> bool" where
  "memblock_overlaps_region t base sz =
     list_ex (\<lambda>r. memblock_addrs_overlap base sz (rgn_base r) (rgn_size r)) (mt_regions t)"

definition memblock_insert_region ::
    "memblock_type \<Rightarrow> nat \<Rightarrow> phys_addr_t \<Rightarrow> phys_addr_t \<Rightarrow> int \<Rightarrow> memblock_flags \<Rightarrow> memblock_type res" where
  "memblock_insert_region t idx base sz nid flags =
     (if mt_cnt t \<ge> mt_max t then Inl Bug
      else Inr (t\<lparr>mt_regions := take idx (mt_regions t) @
                    \<lparr>rgn_base = base, rgn_size = sz, rgn_flags = flags, rgn_nid = nid\<rparr> #
                    drop idx (mt_regions t),
                  mt_total_size := mt_total_size t + sz\<rparr>))"

text \<open>The \<open>while\<close> loop of \<open>memblock_merge_regions\<close> from index \<open>i\<close>.\<close>

function memblock_merge_loop :: "nat \<Rightarrow> memblock_type \<Rightarrow> memblock_type res" where
  "memblock_merge_loop i t =
     (if i < mt_cnt t - 1 then
        let this = mt_regions t ! i; nxt = mt_regions t ! (i + 1) in
        if rgn_base this + rgn_size this \<noteq> rgn_base nxt \<or> rgn_nid this \<noteq> rgn_nid nxt \<or>
           rgn_flags this \<noteq> rgn_flags nxt
        then if rgn_base this + rgn_size this > rgn_base nxt then Inl Bug
             else memblock_merge_loop (i + 1) t
        else memblock_merge_loop i
               (t\<lparr>mt_regions := take i (mt_regions t) @
                    this\<lparr>rgn_size := rgn_size this + rgn_size nxt\<rparr> #
                    drop (i + 2) (mt_regions t)\<rparr>)
      else Inr t)"
  by pat_completeness auto
termination
  by (relation "measure (\<lambda>(i, t). mt_cnt t - i)") (auto simp: mt_cnt_def)

declare memblock_merge_loop.simps [simp del]

definition memblock_merge_regions :: "memblock_type \<Rightarrow> memblock_type res" where
  "memblock_merge_regions t = memblock_merge_loop 0 t"

definition memblock_remove_region :: "memblock_type \<Rightarrow> nat \<Rightarrow> memblock_type" where
  "memblock_remove_region t r =
     (let total = mt_total_size t - rgn_size (mt_regions t ! r);
          rest = take r (mt_regions t) @ drop (r + 1) (mt_regions t)
      in t\<lparr>mt_total_size := total,
           mt_regions := if rest = [] then [empty_region] else rest\<rparr>)"

text \<open>
  The scan of \<open>memblock_add_range\<close> (\<open>for_each_memblock_type\<close>), once with \<open>insert\<close>
  false to count and once with \<open>insert\<close> true. An insertion at \<open>idx\<close> shifts the current
  region to \<open>idx + 1\<close>, so the scan goes on at \<open>idx + 2\<close>. The result is the index, the
  base and the count at the end of the scan.
\<close>

function add_range_loop ::
    "bool \<Rightarrow> int \<Rightarrow> memblock_flags \<Rightarrow> phys_addr_t \<Rightarrow> nat \<Rightarrow> phys_addr_t \<Rightarrow> nat \<Rightarrow> memblock_type \<Rightarrow>
     (nat \<times> phys_addr_t \<times> nat \<times> memblock_type) res" where
  "add_range_loop ins nid flags end idx base nr_new t =
     (if idx < mt_cnt t then
        let rgn = mt_regions t ! idx; rbase = rgn_base rgn; rend = rbase + rgn_size rgn in
        if rbase \<ge> end then Inr (idx, base, nr_new, t)
        else if rend \<le> base then add_range_loop ins nid flags end (idx + 1) base nr_new t
        else if rbase > base then
          (if ins then
             (case memblock_insert_region t idx base (rbase - base) nid flags of
                Inl e \<Rightarrow> Inl e
              | Inr t' \<Rightarrow> add_range_loop ins nid flags end (idx + 2) (min rend end) (nr_new + 1) t')
           else add_range_loop ins nid flags end (idx + 1) (min rend end) (nr_new + 1) t)
        else add_range_loop ins nid flags end (idx + 1) (min rend end) nr_new t
      else Inr (idx, base, nr_new, t))"
  by pat_completeness auto
termination
  by (relation "measure (\<lambda>(ins, nid, flags, end, idx, base, nr_new, t). mt_cnt t - idx)")
    (auto simp: memblock_insert_region_def mt_cnt_def split: if_splits)

declare add_range_loop.simps [simp del]

definition add_range_pass ::
    "bool \<Rightarrow> int \<Rightarrow> memblock_flags \<Rightarrow> phys_addr_t \<Rightarrow> phys_addr_t \<Rightarrow> memblock_type \<Rightarrow>
     (nat \<times> memblock_type) res" where
  "add_range_pass ins nid flags obase end t =
     (case add_range_loop ins nid flags end 0 obase 0 t of
        Inl e \<Rightarrow> Inl e
      | Inr (idx, base, nr_new, t') \<Rightarrow>
          if base < end then
            if ins then
              (case memblock_insert_region t' idx base (end - base) nid flags of
                 Inl e \<Rightarrow> Inl e
               | Inr t'' \<Rightarrow> Inr (nr_new + 1, t''))
            else Inr (nr_new + 1, t')
          else Inr (nr_new, t'))"

text \<open>
  The scan of \<open>memblock_isolate_range\<close>. After a split from above the code decrements the
  index so that the loop increment brings it back to the new bottom half; here the index
  stays. The termination measure counts, for every region still to visit, the splits it
  can cause.
\<close>

definition isolate_weight :: "phys_addr_t \<Rightarrow> phys_addr_t \<Rightarrow> memblock_region \<Rightarrow> nat" where
  "isolate_weight base end r =
     1 + (if rgn_base r < base then 2 else 0) +
     (if rgn_base r < end \<and> rgn_end r > end then 2 else 0)"

function isolate_loop ::
    "phys_addr_t \<Rightarrow> phys_addr_t \<Rightarrow> nat \<Rightarrow> nat \<Rightarrow> nat \<Rightarrow> memblock_type \<Rightarrow> (nat \<times> nat \<times> memblock_type) res" where
  "isolate_loop base end idx start_rgn end_rgn t =
     (if idx < mt_cnt t then
        let rgn = mt_regions t ! idx; rbase = rgn_base rgn; rend = rbase + rgn_size rgn in
        if rbase \<ge> end then Inr (start_rgn, end_rgn, t)
        else if rend \<le> base then isolate_loop base end (idx + 1) start_rgn end_rgn t
        else if rbase < base then
          (case memblock_insert_region
                  (t\<lparr>mt_regions := (mt_regions t)
                       [idx := rgn\<lparr>rgn_base := base, rgn_size := rgn_size rgn - (base - rbase)\<rparr>],
                     mt_total_size := mt_total_size t - (base - rbase)\<rparr>)
                  idx rbase (base - rbase) (rgn_nid rgn) (rgn_flags rgn) of
             Inl e \<Rightarrow> Inl e
           | Inr t' \<Rightarrow> isolate_loop base end (idx + 1) start_rgn end_rgn t')
        else if rend > end then
          (case memblock_insert_region
                  (t\<lparr>mt_regions := (mt_regions t)
                       [idx := rgn\<lparr>rgn_base := end, rgn_size := rgn_size rgn - (end - rbase)\<rparr>],
                     mt_total_size := mt_total_size t - (end - rbase)\<rparr>)
                  idx rbase (end - rbase) (rgn_nid rgn) (rgn_flags rgn) of
             Inl e \<Rightarrow> Inl e
           | Inr t' \<Rightarrow> isolate_loop base end idx start_rgn end_rgn t')
        else isolate_loop base end (idx + 1)
               (if end_rgn = 0 then idx else start_rgn) (idx + 1) t
      else Inr (start_rgn, end_rgn, t))"
  by pat_completeness auto
termination
proof (relation "measure (\<lambda>(base, end, idx, start_rgn, end_rgn, t).
         sum_list (map (isolate_weight base end) (drop idx (mt_regions t))))")
qed (auto simp: memblock_insert_region_def mt_cnt_def isolate_weight_def
    Cons_nth_drop_Suc [symmetric] drop_Cons' add.commute split: if_splits)

declare isolate_loop.simps [simp del]

text \<open>
  \<open>memblock_search\<close>: the \<open>do ... while (left < right)\<close> loop. The result \<open>None\<close> is
  the return value \<open>-1\<close>.
\<close>

function memblock_search_loop :: "memblock_type \<Rightarrow> phys_addr_t \<Rightarrow> nat \<Rightarrow> nat \<Rightarrow> nat option" where
  "memblock_search_loop t addr left right =
     (let mid = (right + left) div 2; r = mt_regions t ! mid in
      if addr < rgn_base r then
        (if left < mid then memblock_search_loop t addr left mid else None)
      else if addr \<ge> rgn_base r + rgn_size r then
        (if mid + 1 < right then memblock_search_loop t addr (mid + 1) right else None)
      else Some mid)"
  by pat_completeness auto
termination
  by (relation "measure (\<lambda>(t, addr, left, right). right - left)") auto

declare memblock_search_loop.simps [simp del]

definition memblock_search :: "memblock_type \<Rightarrow> phys_addr_t \<Rightarrow> nat option" where
  "memblock_search t addr = memblock_search_loop t addr 0 (mt_cnt t)"

end
