(* ===== verification/Memblock_Lists.thy ===== *)
theory Memblock_Lists
  imports Memblock_Regions
begin

text \<open>
  The region arrays as lists of address intervals. \<open>attr_at\<close> reads an array as the partial map
  from physical addresses to attributes (flags and node) that it stands for, and
  \<open>regions_from\<close> says that the regions are non-empty, sorted, disjoint and free of
  wrap-around. The index loops of \<open>Memblock_Regions\<close> are shown equal to recursive list
  functions (\<open>fill_gaps\<close>, \<open>merge_list\<close>, \<open>isolate_list\<close>), whose effect on the map is
  then computed.
\<close>

section \<open>The abstract memory map of an array\<close>

definition rgn_range :: "memblock_region \<Rightarrow> phys_addr_t set" where
  "rgn_range r = {rgn_base r ..< rgn_end r}"

fun attr_at :: "memblock_region list \<Rightarrow> phys_addr_t \<rightharpoonup> memblock_flags \<times> int" where
  "attr_at [] a = None"
| "attr_at (r # rs) a =
     (if rgn_base r \<le> a \<and> a < rgn_end r then Some (rgn_flags r, rgn_nid r) else attr_at rs a)"

fun regions_from :: "phys_addr_t \<Rightarrow> memblock_region list \<Rightarrow> bool" where
  "regions_from lo [] \<longleftrightarrow> True"
| "regions_from lo (r # rs) \<longleftrightarrow> lo \<le> rgn_base r \<and> rgn_base r < rgn_end r \<and> regions_from (rgn_end r) rs"

lemma regions_from_mono: "regions_from lo rs \<Longrightarrow> lo' \<le> lo \<Longrightarrow> regions_from lo' rs"
  by (cases rs) auto

lemma regions_from_ge: "regions_from lo rs \<Longrightarrow> r \<in> set rs \<Longrightarrow> lo \<le> rgn_base r \<and> rgn_base r < rgn_end r"
  by (induction rs arbitrary: lo) fastforce+

lemma attr_at_below: "regions_from lo rs \<Longrightarrow> a < lo \<Longrightarrow> attr_at rs a = None"
  by (induction rs arbitrary: lo) fastforce+

lemma attr_at_append: "attr_at (xs @ ys) a = (case attr_at xs a of None \<Rightarrow> attr_at ys a | Some v \<Rightarrow> Some v)"
  by (induction xs) auto

lemma regions_from_append:
  "regions_from lo (xs @ ys) \<longleftrightarrow>
     regions_from lo xs \<and> regions_from (if xs = [] then lo else rgn_end (last xs)) ys"
  by (induction xs arbitrary: lo) auto

subsection \<open>Filling gaps: the effect of the insertion pass\<close>

definition mk_region :: "phys_addr_t \<Rightarrow> phys_addr_t \<Rightarrow> int \<Rightarrow> memblock_flags \<Rightarrow> memblock_region" where
  "mk_region base sz nid flags = \<lparr>rgn_base = base, rgn_size = sz, rgn_flags = flags, rgn_nid = nid\<rparr>"

lemma mk_region_sel [simp]:
  "rgn_base (mk_region b s n f) = b" "rgn_size (mk_region b s n f) = s"
  "rgn_flags (mk_region b s n f) = f" "rgn_nid (mk_region b s n f) = n"
  by (simp_all add: mk_region_def)

fun fill_gaps :: "int \<Rightarrow> memblock_flags \<Rightarrow> phys_addr_t \<Rightarrow> phys_addr_t \<Rightarrow> memblock_region list \<Rightarrow> memblock_region list" where
  "fill_gaps nid fl e b [] = (if b < e then [mk_region b (e - b) nid fl] else [])"
| "fill_gaps nid fl e b (r # rs) =
     (if e \<le> rgn_base r then (if b < e then [mk_region b (e - b) nid fl] else []) @ r # rs
      else if rgn_end r \<le> b then r # fill_gaps nid fl e b rs
      else if b < rgn_base r then
        mk_region b (rgn_base r - b) nid fl # r # fill_gaps nid fl e (min (rgn_end r) e) rs
      else r # fill_gaps nid fl e (min (rgn_end r) e) rs)"

lemma length_fill_gaps_ge: "length rs \<le> length (fill_gaps nid fl e b rs)"
  by (induction rs arbitrary: b) (auto intro: le_SucI)

lemma insert_region_at:
  assumes "mt_regions t = ds @ todo" and "length (ds @ todo) < mt_max t"
  shows "memblock_insert_region t (length ds) base sz nid fl =
    Inr (t\<lparr>mt_regions := ds @ mk_region base sz nid fl # todo, mt_total_size := mt_total_size t + sz\<rparr>)"
  using assms by (simp add: memblock_insert_region_def mt_cnt_def mk_region_def)

lemma add_range_loop_count:
  assumes "mt_regions t = ds @ todo"
  shows "\<exists>idx base' nr'. add_range_loop False nid fl e (length ds) b nr t = Inr (idx, base', nr', t) \<and>
     (if base' < e then nr' + 1 else nr') + length todo =
     nr + length (fill_gaps nid fl e b todo)"
  using assms
proof (induction todo arbitrary: ds b nr)
  case Nil
  then show ?case by (simp add: add_range_loop.simps [of _ _ _ _ "length ds"] mt_cnt_def)
next
  case (Cons r rs)
  note IH = Cons.IH [of "ds @ [r]"]
  from Cons.prems show ?case
    apply (subst add_range_loop.simps)
    using IH [of "min (rgn_end r) e" nr] IH [of "min (rgn_end r) e" "Suc nr"] IH [of b nr]
    by (auto simp: mt_cnt_def Let_def)
qed

lemma add_range_loop_insert:
  assumes "mt_regions t = ds @ todo"
    and "length ds + length (fill_gaps nid fl e b todo) \<le> mt_max t"
  shows "(case add_range_loop True nid fl e (length ds) b nr t of
            Inl x \<Rightarrow> Inl x
          | Inr (idx, base, nr_new, t') \<Rightarrow>
              if base < e then
                (case memblock_insert_region t' idx base (e - base) nid fl of
                   Inl x \<Rightarrow> Inl x | Inr t'' \<Rightarrow> Inr (nr_new + 1, t''))
              else Inr (nr_new, t')) =
     Inr (nr + length (fill_gaps nid fl e b todo) - length todo,
          t\<lparr>mt_regions := ds @ fill_gaps nid fl e b todo,
            mt_total_size := mt_total_size t + sum_list (map rgn_size (fill_gaps nid fl e b todo)) -
              sum_list (map rgn_size todo)\<rparr>)"
  using assms
proof (induction todo arbitrary: ds b nr t)
  case Nil
  then show ?case
    by (cases "b < e") (simp_all add: add_range_loop.simps [of _ _ _ _ "length ds"] mt_cnt_def insert_region_at)
next
  case (Cons r rs)
  let ?m = "min (rgn_end r) e"
  have at: "mt_regions t ! length ds = r" "length ds < mt_cnt t"
    using Cons.prems by (simp_all add: mt_cnt_def)
  have len: "length rs \<le> length (fill_gaps nid fl e b' rs)" for b'
    by (rule length_fill_gaps_ge)
  consider (brk) "e \<le> rgn_base r" | (skip) "\<not> e \<le> rgn_base r" "rgn_end r \<le> b"
    | (gap) "\<not> e \<le> rgn_base r" "\<not> rgn_end r \<le> b" "b < rgn_base r"
    | (cover) "\<not> e \<le> rgn_base r" "\<not> rgn_end r \<le> b" "\<not> b < rgn_base r"
    by blast
  then show ?case
  proof cases
    case brk
    with Cons.prems at show ?thesis
      by (subst add_range_loop.simps) (cases "b < e"; simp add: insert_region_at Let_def)
  next
    case skip
    with Cons.prems at Cons.IH [of t "ds @ [r]" b nr] show ?thesis
      by (subst add_range_loop.simps) (simp add: Let_def Suc_diff_le)
  next
    case gap
    let ?t = "t\<lparr>mt_regions := ds @ mk_region b (rgn_base r - b) nid fl # r # rs,
                mt_total_size := mt_total_size t + (rgn_base r - b)\<rparr>"
    have ins: "memblock_insert_region t (length ds) b (rgn_base r - b) nid fl = Inr ?t"
      using Cons.prems gap len [of ?m] by (intro insert_region_at) auto
    show ?thesis
      using gap Cons.prems at len [of ?m] Cons.IH [of ?t "ds @ [mk_region b (rgn_base r - b) nid fl, r]" ?m "Suc nr"]
      by (subst add_range_loop.simps) (simp add: Let_def ins Suc_diff_le algebra_simps)
  next
    case cover
    with Cons.prems at Cons.IH [of t "ds @ [r]" ?m nr] show ?thesis
      by (subst add_range_loop.simps) (simp add: Let_def Suc_diff_le)
  qed
qed

lemma add_range_pass_insert:
  assumes "length (fill_gaps nid fl e b (mt_regions t)) \<le> mt_max t"
  shows "add_range_pass True nid fl b e t =
     Inr (length (fill_gaps nid fl e b (mt_regions t)) - mt_cnt t,
          t\<lparr>mt_regions := fill_gaps nid fl e b (mt_regions t),
            mt_total_size := mt_total_size t + sum_list (map rgn_size (fill_gaps nid fl e b (mt_regions t))) -
              sum_list (map rgn_size (mt_regions t))\<rparr>)"
  using add_range_loop_insert [of t "[]" "mt_regions t" nid fl e b 0] assms
  unfolding add_range_pass_def if_True by (simp add: mt_cnt_def)

lemma add_range_pass_count:
  "add_range_pass False nid fl b e t =
     Inr (length (fill_gaps nid fl e b (mt_regions t)) - mt_cnt t, t)"
  using add_range_loop_count [of t "[]" "mt_regions t" nid fl e b 0]
  by (auto simp: add_range_pass_def mt_cnt_def split: if_splits)

lemma fill_gaps_regions_from:
  assumes "regions_from lo rs" and "lo \<le> b" and "b \<le> e"
  shows "regions_from lo (fill_gaps nid fl e b rs)"
  using assms
proof (induction rs arbitrary: lo b)
  case (Cons r rs)
  have "regions_from (rgn_end r) (fill_gaps nid fl e (min (rgn_end r) e) rs)"
  proof (cases "e \<le> rgn_end r")
    case True
    then have "fill_gaps nid fl e e rs = rs"
      using Cons.prems by (cases rs) auto
    then show ?thesis using True Cons.prems by (simp add: min_absorb2)
  qed (use Cons in \<open>auto simp: min_def\<close>)
  moreover have "regions_from (rgn_end r) (fill_gaps nid fl e b rs)" if "rgn_end r \<le> b"
    using Cons that by auto
  ultimately show ?case using Cons.prems by (auto intro: order_trans less_imp_le)
qed auto

lemma fill_gaps_attr:
  assumes "regions_from lo rs" and "b \<le> e"
  shows "attr_at (fill_gaps nid fl e b rs) a =
    (case attr_at rs a of Some v \<Rightarrow> Some v
     | None \<Rightarrow> if b \<le> a \<and> a < e then Some (fl, nid) else None)"
  using assms
proof (induction rs arbitrary: lo b)
  case (Cons r rs)
  define m where "m = min (rgn_end r) e"
  have rec: "attr_at (fill_gaps nid fl e m rs) a =
     (case attr_at rs a of Some v \<Rightarrow> Some v
     | None \<Rightarrow> if rgn_end r \<le> a \<and> a < e then Some (fl, nid) else None)"
    using Cons.IH [of "rgn_end r" m] Cons.prems by (auto simp: m_def min_def split: option.splits)
  have skip: "attr_at (fill_gaps nid fl e b rs) a =
     (case attr_at rs a of Some v \<Rightarrow> Some v
     | None \<Rightarrow> if b \<le> a \<and> a < e then Some (fl, nid) else None)"
    using Cons.IH [of "rgn_end r" b] Cons.prems by auto
  consider "rgn_base r \<le> a" "a < rgn_end r" | "a < rgn_base r" | "rgn_end r \<le> a"
    by fastforce
  then show ?case
  proof cases
    case 2
    then have none: "attr_at rs a = None" "attr_at (r # rs) a = None"
      using Cons.prems attr_at_below [of "rgn_end r" rs a] by auto
    from 2 Cons.prems show ?thesis
      unfolding fill_gaps.simps m_def [symmetric] by (auto simp: none rec skip)
  next
    case 3
    then have "\<not> a < rgn_end r" "\<not> a < rgn_base r" using Cons.prems by auto
    then show ?thesis using 3 Cons.prems
      unfolding fill_gaps.simps m_def [symmetric] by (auto simp: rec skip split: option.splits)
  qed (use Cons.prems in auto)
qed auto

subsection \<open>Merging\<close>

definition mergeable :: "memblock_region \<Rightarrow> memblock_region \<Rightarrow> bool" where
  "mergeable x y \<longleftrightarrow> rgn_end x = rgn_base y \<and> rgn_nid x = rgn_nid y \<and> rgn_flags x = rgn_flags y"

function merge_list :: "memblock_region list \<Rightarrow> memblock_region list" where
  "merge_list [] = []"
| "merge_list [x] = [x]"
| "merge_list (x # y # rs) =
     (if mergeable x y then merge_list (x\<lparr>rgn_size := rgn_size x + rgn_size y\<rparr> # rs)
      else x # merge_list (y # rs))"
  by pat_completeness auto
termination by (relation "measure length") auto

fun minimal :: "memblock_region list \<Rightarrow> bool" where
  "minimal (x # y # rs) \<longleftrightarrow> \<not> mergeable x y \<and> minimal (y # rs)"
| "minimal rs \<longleftrightarrow> True"

lemma merge_loop_list:
  assumes "mt_regions t = ds @ todo" and "regions_from lo todo"
  shows "memblock_merge_loop (length ds) t = Inr (t\<lparr>mt_regions := ds @ merge_list todo\<rparr>)"
  using assms
proof (induction todo arbitrary: ds t lo rule: merge_list.induct)
  case (3 x y rs)
  have len: "length ds < mt_cnt t - 1" using 3 by (simp add: mt_cnt_def)
  have at: "mt_regions t ! length ds = x" "mt_regions t ! Suc (length ds) = y"
    "take (length ds) (mt_regions t) = ds" "drop (Suc (Suc (length ds))) (mt_regions t) = rs"
    using 3 by (auto simp: nth_append)
  show ?case
  proof (cases "mergeable x y")
    case True
    let ?x = "x\<lparr>rgn_size := rgn_size x + rgn_size y\<rparr>"
    have "regions_from lo (?x # rs)"
      using 3 True by (auto simp: mergeable_def add.assoc [symmetric])
    then show ?thesis using 3(1) [of "t\<lparr>mt_regions := ds @ ?x # rs\<rparr>" ds lo] True len at
      by (subst memblock_merge_loop.simps) (simp add: Let_def mergeable_def)
  next
    case False
    moreover have "\<not> rgn_base y < rgn_end x" using 3 by auto
    ultimately show ?thesis using 3(2) [of t "ds @ [x]"] 3 len at
      by (subst memblock_merge_loop.simps) (auto simp: Let_def mergeable_def)
  qed
qed (auto simp: memblock_merge_loop.simps mt_cnt_def)

lemma merge_regions_list:
  "regions_from lo (mt_regions t) \<Longrightarrow>
   memblock_merge_regions t = Inr (t\<lparr>mt_regions := merge_list (mt_regions t)\<rparr>)"
  using merge_loop_list [of t "[]" "mt_regions t"] by (simp add: memblock_merge_regions_def)

lemma merge_list_regions_from: "regions_from lo rs \<Longrightarrow> regions_from lo (merge_list rs)"
proof (induction rs arbitrary: lo rule: merge_list.induct)
  case (3 x y rs)
  then show ?case by (auto simp: mergeable_def add.assoc [symmetric])
qed auto

lemma merge_list_attr: "regions_from lo rs \<Longrightarrow> attr_at (merge_list rs) a = attr_at rs a"
proof (induction rs arbitrary: lo rule: merge_list.induct)
  case (3 x y rs)
  show ?case
  proof (cases "mergeable x y")
    case True
    with 3(3) have y: "rgn_base y < rgn_base y + rgn_size y" "regions_from (rgn_end y) rs"
       and m: "rgn_base y = rgn_end x" "rgn_base x < rgn_end x" 
      by (auto simp: mergeable_def)
    with True 3(1)[of lo] 3(3) show ?thesis by (auto simp: mergeable_def add.assoc [symmetric])
  qed (use 3 in auto)
qed auto

lemma merge_list_sizes: "sum_list (map rgn_size (merge_list rs)) = sum_list (map rgn_size rs)"
  by (induction rs rule: merge_list.induct) (auto simp: add.assoc)

lemma merge_list_length: "length (merge_list rs) \<le> length rs"
  by (induction rs rule: merge_list.induct) auto

lemma merge_list_Nil [simp]: "merge_list rs = [] \<longleftrightarrow> rs = []"
  by (induction rs rule: merge_list.induct) auto

lemma merge_list_hd: "rs \<noteq> [] \<Longrightarrow> rgn_base (hd (merge_list rs)) = rgn_base (hd rs) \<and>
   rgn_flags (hd (merge_list rs)) = rgn_flags (hd rs) \<and> rgn_nid (hd (merge_list rs)) = rgn_nid (hd rs)"
  by (induction rs rule: merge_list.induct) auto

lemma minimal_Cons: "minimal (x # rs) \<longleftrightarrow> rs = [] \<or> \<not> mergeable x (hd rs) \<and> minimal rs"
  by (cases rs) auto

lemma mergeable_hd: "mergeable x y = mergeable x y'" 
  if "rgn_base y = rgn_base y'" "rgn_flags y = rgn_flags y'" "rgn_nid y = rgn_nid y'"
  using that by (simp add: mergeable_def)

lemma merge_list_minimal: "minimal (merge_list rs)"
proof (induction rs rule: merge_list.induct)
  case (3 x y rs)
  then show ?case
    using merge_list_hd [of "y # rs"] mergeable_hd [of "hd (merge_list (y # rs))" y x]
    by (auto simp: minimal_Cons)
qed auto

subsection \<open>Splitting at a boundary\<close>

fun split_at :: "phys_addr_t \<Rightarrow> memblock_region list \<Rightarrow> memblock_region list" where
  "split_at c [] = []"
| "split_at c (r # rs) =
     (if rgn_base r < c \<and> c < rgn_end r
      then r\<lparr>rgn_size := c - rgn_base r\<rparr> #
           r\<lparr>rgn_base := c, rgn_size := rgn_size r - (c - rgn_base r)\<rparr> # rs
      else r # split_at c rs)"

lemma split_at_regions_from: "regions_from lo rs \<Longrightarrow> regions_from lo (split_at c rs)"
  by (induction rs arbitrary: lo) (auto simp: add.commute intro: order_trans less_imp_le)

lemma split_at_attr: "regions_from lo rs \<Longrightarrow> attr_at (split_at c rs) a = attr_at rs a"
  by (induction rs arbitrary: lo) (auto simp: add.commute)

lemma split_at_sizes: "sum_list (map rgn_size (split_at c rs)) = sum_list (map rgn_size rs)"
  by (induction rs) auto

lemma split_at_length: "length (split_at c rs) \<le> Suc (length rs)"
  by (induction rs) auto

lemma split_at_length_ge: "length rs \<le> length (split_at c rs)"
  by (induction rs) (auto intro: le_SucI)

lemma split_at_ge: "regions_from lo rs \<Longrightarrow> c \<le> lo \<Longrightarrow> split_at c rs = rs"
  by (induction rs arbitrary: lo) (fastforce dest: regions_from_mono)+

lemma split_at_clean: "regions_from lo rs \<Longrightarrow> r \<in> set (split_at c rs) \<Longrightarrow> rgn_end r \<le> c \<or> c \<le> rgn_base r"
proof (induction rs arbitrary: lo)
  case (Cons x rs)
  then have tail: "y \<in> set rs \<Longrightarrow> rgn_end x \<le> rgn_base y" for y
    using regions_from_ge by fastforce
  show ?case
  proof (cases "rgn_base x < c \<and> c < rgn_end x")
    case True
    with Cons.prems tail show ?thesis by (auto dest: less_imp_le order_trans)
  qed (use Cons in auto)
qed auto

lemma split_at_clean_keep:
  "regions_from lo rs \<Longrightarrow> \<forall>r\<in>set rs. rgn_end r \<le> b \<or> b \<le> rgn_base r \<Longrightarrow> b \<le> c \<Longrightarrow>
   r \<in> set (split_at c rs) \<Longrightarrow> rgn_end r \<le> b \<or> b \<le> rgn_base r"
  by (induction rs arbitrary: lo) (auto split: if_splits dest: order_trans less_imp_le)

lemma isolate_loop_inside:
  assumes "mt_regions t = ds @ todo" and "regions_from lo todo" and "base \<le> lo"
    and "length ds + length (split_at e todo) \<le> mt_max t"
  shows "isolate_loop base e (length ds) s0 e0 t =
    (let nm = length (takeWhile (\<lambda>r. rgn_base r < e) (split_at e todo))
     in Inr (if nm = 0 \<or> e0 \<noteq> 0 then s0 else length ds,
             if nm = 0 then e0 else length ds + nm,
             t\<lparr>mt_regions := ds @ split_at e todo\<rparr>))"
  using assms
proof (induction todo arbitrary: ds lo s0 e0)
  case Nil
  then show ?case by (subst isolate_loop.simps) (simp add: mt_cnt_def)
next
  case (Cons r rs)
  have at: "mt_regions t ! length ds = r" "length ds < mt_cnt t"
    using Cons.prems by (simp_all add: mt_cnt_def)
  have r: "base \<le> rgn_base r" "\<not> rgn_end r \<le> base" "\<not> rgn_base r < base" "regions_from (rgn_end r) rs"
    using Cons.prems by auto
  consider (brk) "e \<le> rgn_base r" "\<not> rgn_base r < e"
    | (cut) "rgn_base r < e" "\<not> e \<le> rgn_base r" "e < rgn_end r" "\<not> e \<le> base"
    | (within) "rgn_base r < e" "\<not> e \<le> rgn_base r" "rgn_end r \<le> e" "\<not> e < rgn_end r"
    using r by fastforce
  then show ?case
  proof cases
    case brk
    then have "split_at e (r # rs) = r # rs"
      using r Cons.prems by (intro split_at_ge [where lo = "rgn_base r"]) auto
    with brk at show ?thesis
      by (subst isolate_loop.simps) (simp add: Let_def Cons.prems(1))
  next
    case cut
    let ?lower = "mk_region (rgn_base r) (e - rgn_base r) (rgn_nid r) (rgn_flags r)"
    let ?upper = "r\<lparr>rgn_base := e, rgn_size := rgn_size r - (e - rgn_base r)\<rparr>"
    have lower: "r\<lparr>rgn_size := e - rgn_base r\<rparr> = ?lower" by (simp add: mk_region_def)
    have step2: "isolate_loop base e (length ds) s0 e0 (t\<lparr>mt_regions := ds @ ?lower # ?upper # rs\<rparr>) =
       Inr (if e0 = 0 then length ds else s0, Suc (length ds), t\<lparr>mt_regions := ds @ ?lower # ?upper # rs\<rparr>)"
      using cut r
      by (subst isolate_loop.simps, subst (2) isolate_loop.simps) (simp add: Let_def mt_cnt_def nth_append)
    have ins: "memblock_insert_region
        (t\<lparr>mt_regions := ds @ ?upper # rs, mt_total_size := mt_total_size t - (e - rgn_base r)\<rparr>)
        (length ds) (rgn_base r) (e - rgn_base r) (rgn_nid r) (rgn_flags r) =
       Inr (t\<lparr>mt_regions := ds @ ?lower # ?upper # rs\<rparr>)"
      using Cons.prems cut by (subst insert_region_at [of _ ds "?upper # rs"]) auto
    show ?thesis using cut r at Cons.prems(1)
      by (subst isolate_loop.simps) (simp add: Let_def ins step2 lower)
  next
    case within
    with Cons.IH [of "ds @ [r]" "rgn_end r"] Cons.prems r at show ?thesis
      by (subst isolate_loop.simps) (auto simp: Let_def)
  qed
qed

definition isolate_list :: "phys_addr_t \<Rightarrow> phys_addr_t \<Rightarrow> memblock_region list \<Rightarrow> memblock_region list" where
  "isolate_list base e rs = split_at e (split_at base rs)"

definition below_cnt :: "phys_addr_t \<Rightarrow> memblock_region list \<Rightarrow> nat" where
  "below_cnt base rs = length (takeWhile (\<lambda>r. rgn_end r \<le> base) rs)"

definition inside_cnt :: "phys_addr_t \<Rightarrow> phys_addr_t \<Rightarrow> memblock_region list \<Rightarrow> nat" where
  "inside_cnt base e rs = length (takeWhile (\<lambda>r. rgn_base r < e) (drop (below_cnt base rs) rs))"

lemma isolate_loop_list:
  assumes "mt_regions t = ds @ todo" and "regions_from lo todo" and "base < e"
    and "length ds + length (isolate_list base e todo) \<le> mt_max t"
  shows "isolate_loop base e (length ds) 0 0 t =
    (let rs = isolate_list base e todo; nl = below_cnt base rs; nm = inside_cnt base e rs
     in Inr (if nm = 0 then 0 else length ds + nl, if nm = 0 then 0 else length ds + nl + nm,
             t\<lparr>mt_regions := ds @ rs\<rparr>))"
  using assms
proof (induction todo arbitrary: ds lo)
  case Nil
  then show ?case
    by (subst isolate_loop.simps) (simp add: mt_cnt_def isolate_list_def inside_cnt_def below_cnt_def)
next
  case (Cons r rs)
  have at: "mt_regions t ! length ds = r" "length ds < mt_cnt t"
    using Cons.prems by (simp_all add: mt_cnt_def)
  have rs: "regions_from (rgn_end r) rs" "rgn_base r < rgn_end r" using Cons.prems by auto
  consider (skip) "rgn_end r \<le> base" "\<not> e \<le> rgn_base r" "\<not> base < rgn_end r" "\<not> e < rgn_end r"
    | (cut) "rgn_base r < base" "base < rgn_end r" "\<not> rgn_end r \<le> base" "\<not> e \<le> rgn_base r"
    | (past) "base \<le> rgn_base r" "\<not> rgn_end r \<le> base"
    using rs \<open>base < e\<close> by fastforce
  then show ?case
  proof cases
    case skip
    then show ?thesis
      using Cons.IH [of "ds @ [r]" "rgn_end r"] Cons.prems at rs
      by (subst isolate_loop.simps) (auto simp: Let_def isolate_list_def inside_cnt_def below_cnt_def)
  next
    case cut
    let ?lower = "mk_region (rgn_base r) (base - rgn_base r) (rgn_nid r) (rgn_flags r)"
    let ?upper = "r\<lparr>rgn_base := base, rgn_size := rgn_size r - (base - rgn_base r)\<rparr>"
    have lower: "r\<lparr>rgn_size := base - rgn_base r\<rparr> = ?lower" by (simp add: mk_region_def)
    have low': "\<not> (rgn_base r < e \<and> e < base)" using \<open>base < e\<close> by auto
    have iso: "isolate_list base e (r # rs) = ?lower # split_at e (?upper # rs)"
      using cut low' by (simp add: isolate_list_def lower del: split_at.simps(2)) (simp add: low')
    have ins: "memblock_insert_region
        (t\<lparr>mt_regions := ds @ ?upper # rs, mt_total_size := mt_total_size t - (base - rgn_base r)\<rparr>)
        (length ds) (rgn_base r) (base - rgn_base r) (rgn_nid r) (rgn_flags r) =
       Inr (t\<lparr>mt_regions := ds @ ?lower # ?upper # rs\<rparr>)"
      using Cons.prems cut split_at_length_ge [of "?upper # rs" e] unfolding iso
      by (subst insert_region_at [of _ ds "?upper # rs"]) auto
    have up: "regions_from base (?upper # rs)" using cut rs by (auto simp: add.commute)
    then have "regions_from base (split_at e (?upper # rs))" by (rule split_at_regions_from)
    then have nl: "takeWhile (\<lambda>r. rgn_end r \<le> base) (split_at e (?upper # rs)) = []"
      by (cases "split_at e (?upper # rs)") auto
    show ?thesis
      using cut at Cons.prems(1) iso Cons.prems(4)
        isolate_loop_inside [of "t\<lparr>mt_regions := ds @ ?lower # ?upper # rs\<rparr>" "ds @ [?lower]" "?upper # rs" base base e 0 0, OF _ up]
      by (subst isolate_loop.simps)
        (simp add: Let_def ins inside_cnt_def below_cnt_def nl del: split_at.simps)
  next
    case past
    have clean: "split_at base (r # rs) = r # rs"
      using past Cons.prems by (intro split_at_ge [where lo = "rgn_base r"]) auto
    have srt: "regions_from (rgn_base r) (split_at e (r # rs))"
      using Cons.prems by (intro split_at_regions_from) auto
    then have nl: "takeWhile (\<lambda>r. rgn_end r \<le> base) (split_at e (r # rs)) = []"
      using past by (cases "split_at e (r # rs)") (auto simp del: split_at.simps)
    show ?thesis
      using isolate_loop_inside [of t ds "r # rs" "rgn_base r" base e 0 0] past Cons.prems
      by (auto simp: isolate_list_def clean inside_cnt_def below_cnt_def nl Let_def simp del: split_at.simps)
  qed
qed

lemma regions_from_sorted_wrt: "regions_from lo rs \<Longrightarrow> sorted_wrt (\<lambda>x y. rgn_end x \<le> rgn_base y) rs"
  by (induction rs arbitrary: lo) (auto dest: regions_from_ge)

lemma isolate_list_regions_from: "regions_from lo rs \<Longrightarrow> regions_from lo (isolate_list base e rs)"
  by (simp add: isolate_list_def split_at_regions_from)

lemma isolate_list_attr: "regions_from lo rs \<Longrightarrow> attr_at (isolate_list base e rs) a = attr_at rs a"
  using split_at_attr [OF split_at_regions_from] split_at_attr by (simp add: isolate_list_def)

lemma isolate_list_sizes:
  "sum_list (map rgn_size (isolate_list base e rs)) = sum_list (map rgn_size rs)"
  by (simp add: isolate_list_def split_at_sizes)

lemma isolate_list_clean:
  assumes "regions_from lo rs" and "base < e" and "r \<in> set (isolate_list base e rs)"
  shows "rgn_end r \<le> base \<or> base \<le> rgn_base r" and "rgn_end r \<le> e \<or> e \<le> rgn_base r"
proof -
  note srt = split_at_regions_from [OF assms(1), of base]
  show "rgn_end r \<le> e \<or> e \<le> rgn_base r"
    using assms(3) split_at_clean [OF srt] by (simp add: isolate_list_def)
  show "rgn_end r \<le> base \<or> base \<le> rgn_base r"
    using assms(2,3) split_at_clean [OF assms(1)]
    by (intro split_at_clean_keep [OF srt]) (auto simp: isolate_list_def)
qed

lemma isolate_list_length: "length (isolate_list base e rs) \<le> length rs + 2"
  using split_at_length [of e "split_at base rs"] split_at_length [of base rs]
  by (simp add: isolate_list_def)

lemma isolate_list_Nil [simp]: "isolate_list base e rs = [] \<longleftrightarrow> rs = []"
  using split_at_length_ge [of rs base] split_at_length_ge [of "split_at base rs" e]
  by (cases rs) (auto simp: isolate_list_def)

definition iso_low :: "phys_addr_t \<Rightarrow> phys_addr_t \<Rightarrow> memblock_region list \<Rightarrow> memblock_region list" where
  "iso_low base e rs = takeWhile (\<lambda>r. rgn_end r \<le> base) (isolate_list base e rs)"

definition iso_rest :: "phys_addr_t \<Rightarrow> phys_addr_t \<Rightarrow> memblock_region list \<Rightarrow> memblock_region list" where
  "iso_rest base e rs = dropWhile (\<lambda>r. rgn_end r \<le> base) (isolate_list base e rs)"

definition iso_mid :: "phys_addr_t \<Rightarrow> phys_addr_t \<Rightarrow> memblock_region list \<Rightarrow> memblock_region list" where
  "iso_mid base e rs = takeWhile (\<lambda>r. rgn_base r < e) (iso_rest base e rs)"

definition iso_high :: "phys_addr_t \<Rightarrow> phys_addr_t \<Rightarrow> memblock_region list \<Rightarrow> memblock_region list" where
  "iso_high base e rs = dropWhile (\<lambda>r. rgn_base r < e) (iso_rest base e rs)"

lemma isolate_list_parts: "isolate_list base e rs = iso_low base e rs @ iso_mid base e rs @ iso_high base e rs"
  by (simp add: iso_low_def iso_mid_def iso_high_def iso_rest_def)

lemma drop_takeWhile: "drop (length (takeWhile P xs)) xs = dropWhile P xs"
  by (induction xs) auto

lemma iso_low_length: "below_cnt base (isolate_list base e rs) = length (iso_low base e rs)"
  by (simp add: iso_low_def below_cnt_def)

lemma iso_mid_length: "inside_cnt base e (isolate_list base e rs) = length (iso_mid base e rs)"
  by (simp add: iso_mid_def inside_cnt_def iso_rest_def below_cnt_def drop_takeWhile)

lemma dropWhile_sorted_all:
  assumes "sorted_wrt R xs" and "\<And>x y. \<not> P x \<Longrightarrow> R x y \<Longrightarrow> \<not> P y" and "x \<in> set (dropWhile P xs)"
  shows "\<not> P x"
  using assms by (induction xs) (auto split: if_splits)

lemma iso_low_bound: "r \<in> set (iso_low base e rs) \<Longrightarrow> rgn_end r \<le> base"
  by (auto simp: iso_low_def dest: set_takeWhileD)

lemma isolate_list_sorted:
  assumes "regions_from lo rs"
  shows "sorted_wrt (\<lambda>x y. rgn_end x \<le> rgn_end y \<and> rgn_base x \<le> rgn_base y) (isolate_list base e rs)"
proof (rule sorted_wrt_mono_rel [OF _ regions_from_sorted_wrt [OF isolate_list_regions_from [OF assms]]])
  fix x y
  assume "x \<in> set (isolate_list base e rs)" and "y \<in> set (isolate_list base e rs)"
    and "rgn_end x \<le> rgn_base y"
  moreover from this have "rgn_base x < rgn_end x" "rgn_base y < rgn_end y"
    using regions_from_ge [OF isolate_list_regions_from [OF assms]] by blast+
  ultimately show "rgn_end x \<le> rgn_end y \<and> rgn_base x \<le> rgn_base y" by auto
qed

lemma iso_rest_bound:
  assumes "regions_from lo rs" and "base < e" and "r \<in> set (iso_rest base e rs)"
  shows "base \<le> rgn_base r"
proof -
  have "\<not> rgn_end r \<le> base"
    by (rule dropWhile_sorted_all [OF isolate_list_sorted [OF assms(1)]])
       (use assms(3) in \<open>auto simp: iso_rest_def\<close>)
  moreover have "r \<in> set (isolate_list base e rs)"
    using assms(3) by (auto simp: iso_rest_def dest: set_dropWhileD)
  ultimately show ?thesis using isolate_list_clean [OF assms(1,2)] by blast
qed

lemma iso_mid_bound:
  assumes "regions_from lo rs" and "base < e" and "r \<in> set (iso_mid base e rs)"
  shows "base \<le> rgn_base r" and "rgn_end r \<le> e"
proof -
  from assms(3) have "r \<in> set (iso_rest base e rs)" "rgn_base r < e"
    by (auto simp: iso_mid_def dest: set_takeWhileD)
  then show "base \<le> rgn_base r" by (blast intro: iso_rest_bound [OF assms(1,2)])
  have "r \<in> set (isolate_list base e rs)"
    using \<open>r \<in> set (iso_rest base e rs)\<close> by (auto simp: iso_rest_def dest: set_dropWhileD)
  then show "rgn_end r \<le> e"
    using isolate_list_clean(2) [OF assms(1,2)] \<open>rgn_base r < e\<close> by fastforce
qed

lemma iso_high_bound:
  assumes "regions_from lo rs" and "r \<in> set (iso_high base e rs)"
  shows "e \<le> rgn_base r"
proof -
  have "sorted_wrt (\<lambda>x y. rgn_end x \<le> rgn_end y \<and> rgn_base x \<le> rgn_base y) (iso_rest base e rs)"
    using isolate_list_sorted [OF assms(1), of base e]
    unfolding isolate_list_parts by (simp add: sorted_wrt_append iso_mid_def iso_high_def)
  then have "\<not> rgn_base r < e"
    by (rule dropWhile_sorted_all) (use assms(2) in \<open>auto simp: iso_high_def\<close>)
  then show ?thesis by simp
qed

lemma attr_at_None: "(\<And>r. r \<in> set rs \<Longrightarrow> \<not> (rgn_base r \<le> a \<and> a < rgn_end r)) \<Longrightarrow> attr_at rs a = None"
  by (induction rs) auto

text \<open>Dropping the isolated part erases exactly the interval from the map.\<close>

lemma iso_remove_attr:
  assumes "regions_from lo rs" and "base < e"
  shows "attr_at (iso_low base e rs @ iso_high base e rs) a =
    (if base \<le> a \<and> a < e then None else attr_at rs a)"
proof -
  have eq: "attr_at rs a = attr_at (iso_low base e rs @ iso_mid base e rs @ iso_high base e rs) a"
    using isolate_list_attr [OF assms(1)] isolate_list_parts by metis
  show ?thesis
  proof (cases "base \<le> a \<and> a < e")
    case True
    then have "attr_at (iso_low base e rs) a = None" "attr_at (iso_high base e rs) a = None"
      by (auto intro!: attr_at_None dest: iso_low_bound iso_high_bound [OF assms(1)])
    with True show ?thesis by (simp add: attr_at_append)
  next
    case False
    then have "attr_at (iso_mid base e rs) a = None"
      by (intro attr_at_None) (use iso_mid_bound [OF assms(1,2)] in force)
    with False show ?thesis by (auto simp: eq attr_at_append split: option.splits)
  qed
qed

lemma regions_from_remove:
  "regions_from lo (xs @ ys @ zs) \<Longrightarrow> regions_from lo (xs @ zs)"
proof (induction ys arbitrary: lo xs)
  case (Cons y ys)
  have "regions_from lo (xs @ ys @ zs)"
    using Cons.prems
    by (auto simp: regions_from_append intro: regions_from_mono order_trans less_imp_le split: if_splits)
  then show ?case by (rule Cons.IH)
qed auto

lemma attr_at_map:
  assumes "\<And>r. rgn_base (f r) = rgn_base r \<and> rgn_size (f r) = rgn_size r"
    and "\<And>r. rgn_flags (f r) = g (rgn_flags r)" and "\<And>r. rgn_nid (f r) = h (rgn_nid r)"
  shows "attr_at (map f rs) a = map_option (map_prod g h) (attr_at rs a)"
  by (induction rs) (auto simp: assms)

lemma iso_map_attr:
  assumes "regions_from lo rs" and "base < e"
    and "\<And>r. rgn_base (f r) = rgn_base r \<and> rgn_size (f r) = rgn_size r"
    and "\<And>r. rgn_flags (f r) = g (rgn_flags r)" and "\<And>r. rgn_nid (f r) = h (rgn_nid r)"
  shows "attr_at (iso_low base e rs @ map f (iso_mid base e rs) @ iso_high base e rs) a =
    (if base \<le> a \<and> a < e then map_option (map_prod g h) (attr_at rs a) else attr_at rs a)"
proof -
  have eq: "attr_at rs a = attr_at (iso_low base e rs @ iso_mid base e rs @ iso_high base e rs) a"
    using isolate_list_attr [OF assms(1)] isolate_list_parts by metis
  show ?thesis
  proof (cases "base \<le> a \<and> a < e")
    case True
    then have "attr_at (iso_low base e rs) a = None" "attr_at (iso_high base e rs) a = None"
      by (auto intro!: attr_at_None dest: iso_low_bound iso_high_bound [OF assms(1)])
    with True show ?thesis by (simp add: eq attr_at_append attr_at_map [OF assms(3-5)] split: option.splits)
  next
    case False
    then have "attr_at (iso_mid base e rs) a = None"
      by (intro attr_at_None) (use iso_mid_bound [OF assms(1,2)] in force)
    with False show ?thesis
      by (auto simp: eq attr_at_append attr_at_map [OF assms(3-5)] split: option.splits)
  qed
qed

lemma regions_from_map:
  assumes "\<And>r. rgn_base (f r) = rgn_base r \<and> rgn_size (f r) = rgn_size r"
  shows "regions_from lo (xs @ map f ys @ zs) = regions_from lo (xs @ ys @ zs)"
proof -
  have 1: "regions_from lo (map f ys @ zs) = regions_from lo (ys @ zs)" for lo
    by (induction ys arbitrary: lo) (auto simp: assms)
  show ?thesis by (induction xs arbitrary: lo) (auto simp: 1)
qed

end
