(* ===== verification/Memblock_Iter.thy ===== *)
theory Memblock_Iter
  imports Memblock_Lists
begin

unbundle bit_operations_syntax

text \<open>
  The iterators of \<open>mm/memblock.c\<close> over the areas of one array that are not covered by
  another (\<open>__next_mem_range\<close>, \<open>__next_mem_range_rev\<close> and the \<open>for_each\<close> macros of
  \<open>include/linux/memblock.h\<close>), and the two range searches built on them.

  The iterators keep their position in one 64-bit word, the index into \<open>type_a\<close> in the
  low and the index into \<open>type_b\<close> in the high half; the packing is modelled as it is.
\<close>

section \<open>Iterators\<close>

definition movable_node_is_enabled :: bool where
  "movable_node_is_enabled = False"

definition idx_lo :: "u64 \<Rightarrow> u32" where
  "idx_lo idx = ucast (idx AND 0xffffffff)"

definition idx_hi :: "u64 \<Rightarrow> u32" where
  "idx_hi idx = ucast (drop_bit 32 idx)"

definition pack_idx :: "int \<Rightarrow> int \<Rightarrow> u64" where
  "pack_idx a b = ucast (word_of_int a :: u32) OR push_bit 32 (word_of_int b)"

text \<open>The regions of \<open>type_a\<close> that both iterators pass over.\<close>

definition mem_range_skip :: "int \<Rightarrow> memblock_flags \<Rightarrow> memblock_region \<Rightarrow> bool" where
  "mem_range_skip nid flags m \<longleftrightarrow>
     nid \<noteq> NUMA_NO_NODE \<and> nid \<noteq> rgn_nid m \<or>
     movable_node_is_enabled \<and> memblock_is_hotpluggable m \<or>
     flags AND MEMBLOCK_MIRROR \<noteq> 0 \<and> \<not> memblock_is_mirror m \<or>
     \<not> flags AND MEMBLOCK_NOMAP \<noteq> 0 \<and> memblock_is_nomap m"

text \<open>The free area in front of reservation \<open>b\<close>; the last one ends at \<open>PHYS_ADDR_MAX\<close>.\<close>

definition gap_start :: "memblock_type \<Rightarrow> nat \<Rightarrow> phys_addr_t" where
  "gap_start tb b = (if b \<noteq> 0 then rgn_base (mt_regions tb ! (b - 1)) + rgn_size (mt_regions tb ! (b - 1)) else 0)"

definition gap_end :: "memblock_type \<Rightarrow> nat \<Rightarrow> phys_addr_t" where
  "gap_end tb b = (if b < mt_cnt tb then rgn_base (mt_regions tb ! b) else PHYS_ADDR_MAX)"

text \<open>
  The inner loop of \<open>__next_mem_range\<close>: the index at which it stops and, if two regions
  intersect, the range found and whether \<open>m_end <= r_end\<close>.
\<close>

function scan_gaps ::
    "memblock_type \<Rightarrow> phys_addr_t \<Rightarrow> phys_addr_t \<Rightarrow> nat \<Rightarrow> nat \<times> (phys_addr_t \<times> phys_addr_t \<times> bool) option" where
  "scan_gaps tb m_start m_end b =
     (if b < mt_cnt tb + 1 then
        let r_start = gap_start tb b; r_end = gap_end tb b in
        if r_start \<ge> m_end then (b, None)
        else if m_start < r_end then (b, Some (max m_start r_start, min m_end r_end, m_end \<le> r_end))
        else scan_gaps tb m_start m_end (b + 1)
      else (b, None))"
  by pat_completeness auto
termination
  by (relation "measure (\<lambda>(tb, s, e, b). mt_cnt tb + 1 - b)") auto

declare scan_gaps.simps [simp del]

type_synonym mem_range = "phys_addr_t \<times> phys_addr_t \<times> int"

function next_mem_range_loop ::
    "int \<Rightarrow> memblock_flags \<Rightarrow> memblock_type \<Rightarrow> memblock_type option \<Rightarrow> nat \<Rightarrow> nat \<Rightarrow> (mem_range \<times> nat \<times> nat) option" where
  "next_mem_range_loop nid flags ta tb a b =
     (if a < mt_cnt ta then
        let m = mt_regions ta ! a; m_start = rgn_base m; m_end = rgn_base m + rgn_size m in
        if mem_range_skip nid flags m then next_mem_range_loop nid flags ta tb (a + 1) b
        else (case tb of
            None \<Rightarrow> Some ((m_start, m_end, rgn_nid m), a + 1, b)
          | Some t \<Rightarrow>
              (case scan_gaps t m_start m_end b of
                 (b', Some (s, e, a_first)) \<Rightarrow>
                   Some ((s, e, rgn_nid m), if a_first then (a + 1, b') else (a, b' + 1))
               | (b', None) \<Rightarrow> next_mem_range_loop nid flags ta tb (a + 1) b'))
      else None)"
  by pat_completeness auto
termination
  by (relation "measure (\<lambda>(nid, flags, ta, tb, a, b). mt_cnt ta - a)") auto

declare next_mem_range_loop.simps [simp del]

definition next_mem_range ::
    "u64 \<Rightarrow> int \<Rightarrow> memblock_flags \<Rightarrow> memblock_type \<Rightarrow> memblock_type option \<Rightarrow> u64 \<times> mem_range option" where
  "next_mem_range idx nid flags ta tb =
     (let idx_a = unat (scast (idx_lo idx) :: u64); idx_b = unat (scast (idx_hi idx) :: u64);
          nid' = (if nid = MAX_NUMNODES then NUMA_NO_NODE else nid)
      in case next_mem_range_loop nid' flags ta tb idx_a idx_b of
           Some (out, a', b') \<Rightarrow> (pack_idx (int a') (int b'), Some out)
         | None \<Rightarrow> (ULLONG_MAX, None))"

text \<open>The same in reverse; here the indices run down to \<open>-1\<close>.\<close>

function scan_gaps_rev ::
    "memblock_type \<Rightarrow> phys_addr_t \<Rightarrow> phys_addr_t \<Rightarrow> int \<Rightarrow> int \<times> (phys_addr_t \<times> phys_addr_t \<times> bool) option" where
  "scan_gaps_rev tb m_start m_end b =
     (if b \<ge> 0 then
        let r_start = gap_start tb (nat b); r_end = gap_end tb (nat b) in
        if r_end \<le> m_start then (b, None)
        else if m_end > r_start then (b, Some (max m_start r_start, min m_end r_end, m_start \<ge> r_start))
        else scan_gaps_rev tb m_start m_end (b - 1)
      else (b, None))"
  by pat_completeness auto
termination
  by (relation "measure (\<lambda>(tb, s, e, b). nat (b + 1))") auto

declare scan_gaps_rev.simps [simp del]

function next_mem_range_rev_loop ::
    "int \<Rightarrow> memblock_flags \<Rightarrow> memblock_type \<Rightarrow> memblock_type option \<Rightarrow> int \<Rightarrow> int \<Rightarrow> (mem_range \<times> int \<times> int) option" where
  "next_mem_range_rev_loop nid flags ta tb a b =
     (if a \<ge> 0 then
        let m = mt_regions ta ! nat a; m_start = rgn_base m; m_end = rgn_base m + rgn_size m in
        if mem_range_skip nid flags m then next_mem_range_rev_loop nid flags ta tb (a - 1) b
        else (case tb of
            None \<Rightarrow> Some ((m_start, m_end, rgn_nid m), a - 1, b)
          | Some t \<Rightarrow>
              (case scan_gaps_rev t m_start m_end b of
                 (b', Some (s, e, a_first)) \<Rightarrow>
                   Some ((s, e, rgn_nid m), if a_first then (a - 1, b') else (a, b' - 1))
               | (b', None) \<Rightarrow> next_mem_range_rev_loop nid flags ta tb (a - 1) b'))
      else None)"
  by pat_completeness auto
termination
  by (relation "measure (\<lambda>(nid, flags, ta, tb, a, b). nat (a + 1))") auto

declare next_mem_range_rev_loop.simps [simp del]

definition next_mem_range_rev ::
    "u64 \<Rightarrow> int \<Rightarrow> memblock_flags \<Rightarrow> memblock_type \<Rightarrow> memblock_type option \<Rightarrow> u64 \<times> mem_range option" where
  "next_mem_range_rev idx nid flags ta tb =
     (let (idx_a, idx_b) =
            (if idx = ULLONG_MAX
             then (int (mt_cnt ta) - 1, case tb of Some t \<Rightarrow> int (mt_cnt t) | None \<Rightarrow> 0)
             else (sint (idx_lo idx), sint (idx_hi idx)));
          nid' = (if nid = MAX_NUMNODES then NUMA_NO_NODE else nid)
      in case next_mem_range_rev_loop nid' flags ta tb idx_a idx_b of
           Some (out, a', b') \<Rightarrow> (pack_idx a' b', Some out)
         | None \<Rightarrow> (ULLONG_MAX, None))"

text \<open>
  \<open>for_each_mem_range\<close> and \<open>for_each_mem_range_rev\<close>: the ranges the loop body sees. The
  bodies do not change the arrays, so a loop is a recursion over this list. Every step
  advances one of the two indices, so \<open>cnt_a + cnt_b + 2\<close> steps are enough.
\<close>

primrec mem_range_iter :: "nat \<Rightarrow> (u64 \<Rightarrow> u64 \<times> mem_range option) \<Rightarrow> u64 \<Rightarrow> mem_range list res" where
  "mem_range_iter 0 nxt idx = Inl Out_of_fuel"
| "mem_range_iter (Suc n) nxt idx =
     (case nxt idx of
        (idx', Some out) \<Rightarrow>
          if idx' = ULLONG_MAX then Inr []
          else (case mem_range_iter n nxt idx' of Inl e \<Rightarrow> Inl e | Inr xs \<Rightarrow> Inr (out # xs))
      | (idx', None) \<Rightarrow> Inr [])"

definition iter_fuel :: "memblock_type \<Rightarrow> memblock_type option \<Rightarrow> nat" where
  "iter_fuel ta tb = mt_cnt ta + (case tb of Some t \<Rightarrow> mt_cnt t | None \<Rightarrow> 0) + 2"

definition for_each_mem_range ::
    "memblock_type \<Rightarrow> memblock_type option \<Rightarrow> int \<Rightarrow> memblock_flags \<Rightarrow> mem_range list res" where
  "for_each_mem_range ta tb nid flags =
     mem_range_iter (iter_fuel ta tb) (\<lambda>idx. next_mem_range idx nid flags ta tb) 0"

definition for_each_mem_range_rev ::
    "memblock_type \<Rightarrow> memblock_type option \<Rightarrow> int \<Rightarrow> memblock_flags \<Rightarrow> mem_range list res" where
  "for_each_mem_range_rev ta tb nid flags =
     mem_range_iter (iter_fuel ta tb) (\<lambda>idx. next_mem_range_rev idx nid flags ta tb) ULLONG_MAX"

section \<open>Range searches\<close>

fun find_bottom_up_loop ::
    "phys_addr_t \<Rightarrow> phys_addr_t \<Rightarrow> phys_addr_t \<Rightarrow> phys_addr_t \<Rightarrow> mem_range list \<Rightarrow> phys_addr_t" where
  "find_bottom_up_loop start end sz align [] = 0"
| "find_bottom_up_loop start end sz align ((s, e, n) # rest) =
     (let this_start = clamp s start end; this_end = clamp e start end;
          cand = round_up this_start align
      in if cand < this_end \<and> this_end - cand \<ge> sz then cand
         else find_bottom_up_loop start end sz align rest)"

definition memblock_find_range_bottom_up ::
    "memblock_type \<Rightarrow> memblock_type \<Rightarrow> phys_addr_t \<Rightarrow> phys_addr_t \<Rightarrow> phys_addr_t \<Rightarrow> phys_addr_t \<Rightarrow> int \<Rightarrow>
     memblock_flags \<Rightarrow> phys_addr_t res" where
  "memblock_find_range_bottom_up memory reserved start end sz align nid flags =
     (case for_each_mem_range memory (Some reserved) nid flags of
        Inl e \<Rightarrow> Inl e | Inr xs \<Rightarrow> Inr (find_bottom_up_loop start end sz align xs))"

fun find_top_down_loop ::
    "phys_addr_t \<Rightarrow> phys_addr_t \<Rightarrow> phys_addr_t \<Rightarrow> phys_addr_t \<Rightarrow> mem_range list \<Rightarrow> phys_addr_t" where
  "find_top_down_loop start end sz align [] = 0"
| "find_top_down_loop start end sz align ((s, e, n) # rest) =
     (let this_start = clamp s start end; this_end = clamp e start end in
      if this_end < sz then find_top_down_loop start end sz align rest
      else let cand = round_down (this_end - sz) align in
        if cand \<ge> this_start then cand else find_top_down_loop start end sz align rest)"

definition memblock_find_range_top_down ::
    "memblock_type \<Rightarrow> memblock_type \<Rightarrow> phys_addr_t \<Rightarrow> phys_addr_t \<Rightarrow> phys_addr_t \<Rightarrow> phys_addr_t \<Rightarrow> int \<Rightarrow>
     memblock_flags \<Rightarrow> phys_addr_t res" where
  "memblock_find_range_top_down memory reserved start end sz align nid flags =
     (case for_each_mem_range_rev memory (Some reserved) nid flags of
        Inl e \<Rightarrow> Inl e | Inr xs \<Rightarrow> Inr (find_top_down_loop start end sz align xs))"

section \<open>The packed position\<close>

lemma mask32: "(0xffffffff :: u64) = mask 32"
  by (simp add: mask_eq_exp_minus_1)

lemma idx_lo_pack: "idx_lo (pack_idx a b) = word_of_int a"
  unfolding idx_lo_def pack_idx_def mask32
  by (rule bit_word_eqI) (auto simp: bit_simps)

lemma idx_hi_pack: "idx_hi (pack_idx a b) = word_of_int b"
  unfolding idx_hi_def pack_idx_def
  by (rule bit_word_eqI) (auto simp: bit_simps)

lemma sint_word_of_int_32: "- (2 ^ 31) \<le> a \<Longrightarrow> a < 2 ^ 31 \<Longrightarrow> sint (word_of_int a :: u32) = a"
  by transfer (simp add: signed_take_bit_int_eq_self)

lemma unat_scast_32:
  assumes "a < 2 ^ 31"
  shows "unat (scast (word_of_int (int a) :: u32) :: u64) = a"
proof -
  have "sint (word_of_int (int a) :: u32) = int a"
    using assms by (intro sint_word_of_int_32) auto
  then have "scast (word_of_int (int a) :: u32) = (of_nat a :: u64)"
    by (simp add: scast_eq)
  then show ?thesis using assms by (simp add: unat_of_nat take_bit_nat_eq_self)
qed

lemma pack_idx_not_max: 
  assumes "0 \<le> b" "b < 2 ^ 31"
  shows "pack_idx a b \<noteq> ULLONG_MAX"
proof
  assume "pack_idx a b = ULLONG_MAX"
  then have "idx_hi (pack_idx a b) = idx_hi ULLONG_MAX" by simp
  moreover have "idx_hi ULLONG_MAX = -1"
    by (rule bit_word_eqI) (auto simp: idx_hi_def ULLONG_MAX_def bit_simps)
  ultimately have "(word_of_int b :: u32) = -1"
    by (simp add: idx_hi_pack)
  then have "sint (word_of_int b :: u32) = sint (-1 :: u32)" by simp
  then show False using assms sint_word_of_int_32 [of b] by simp
qed

section \<open>Gaps of an array\<close>

definition mt_sorted :: "memblock_type \<Rightarrow> bool" where
  "mt_sorted t \<longleftrightarrow> sorted_wrt (\<lambda>x y. rgn_end x \<le> rgn_base y) (mt_regions t) \<and>
     (\<forall>r\<in>set (mt_regions t). rgn_base r \<le> rgn_end r)"

definition gap :: "memblock_type \<Rightarrow> nat \<Rightarrow> phys_addr_t set" where
  "gap t j = {gap_start t j ..< gap_end t j}"

lemma mt_sorted_nth:
  assumes "mt_sorted t" and "i < j" and "j < mt_cnt t"
  shows "rgn_end (mt_regions t ! i) \<le> rgn_base (mt_regions t ! j)"
  using assms by (auto simp: mt_sorted_def mt_cnt_def sorted_wrt_iff_nth_less)

lemma mt_sorted_nonneg: "mt_sorted t \<Longrightarrow> i < mt_cnt t \<Longrightarrow> rgn_base (mt_regions t ! i) \<le> rgn_end (mt_regions t ! i)"
  by (auto simp: mt_sorted_def mt_cnt_def)

lemma mt_sorted_base:
  assumes "mt_sorted t" and "i \<le> j" and "j < mt_cnt t"
  shows "rgn_base (mt_regions t ! i) \<le> rgn_base (mt_regions t ! j)"
proof (cases "i = j")
  case False
  with assms show ?thesis
    using mt_sorted_nth [of t i j] mt_sorted_nonneg [of t i] by auto
qed simp

lemma mt_sorted_end:
  assumes "mt_sorted t" and "i \<le> j" and "j < mt_cnt t"
  shows "rgn_end (mt_regions t ! i) \<le> rgn_end (mt_regions t ! j)"
proof (cases "i = j")
  case False
  with assms show ?thesis
    using mt_sorted_nth [of t i j] mt_sorted_nonneg [of t j] by auto
qed simp

lemma gap_mono:
  assumes "mt_sorted t" and "i < j" and "j \<le> mt_cnt t"
  shows "gap_end t i \<le> gap_start t j"
proof -
  have "j - 1 < mt_cnt t" "i \<le> j - 1" using assms by auto
  then have "rgn_base (mt_regions t ! i) \<le> rgn_end (mt_regions t ! (j - 1))"
    using mt_sorted_base [OF assms(1)] mt_sorted_nonneg [OF assms(1)] order_trans by blast
  then show ?thesis using assms by (auto simp: gap_end_def gap_start_def)
qed

lemma le_PHYS_ADDR_MAX [simp]: "x \<le> PHYS_ADDR_MAX"
  by (simp add: PHYS_ADDR_MAX_def)

lemma gap_nonneg: "mt_sorted t \<Longrightarrow> j \<le> mt_cnt t \<Longrightarrow> gap_start t j \<le> gap_end t j"
  using mt_sorted_nth [of t "j - 1" j] by (auto simp: gap_start_def gap_end_def)

text \<open>The gaps of a sorted array are exactly the addresses it does not cover (but for the very last).\<close>

lemma gap_cover:
  assumes "mt_sorted t" and "x < PHYS_ADDR_MAX"
  shows "(\<exists>j \<le> mt_cnt t. x \<in> gap t j) \<longleftrightarrow> (\<forall>r\<in>set (mt_regions t). x \<notin> rgn_range r)"
proof
  assume "\<exists>j\<le>mt_cnt t. x \<in> gap t j"
  then obtain j where j: "j \<le> mt_cnt t" "gap_start t j \<le> x" "x < gap_end t j"
    by (auto simp: gap_def)
  show "\<forall>r\<in>set (mt_regions t). x \<notin> rgn_range r"
  proof
    fix r assume "r \<in> set (mt_regions t)"
    then obtain i where i: "i < mt_cnt t" "r = mt_regions t ! i"
      by (auto simp: in_set_conv_nth mt_cnt_def)
    show "x \<notin> rgn_range r"
    proof (cases "i < j")
      case True
      then have "rgn_end r \<le> gap_start t j"
        using i j assms mt_sorted_end [of t i "j - 1"] by (auto simp: gap_start_def)
      with j show ?thesis by (auto simp: rgn_range_def)
    next
      case False
      then have "gap_end t j \<le> rgn_base r"
        using i j assms mt_sorted_base [of t j i] by (auto simp: gap_end_def)
      with j show ?thesis by (auto simp: rgn_range_def)
    qed
  qed
next
  assume none: "\<forall>r\<in>set (mt_regions t). x \<notin> rgn_range r"
  define j where "j = (LEAST j. x < gap_end t j)"
  have "x < gap_end t (mt_cnt t)" using assms by (simp add: gap_end_def)
  then have j: "x < gap_end t j" "j \<le> mt_cnt t" "\<And>i. i < j \<Longrightarrow> \<not> x < gap_end t i"
    unfolding j_def by (auto intro: LeastI Least_le dest: not_less_Least)
  have "gap_start t j \<le> x"
  proof (cases "j = 0")
    case False
    then have "\<not> x < gap_end t (j - 1)" and lt: "j - 1 < mt_cnt t" using j by auto
    then have "rgn_base (mt_regions t ! (j - 1)) \<le> x" by (simp add: gap_end_def)
    moreover have "mt_regions t ! (j - 1) \<in> set (mt_regions t)" using lt by (simp add: mt_cnt_def)
    ultimately show ?thesis using none False by (auto simp: rgn_range_def gap_start_def)
  qed (simp add: gap_start_def)
  with j show "\<exists>j\<le>mt_cnt t. x \<in> gap t j" by (auto simp: gap_def)
qed

lemma scan_gaps_spec:
  "case scan_gaps tb ms me b of (b', r) \<Rightarrow>
     b \<le> b' \<and> (\<forall>j. b \<le> j \<and> j < b' \<longrightarrow> gap_end tb j \<le> ms) \<and>
     (case r of None \<Rightarrow> b' \<le> mt_cnt tb \<longrightarrow> me \<le> gap_start tb b'
      | Some (s, e, f) \<Rightarrow> b' \<le> mt_cnt tb \<and> s = max ms (gap_start tb b') \<and> e = min me (gap_end tb b') \<and>
           (f \<longleftrightarrow> me \<le> gap_end tb b') \<and> ms < gap_end tb b' \<and> gap_start tb b' < me)"
proof (induction tb ms me b rule: scan_gaps.induct)
  case (1 tb ms me b)
  show ?case
  proof (cases "b \<le> mt_cnt tb \<and> \<not> me \<le> gap_start tb b \<and> \<not> ms < gap_end tb b")
    case True
    then have eq: "scan_gaps tb ms me b = scan_gaps tb ms me (Suc b)"
      by (subst scan_gaps.simps) (simp add: Let_def)
    obtain b' r where res: "scan_gaps tb ms me (Suc b) = (b', r)" by fastforce
    have IH: "Suc b \<le> b' \<and> (\<forall>j. Suc b \<le> j \<and> j < b' \<longrightarrow> gap_end tb j \<le> ms)"
      using "1.IH" True by (simp add: res)
    have "gap_end tb j \<le> ms" if "b \<le> j" "j < b'" for j
      using that True IH by (cases "j = b") auto
    then show ?thesis using "1.IH" True IH unfolding eq by (simp add: res)
  next
    case False
    then show ?thesis by (subst scan_gaps.simps) (auto simp: Let_def)
  qed
qed

section \<open>What is left to visit\<close>

definition picked :: "int \<Rightarrow> memblock_flags \<Rightarrow> memblock_type \<Rightarrow> nat set \<Rightarrow> phys_addr_t set" where
  "picked nid flags t I = {x. \<exists>i\<in>I. i < mt_cnt t \<and> \<not> mem_range_skip nid flags (mt_regions t ! i) \<and>
      x \<in> rgn_range (mt_regions t ! i)}"

definition gaps :: "memblock_type \<Rightarrow> nat set \<Rightarrow> phys_addr_t set" where
  "gaps t J = {x. \<exists>j\<in>J. j \<le> mt_cnt t \<and> x \<in> gap t j}"

lemma picked_insert:
  "picked nid flags t (insert a I) =
     (if a < mt_cnt t \<and> \<not> mem_range_skip nid flags (mt_regions t ! a) then rgn_range (mt_regions t ! a) else {}) \<union>
     picked nid flags t I"
  by (auto simp: picked_def)

lemma gaps_insert: "gaps t (insert b J) = (if b \<le> mt_cnt t then gap t b else {}) \<union> gaps t J"
  by (auto simp: gaps_def)

lemma atLeast_insert: "{a..} = insert a {Suc a..}"
  by auto

lemma picked_beyond: "mt_sorted t \<Longrightarrow> x \<in> picked nid flags t {Suc a..} \<Longrightarrow> rgn_end (mt_regions t ! a) \<le> x"
  using mt_sorted_nth [of t a] by (fastforce simp: picked_def rgn_range_def Suc_le_eq)

lemma gaps_beyond: "mt_sorted t \<Longrightarrow> x \<in> gaps t {Suc b..} \<Longrightarrow> gap_end t b \<le> x"
  using gap_mono [of t b] by (fastforce simp: gaps_def gap_def Suc_le_eq)

lemma picked_end: "mt_cnt t \<le> a \<Longrightarrow> picked nid flags t {a..} = {}"
  by (auto simp: picked_def)

text \<open>Gaps that end before the current region do not matter to it nor to later ones.\<close>

lemma gaps_skip:
  assumes "\<And>x. x \<in> P \<Longrightarrow> ms \<le> x" and "b \<le> b'" and "\<forall>j. b \<le> j \<and> j < b' \<longrightarrow> gap_end t j \<le> ms"
  shows "P \<inter> gaps t {b..} = P \<inter> gaps t {b'..}"
proof -
  have "{b..} = {b..<b'} \<union> {b'..}" using assms(2) by auto
  then have "gaps t {b..} = gaps t {b..<b'} \<union> gaps t {b'..}" by (auto simp: gaps_def)
  moreover have "x \<notin> P" if "x \<in> gaps t {b..<b'}" for x
  proof -
    from that obtain j where "b \<le> j" "j < b'" "x < gap_end t j" by (auto simp: gaps_def gap_def)
    then have "x < ms" using assms(3) less_le_trans by blast
    then show ?thesis using assms(1) by force
  qed
  ultimately show ?thesis by auto
qed

lemma gaps_from: "mt_sorted t \<Longrightarrow> x \<in> gaps t {b..} \<Longrightarrow> b \<le> mt_cnt t \<and> gap_start t b \<le> x"
proof -
  assume t: "mt_sorted t" and "x \<in> gaps t {b..}"
  then obtain j where j: "b \<le> j" "j \<le> mt_cnt t" "gap_start t j \<le> x" by (auto simp: gaps_def gap_def)
  have "gap_start t b \<le> gap_start t j"
  proof (cases "b = 0")
    case False
    then show ?thesis using mt_sorted_end [OF t, of "b - 1" "j - 1"] j by (auto simp: gap_start_def)
  qed (simp add: gap_start_def)
  with j show ?thesis by auto
qed

lemma picked_from: "mt_sorted t \<Longrightarrow> x \<in> picked nid flags t {a..} \<Longrightarrow> a < mt_cnt t \<and> rgn_base (mt_regions t ! a) \<le> x"
  using mt_sorted_base [of t a] by (fastforce simp: picked_def rgn_range_def)

text \<open>
  One step of an iterator over what is left, \<open>L a b\<close> at the indices \<open>a\<close> and \<open>b\<close>: it ends
  only when nothing is left, and otherwise yields the lowest piece of it.
\<close>

definition step_ok ::
    "(nat \<Rightarrow> nat \<Rightarrow> phys_addr_t set) \<Rightarrow> nat \<Rightarrow> nat \<Rightarrow> nat \<Rightarrow> nat \<Rightarrow> (mem_range \<times> nat \<times> nat) option \<Rightarrow> bool" where
  "step_ok L ca cb a b res \<longleftrightarrow>
     (case res of
        None \<Rightarrow> L a b = {}
      | Some ((s, e, n), a', b') \<Rightarrow>
          s \<le> e \<and> a \<le> a' \<and> b \<le> b' \<and> a + b < a' + b' \<and> a' \<le> ca \<and> b' \<le> cb \<and>
          L a b = {s..<e} \<union> L a' b' \<and> (\<forall>x \<in> L a' b'. e \<le> x))"

lemma step_ok_shift:
  "step_ok L ca cb a1 b1 res \<Longrightarrow> L a b = L a1 b1 \<Longrightarrow> a \<le> a1 \<Longrightarrow> b \<le> b1 \<Longrightarrow> step_ok L ca cb a b res"
  by (auto simp: step_ok_def split: option.splits prod.splits)

definition free_left :: "int \<Rightarrow> memblock_flags \<Rightarrow> memblock_type \<Rightarrow> memblock_type \<Rightarrow> nat \<Rightarrow> nat \<Rightarrow> phys_addr_t set" where
  "free_left nid flags ta tb a b = picked nid flags ta {a..} \<inter> gaps tb {b..}"

lemma next_mem_range_loop_spec:
  assumes "mt_sorted ta" and "mt_sorted tb"
  shows "step_ok (free_left nid flags ta tb) (mt_cnt ta) (mt_cnt tb) a b
           (next_mem_range_loop nid flags ta (Some tb) a b)"
  using assms
proof (induction nid flags ta "Some tb" a b rule: next_mem_range_loop.induct)
  case (1 nid flags ta a b)
  let ?m = "mt_regions ta ! a"
  let ?P = "\<lambda>a. picked nid flags ta {a..}"
  let ?next = "next_mem_range_loop nid flags ta (Some tb)"
  show ?case 
  proof (cases "a < mt_cnt ta")
    case True
    have split: "?P a = (if mem_range_skip nid flags ?m then {} else rgn_range ?m) \<union> ?P (Suc a)"
      using True by (subst atLeast_insert) (simp add: picked_insert)
    show ?thesis
    proof (cases "mem_range_skip nid flags ?m")
      case skip: True
      then have "?next a b = ?next (Suc a) b"
        using True by (subst next_mem_range_loop.simps) simp
      then show ?thesis using "1.hyps"(1) [OF True refl refl refl skip] "1.prems" split skip
        by (auto intro!: step_ok_shift [of _ _ _ "Suc a" b] simp: free_left_def)
    next
      case False
      obtain b1 r where scan: "scan_gaps tb (rgn_base ?m) (rgn_end ?m) b = (b1, r)" by fastforce
      note sg = scan_gaps_spec [where tb = tb and ms = "rgn_base ?m" and me = "rgn_end ?m" and b = b, unfolded scan prod.case]
      have low: "rgn_base ?m \<le> x" if "x \<in> ?P a" for x
        using picked_from [OF "1.prems"(1) that] by simp
      have left: "?P a \<inter> gaps tb {b..} = ?P a \<inter> gaps tb {b1..}"
        using sg by (intro gaps_skip [OF low]) auto
      show ?thesis
      proof (cases r)
        case None
        have "rgn_range ?m \<inter> gaps tb {b1..} = {}"
          using sg gaps_from [OF "1.prems"(2)] None by (fastforce simp: rgn_range_def)
        then have "?P a \<inter> gaps tb {b1..} = ?P (Suc a) \<inter> gaps tb {b1..}" using split False by auto
        moreover have "?next a b = ?next (Suc a) b1"
          using True False scan None by (subst next_mem_range_loop.simps) simp
        moreover have "step_ok (free_left nid flags ta tb) (mt_cnt ta) (mt_cnt tb) (Suc a) b1 (?next (Suc a) b1)"
          using "1.hyps"(2) [OF True refl refl refl False refl scan [symmetric] None] "1.prems" by simp
        ultimately show ?thesis
          using left sg by (auto intro!: step_ok_shift [of _ _ _ "Suc a" b1] simp: free_left_def)
      next
        case (Some res)
        obtain s e f where res: "res = (s, e, f)" by (cases res) auto
        let ?gs = "gap_start tb b1" and ?ge = "gap_end tb b1"
        from sg Some res have g: "b \<le> b1" "b1 \<le> mt_cnt tb" "s = max (rgn_base ?m) ?gs" "e = min (rgn_end ?m) ?ge"
          "f \<longleftrightarrow> rgn_end ?m \<le> ?ge" "rgn_base ?m < ?ge" "?gs < rgn_end ?m" by auto
        have gsplit: "gaps tb {b1..} = gap tb b1 \<union> gaps tb {Suc b1..}"
          using g by (subst atLeast_insert) (simp add: gaps_insert)
        have cap: "rgn_range ?m \<inter> gap tb b1 = {s..<e}"
          by (auto simp: g rgn_range_def gap_def)
        have nonneg: "s \<le> e"
          using g gap_nonneg [OF "1.prems"(2) g(2)] mt_sorted_nonneg [OF "1.prems"(1) \<open>a < mt_cnt ta\<close>]
          by (simp add: order.strict_implies_order)
        show ?thesis
        proof (cases f)
          case True
          have res': "?next a b = Some ((s, e, rgn_nid ?m), Suc a, b1)"
            using \<open>a < mt_cnt ta\<close> False scan Some res True by (subst next_mem_range_loop.simps) simp
          have "rgn_range ?m \<inter> gaps tb {Suc b1..} = {}"
            using gaps_beyond [OF "1.prems"(2)] g True by (force simp: rgn_range_def)
          then have eq: "?P a \<inter> gaps tb {b..} = {s..<e} \<union> (?P (Suc a) \<inter> gaps tb {b1..})"
            unfolding left using split False gsplit cap by auto
          moreover have "e \<le> x" if "x \<in> ?P (Suc a)" for x
            using picked_beyond [OF "1.prems"(1) that] g by auto
          ultimately show ?thesis
            using g nonneg \<open>a < mt_cnt ta\<close> by (auto simp: step_ok_def free_left_def res')
        next
          case False
          have res': "?next a b = Some ((s, e, rgn_nid ?m), a, Suc b1)"
            using \<open>a < mt_cnt ta\<close> \<open>\<not> mem_range_skip nid flags ?m\<close> scan Some res False
            by (subst next_mem_range_loop.simps) simp
          have "?P (Suc a) \<inter> gap tb b1 = {}"
            using picked_beyond [OF "1.prems"(1)] g False by (force simp: gap_def)
          then have eq: "?P a \<inter> gaps tb {b..} = {s..<e} \<union> (?P a \<inter> gaps tb {Suc b1..})"
            unfolding left using split \<open>\<not> mem_range_skip nid flags ?m\<close> gsplit cap by auto
          moreover have "e \<le> x" if "x \<in> gaps tb {Suc b1..}" for x
            using gaps_beyond [OF "1.prems"(2) that] g by auto
          moreover have "b1 < mt_cnt tb" using g False by (auto simp: gap_end_def split: if_splits)
          ultimately show ?thesis
            using g nonneg \<open>a < mt_cnt ta\<close> by (auto simp: step_ok_def free_left_def res')
        qed
      qed
    qed
  qed (auto simp: step_ok_def free_left_def next_mem_range_loop.simps [of _ _ _ _ a] picked_end)
qed

section \<open>The reverse iterator\<close>

lemma scan_gaps_rev_spec:
  "case scan_gaps_rev tb ms me b of (b', r) \<Rightarrow>
     b' \<le> b \<and> (\<forall>j. b' < int j \<and> int j \<le> b \<longrightarrow> me \<le> gap_start tb j) \<and>
     (case r of None \<Rightarrow> 0 \<le> b' \<longrightarrow> gap_end tb (nat b') \<le> ms
      | Some (s, e, f) \<Rightarrow> 0 \<le> b' \<and> s = max ms (gap_start tb (nat b')) \<and> e = min me (gap_end tb (nat b')) \<and>
           (f \<longleftrightarrow> gap_start tb (nat b') \<le> ms) \<and> ms < gap_end tb (nat b') \<and> gap_start tb (nat b') < me)"
proof (induction tb ms me b rule: scan_gaps_rev.induct)
  case (1 tb ms me b)
  show ?case
  proof (cases "0 \<le> b \<and> \<not> gap_end tb (nat b) \<le> ms \<and> \<not> gap_start tb (nat b) < me")
    case True
    then have eq: "scan_gaps_rev tb ms me b = scan_gaps_rev tb ms me (b - 1)"
      by (subst scan_gaps_rev.simps) (simp add: Let_def)
    obtain b' r where res: "scan_gaps_rev tb ms me (b - 1) = (b', r)" by fastforce
    have IH: "b' \<le> b - 1 \<and> (\<forall>j. b' < int j \<and> int j \<le> b - 1 \<longrightarrow> me \<le> gap_start tb j)"
      using "1.IH" True by (simp add: res)
    have "me \<le> gap_start tb j" if "b' < int j" "int j \<le> b" for j
      using that True IH by (cases "int j = b") auto
    then show ?thesis using "1.IH" True IH unfolding eq by (simp add: res)
  next
    case False
    then show ?thesis by (subst scan_gaps_rev.simps) (auto simp: Let_def)
  qed
qed

definition upto_idx :: "int \<Rightarrow> nat set" where
  "upto_idx a = {i. int i \<le> a}"

lemma upto_idx_insert: "0 \<le> a \<Longrightarrow> upto_idx a = insert (nat a) (upto_idx (a - 1))"
  by (auto simp: upto_idx_def)

lemma upto_idx_neg [simp]: "a < 0 \<Longrightarrow> upto_idx a = {}"
  by (auto simp: upto_idx_def)

lemma picked_before:
  "mt_sorted t \<Longrightarrow> x \<in> picked nid flags t (upto_idx (a - 1)) \<Longrightarrow> 0 \<le> a \<Longrightarrow> nat a < mt_cnt t \<Longrightarrow>
   x < rgn_base (mt_regions t ! nat a)"
  using mt_sorted_nth [of t _ "nat a"]
  by (auto simp: picked_def rgn_range_def upto_idx_def intro: less_le_trans simp: zless_nat_eq_int_zless)

lemma picked_upto: "mt_sorted t \<Longrightarrow> x \<in> picked nid flags t (upto_idx a) \<Longrightarrow> 0 \<le> a \<Longrightarrow> nat a < mt_cnt t \<Longrightarrow>
   x < rgn_end (mt_regions t ! nat a)"
  using mt_sorted_end [of t _ "nat a"]
  by (auto simp: picked_def rgn_range_def upto_idx_def le_nat_iff intro: less_le_trans)

lemma gaps_before:
  "mt_sorted t \<Longrightarrow> x \<in> gaps t (upto_idx (b - 1)) \<Longrightarrow> 0 \<le> b \<Longrightarrow> nat b \<le> mt_cnt t \<Longrightarrow> x < gap_start t (nat b)"
  using gap_mono [of t _ "nat b"]
  by (auto simp: gaps_def gap_def upto_idx_def zless_nat_eq_int_zless intro: less_le_trans)

lemma gaps_upto: "mt_sorted t \<Longrightarrow> x \<in> gaps t (upto_idx b) \<Longrightarrow> 0 \<le> b \<Longrightarrow> nat b \<le> mt_cnt t \<Longrightarrow> x < gap_end t (nat b)"
  using gaps_before [of t x b] by (auto simp: upto_idx_insert gaps_insert gap_def dest: gap_nonneg [of t "nat b"])

lemma gaps_skip_rev:
  assumes "\<And>x. x \<in> P \<Longrightarrow> x < me" and "b' \<le> b" and "\<forall>j. b' < int j \<and> int j \<le> b \<longrightarrow> me \<le> gap_start t j"
  shows "P \<inter> gaps t (upto_idx b) = P \<inter> gaps t (upto_idx b')"
proof -
  have "x \<in> gaps t (upto_idx b')" if x: "x \<in> P" "x \<in> gaps t (upto_idx b)" for x
  proof -
    from x obtain j where j: "int j \<le> b" "j \<le> mt_cnt t" "x \<in> gap t j" by (auto simp: gaps_def upto_idx_def)
    have "\<not> me \<le> gap_start t j" using j assms(1) [OF x(1)] by (auto simp: gap_def)
    then have "int j \<le> b'" using assms(3) j by force
    with j show ?thesis by (auto simp: gaps_def upto_idx_def)
  qed
  moreover have "gaps t (upto_idx b') \<subseteq> gaps t (upto_idx b)"
    using assms(2) order_trans by (fastforce simp: gaps_def upto_idx_def)
  ultimately show ?thesis by auto
qed

definition step_ok_rev ::
    "(int \<Rightarrow> int \<Rightarrow> phys_addr_t set) \<Rightarrow> int \<Rightarrow> int \<Rightarrow> (mem_range \<times> int \<times> int) option \<Rightarrow> bool" where
  "step_ok_rev L a b res \<longleftrightarrow>
     (case res of
        None \<Rightarrow> L a b = {}
      | Some ((s, e, n), a', b') \<Rightarrow>
          s \<le> e \<and> a' \<le> a \<and> b' \<le> b \<and> a' + b' < a + b \<and> - 1 \<le> a' \<and> 0 \<le> b' \<and>
          L a b = {s..<e} \<union> L a' b' \<and> (\<forall>x \<in> L a' b'. x < s))"

lemma step_ok_rev_shift:
  "step_ok_rev L a1 b1 res \<Longrightarrow> L a b = L a1 b1 \<Longrightarrow> a1 \<le> a \<Longrightarrow> b1 \<le> b \<Longrightarrow> step_ok_rev L a b res"
  by (auto simp: step_ok_rev_def split: option.splits prod.splits)

definition free_left_rev :: "int \<Rightarrow> memblock_flags \<Rightarrow> memblock_type \<Rightarrow> memblock_type \<Rightarrow> int \<Rightarrow> int \<Rightarrow> phys_addr_t set" where
  "free_left_rev nid flags ta tb a b = picked nid flags ta (upto_idx a) \<inter> gaps tb (upto_idx b)"

lemma next_mem_range_rev_loop_spec:
  assumes "mt_sorted ta" and "mt_sorted tb" and "a < int (mt_cnt ta)" and "b \<le> int (mt_cnt tb)"
  shows "step_ok_rev (free_left_rev nid flags ta tb) a b
           (next_mem_range_rev_loop nid flags ta (Some tb) a b)"
  using assms
proof (induction nid flags ta "Some tb" a b rule: next_mem_range_rev_loop.induct)
  case (1 nid flags ta a b)
  let ?m = "mt_regions ta ! nat a"
  let ?P = "\<lambda>a. picked nid flags ta (upto_idx a)"
  let ?G = "\<lambda>b. gaps tb (upto_idx b)"
  let ?next = "next_mem_range_rev_loop nid flags ta (Some tb)"
  show ?case
  proof (cases "0 \<le> a")
    case True
    then have na: "nat a < mt_cnt ta" using "1.prems" by auto
    have split: "?P a = (if mem_range_skip nid flags ?m then {} else rgn_range ?m) \<union> ?P (a - 1)"
      using True na by (simp add: picked_insert upto_idx_insert)
    show ?thesis
    proof (cases "mem_range_skip nid flags ?m")
      case skip: True
      then have "?next a b = ?next (a - 1) b"
        using True by (subst next_mem_range_rev_loop.simps) simp
      then show ?thesis using "1.hyps"(1) [OF True refl refl refl skip] "1.prems" split skip
        by (auto intro!: step_ok_rev_shift [of _ "a - 1" b] simp: free_left_rev_def)
    next
      case noskip: False
      obtain b1 r where scan: "scan_gaps_rev tb (rgn_base ?m) (rgn_end ?m) b = (b1, r)" by fastforce
      note sg = scan_gaps_rev_spec [where tb = tb and ms = "rgn_base ?m" and me = "rgn_end ?m" and b = b, unfolded scan prod.case]
      have left: "?P a \<inter> ?G b = ?P a \<inter> ?G b1"
        using sg picked_upto [OF "1.prems"(1) _ True na] by (intro gaps_skip_rev [where me = "rgn_end ?m"]) auto
      have b1: "b1 \<le> int (mt_cnt tb)" using sg "1.prems" by auto
      show ?thesis
      proof (cases r)
        case None
        have "rgn_range ?m \<inter> ?G b1 = {}"
        proof (cases "0 \<le> b1")
          case True
          then show ?thesis
            using sg None gaps_upto [OF "1.prems"(2), of _ b1] b1 by (force simp: rgn_range_def)
        qed (auto simp: gaps_def)
        then have "?P a \<inter> ?G b1 = ?P (a - 1) \<inter> ?G b1" using split noskip by auto
        moreover have "?next a b = ?next (a - 1) b1"
          using True noskip scan None by (subst next_mem_range_rev_loop.simps) simp
        moreover have "step_ok_rev (free_left_rev nid flags ta tb) (a - 1) b1 (?next (a - 1) b1)"
          using "1.hyps"(2) [OF True refl refl refl noskip refl scan [symmetric] None] "1.prems" b1 by simp
        ultimately show ?thesis
          using left sg by (auto intro!: step_ok_rev_shift [of _ "a - 1" b1] simp: free_left_rev_def)
      next
        case (Some res)
        obtain s e f where res: "res = (s, e, f)" by (cases res) auto
        let ?gs = "gap_start tb (nat b1)" and ?ge = "gap_end tb (nat b1)"
        from sg Some res have g: "b1 \<le> b" "0 \<le> b1" "s = max (rgn_base ?m) ?gs" "e = min (rgn_end ?m) ?ge"
          "f \<longleftrightarrow> ?gs \<le> rgn_base ?m" "rgn_base ?m < ?ge" "?gs < rgn_end ?m" by auto
        have nb: "nat b1 \<le> mt_cnt tb" using b1 by auto
        have gsplit: "?G b1 = gap tb (nat b1) \<union> ?G (b1 - 1)"
          using g nb by (simp add: gaps_insert upto_idx_insert)
        have cap: "rgn_range ?m \<inter> gap tb (nat b1) = {s..<e}"
          by (auto simp: g rgn_range_def gap_def)
        have nonneg: "s \<le> e"
          using g gap_nonneg [OF "1.prems"(2) nb] mt_sorted_nonneg [OF "1.prems"(1) na]
          by (simp add: order.strict_implies_order)
        show ?thesis
        proof (cases f)
          case first: True
          have res': "?next a b = Some ((s, e, rgn_nid ?m), a - 1, b1)"
            using True noskip scan Some res first by (subst next_mem_range_rev_loop.simps) simp
          have "rgn_range ?m \<inter> ?G (b1 - 1) = {}"
            using gaps_before [OF "1.prems"(2) _ g(2) nb] g first by (force simp: rgn_range_def)
          then have eq: "?P a \<inter> ?G b = {s..<e} \<union> (?P (a - 1) \<inter> ?G b1)"
            unfolding left using split noskip gsplit cap by auto
          moreover have "x < s" if "x \<in> ?P (a - 1)" for x
            using picked_before [OF "1.prems"(1) that True na] g by auto
          ultimately show ?thesis
            using g nonneg True by (auto simp: step_ok_rev_def free_left_rev_def res')
        next
          case False
          have res': "?next a b = Some ((s, e, rgn_nid ?m), a, b1 - 1)"
            using True noskip scan Some res False by (subst next_mem_range_rev_loop.simps) simp
          have "?P (a - 1) \<inter> gap tb (nat b1) = {}"
            using picked_before [OF "1.prems"(1) _ True na] g False by (force simp: gap_def)
          then have eq: "?P a \<inter> ?G b = {s..<e} \<union> (?P a \<inter> ?G (b1 - 1))"
            unfolding left using split noskip gsplit cap by auto
          moreover have "x < s" if "x \<in> ?G (b1 - 1)" for x
            using gaps_before [OF "1.prems"(2) that g(2) nb] g by auto
          moreover have "b1 \<noteq> 0" using g False by (auto simp: gap_start_def)
          ultimately show ?thesis
            using g nonneg True by (auto simp: step_ok_rev_def free_left_rev_def res')
        qed
      qed
    qed
  qed (auto simp: step_ok_rev_def free_left_rev_def next_mem_range_rev_loop.simps [of _ _ _ _ a] picked_def)
qed

section \<open>Iterators as an interface\<close>

text \<open>
  What the \<open>for_each\<close> loops rely on: from a valid position the iterator either reports the
  end, and then nothing is left, or it reports a range and moves on to a valid position
  closer to the end, with the range taken out of what is left.
\<close>

definition ranges_of :: "mem_range list \<Rightarrow> phys_addr_t set" where
  "ranges_of xs = {x. \<exists>(s, e, n) \<in> set xs. s \<le> x \<and> x < e}"

definition ranges_sorted :: "(phys_addr_t \<Rightarrow> phys_addr_t \<Rightarrow> bool) \<Rightarrow> mem_range list \<Rightarrow> bool" where
  "ranges_sorted R xs \<longleftrightarrow> (\<forall>(s, e, n) \<in> set xs. s \<le> e) \<and>
     sorted_wrt (\<lambda>(s, e, n) (s', e', n'). \<forall>x \<in> {s..<e}. \<forall>y \<in> {s'..<e'}. R x y) xs"

lemma ranges_of_Nil [simp]: "ranges_of [] = {}"
  by (simp add: ranges_of_def)

lemma ranges_of_Cons [simp]: "ranges_of ((s, e, n) # xs) = {s..<e} \<union> ranges_of xs"
  by (auto simp: ranges_of_def)

lemma ranges_sorted_Nil [simp]: "ranges_sorted R []"
  by (simp add: ranges_sorted_def)

lemma ranges_sorted_Cons [simp]:
  "ranges_sorted R ((s, e, n) # xs) \<longleftrightarrow>
     s \<le> e \<and> (\<forall>x \<in> {s..<e}. \<forall>y \<in> ranges_of xs. R x y) \<and> ranges_sorted R xs"
  unfolding ranges_sorted_def ranges_of_def by fastforce

locale range_iter =
  fixes nxt :: "u64 \<Rightarrow> u64 \<times> mem_range option"
    and valid :: "u64 \<Rightarrow> bool"
    and left :: "u64 \<Rightarrow> phys_addr_t set"
    and todo :: "u64 \<Rightarrow> nat"
    and R :: "phys_addr_t \<Rightarrow> phys_addr_t \<Rightarrow> bool"
  assumes finish: "valid idx \<Longrightarrow> nxt idx = (idx', None) \<Longrightarrow> left idx = {}"
    and step: "valid idx \<Longrightarrow> nxt idx = (idx', Some (s, e, n)) \<Longrightarrow>
      idx' \<noteq> ULLONG_MAX \<and> valid idx' \<and> todo idx' < todo idx \<and> s \<le> e \<and>
      left idx = {s..<e} \<union> left idx' \<and> (\<forall>x \<in> {s..<e}. \<forall>y \<in> left idx'. R x y)"
begin

lemma iter_exact:
  assumes "valid idx" and "todo idx < k"
  shows "\<exists>xs. mem_range_iter k nxt idx = Inr xs \<and> ranges_of xs = left idx \<and> ranges_sorted R xs"
  using assms
proof (induction k arbitrary: idx)
  case (Suc k)
  obtain idx' out where nxt: "nxt idx = (idx', out)" by fastforce
  show ?case
  proof (cases out)
    case None
    then show ?thesis using nxt finish [OF Suc.prems(1)] by (auto intro!: exI [of _ "[]"])
  next
    case (Some out')
    obtain s e n where out': "out' = (s, e, n)" by (cases out') auto
    note st = step [OF Suc.prems(1) nxt [unfolded Some out']]
    with Suc obtain xs where "mem_range_iter k nxt idx' = Inr xs" "ranges_of xs = left idx'" "ranges_sorted R xs"
      by (metis less_Suc_eq_le order_less_le_trans)
    with st show ?thesis by (intro exI [of _ "out' # xs"]) (simp add: nxt Some out')
  qed
qed simp

end

section \<open>The two iterators implement the interface\<close>

definition eff_nid :: "int \<Rightarrow> int" where
  "eff_nid nid = (if nid = MAX_NUMNODES then NUMA_NO_NODE else nid)"

definition arrays_ok :: "memblock_type \<Rightarrow> memblock_type \<Rightarrow> bool" where
  "arrays_ok ta tb \<longleftrightarrow> mt_sorted ta \<and> mt_sorted tb \<and> mt_cnt ta < 2 ^ 31 \<and> mt_cnt tb < 2 ^ 31"

definition fwd_a :: "u64 \<Rightarrow> nat" where
  "fwd_a idx = unat (scast (idx_lo idx) :: u64)"

definition fwd_b :: "u64 \<Rightarrow> nat" where
  "fwd_b idx = unat (scast (idx_hi idx) :: u64)"

definition fwd_valid :: "memblock_type \<Rightarrow> memblock_type \<Rightarrow> u64 \<Rightarrow> bool" where
  "fwd_valid ta tb idx \<longleftrightarrow> arrays_ok ta tb \<and> fwd_a idx \<le> mt_cnt ta \<and> fwd_b idx \<le> mt_cnt tb"

lemma fwd_pack: "a < 2 ^ 31 \<Longrightarrow> b < 2 ^ 31 \<Longrightarrow>
    fwd_a (pack_idx (int a) (int b)) = a \<and> fwd_b (pack_idx (int a) (int b)) = b"
  using unat_scast_32 [of a] unat_scast_32 [of b]
  by (simp add: fwd_a_def fwd_b_def idx_lo_pack idx_hi_pack)

lemma next_mem_range_alt:
  "next_mem_range idx nid flags ta tb =
     (case next_mem_range_loop (eff_nid nid) flags ta tb (fwd_a idx) (fwd_b idx) of
        Some (out, a', b') \<Rightarrow> (pack_idx (int a') (int b'), Some out)
      | None \<Rightarrow> (ULLONG_MAX, None))"
  by (simp add: next_mem_range_def eff_nid_def fwd_a_def fwd_b_def Let_def)

interpretation fwd: range_iter
  "\<lambda>idx. next_mem_range idx nid flags ta (Some tb)"
  "fwd_valid ta tb"
  "\<lambda>idx. free_left (eff_nid nid) flags ta tb (fwd_a idx) (fwd_b idx)"
  "\<lambda>idx. mt_cnt ta + mt_cnt tb - (fwd_a idx + fwd_b idx)"
  "(<)"
  for nid flags ta tb
proof
  fix idx idx'
  assume valid: "fwd_valid ta tb idx"
  let ?L = "free_left (eff_nid nid) flags ta tb"
  let ?r = "next_mem_range_loop (eff_nid nid) flags ta (Some tb) (fwd_a idx) (fwd_b idx)"
  have ok: "step_ok ?L (mt_cnt ta) (mt_cnt tb) (fwd_a idx) (fwd_b idx) ?r"
    using valid by (intro next_mem_range_loop_spec) (auto simp: fwd_valid_def arrays_ok_def)
  show "?L (fwd_a idx) (fwd_b idx) = {}" if "next_mem_range idx nid flags ta (Some tb) = (idx', None)"
    using that ok by (auto simp: next_mem_range_alt step_ok_def split: option.splits)
  show "idx' \<noteq> ULLONG_MAX \<and> fwd_valid ta tb idx' \<and>
        mt_cnt ta + mt_cnt tb - (fwd_a idx' + fwd_b idx') < mt_cnt ta + mt_cnt tb - (fwd_a idx + fwd_b idx) \<and>
        s \<le> e \<and> ?L (fwd_a idx) (fwd_b idx) = {s..<e} \<union> ?L (fwd_a idx') (fwd_b idx') \<and>
        (\<forall>x \<in> {s..<e}. \<forall>y \<in> ?L (fwd_a idx') (fwd_b idx'). x < y)"
    if nxt: "next_mem_range idx nid flags ta (Some tb) = (idx', Some (s, e, n))" for s e n
  proof -
    from nxt obtain a' b' where r: "?r = Some ((s, e, n), a', b')" and idx': "idx' = pack_idx (int a') (int b')"
      by (auto simp: next_mem_range_alt split: option.splits)
    from ok r have s: "a' \<le> mt_cnt ta" "b' \<le> mt_cnt tb" "fwd_a idx + fwd_b idx < a' + b'" "s \<le> e"
      "?L (fwd_a idx) (fwd_b idx) = {s..<e} \<union> ?L a' b'" "\<forall>x \<in> ?L a' b'. e \<le> x"
      by (auto simp: step_ok_def)
    from s(1,2) valid have lt: "a' < 2 ^ 31" "b' < 2 ^ 31" by (auto simp: fwd_valid_def arrays_ok_def)
    note p = fwd_pack [OF lt, folded idx']
    have "idx' \<noteq> ULLONG_MAX" unfolding idx' using lt by (intro pack_idx_not_max) auto
    moreover have "\<forall>x \<in> {s..<e}. \<forall>y \<in> ?L a' b'. x < y" using s(6) less_le_trans by fastforce
    ultimately show ?thesis using s(1-5) p valid by (auto simp: fwd_valid_def)
  qed
qed

definition rev_a :: "memblock_type \<Rightarrow> u64 \<Rightarrow> int" where
  "rev_a ta idx = (if idx = ULLONG_MAX then int (mt_cnt ta) - 1 else sint (idx_lo idx))"

definition rev_b :: "memblock_type \<Rightarrow> u64 \<Rightarrow> int" where
  "rev_b tb idx = (if idx = ULLONG_MAX then int (mt_cnt tb) else sint (idx_hi idx))"

definition rev_valid :: "memblock_type \<Rightarrow> memblock_type \<Rightarrow> u64 \<Rightarrow> bool" where
  "rev_valid ta tb idx \<longleftrightarrow> arrays_ok ta tb \<and> - 1 \<le> rev_a ta idx \<and> rev_a ta idx < int (mt_cnt ta) \<and>
     0 \<le> rev_b tb idx \<and> rev_b tb idx \<le> int (mt_cnt tb)"

lemma rev_pack:
  assumes "- 1 \<le> a" and "a < 2 ^ 31" and "0 \<le> b" and "b < 2 ^ 31"
  shows "rev_a ta (pack_idx a b) = a \<and> rev_b tb (pack_idx a b) = b \<and> pack_idx a b \<noteq> ULLONG_MAX"
  using assms pack_idx_not_max [of b a] sint_word_of_int_32 [of a] sint_word_of_int_32 [of b]
  by (simp add: rev_a_def rev_b_def idx_lo_pack idx_hi_pack)

lemma next_mem_range_rev_alt:
  "next_mem_range_rev idx nid flags ta (Some tb) =
     (case next_mem_range_rev_loop (eff_nid nid) flags ta (Some tb) (rev_a ta idx) (rev_b tb idx) of
        Some (out, a', b') \<Rightarrow> (pack_idx a' b', Some out)
      | None \<Rightarrow> (ULLONG_MAX, None))"
  by (simp add: next_mem_range_rev_def eff_nid_def rev_a_def rev_b_def Let_def)

interpretation bwd: range_iter
  "\<lambda>idx. next_mem_range_rev idx nid flags ta (Some tb)"
  "rev_valid ta tb"
  "\<lambda>idx. free_left_rev (eff_nid nid) flags ta tb (rev_a ta idx) (rev_b tb idx)"
  "\<lambda>idx. nat (rev_a ta idx + rev_b tb idx + 1)"
  "(>)"
  for nid flags ta tb
proof
  fix idx idx'
  assume valid: "rev_valid ta tb idx"
  let ?L = "free_left_rev (eff_nid nid) flags ta tb"
  let ?r = "next_mem_range_rev_loop (eff_nid nid) flags ta (Some tb) (rev_a ta idx) (rev_b tb idx)"
  have ok: "step_ok_rev ?L (rev_a ta idx) (rev_b tb idx) ?r"
    using valid by (intro next_mem_range_rev_loop_spec) (auto simp: rev_valid_def arrays_ok_def)
  show "?L (rev_a ta idx) (rev_b tb idx) = {}" if "next_mem_range_rev idx nid flags ta (Some tb) = (idx', None)"
    using that ok by (auto simp: next_mem_range_rev_alt step_ok_rev_def split: option.splits)
  show "idx' \<noteq> ULLONG_MAX \<and> rev_valid ta tb idx' \<and>
        nat (rev_a ta idx' + rev_b tb idx' + 1) < nat (rev_a ta idx + rev_b tb idx + 1) \<and>
        s \<le> e \<and> ?L (rev_a ta idx) (rev_b tb idx) = {s..<e} \<union> ?L (rev_a ta idx') (rev_b tb idx') \<and>
        (\<forall>x \<in> {s..<e}. \<forall>y \<in> ?L (rev_a ta idx') (rev_b tb idx'). x > y)"
    if nxt: "next_mem_range_rev idx nid flags ta (Some tb) = (idx', Some (s, e, n))" for s e n
  proof -
    from nxt obtain a' b' where r: "?r = Some ((s, e, n), a', b')" and idx': "idx' = pack_idx a' b'"
      by (auto simp: next_mem_range_rev_alt split: option.splits)
    from ok r have s: "a' \<le> rev_a ta idx" "b' \<le> rev_b tb idx" "- 1 \<le> a'" "0 \<le> b'"
      "a' + b' < rev_a ta idx + rev_b tb idx" "s \<le> e"
      "?L (rev_a ta idx) (rev_b tb idx) = {s..<e} \<union> ?L a' b'" "\<forall>x \<in> ?L a' b'. x < s"
      by (auto simp: step_ok_rev_def)
    have lt: "a' < 2 ^ 31" "b' < 2 ^ 31" using s(1,2) valid by (auto simp: rev_valid_def arrays_ok_def)
    note p = rev_pack [OF s(3) lt(1) s(4) lt(2), of ta tb, folded idx']
    moreover have "\<forall>x \<in> {s..<e}. \<forall>y \<in> ?L a' b'. x > y" using s(8) less_le_trans by fastforce
    ultimately show ?thesis using s(1-7) valid by (auto simp: rev_valid_def)
  qed
qed

text \<open>What the iterators visit: the selected regions of \<open>type_a\<close> outside every region of \<open>type_b\<close>.\<close>

definition free_mem_area :: "int \<Rightarrow> memblock_flags \<Rightarrow> memblock_type \<Rightarrow> memblock_type \<Rightarrow> phys_addr_t set" where
  "free_mem_area nid flags ta tb =
     {x. (\<exists>r \<in> set (mt_regions ta). \<not> mem_range_skip (eff_nid nid) flags r \<and> x \<in> rgn_range r) \<and>
         (\<forall>r \<in> set (mt_regions tb). x \<notin> rgn_range r)}"

lemma free_mem_area_eq:
  assumes "mt_sorted tb" and "{..< mt_cnt ta} \<subseteq> I" and "{..mt_cnt tb} \<subseteq> J"
  shows "picked (eff_nid nid) flags ta I \<inter> gaps tb J = free_mem_area nid flags ta tb"
proof -
  have "picked (eff_nid nid) flags ta I =
    {x. \<exists>r \<in> set (mt_regions ta). \<not> mem_range_skip (eff_nid nid) flags r \<and> x \<in> rgn_range r}"
    using assms(2) by (fastforce simp: picked_def in_set_conv_nth mt_cnt_def)
  moreover have "x \<in> gaps tb J \<longleftrightarrow> (\<forall>r \<in> set (mt_regions tb). x \<notin> rgn_range r)" if "x < PHYS_ADDR_MAX" for x
    using gap_cover [OF assms(1) that] assms(3) by (auto simp: gaps_def)
  moreover have "x < PHYS_ADDR_MAX" if "x \<in> rgn_range r" for x r
    using that le_PHYS_ADDR_MAX less_le_trans by (fastforce simp: rgn_range_def simp del: le_PHYS_ADDR_MAX)
  ultimately show ?thesis by (auto simp: free_mem_area_def)
qed

lemma for_each_mem_range_exact:
  assumes "arrays_ok ta tb"
  shows "\<exists>xs. for_each_mem_range ta (Some tb) nid flags = Inr xs \<and>
           ranges_of xs = free_mem_area nid flags ta tb \<and> ranges_sorted (<) xs"
proof -
  have z: "fwd_a 0 = 0" "fwd_b 0 = 0" by (simp_all add: fwd_a_def fwd_b_def idx_lo_def idx_hi_def)
  have "free_left (eff_nid nid) flags ta tb (fwd_a 0) (fwd_b 0) = free_mem_area nid flags ta tb"
    unfolding free_left_def z using assms by (intro free_mem_area_eq) (auto simp: arrays_ok_def)
  moreover have "fwd_valid ta tb 0" using assms by (simp add: fwd_valid_def z)
  ultimately show ?thesis
    using fwd.iter_exact [of ta tb 0 "iter_fuel ta (Some tb)" nid flags]
    by (simp add: for_each_mem_range_def z iter_fuel_def)
qed

lemma for_each_mem_range_rev_exact:
  assumes "arrays_ok ta tb"
  shows "\<exists>xs. for_each_mem_range_rev ta (Some tb) nid flags = Inr xs \<and>
           ranges_of xs = free_mem_area nid flags ta tb \<and> ranges_sorted (>) xs"
proof -
  have z: "rev_a ta ULLONG_MAX = int (mt_cnt ta) - 1" "rev_b tb ULLONG_MAX = int (mt_cnt tb)"
    by (simp_all add: rev_a_def rev_b_def)
  have "free_left_rev (eff_nid nid) flags ta tb (rev_a ta ULLONG_MAX) (rev_b tb ULLONG_MAX) = free_mem_area nid flags ta tb"
    unfolding free_left_rev_def z using assms
    by (intro free_mem_area_eq) (auto simp: arrays_ok_def upto_idx_def)
  moreover have "rev_valid ta tb ULLONG_MAX" using assms by (simp add: rev_valid_def z)
  ultimately show ?thesis
    using bwd.iter_exact [of ta tb ULLONG_MAX "iter_fuel ta (Some tb)" nid flags]
    by (simp add: for_each_mem_range_rev_def z iter_fuel_def)
qed

section \<open>What the range searches return\<close>

definition block_in :: "phys_addr_t \<Rightarrow> phys_addr_t \<Rightarrow> phys_addr_t \<Rightarrow> phys_addr_t \<Rightarrow> bool" where
  "block_in c sz lo hi \<longleftrightarrow> lo \<le> c \<and> c \<le> c + sz \<and> c + sz \<le> hi"

lemma find_bottom_up_loop_block:
  assumes "find_bottom_up_loop start end sz (2 ^ k) xs = c" and "c \<noteq> 0" and "k < 64"
  shows "(\<exists>(s, e, n) \<in> set xs. block_in c sz s e) \<and> block_in c sz start end \<and> c AND (2 ^ k - 1) = 0"
  using assms(1)
proof (induction xs)
  case (Cons r xs)
  obtain s e n where r: "r = (s, e, n)" by (cases r) auto
  let ?c = "round_up (clamp s start end) (2 ^ k)" and ?e = "clamp e start end"
  show ?case
  proof (cases "?c < ?e \<and> sz \<le> ?e - ?c")
    case True
    then have c: "?c = c" using Cons.prems by (simp add: r)
    have ge: "clamp s start end \<le> c" using round_up_ge [of "clamp s start end" k] assms(2) c by simp
    have le: "c \<le> c + sz" "c + sz \<le> ?e"
      using word_block_fits [of c ?e sz] True unfolding c by auto
    have "clamp s start end < ?e" using ge True c by auto
    then have "s \<le> c" "start \<le> c" "c + sz \<le> e" "c + sz \<le> end"
      using ge le by (auto simp: clamp_def min_def max_def split: if_splits)
    then show ?thesis using le round_up_aligned [OF assms(3), of "clamp s start end"]
      by (auto simp: r block_in_def c)
  next
    case False
    with Cons have "find_bottom_up_loop start end sz (2 ^ k) xs = c" by (simp add: r Let_def split: if_splits)
    with Cons.IH show ?thesis by auto
  qed
qed (use assms in simp)

lemma find_top_down_loop_block:
  assumes "find_top_down_loop start end sz (2 ^ k) xs = c" and "c \<noteq> 0" and "sz \<noteq> 0"
  shows "(\<exists>(s, e, n) \<in> set xs. block_in c sz s e) \<and> block_in c sz start end \<and> c AND (2 ^ k - 1) = 0"
  using assms(1)
proof (induction xs)
  case (Cons r xs)
  obtain s e n where r: "r = (s, e, n)" by (cases r) auto
  let ?s = "clamp s start end" and ?e = "clamp e start end"
  let ?c = "round_down (?e - sz) (2 ^ k)"
  show ?case
  proof (cases "sz \<le> ?e \<and> ?s \<le> ?c")
    case True
    then have c: "?c = c" using Cons.prems by (auto simp: r Let_def split: if_splits)
    have le: "c \<le> c + sz" "c + sz \<le> ?e"
      using word_block_below [of sz ?e c] round_down_le [of "?e - sz" "2 ^ k"] True unfolding c by auto
    have "c < c + sz" using assms(3) le(1) by (simp add: order_less_le)
    moreover have "?s \<le> c" using True unfolding c by simp
    ultimately have "?s < ?e" using le(2) by (meson le_less_trans less_le_trans)
    then have "s \<le> c" "start \<le> c" "c + sz \<le> e" "c + sz \<le> end"
      using True le unfolding c by (auto simp: clamp_def min_def max_def split: if_splits)
    then show ?thesis using le round_down_aligned [of "?e - sz" k]
      by (auto simp: r block_in_def c)
  next
    case False
    with Cons have "find_top_down_loop start end sz (2 ^ k) xs = c" by (auto simp: r Let_def split: if_splits)
    with Cons.IH show ?thesis by auto
  qed
qed (use assms in simp)

lemma block_ranges: "(s, e, n) \<in> set xs \<Longrightarrow> block_in c sz s e \<Longrightarrow> {c..<c + sz} \<subseteq> ranges_of xs"
  unfolding ranges_of_def block_in_def
  by (auto intro!: bexI [of _ "(s, e, n)"] elim: order_trans less_le_trans)

text \<open>A free block: aligned, inside the window, and free at every address.\<close>

definition free_block ::
    "int \<Rightarrow> memblock_flags \<Rightarrow> memblock_type \<Rightarrow> memblock_type \<Rightarrow> phys_addr_t \<Rightarrow> phys_addr_t \<Rightarrow>
     phys_addr_t \<Rightarrow> phys_addr_t \<Rightarrow> phys_addr_t \<Rightarrow> bool" where
  "free_block nid flags memory reserved start end sz align c \<longleftrightarrow>
     c AND (align - 1) = 0 \<and> block_in c sz start end \<and> {c..<c + sz} \<subseteq> free_mem_area nid flags memory reserved"

lemma find_range_bottom_up_block:
  assumes "arrays_ok memory reserved" and "k < 64"
  shows "\<exists>c. memblock_find_range_bottom_up memory reserved start end sz (2 ^ k) nid flags = Inr c \<and>
    (c \<noteq> 0 \<longrightarrow> free_block nid flags memory reserved start end sz (2 ^ k) c)"
proof -
  obtain xs where xs: "for_each_mem_range memory (Some reserved) nid flags = Inr xs"
    "ranges_of xs = free_mem_area nid flags memory reserved"
    using for_each_mem_range_exact [OF assms(1)] by blast
  show ?thesis
    using find_bottom_up_loop_block [OF refl _ assms(2), of start "end" sz xs] block_ranges [of _ _ _ xs]
    by (fastforce simp: memblock_find_range_bottom_up_def free_block_def xs)
qed

lemma find_range_top_down_block:
  assumes "arrays_ok memory reserved" and "sz \<noteq> 0"
  shows "\<exists>c. memblock_find_range_top_down memory reserved start end sz (2 ^ k) nid flags = Inr c \<and>
    (c \<noteq> 0 \<longrightarrow> free_block nid flags memory reserved start end sz (2 ^ k) c)"
proof -
  obtain xs where xs: "for_each_mem_range_rev memory (Some reserved) nid flags = Inr xs"
    "ranges_of xs = free_mem_area nid flags memory reserved"
    using for_each_mem_range_rev_exact [OF assms(1)] by blast
  show ?thesis
    using find_top_down_loop_block [OF refl _ assms(2), of start "end" k xs] block_ranges [of _ _ _ xs]
    by (fastforce simp: memblock_find_range_top_down_def free_block_def xs)
qed

end
