(* ===== verification/Memblock.thy ===== *)
theory Memblock
  imports Memblock_Iter
begin

unbundle bit_operations_syntax

text \<open>
  The boot-time allocator of \<open>mm/memblock.c\<close>: the two arrays \<open>memblock.memory\<close> and
  \<open>memblock.reserved\<close>, the operations that add, remove, flag and search ranges, the
  growth of the arrays out of the memory they describe, and the allocation interface.
\<close>

section \<open>State\<close>

text \<open>
  \<open>struct memblock\<close> with the two file-scope switches \<open>memblock_can_resize\<close> and
  \<open>system_has_some_mirror\<close>. \<open>mb_kernel_end\<close> is the constant \<open>__pa_symbol(_end)\<close> that
  the linker provides.
\<close>

record memblock =
  mb_bottom_up :: bool
  mb_current_limit :: phys_addr_t
  mb_memory :: memblock_type
  mb_reserved :: memblock_type
  mb_can_resize :: bool
  mb_has_mirror :: bool
  mb_kernel_end :: phys_addr_t

text \<open>The code passes \<open>&memblock.memory\<close> or \<open>&memblock.reserved\<close>; the model passes a selector.\<close>

datatype mt_sel = MEMORY | RESERVED

fun get_type :: "mt_sel \<Rightarrow> memblock \<Rightarrow> memblock_type" where
  "get_type MEMORY st = mb_memory st"
| "get_type RESERVED st = mb_reserved st"

fun put_type :: "mt_sel \<Rightarrow> memblock_type \<Rightarrow> memblock \<Rightarrow> memblock" where
  "put_type MEMORY t st = st\<lparr>mb_memory := t\<rparr>"
| "put_type RESERVED t st = st\<lparr>mb_reserved := t\<rparr>"

definition INIT_MEMBLOCK_REGIONS :: nat where
  "INIT_MEMBLOCK_REGIONS = 128"

definition MEMBLOCK_ALLOC_ANYWHERE :: phys_addr_t where
  "MEMBLOCK_ALLOC_ANYWHERE = PHYS_ADDR_MAX"

definition MEMBLOCK_ALLOC_ACCESSIBLE :: phys_addr_t where
  "MEMBLOCK_ALLOC_ACCESSIBLE = 0"

text \<open>The static initialiser; the dummy entry of a static array is all zero.\<close>

definition memblock_init :: "phys_addr_t \<Rightarrow> memblock" where
  "memblock_init kernel_end =
     (let dummy = \<lparr>rgn_base = 0, rgn_size = 0, rgn_flags = 0, rgn_nid = 0\<rparr> in
      \<lparr>mb_bottom_up = False, mb_current_limit = MEMBLOCK_ALLOC_ANYWHERE,
       mb_memory = \<lparr>mt_name = ''memory'', mt_max = INIT_MEMBLOCK_REGIONS, mt_total_size = 0,
                    mt_regions = [dummy], mt_array = Memory_init_regions\<rparr>,
       mb_reserved = \<lparr>mt_name = ''reserved'', mt_max = INIT_MEMBLOCK_REGIONS, mt_total_size = 0,
                      mt_regions = [dummy], mt_array = Reserved_init_regions\<rparr>,
       mb_can_resize = False, mb_has_mirror = False, mb_kernel_end = kernel_end\<rparr>)"

definition choose_memblock_flags :: "memblock \<Rightarrow> memblock_flags" where
  "choose_memblock_flags st = (if mb_has_mirror st then MEMBLOCK_MIRROR else MEMBLOCK_NONE)"

section \<open>Finding a free area\<close>

definition memblock_find_in_range_node ::
    "memblock \<Rightarrow> phys_addr_t \<Rightarrow> phys_addr_t \<Rightarrow> phys_addr_t \<Rightarrow> phys_addr_t \<Rightarrow> int \<Rightarrow> memblock_flags \<Rightarrow>
     phys_addr_t res" where
  "memblock_find_in_range_node st sz align start0 end0 nid flags =
     (let end1 = (if end0 = MEMBLOCK_ALLOC_ACCESSIBLE then mb_current_limit st else end0);
          start = max start0 PAGE_SIZE;
          end = max start end1;
          kernel_end = mb_kernel_end st;
          top_down = memblock_find_range_top_down (mb_memory st) (mb_reserved st) start end sz align nid flags
      in if mb_bottom_up st \<and> end > kernel_end then
           and_then (memblock_find_range_bottom_up (mb_memory st) (mb_reserved st)
                       (max start kernel_end) end sz align nid flags)
             (\<lambda>ret. if ret \<noteq> 0 then Inr ret else top_down)
         else top_down)"

text \<open>The \<open>goto again\<close> is taken at most once: it is taken with the mirror flag set and clears it.\<close>

definition memblock_find_in_range ::
    "memblock \<Rightarrow> phys_addr_t \<Rightarrow> phys_addr_t \<Rightarrow> phys_addr_t \<Rightarrow> phys_addr_t \<Rightarrow> phys_addr_t res" where
  "memblock_find_in_range st start end sz align =
     (let flags = choose_memblock_flags st in
      and_then (memblock_find_in_range_node st sz align start end NUMA_NO_NODE flags)
        (\<lambda>ret. if ret = 0 \<and> flags AND MEMBLOCK_MIRROR \<noteq> 0
               then memblock_find_in_range_node st sz align start end NUMA_NO_NODE
                      (flags AND NOT MEMBLOCK_MIRROR)
               else Inr ret))"

section \<open>Adding and isolating ranges, growing the arrays\<close>

text \<open>
  \<open>memblock_add_range\<close> and \<open>memblock_isolate_range\<close> call \<open>memblock_double_array\<close>, which
  in turn reserves the new array with \<open>memblock_add_range\<close> and frees the old one with
  \<open>memblock_remove_range\<close>. The knot is tied through a parameter: the operations take the
  doubling routine as an argument, and \<open>memblock_double_array\<close> at depth \<open>n + 1\<close> passes
  itself at depth \<open>n\<close>. A negative result is the return value \<open>-1\<close> or \<open>-ENOMEM\<close>.
\<close>

type_synonym doubling = "memblock \<Rightarrow> mt_sel \<Rightarrow> phys_addr_t \<Rightarrow> phys_addr_t \<Rightarrow> (memblock \<times> int) res"

text \<open>\<open>while (type->cnt + nr > type->max) if (memblock_double_array(...) < 0) return -ENOMEM;\<close>\<close>

primrec grow_loop ::
    "nat \<Rightarrow> doubling \<Rightarrow> memblock \<Rightarrow> mt_sel \<Rightarrow> nat \<Rightarrow> phys_addr_t \<Rightarrow> phys_addr_t \<Rightarrow> (memblock \<times> int) res" where
  "grow_loop 0 dbl st w nr base sz = Inl Out_of_fuel"
| "grow_loop (Suc n) dbl st w nr base sz =
     (if mt_cnt (get_type w st) + nr > mt_max (get_type w st) then
        and_then (dbl st w base sz)
          (\<lambda>(st', r). if r < 0 then Inr (st', - ENOMEM) else grow_loop n dbl st' w nr base sz)
      else Inr (st, 0))"

definition grow_fuel :: nat where
  "grow_fuel = 64"

text \<open>The round of \<open>memblock_add_range\<close> with \<open>insert\<close> true, and the merge that ends it.\<close>

definition insert_merge ::
    "phys_addr_t \<Rightarrow> phys_addr_t \<Rightarrow> int \<Rightarrow> memblock_flags \<Rightarrow> memblock_type \<Rightarrow> memblock_type res" where
  "insert_merge base end nid flags t =
     and_then (add_range_pass True nid flags base end t)
       (\<lambda>(nr_new, t'). if nr_new = 0 then Inr t' else memblock_merge_regions t')"

definition add_range_with ::
    "doubling \<Rightarrow> memblock \<Rightarrow> mt_sel \<Rightarrow> phys_addr_t \<Rightarrow> phys_addr_t \<Rightarrow> int \<Rightarrow> memblock_flags \<Rightarrow>
     (memblock \<times> int) res" where
  "add_range_with dbl st w base sz0 nid flags =
     (let sz = memblock_cap_size base sz0; end = base + sz; t = get_type w st in
      if sz = 0 then Inr (st, 0)
      else if rgn_size (mt_regions t ! 0) = 0 then
        Inr (put_type w
               (t\<lparr>mt_regions := (mt_regions t)
                    [0 := \<lparr>rgn_base = base, rgn_size = sz, rgn_flags = flags, rgn_nid = nid\<rparr>],
                  mt_total_size := sz\<rparr>) st, 0)
      else
        and_then (add_range_pass False nid flags base end t)
          (\<lambda>(nr_new, t0).
             if nr_new = 0 then Inr (st, 0)
             else
               and_then (grow_loop grow_fuel dbl st w nr_new base sz)
                 (\<lambda>(st1, r).
                    if r < 0 then Inr (st1, r)
                    else
                      and_then (insert_merge base end nid flags (get_type w st1))
                        (\<lambda>t'. Inr (put_type w t' st1, 0)))))"

definition isolate_range_with ::
    "doubling \<Rightarrow> memblock \<Rightarrow> mt_sel \<Rightarrow> phys_addr_t \<Rightarrow> phys_addr_t \<Rightarrow> (memblock \<times> int \<times> nat \<times> nat) res" where
  "isolate_range_with dbl st w base sz0 =
     (let sz = memblock_cap_size base sz0; end = base + sz in
      if sz = 0 then Inr (st, 0, 0, 0)
      else
        and_then (grow_loop grow_fuel dbl st w 2 base sz)
          (\<lambda>(st1, r).
             if r < 0 then Inr (st1, r, 0, 0)
             else
               and_then (isolate_loop base end 0 0 0 (get_type w st1))
                 (\<lambda>(start_rgn, end_rgn, t). Inr (put_type w t st1, 0, start_rgn, end_rgn))))"

text \<open>\<open>for (i = end_rgn - 1; i >= start_rgn; i--) memblock_remove_region(type, i);\<close>\<close>

fun remove_regions_down :: "memblock_type \<Rightarrow> nat \<Rightarrow> nat \<Rightarrow> memblock_type" where
  "remove_regions_down t start 0 = t"
| "remove_regions_down t start (Suc i) =
     (if i \<ge> start then remove_regions_down (memblock_remove_region t i) start i else t)"

definition remove_range_with ::
    "doubling \<Rightarrow> memblock \<Rightarrow> mt_sel \<Rightarrow> phys_addr_t \<Rightarrow> phys_addr_t \<Rightarrow> (memblock \<times> int) res" where
  "remove_range_with dbl st w base sz =
     and_then (isolate_range_with dbl st w base sz)
       (\<lambda>(st1, r, start_rgn, end_rgn).
          if r \<noteq> 0 then Inr (st1, r)
          else Inr (put_type w (remove_regions_down (get_type w st1) start_rgn end_rgn) st1, 0))"

definition sizeof_region :: u64 where
  "sizeof_region = 24"

text \<open>The search for a place of the new array: above the new area first, then below it.\<close>

definition double_array_addr :: "memblock \<Rightarrow> phys_addr_t \<Rightarrow> phys_addr_t \<Rightarrow> phys_addr_t \<Rightarrow> phys_addr_t res" where
  "double_array_addr st start sz alloc_size =
     and_then (memblock_find_in_range st (start + sz) (mb_current_limit st) alloc_size PAGE_SIZE)
       (\<lambda>addr. if addr = 0 \<and> sz \<noteq> 0
               then memblock_find_in_range st 0 (min start (mb_current_limit st)) alloc_size PAGE_SIZE
               else Inr addr)"

primrec memblock_double_array :: "nat \<Rightarrow> doubling" where
  "memblock_double_array 0 st w new_area_start new_area_size = Inl Out_of_fuel"
| "memblock_double_array (Suc n) st w new_area_start new_area_size =
     (if \<not> mb_can_resize st then Inr (st, - 1)
      else
        let t = get_type w st;
            old_size = of_nat (mt_max t) * sizeof_region;
            new_size = push_bit 1 old_size;
            old_alloc_size = PAGE_ALIGN old_size;
            new_alloc_size = PAGE_ALIGN new_size;
            (area_start, area_size) = (if w \<noteq> RESERVED then (0, 0) else (new_area_start, new_area_size))
        in and_then (double_array_addr st area_start area_size new_alloc_size)
             (\<lambda>addr.
                if addr = 0 then Inr (st, - 1)
                else
                  let old_array = mt_array t;
                      st1 = put_type w (t\<lparr>mt_array := At_phys addr, mt_max := mt_max t * 2\<rparr>) st
                  in and_then
                       (case old_array of
                          At_phys old \<Rightarrow>
                            remove_range_with (memblock_double_array n) st1 RESERVED old old_alloc_size
                        | _ \<Rightarrow> Inr (st1, 0))
                       (\<lambda>(st2, _).
                          and_then (add_range_with (memblock_double_array n) st2 RESERVED addr new_alloc_size
                                      MAX_NUMNODES 0)
                            (\<lambda>(st3, r). if r \<noteq> 0 then Inl Bug else Inr (st3, 0)))))"

text \<open>
  Doubling the memory array may double the reserved array; doubling the reserved array
  makes room before it reserves. For the reserved array every depth from one on is shown to be
  enough (\<open>Memblock_Growth\<close>); depth two adds the one level that the memory array needs above it.
\<close>

definition dbl_depth :: nat where
  "dbl_depth = 2"

definition memblock_add_range ::
    "memblock \<Rightarrow> mt_sel \<Rightarrow> phys_addr_t \<Rightarrow> phys_addr_t \<Rightarrow> int \<Rightarrow> memblock_flags \<Rightarrow> (memblock \<times> int) res" where
  "memblock_add_range = add_range_with (memblock_double_array dbl_depth)"

definition memblock_isolate_range ::
    "memblock \<Rightarrow> mt_sel \<Rightarrow> phys_addr_t \<Rightarrow> phys_addr_t \<Rightarrow> (memblock \<times> int \<times> nat \<times> nat) res" where
  "memblock_isolate_range = isolate_range_with (memblock_double_array dbl_depth)"

definition memblock_remove_range ::
    "memblock \<Rightarrow> mt_sel \<Rightarrow> phys_addr_t \<Rightarrow> phys_addr_t \<Rightarrow> (memblock \<times> int) res" where
  "memblock_remove_range = remove_range_with (memblock_double_array dbl_depth)"

definition memblock_add_node :: "memblock \<Rightarrow> phys_addr_t \<Rightarrow> phys_addr_t \<Rightarrow> int \<Rightarrow> (memblock \<times> int) res" where
  "memblock_add_node st base sz nid = memblock_add_range st MEMORY base sz nid 0"

definition memblock_add :: "memblock \<Rightarrow> phys_addr_t \<Rightarrow> phys_addr_t \<Rightarrow> (memblock \<times> int) res" where
  "memblock_add st base sz = memblock_add_range st MEMORY base sz MAX_NUMNODES 0"

definition memblock_reserve :: "memblock \<Rightarrow> phys_addr_t \<Rightarrow> phys_addr_t \<Rightarrow> (memblock \<times> int) res" where
  "memblock_reserve st base sz = memblock_add_range st RESERVED base sz MAX_NUMNODES 0"

definition memblock_remove :: "memblock \<Rightarrow> phys_addr_t \<Rightarrow> phys_addr_t \<Rightarrow> (memblock \<times> int) res" where
  "memblock_remove st base sz = memblock_remove_range st MEMORY base sz"

definition memblock_free :: "memblock \<Rightarrow> phys_addr_t \<Rightarrow> phys_addr_t \<Rightarrow> (memblock \<times> int) res" where
  "memblock_free st base sz = memblock_remove_range st RESERVED base sz"

section \<open>The invariant of an array\<close>

definition dummy_only :: "memblock_type \<Rightarrow> bool" where
  "dummy_only t \<longleftrightarrow> (case mt_regions t of [r] \<Rightarrow> rgn_base r = 0 \<and> rgn_size r = 0 | _ \<Rightarrow> False)"

definition mt_ok :: "memblock_type \<Rightarrow> bool" where
  "mt_ok t \<longleftrightarrow> mt_regions t \<noteq> [] \<and> mt_cnt t \<le> mt_max t \<and> 4 \<le> mt_max t \<and>
     mt_total_size t = sum_list (map rgn_size (mt_regions t)) \<and>
     (dummy_only t \<or> regions_from 0 (mt_regions t))"

definition live :: "memblock_type \<Rightarrow> memblock_region list" where
  "live t = (if dummy_only t then [] else mt_regions t)"

definition attr_of :: "memblock_type \<Rightarrow> phys_addr_t \<rightharpoonup> memblock_flags \<times> int" where
  "attr_of t = attr_at (mt_regions t)"

lemma dummy_onlyE:
  assumes "dummy_only t"
  obtains r where "mt_regions t = [r]" and "rgn_base r = 0" and "rgn_size r = 0"
  using assms by (auto simp: dummy_only_def split: list.splits)

lemma attr_of_live: "attr_of t = attr_at (live t)"
  by (rule ext) (auto simp: attr_of_def live_def elim!: dummy_onlyE)

lemma live_regions_from: "mt_ok t \<Longrightarrow> regions_from 0 (live t)"
  by (auto simp: mt_ok_def live_def)

lemma mt_ok_first_zero:
  assumes "mt_ok t"
  shows "rgn_size (mt_regions t ! 0) = 0 \<longleftrightarrow> dummy_only t"
proof (cases "dummy_only t")
  case True
  then show ?thesis by (auto elim: dummy_onlyE)
next
  case False
  with assms have "regions_from 0 (mt_regions t)" "mt_regions t \<noteq> []" by (auto simp: mt_ok_def)
  then show ?thesis using False by (cases "mt_regions t") auto
qed

lemma mt_ok_sorted: "mt_ok t \<Longrightarrow> mt_sorted t"
proof -
  assume ok: "mt_ok t"
  show ?thesis
  proof (cases "dummy_only t")
    case True
    then show ?thesis by (auto simp: mt_sorted_def elim!: dummy_onlyE)
  next
    case False
    with ok have "regions_from 0 (mt_regions t)" by (simp add: mt_ok_def)
    then show ?thesis
      using regions_from_sorted_wrt regions_from_ge by (auto simp: mt_sorted_def intro: less_imp_le)
  qed
qed

lemma get_put_type [simp]: "get_type w (put_type w t st) = t"
  by (cases w) auto

lemma get_put_type_other: "w \<noteq> w' \<Longrightarrow> get_type w' (put_type w t st) = get_type w' st"
  by (cases w; cases w') auto

lemma put_get_type [simp]: "put_type w (get_type w st) st = st"
  by (cases w) auto

lemma put_put_type [simp]: "put_type w t (put_type w t' st) = put_type w t st"
  by (cases w) auto

lemma cap_size_no_wrap:
  assumes "sz = memblock_cap_size base sz0" and "sz \<noteq> 0"
  shows "base < base + sz"
proof -
  have "sz \<le> PHYS_ADDR_MAX - base" using assms(1) by (simp add: memblock_cap_size_def)
  then have "base \<le> base + sz" by (intro word_block_fits [of _ PHYS_ADDR_MAX]) auto
  with assms(2) show ?thesis by (simp add: order_less_le)
qed

section \<open>Adding a range when the array has room\<close>

text \<open>The number of entries the array has after the insertion pass.\<close>

definition room_needed ::
    "memblock_type \<Rightarrow> phys_addr_t \<Rightarrow> phys_addr_t \<Rightarrow> int \<Rightarrow> memblock_flags \<Rightarrow> nat" where
  "room_needed t base sz nid flags = length (fill_gaps nid flags (base + sz) base (live t))"

text \<open>
  The contract of \<open>memblock_add_range\<close>: the addresses of the range that had no attributes
  get the new ones, and nothing else changes.
\<close>

definition added ::
    "memblock_type \<Rightarrow> memblock_type \<Rightarrow> phys_addr_t \<Rightarrow> phys_addr_t \<Rightarrow> int \<Rightarrow> memblock_flags \<Rightarrow> bool" where
  "added t t' base sz nid flags \<longleftrightarrow>
     mt_ok t' \<and> mt_max t' = mt_max t \<and> mt_array t' = mt_array t \<and> mt_name t' = mt_name t \<and>
     (\<forall>a. attr_of t' a =
        (case attr_of t a of Some v \<Rightarrow> Some v
         | None \<Rightarrow> if base \<le> a \<and> a < base + sz then Some (flags, nid) else None)) \<and>
     (minimal (mt_regions t) \<longrightarrow> minimal (mt_regions t')) \<and>
     mt_cnt t' \<le> max (mt_cnt t) (room_needed t base sz nid flags)"

lemma fill_gaps_same:
  "length (fill_gaps nid fl e b rs) = length rs \<Longrightarrow> fill_gaps nid fl e b rs = rs"
proof (induction rs arbitrary: b)
  case (Cons r rs)
  then show ?case
    using length_fill_gaps_ge [of rs nid fl e "min (rgn_end r) e"] by (auto split: if_splits)
qed (auto split: if_splits)

lemma merge_fill_ok:
  assumes "mt_ok t" and "\<not> dummy_only t" and "base < e"
    and "length (fill_gaps nid flags e base (mt_regions t)) \<le> mt_max t"
  defines "t' \<equiv> t\<lparr>mt_regions := merge_list (fill_gaps nid flags e base (mt_regions t)),
                mt_total_size := sum_list (map rgn_size (fill_gaps nid flags e base (mt_regions t)))\<rparr>"
  shows "mt_ok t'"
proof -
  let ?f = "fill_gaps nid flags e base (mt_regions t)"
  have "regions_from 0 ?f"
    using assms by (intro fill_gaps_regions_from) (auto simp: mt_ok_def)
  then have "regions_from 0 (merge_list ?f)" by (rule merge_list_regions_from)
  moreover have "?f \<noteq> []" using length_fill_gaps_ge [of "mt_regions t" nid flags e base] assms(1)
    by (auto simp: mt_ok_def)
  ultimately show ?thesis
    using assms merge_list_length [of ?f] by (auto simp: mt_ok_def mt_cnt_def merge_list_sizes)
qed

lemma add_range_first:
  assumes "mt_ok (get_type w st)" and "sz = memblock_cap_size base sz0" and "sz \<noteq> 0"
    and "dummy_only (get_type w st)"
  shows "\<exists>t'. add_range_with dbl st w base sz0 nid flags = Inr (put_type w t' st, 0) \<and>
           added (get_type w st) t' base sz nid flags"
proof -
  let ?t = "get_type w st"
  obtain r where r: "mt_regions ?t = [r]" "rgn_base r = 0" "rgn_size r = 0"
    using assms(4) by (rule dummy_onlyE)
  note lt = cap_size_no_wrap [OF assms(2,3)]
  define t' where "t' = ?t\<lparr>mt_regions := [mk_region base sz nid flags], mt_total_size := sz\<rparr>"
  have "add_range_with dbl st w base sz0 nid flags = Inr (put_type w t' st, 0)"
    using assms(2,3) r by (simp add: add_range_with_def t'_def mk_region_def Let_def)
  moreover have "added ?t t' base sz nid flags"
    using assms(1) r lt by (auto simp: added_def mt_ok_def t'_def mt_cnt_def attr_of_def max_def)
  ultimately show ?thesis by blast
qed

lemma add_range_insert:
  assumes "mt_ok t" and "\<not> dummy_only t" and "base < e"
    and "length (fill_gaps nid flags e base (mt_regions t)) \<le> mt_max t"
  shows "and_then (add_range_pass True nid flags base e t)
           (\<lambda>(nr, t2). if nr = 0 then Inr t2 else memblock_merge_regions t2) =
         Inr (if length (fill_gaps nid flags e base (mt_regions t)) = mt_cnt t then t
              else t\<lparr>mt_regions := merge_list (fill_gaps nid flags e base (mt_regions t)),
                     mt_total_size := sum_list (map rgn_size (fill_gaps nid flags e base (mt_regions t)))\<rparr>)"
proof -
  let ?f = "fill_gaps nid flags e base (mt_regions t)"
  have ge: "mt_cnt t \<le> length ?f" using length_fill_gaps_ge by (simp add: mt_cnt_def)
  have tot: "mt_total_size t = sum_list (map rgn_size (mt_regions t))" using assms(1) by (simp add: mt_ok_def)
  have "regions_from 0 ?f"
    using assms by (intro fill_gaps_regions_from) (auto simp: mt_ok_def)
  then have m: "memblock_merge_regions (t\<lparr>mt_regions := ?f, mt_total_size := z\<rparr>) =
      Inr (t\<lparr>mt_regions := merge_list ?f, mt_total_size := z\<rparr>)" for z
    by (subst merge_regions_list [of 0]) auto
  show ?thesis
  proof (cases "length ?f = mt_cnt t")
    case True
    then have "?f = mt_regions t" by (intro fill_gaps_same) (simp add: mt_cnt_def)
    then show ?thesis using assms(4) tot by (simp add: add_range_pass_insert True mt_cnt_def)
  next
    case False
    then show ?thesis using assms(4) ge tot by (simp add: add_range_pass_insert m)
  qed
qed

lemma added_merge_fill:
  assumes "mt_ok t" and "\<not> dummy_only t" and "base < base + sz"
    and "length (fill_gaps nid flags (base + sz) base (mt_regions t)) \<le> mt_max t"
  shows "added t (t\<lparr>mt_regions := merge_list (fill_gaps nid flags (base + sz) base (mt_regions t)),
                mt_total_size := sum_list (map rgn_size (fill_gaps nid flags (base + sz) base (mt_regions t)))\<rparr>)
           base sz nid flags"
proof -
  let ?f = "fill_gaps nid flags (base + sz) base (mt_regions t)"
  have reg: "regions_from 0 (mt_regions t)" using assms(1,2) by (simp add: mt_ok_def)
  have regf: "regions_from 0 ?f"
    using assms reg by (intro fill_gaps_regions_from) auto
  have "attr_at (merge_list ?f) a = (case attr_at (mt_regions t) a of Some v \<Rightarrow> Some v
         | None \<Rightarrow> if base \<le> a \<and> a < base + sz then Some (flags, nid) else None)" for a
    using merge_list_attr [OF regf] fill_gaps_attr [OF reg, of base "base + sz"] assms(3) by simp
  then show ?thesis
    using merge_fill_ok [OF assms] merge_list_minimal [of ?f] merge_list_length [of ?f] assms(2)
    by (simp add: added_def attr_of_def room_needed_def live_def mt_cnt_def)
qed

lemma added_refl:
  assumes "mt_ok t" and "\<not> dummy_only t" and "base < base + sz"
    and "length (fill_gaps nid flags (base + sz) base (mt_regions t)) = mt_cnt t"
  shows "added t t base sz nid flags"
proof -
  have "fill_gaps nid flags (base + sz) base (mt_regions t) = mt_regions t"
    using assms(4) by (intro fill_gaps_same) (simp add: mt_cnt_def)
  then have "attr_at (mt_regions t) a = (case attr_at (mt_regions t) a of Some v \<Rightarrow> Some v
         | None \<Rightarrow> if base \<le> a \<and> a < base + sz then Some (flags, nid) else None)" for a
    using fill_gaps_attr [of 0 "mt_regions t" base "base + sz" nid flags a] assms
    by (simp add: mt_ok_def)
  then show ?thesis using assms(1) by (simp add: added_def attr_of_def)
qed

lemma add_range_with_grow:
  fixes nid flags
  assumes "mt_ok (get_type w st)" and "sz = memblock_cap_size base sz0" and "sz \<noteq> 0"
    and "\<not> dummy_only (get_type w st)"
  defines "nr \<equiv> length (fill_gaps nid flags (base + sz) base (mt_regions (get_type w st))) - mt_cnt (get_type w st)"
  shows "add_range_with dbl st w base sz0 nid flags =
    (if nr = 0 then Inr (st, 0)
     else and_then (grow_loop grow_fuel dbl st w nr base sz)
       (\<lambda>(st1, r). if r < 0 then Inr (st1, r)
          else and_then (insert_merge base (base + sz) nid flags (get_type w st1))
                 (\<lambda>t. Inr (put_type w t st1, 0))))"
proof -
  have "rgn_size (mt_regions (get_type w st) ! 0) \<noteq> 0"
    using mt_ok_first_zero [OF assms(1)] assms(4) by simp
  then show ?thesis
    using assms(3) by (simp add: add_range_with_def Let_def add_range_pass_count nr_def assms(2) [symmetric])
qed

lemma grow_loop_room: "mt_cnt (get_type w st) + nr \<le> mt_max (get_type w st) \<Longrightarrow> 0 < n \<Longrightarrow>
    grow_loop n dbl st w nr base sz = Inr (st, 0)"
  by (cases n) auto

lemma insert_merge_added:
  assumes "mt_ok t" and "\<not> dummy_only t" and "base < base + sz"
    and "length (fill_gaps nid flags (base + sz) base (mt_regions t)) \<le> mt_max t"
  shows "\<exists>t'. insert_merge base (base + sz) nid flags t = Inr t' \<and> added t t' base sz nid flags"
  unfolding insert_merge_def add_range_insert [OF assms]
  using added_refl [OF assms(1-3)] added_merge_fill [OF assms] by auto

lemma fill_gaps_length_Suc: "length (fill_gaps nid fl e b rs) \<le> 2 * length rs + 1"
proof (induction rs arbitrary: b)
  case (Cons r rs)
  show ?case using Cons [of b] Cons [of "min (rgn_end r) e"] by simp
qed simp

lemma add_range_fits_nonempty:
  assumes "mt_ok (get_type w st)" and "sz = memblock_cap_size base sz0" and "sz \<noteq> 0"
    and "room_needed (get_type w st) base sz nid flags \<le> mt_max (get_type w st)"
  shows "\<exists>t'. add_range_with dbl st w base sz0 nid flags = Inr (put_type w t' st, 0) \<and>
           added (get_type w st) t' base sz nid flags"
proof (cases "dummy_only (get_type w st)")
  case True
  then show ?thesis using add_range_first [OF assms(1-3)] by blast
next
  case False
  let ?t = "get_type w st"
  let ?f = "fill_gaps nid flags (base + sz) base (mt_regions ?t)"
  note lt = cap_size_no_wrap [OF assms(2,3)]
  have room: "length ?f \<le> mt_max ?t" using assms(4) False by (simp add: room_needed_def live_def)
  have ge: "mt_cnt ?t \<le> length ?f" using length_fill_gaps_ge by (simp add: mt_cnt_def)
  obtain t' where t': "insert_merge base (base + sz) nid flags ?t = Inr t'" "added ?t t' base sz nid flags"
    using insert_merge_added [OF assms(1) False lt room] by blast
  show ?thesis
  proof (cases "length ?f = mt_cnt ?t")
    case True
    then show ?thesis
      using add_range_with_grow [OF assms(1-3) False, of dbl nid flags] added_refl [OF assms(1) False lt]
      by (intro exI [of _ ?t]) simp
  next
    case neq: False
    have "grow_loop grow_fuel dbl st w (length ?f - mt_cnt ?t) base sz = Inr (st, 0)"
      using room ge by (intro grow_loop_room) (auto simp: grow_fuel_def)
    then show ?thesis
      using add_range_with_grow [OF assms(1-3) False, of dbl nid flags] t' neq ge
      by (intro exI [of _ t']) simp
  qed
qed

lemma added_nothing: "mt_ok t \<Longrightarrow> added t t base 0 nid flags"
  by (auto simp: added_def split: option.splits)

lemma add_range_fits:
  assumes "mt_ok (get_type w st)" and "sz = memblock_cap_size base sz0"
    and "room_needed (get_type w st) base sz nid flags \<le> mt_max (get_type w st)"
  shows "\<exists>t'. add_range_with dbl st w base sz0 nid flags = Inr (put_type w t' st, 0) \<and>
           added (get_type w st) t' base sz nid flags"
proof (cases "sz = 0")
  case True
  with assms show ?thesis
    by (intro exI [of _ "get_type w st"]) (simp add: add_range_with_def Let_def added_nothing)
next
  case False
  then show ?thesis using add_range_fits_nonempty [OF assms(1,2) _ assms(3)] by blast
qed

section \<open>Isolating and removing a range when the array has room\<close>

lemma isolate_dummy:
  assumes "dummy_only t"
  shows "isolate_loop base e 0 0 0 t = Inr (0, 0, t)"
proof -
  obtain r where r: "mt_regions t = [r]" "rgn_base r = 0" "rgn_size r = 0"
    using assms by (rule dummy_onlyE)
  show ?thesis
    by (subst isolate_loop.simps, subst isolate_loop.simps) (auto simp: mt_cnt_def r Let_def)
qed

text \<open>The isolated array: its regions and the index range of those inside \<open>[base, e)\<close>.\<close>

definition isolated :: "phys_addr_t \<Rightarrow> phys_addr_t \<Rightarrow> memblock_type \<Rightarrow> memblock_type" where
  "isolated base e t = (if dummy_only t then t else t\<lparr>mt_regions := isolate_list base e (mt_regions t)\<rparr>)"

definition iso_first :: "phys_addr_t \<Rightarrow> phys_addr_t \<Rightarrow> memblock_type \<Rightarrow> nat" where
  "iso_first base e t = (if iso_mid base e (live t) = [] then 0 else length (iso_low base e (live t)))"

definition iso_last :: "phys_addr_t \<Rightarrow> phys_addr_t \<Rightarrow> memblock_type \<Rightarrow> nat" where
  "iso_last base e t =
     (if iso_mid base e (live t) = [] then 0
      else length (iso_low base e (live t)) + length (iso_mid base e (live t)))"

lemma iso_parts_Nil [simp]: "iso_mid base e [] = []" "iso_low base e [] = []" "iso_high base e [] = []"
  by (simp_all add: iso_mid_def iso_low_def iso_high_def iso_rest_def isolate_list_def)

lemma isolate_loop_isolated:
  assumes "mt_ok t" and "base < e" and "mt_cnt t + 2 \<le> mt_max t"
  shows "isolate_loop base e 0 0 0 t = Inr (iso_first base e t, iso_last base e t, isolated base e t)"
proof (cases "dummy_only t")
  case True
  then show ?thesis by (simp add: isolate_dummy iso_first_def iso_last_def isolated_def live_def)
next
  case False
  with assms(1) have reg: "regions_from 0 (mt_regions t)" by (simp add: mt_ok_def)
  have "length (isolate_list base e (mt_regions t)) \<le> mt_max t"
    using isolate_list_length [of base e "mt_regions t"] assms(3) by (simp add: mt_cnt_def)
  then show ?thesis
    using isolate_loop_list [of t "[]" "mt_regions t" 0 base e] reg assms(2) False
    by (simp add: Let_def iso_low_length iso_mid_length iso_first_def iso_last_def isolated_def live_def)
qed

lemma isolate_range_fits:
  assumes "mt_ok (get_type w st)" and "sz = memblock_cap_size base sz0" and "sz \<noteq> 0"
    and "mt_cnt (get_type w st) + 2 \<le> mt_max (get_type w st)"
  shows "isolate_range_with dbl st w base sz0 =
    Inr (put_type w (isolated base (base + sz) (get_type w st)) st, 0,
         iso_first base (base + sz) (get_type w st), iso_last base (base + sz) (get_type w st))"
  using assms isolate_loop_isolated [OF assms(1) cap_size_no_wrap [OF assms(2,3)] assms(4)]
  by (simp add: isolate_range_with_def grow_loop_room grow_fuel_def Let_def)

lemma remove_regions_down_parts:
  assumes "mt_regions t = xs @ mid @ zs" and "mid \<noteq> []"
  shows "remove_regions_down t (length xs) (length xs + length mid) =
    t\<lparr>mt_regions := (if xs @ zs = [] then [empty_region] else xs @ zs),
      mt_total_size := mt_total_size t - sum_list (map rgn_size mid)\<rparr>"
  using assms
proof (induction mid arbitrary: t rule: rev_induct)
  case (snoc m mid)
  define t1 where "t1 = memblock_remove_region t (length xs + length mid)"
  have rm: "t1 = t\<lparr>mt_total_size := mt_total_size t - rgn_size m,
      mt_regions := if xs @ mid @ zs = [] then [empty_region] else xs @ mid @ zs\<rparr>"
    using snoc.prems(1) by (simp add: t1_def memblock_remove_region_def nth_append Let_def)
  have step: "remove_regions_down t (length xs) (length xs + length (mid @ [m])) =
      remove_regions_down t1 (length xs) (length xs + length mid)" by (simp add: t1_def)
  show ?case
  proof (cases "mid = []")
    case True
    have "remove_regions_down t1 (length xs) (length xs) = t1" by (cases "length xs") auto
    then show ?thesis unfolding step using True by (simp add: rm)
  next
    case False
    then have "mt_regions t1 = xs @ mid @ zs" by (simp add: rm)
    from snoc.IH [OF this False] show ?thesis unfolding step using False by (simp add: rm algebra_simps)
  qed
qed simp

text \<open>The contract of \<open>memblock_remove_range\<close>: exactly the range loses its attributes.\<close>

definition removed :: "memblock_type \<Rightarrow> memblock_type \<Rightarrow> phys_addr_t \<Rightarrow> phys_addr_t \<Rightarrow> bool" where
  "removed t t' base sz \<longleftrightarrow>
     mt_ok t' \<and> mt_max t' = mt_max t \<and> mt_array t' = mt_array t \<and> mt_name t' = mt_name t \<and>
     (\<forall>a. attr_of t' a = (if base \<le> a \<and> a < base + sz then None else attr_of t a)) \<and>
     mt_cnt t' \<le> mt_cnt t + 2"

lemma isolated_ok:
  assumes "mt_ok t" and "mt_cnt t + 2 \<le> mt_max t"
  shows "mt_ok (isolated base e t)"
  using assms isolate_list_regions_from [of 0 "mt_regions t" base e]
    isolate_list_sizes [of base e "mt_regions t"] isolate_list_length [of base e "mt_regions t"]
  by (auto simp: mt_ok_def isolated_def mt_cnt_def)

lemma isolated_attr: "mt_ok t \<Longrightarrow> attr_of (isolated base e t) = attr_of t"
  by (rule ext) (auto simp: mt_ok_def isolated_def attr_of_def isolate_list_attr)

lemma isolated_removed:
  assumes "mt_ok t" and "base < base + sz" and "mt_cnt t + 2 \<le> mt_max t"
  shows "removed t (remove_regions_down (isolated base (base + sz) t)
           (iso_first base (base + sz) t) (iso_last base (base + sz) t)) base sz"
proof (cases "iso_mid base (base + sz) (live t) = []")
  case True
  let ?t = "isolated base (base + sz) t"
  have reg: "regions_from 0 (live t)" using assms(1) by (rule live_regions_from)
  have "attr_of t a = None" if "base \<le> a" "a < base + sz" for a
  proof -
    have "isolate_list base (base + sz) (live t) = iso_low base (base + sz) (live t) @ iso_high base (base + sz) (live t)"
      using isolate_list_parts [of base "base + sz" "live t"] True by simp
    then show ?thesis
      using iso_remove_attr [OF reg assms(2), of a] isolate_list_attr [OF reg, of base "base + sz" a] that
      by (simp add: attr_of_live)
  qed
  moreover have "mt_max ?t = mt_max t" "mt_array ?t = mt_array t" "mt_name ?t = mt_name t"
    by (simp_all add: isolated_def)
  moreover have "mt_cnt ?t \<le> mt_cnt t + 2"
    using isolate_list_length [of base "base + sz" "mt_regions t"] by (simp add: isolated_def mt_cnt_def)
  ultimately show ?thesis
    using isolated_ok [OF assms(1,3)] isolated_attr [OF assms(1)] True
    by (simp add: removed_def iso_first_def iso_last_def)
next
  case False
  then have nd: "\<not> dummy_only t" by (auto simp: live_def)
  let ?e = "base + sz" and ?rs = "mt_regions t"
  have lv: "live t = ?rs" using nd by (simp add: live_def)
  have reg: "regions_from 0 ?rs" and tot: "mt_total_size t = sum_list (map rgn_size ?rs)"
    using assms(1) nd by (simp_all add: mt_ok_def)
  let ?lo = "iso_low base ?e ?rs" and ?mid = "iso_mid base ?e ?rs" and ?hi = "iso_high base ?e ?rs"
  let ?t' = "t\<lparr>mt_regions := (if ?lo @ ?hi = [] then [empty_region] else ?lo @ ?hi),
      mt_total_size := mt_total_size t - sum_list (map rgn_size ?mid)\<rparr>"
  have parts: "isolate_list base ?e ?rs = ?lo @ ?mid @ ?hi" by (rule isolate_list_parts)
  have eq: "remove_regions_down (isolated base ?e t) (iso_first base ?e t) (iso_last base ?e t) = ?t'"
    using remove_regions_down_parts [of "isolated base ?e t" ?lo ?mid ?hi] False nd parts lv
    by (simp add: isolated_def iso_first_def iso_last_def)
  have sizes: "mt_total_size t - sum_list (map rgn_size ?mid) = sum_list (map rgn_size (?lo @ ?hi))"
    using isolate_list_sizes [of base ?e ?rs] tot unfolding parts by (simp add: algebra_simps)
  have "regions_from 0 (?lo @ ?mid @ ?hi)" using isolate_list_regions_from [OF reg, of base ?e] parts by simp
  then have reg': "regions_from 0 (?lo @ ?hi)" by (rule regions_from_remove)
  have len: "length (?lo @ ?hi) \<le> mt_cnt t + 2"
    using isolate_list_length [of base ?e ?rs] unfolding parts by (simp add: mt_cnt_def)
  then have "mt_ok ?t'" using assms(1,3) reg' sizes
    by (auto simp: mt_ok_def mt_cnt_def dummy_only_def empty_region_def)
  moreover have "attr_of ?t' a = attr_at (?lo @ ?hi) a" for a
    by (simp add: attr_of_def empty_region_def)
  ultimately show ?thesis
    using iso_remove_attr [OF reg assms(2)] len unfolding eq
    by (auto simp: removed_def attr_of_def mt_cnt_def)
qed

lemma removed_nothing: "mt_ok t \<Longrightarrow> removed t t base 0"
  by (auto simp: removed_def)

lemma remove_range_fits:
  assumes "mt_ok (get_type w st)" and "sz = memblock_cap_size base sz0"
    and "mt_cnt (get_type w st) + 2 \<le> mt_max (get_type w st)"
  shows "\<exists>t'. remove_range_with dbl st w base sz0 = Inr (put_type w t' st, 0) \<and>
           removed (get_type w st) t' base sz"
proof (cases "sz = 0")
  case True
  have "remove_regions_down t 0 0 = t" for t by simp
  with True assms show ?thesis
    by (intro exI [of _ "get_type w st"])
      (simp add: remove_range_with_def isolate_range_with_def Let_def removed_nothing)
next
  case False
  show ?thesis
    using isolate_range_fits [OF assms(1,2) False assms(3), of dbl]
      isolated_removed [OF assms(1) cap_size_no_wrap [OF assms(2) False] assms(3)]
    by (auto simp: remove_range_with_def)
qed

section \<open>Where a free area is found\<close>

lemma attr_at_iff: "attr_at rs a = None \<longleftrightarrow> (\<forall>r\<in>set rs. a \<notin> rgn_range r)"
  by (induction rs) (auto simp: rgn_range_def)

lemma free_mem_area_attr:
  "x \<in> free_mem_area nid flags memory reserved \<Longrightarrow> attr_of memory x \<noteq> None \<and> attr_of reserved x = None"
  by (auto simp: free_mem_area_def attr_of_def attr_at_iff)

definition cnt_small :: "memblock \<Rightarrow> bool" where
  "cnt_small st \<longleftrightarrow> mt_cnt (mb_memory st) < 2 ^ 31 \<and> mt_cnt (mb_reserved st) < 2 ^ 31"

definition types_ok :: "memblock \<Rightarrow> bool" where
  "types_ok st \<longleftrightarrow> mt_ok (mb_memory st) \<and> mt_ok (mb_reserved st)"

lemma types_ok_arrays: "types_ok st \<Longrightarrow> cnt_small st \<Longrightarrow> arrays_ok (mb_memory st) (mb_reserved st)"
  by (simp add: types_ok_def cnt_small_def arrays_ok_def mt_ok_sorted)

text \<open>The window that \<open>memblock_find_in_range_node\<close> searches.\<close>

definition win_start :: "phys_addr_t \<Rightarrow> phys_addr_t" where
  "win_start start = max start PAGE_SIZE"

definition win_end :: "memblock \<Rightarrow> phys_addr_t \<Rightarrow> phys_addr_t \<Rightarrow> phys_addr_t" where
  "win_end st start e =
     max (win_start start) (if e = MEMBLOCK_ALLOC_ACCESSIBLE then mb_current_limit st else e)"

definition found_block ::
    "memblock \<Rightarrow> int \<Rightarrow> memblock_flags \<Rightarrow> phys_addr_t \<Rightarrow> phys_addr_t \<Rightarrow> phys_addr_t \<Rightarrow> phys_addr_t \<Rightarrow> phys_addr_t \<Rightarrow> bool" where
  "found_block st nid flags start e sz align c \<longleftrightarrow>
     free_block nid flags (mb_memory st) (mb_reserved st) (win_start start) (win_end st start e) sz align c"

lemma free_block_mono:
  "free_block nid flags m r s e sz al c \<Longrightarrow> s' \<le> s \<Longrightarrow> free_block nid flags m r s' e sz al c"
  by (auto simp: free_block_def block_in_def)

lemma find_in_range_node_block:
  assumes "types_ok st" and "cnt_small st" and "sz \<noteq> 0" and "k < 64"
  shows "\<exists>c. memblock_find_in_range_node st sz (2 ^ k) start e nid flags = Inr c \<and>
    (c \<noteq> 0 \<longrightarrow> found_block st nid flags start e sz (2 ^ k) c)"
proof -
  note arr = types_ok_arrays [OF assms(1,2)]
  obtain d where d: "memblock_find_range_top_down (mb_memory st) (mb_reserved st) (win_start start)
      (win_end st start e) sz (2 ^ k) nid flags = Inr d" "d \<noteq> 0 \<longrightarrow> found_block st nid flags start e sz (2 ^ k) d"
    using find_range_top_down_block [OF arr assms(3)] unfolding found_block_def by blast
  obtain u where u: "memblock_find_range_bottom_up (mb_memory st) (mb_reserved st)
      (max (win_start start) (mb_kernel_end st)) (win_end st start e) sz (2 ^ k) nid flags = Inr u"
    "u \<noteq> 0 \<longrightarrow> found_block st nid flags start e sz (2 ^ k) u"
    using find_range_bottom_up_block [OF arr assms(4), of "max (win_start start) (mb_kernel_end st)"
        "win_end st start e" sz nid flags] free_block_mono
    unfolding found_block_def by fastforce
  show ?thesis
    using d u by (auto simp: memblock_find_in_range_node_def win_start_def win_end_def Let_def)
qed

lemma find_in_range_block:
  assumes "types_ok st" and "cnt_small st" and "sz \<noteq> 0" and "k < 64"
  shows "\<exists>c. memblock_find_in_range st start e sz (2 ^ k) = Inr c \<and>
    (c \<noteq> 0 \<longrightarrow> (\<exists>flags. found_block st NUMA_NO_NODE flags start e sz (2 ^ k) c))"
proof -
  note node = find_in_range_node_block [OF assms, of start e NUMA_NO_NODE]
  let ?f = "choose_memblock_flags st"
  obtain c where c: "memblock_find_in_range_node st sz (2 ^ k) start e NUMA_NO_NODE ?f = Inr c"
    "c \<noteq> 0 \<longrightarrow> found_block st NUMA_NO_NODE ?f start e sz (2 ^ k) c"
    using node by blast
  obtain d where d: "memblock_find_in_range_node st sz (2 ^ k) start e NUMA_NO_NODE (?f AND NOT MEMBLOCK_MIRROR) = Inr d"
    "d \<noteq> 0 \<longrightarrow> found_block st NUMA_NO_NODE (?f AND NOT MEMBLOCK_MIRROR) start e sz (2 ^ k) d"
    using node by blast
  show ?thesis using c d by (auto simp: memblock_find_in_range_def Let_def)
qed

text \<open>What the callers use of a found block: it does not wrap, lies in memory and is not reserved.\<close>

definition usable :: "memblock \<Rightarrow> phys_addr_t \<Rightarrow> phys_addr_t \<Rightarrow> bool" where
  "usable st c sz \<longleftrightarrow> c \<le> c + sz \<and>
     (\<forall>x. c \<le> x \<and> x < c + sz \<longrightarrow> attr_of (mb_memory st) x \<noteq> None \<and> attr_of (mb_reserved st) x = None)"

lemma found_usable: "found_block st nid flags start e sz al c \<Longrightarrow> usable st c sz"
  unfolding found_block_def free_block_def block_in_def usable_def
  by (meson atLeastLessThan_iff free_mem_area_attr subsetD)

lemma PAGE_SIZE_power: "PAGE_SIZE = 2 ^ 12"
  by (simp add: PAGE_SIZE_def PAGE_SHIFT_def push_bit_eq_mult)

end
