(* ===== verification/Memblock_Growth.thy ===== *)
theory Memblock_Growth
  imports Memblock
begin

unbundle bit_operations_syntax

text \<open>
  The growth of the reserved array (\<open>memblock_double_array\<close> of \<open>mm/memblock.c\<close>) and what
  the operations on that array guarantee when it has to grow. The growth is an interface,
  \<open>reserved_growth\<close>, that the doubling routine of the model implements; the clients are
  proved against the interface.
\<close>

definition array_bytes :: "nat \<Rightarrow> u64" where
  "array_bytes m = PAGE_ALIGN (of_nat m * sizeof_region)"

lemma array_bytes_nonzero:
  assumes "0 < m" and "m < 2 ^ 32"
  shows "array_bytes m \<noteq> 0"
proof -
  have u: "unat (of_nat m * sizeof_region) = m * 24"
    using assms by (simp add: sizeof_region_def unat_word_ariths unat_of_nat take_bit_nat_eq_self)
  then have "m * 24 \<le> unat (array_bytes m)"
    using PAGE_ALIGN_ge [of "of_nat m * sizeof_region"] assms by (simp add: array_bytes_def)
  then show ?thesis using assms by auto
qed


section \<open>Growing the reserved array\<close>

text \<open>The block is clear of the area that is being added.\<close>

definition clear_of :: "phys_addr_t \<Rightarrow> phys_addr_t \<Rightarrow> phys_addr_t \<Rightarrow> phys_addr_t \<Rightarrow> bool" where
  "clear_of c sz base len \<longleftrightarrow> base + len \<le> c \<or> c + sz \<le> base"

lemma double_array_addr_block:
  assumes "types_ok st" and "cnt_small st" and "asz \<noteq> 0"
  shows "\<exists>c. double_array_addr st base len asz = Inr c \<and>
    (c \<noteq> 0 \<longrightarrow> usable st c asz \<and> (base \<noteq> 0 \<and> mb_current_limit st \<noteq> 0 \<longrightarrow> clear_of c asz base len))"
proof -
  have al: "PAGE_SIZE = 2 ^ 12" by (rule PAGE_SIZE_power)
  obtain c where c: "memblock_find_in_range st (base + len) (mb_current_limit st) asz PAGE_SIZE = Inr c"
    "c \<noteq> 0 \<longrightarrow> (\<exists>flags. found_block st NUMA_NO_NODE flags (base + len) (mb_current_limit st) asz PAGE_SIZE c)"
    using find_in_range_block [OF assms, of 12 "base + len" "mb_current_limit st"] unfolding al by auto
  obtain d where d: "memblock_find_in_range st 0 (min base (mb_current_limit st)) asz PAGE_SIZE = Inr d"
    "d \<noteq> 0 \<longrightarrow> (\<exists>flags. found_block st NUMA_NO_NODE flags 0 (min base (mb_current_limit st)) asz PAGE_SIZE d)"
    using find_in_range_block [OF assms, of 12 0 "min base (mb_current_limit st)"] unfolding al by auto
  have cc: "clear_of c asz base len" if "c \<noteq> 0"
    using c that by (auto simp: found_block_def free_block_def block_in_def clear_of_def win_start_def)
  have dd: "clear_of d asz base len" if "d \<noteq> 0" "base \<noteq> 0" "mb_current_limit st \<noteq> 0"
  proof -
    have "min base (mb_current_limit st) \<noteq> MEMBLOCK_ALLOC_ACCESSIBLE"
      using that by (simp add: MEMBLOCK_ALLOC_ACCESSIBLE_def min_def)
    then have b: "PAGE_SIZE \<le> d" "d \<le> d + asz" "d + asz \<le> max PAGE_SIZE (min base (mb_current_limit st))"
      using d(2) that by (auto simp: found_block_def free_block_def block_in_def win_end_def win_start_def)
    have "d < d + asz" using assms(3) b(2) by (simp add: order_less_le)
    then have "\<not> d + asz \<le> PAGE_SIZE" using b(1) by (simp add: linorder_not_le le_less_trans)
    then have "d + asz \<le> min base (mb_current_limit st)" using b(3) by (simp add: le_max_iff_disj)
    then show ?thesis by (simp add: clear_of_def)
  qed
  have uc: "c \<noteq> 0 \<Longrightarrow> usable st c asz" and ud: "d \<noteq> 0 \<Longrightarrow> usable st d asz"
    using c(2) d(2) found_usable by blast+
  show ?thesis
  proof (cases "c = 0 \<and> len \<noteq> 0")
    case True
    then show ?thesis using c(1) d(1) dd ud by (simp add: double_array_addr_def)
  next
    case False
    then show ?thesis using c(1) cc uc by (auto simp: double_array_addr_def)
  qed
qed

text \<open>The addresses that an array occupies when it was allocated from memblock.\<close>

definition array_block :: "memblock_type \<Rightarrow> phys_addr_t set" where
  "array_block t =
     (case mt_array t of
        At_phys a \<Rightarrow> {x. a \<le> x \<and> x < a + memblock_cap_size a (array_bytes (mt_max t))}
      | _ \<Rightarrow> {})"

definition moved_to ::
    "(phys_addr_t \<rightharpoonup> memblock_flags \<times> int) \<Rightarrow> phys_addr_t set \<Rightarrow> phys_addr_t \<Rightarrow> phys_addr_t \<Rightarrow>
     (phys_addr_t \<rightharpoonup> memblock_flags \<times> int)" where
  "moved_to m old c sz x =
     (if c \<le> x \<and> x < c + sz then Some (0, MAX_NUMNODES) else if x \<in> old then None else m x)"

definition res_grown :: "memblock \<Rightarrow> memblock \<Rightarrow> phys_addr_t \<Rightarrow> bool" where
  "res_grown st st' c \<longleftrightarrow>
     (\<exists>t. st' = st\<lparr>mb_reserved := t\<rparr> \<and> mt_ok t \<and> mt_max t = 2 * mt_max (mb_reserved st) \<and>
        mt_array t = At_phys c \<and> mt_name t = mt_name (mb_reserved st) \<and>
        mt_cnt t \<le> mt_cnt (mb_reserved st) + 3 \<and> \<not> dummy_only t \<and>
        attr_of t = moved_to (attr_of (mb_reserved st)) (array_block (mb_reserved st)) c (array_bytes (mt_max t)))"

lemma fill_gaps_free:
  assumes "regions_from lo rs" and "b < e" and "\<And>x. b \<le> x \<Longrightarrow> x < e \<Longrightarrow> attr_at rs x = None"
  shows "length (fill_gaps nid fl e b rs) = length rs + 1"
  using assms(1,3)
proof (induction rs arbitrary: lo)
  case (Cons r rs)
  have r: "rgn_base r < rgn_end r" "regions_from (rgn_end r) rs" using Cons.prems(1) by auto
  have tail: "attr_at rs x = None" if "b \<le> x" "x < e" for x
    using Cons.prems(2) [OF that] by (auto split: if_splits)
  have b: "\<not> (rgn_base r \<le> b \<and> b < rgn_end r)" using Cons.prems(2) [of b] assms(2) by (auto split: if_splits)
  have base: "\<not> (b \<le> rgn_base r \<and> rgn_base r < e)" using Cons.prems(2) [of "rgn_base r"] r by (auto split: if_splits)
  show ?case using Cons.IH [OF r(2) tail] b base assms(2) by auto
qed (use assms(2) in simp)

lemma usable_cap: "usable st c sz \<Longrightarrow> memblock_cap_size c sz = sz"
proof -
  assume "usable st c sz"
  then have "c \<le> c + sz" by (simp add: usable_def)
  then have "sz \<le> PHYS_ADDR_MAX - c"
    by (metis PHYS_ADDR_MAX_def add_diff_cancel_left' le_PHYS_ADDR_MAX word_le_minus_mono_left)
  then show ?thesis by (simp add: memblock_cap_size_def)
qed

lemma array_bytes_double: "PAGE_ALIGN (of_nat m * sizeof_region * 2) = array_bytes (2 * m)"
  by (simp add: array_bytes_def mult_ac)

text \<open>The array with its storage moved and its capacity doubled; the entries are copied.\<close>

definition moved_array :: "phys_addr_t \<Rightarrow> memblock_type \<Rightarrow> memblock_type" where
  "moved_array c t = t\<lparr>mt_array := At_phys c, mt_max := mt_max t * 2\<rparr>"

lemma moved_array_sel [simp]:
  "mt_regions (moved_array c t) = mt_regions t" "mt_max (moved_array c t) = 2 * mt_max t"
  "mt_array (moved_array c t) = At_phys c" "mt_name (moved_array c t) = mt_name t"
  "mt_cnt (moved_array c t) = mt_cnt t" "attr_of (moved_array c t) = attr_of t"
  by (simp_all add: moved_array_def mt_cnt_def attr_of_def)

lemma moved_array_ok: "mt_ok t \<Longrightarrow> mt_ok (moved_array c t)"
  by (auto simp: mt_ok_def moved_array_def mt_cnt_def dummy_only_def)

text \<open>Freeing the old storage when the reserved array has room.\<close>

definition free_old :: "doubling \<Rightarrow> memblock \<Rightarrow> memblock_type \<Rightarrow> (memblock \<times> int) res" where
  "free_old dbl st t =
     (case mt_array t of
        At_phys old \<Rightarrow> remove_range_with dbl st RESERVED old (array_bytes (mt_max t))
      | _ \<Rightarrow> Inr (st, 0))"

lemma double_array_unfold:
  assumes "mb_can_resize st"
  shows "memblock_double_array (Suc n) st w a s =
    and_then (double_array_addr st (if w = RESERVED then a else 0) (if w = RESERVED then s else 0)
                (array_bytes (2 * mt_max (get_type w st))))
      (\<lambda>c. if c = 0 then Inr (st, - 1)
           else and_then (free_old (memblock_double_array n) (put_type w (moved_array c (get_type w st)) st) (get_type w st))
             (\<lambda>(st2, _). and_then (add_range_with (memblock_double_array n) st2 RESERVED c
                                  (array_bytes (2 * mt_max (get_type w st))) MAX_NUMNODES 0)
                (\<lambda>(st3, r). if r \<noteq> 0 then Inl Bug else Inr (st3, 0))))"
  using assms by (simp add: Let_def array_bytes_double array_bytes_def [symmetric] moved_array_def free_old_def cong: if_cong regions_ptr.case_cong)

lemma free_old_room:
  assumes "mt_ok (mb_reserved st)" and "mt_cnt (mb_reserved st) + 2 \<le> mt_max (mb_reserved st)"
  shows "\<exists>t2 r. free_old dbl st t = Inr (st\<lparr>mb_reserved := t2\<rparr>, r) \<and> mt_ok t2 \<and>
    mt_max t2 = mt_max (mb_reserved st) \<and> mt_array t2 = mt_array (mb_reserved st) \<and>
    mt_name t2 = mt_name (mb_reserved st) \<and> mt_cnt t2 \<le> mt_cnt (mb_reserved st) + 2 \<and>
    (\<forall>x. attr_of t2 x = (if x \<in> array_block t then None else attr_of (mb_reserved st) x))"
proof (cases "mt_array t")
  case (At_phys old)
  obtain t2 where "remove_range_with dbl st RESERVED old (array_bytes (mt_max t)) = Inr (put_type RESERVED t2 st, 0)"
    "removed (mb_reserved st) t2 old (memblock_cap_size old (array_bytes (mt_max t)))"
    using remove_range_fits [of RESERVED st _ old "array_bytes (mt_max t)" dbl] assms by auto
  then show ?thesis by (auto simp: free_old_def At_phys removed_def array_block_def)
qed (use assms(1) in \<open>auto simp: free_old_def array_block_def intro!: exI [of _ "mb_reserved st"]\<close>)

lemma reserve_free_block:
  assumes "mt_ok (mb_reserved st)" and "mt_cnt (mb_reserved st) + 1 \<le> mt_max (mb_reserved st)"
    and "c \<le> c + sz" and "sz \<noteq> 0" and "\<And>x. c \<le> x \<Longrightarrow> x < c + sz \<Longrightarrow> attr_of (mb_reserved st) x = None"
  shows "\<exists>t. add_range_with dbl st RESERVED c sz MAX_NUMNODES 0 = Inr (st\<lparr>mb_reserved := t\<rparr>, 0) \<and>
    added (mb_reserved st) t c sz MAX_NUMNODES 0 \<and> mt_cnt t \<le> mt_cnt (mb_reserved st) + 1"
proof -
  let ?t = "mb_reserved st"
  have cap: "sz = memblock_cap_size c sz"
    using usable_cap [of "st\<lparr>mb_memory := ?t\<rparr>" c sz] assms(3)
    by (simp add: memblock_cap_size_def min_def) (metis PHYS_ADDR_MAX_def add_diff_cancel_left' le_PHYS_ADDR_MAX word_le_minus_mono_left)
  have lt: "c < c + sz" using assms(3,4) by (simp add: order_less_le)
  have "room_needed ?t c sz MAX_NUMNODES 0 = length (live ?t) + 1"
    unfolding room_needed_def using assms(5) live_regions_from [OF assms(1)] lt
    by (intro fill_gaps_free) (auto simp: attr_of_live)
  moreover have "length (live ?t) \<le> mt_cnt ?t" by (simp add: live_def mt_cnt_def)
  ultimately have room: "room_needed ?t c sz MAX_NUMNODES 0 \<le> mt_cnt ?t + 1" by simp
  obtain t where t: "add_range_with dbl st RESERVED c sz MAX_NUMNODES 0 = Inr (put_type RESERVED t st, 0)"
    "added ?t t c sz MAX_NUMNODES 0"
    using add_range_fits [of RESERVED st sz c sz MAX_NUMNODES 0 dbl] assms(1,2) cap room by auto
  then have "mt_cnt t \<le> mt_cnt ?t + 1" using room by (auto simp: added_def)
  with t show ?thesis by auto
qed

lemma double_reserved:
  assumes "types_ok st" and "cnt_small st" and "mt_max (mb_reserved st) < 2 ^ 31"
  shows "\<exists>st' r. memblock_double_array (Suc n) st RESERVED a s = Inr (st', r) \<and>
    (r = - 1 \<and> st' = st \<or>
     r = 0 \<and> (\<exists>c. res_grown st st' c \<and> usable st c (array_bytes (2 * mt_max (mb_reserved st))) \<and>
        (a \<noteq> 0 \<and> mb_current_limit st \<noteq> 0 \<longrightarrow> clear_of c (array_bytes (2 * mt_max (mb_reserved st))) a s)))"
proof (cases "mb_can_resize st")
  case True
  let ?t = "mb_reserved st" and ?b = "array_bytes (2 * mt_max (mb_reserved st))"
  have ok: "mt_ok ?t" using assms(1) by (simp add: types_ok_def)
  then have mx: "4 \<le> mt_max ?t" "mt_cnt ?t \<le> mt_max ?t" by (simp_all add: mt_ok_def)
  have nz: "?b \<noteq> 0" using assms(3) mx by (intro array_bytes_nonzero) auto
  obtain c where c: "double_array_addr st a s ?b = Inr c"
    "c \<noteq> 0 \<longrightarrow> usable st c ?b \<and> (a \<noteq> 0 \<and> mb_current_limit st \<noteq> 0 \<longrightarrow> clear_of c ?b a s)"
    using double_array_addr_block [OF assms(1,2) nz] by blast
  show ?thesis
  proof (cases "c = 0")
    case True
    then show ?thesis using c(1) by (simp add: double_array_unfold [OF \<open>mb_can_resize st\<close>] del: memblock_double_array.simps)
  next
    case False
    let ?st1 = "st\<lparr>mb_reserved := moved_array c ?t\<rparr>"
    obtain t2 r2 where t2: "free_old (memblock_double_array n) ?st1 ?t = Inr (?st1\<lparr>mb_reserved := t2\<rparr>, r2)"
      "mt_ok t2" "mt_max t2 = 2 * mt_max ?t" "mt_array t2 = At_phys c" "mt_name t2 = mt_name ?t"
      "mt_cnt t2 \<le> mt_cnt ?t + 2" "\<And>x. attr_of t2 x = (if x \<in> array_block ?t then None else attr_of ?t x)"
      using free_old_room [of ?st1 "memblock_double_array n" ?t] moved_array_ok [OF ok] mx by auto
    have us: "usable st c ?b" using c False by simp
    have none: "attr_of t2 x = None" if "c \<le> x" "x < c + ?b" for x
      using us that t2(7) [of x] by (auto simp: usable_def)
    have bounds: "mt_cnt t2 + 1 \<le> mt_max t2" "c \<le> c + ?b" using t2(3,6) mx us by (auto simp: usable_def)
    obtain t3 where t3: "add_range_with (memblock_double_array n) (st\<lparr>mb_reserved := t2\<rparr>) RESERVED c ?b MAX_NUMNODES 0 =
        Inr (st\<lparr>mb_reserved := t3\<rparr>, 0)" "added t2 t3 c ?b MAX_NUMNODES 0" "mt_cnt t3 \<le> mt_cnt t2 + 1"
      using reserve_free_block [of "st\<lparr>mb_reserved := t2\<rparr>" c ?b "memblock_double_array n"] t2(2) bounds nz none
      by auto
    have "attr_of t3 = moved_to (attr_of ?t) (array_block ?t) c ?b"
      using t3(2) t2(7) us by (intro ext) (auto simp: added_def moved_to_def usable_def split: option.splits)
    moreover have "\<not> dummy_only t3"
    proof
      assume "dummy_only t3"
      then have "attr_of t3 c = None" by (auto simp: attr_of_def elim!: dummy_onlyE)
      moreover have "c < c + ?b" using bounds(2) nz by (simp add: order_less_le)
      ultimately show False using t3(2) by (auto simp: added_def split: option.splits)
    qed
    moreover have "mt_max t3 = 2 * mt_max ?t" "mt_ok t3" "mt_array t3 = At_phys c" "mt_name t3 = mt_name ?t"
      using t3(2) t2 by (simp_all add: added_def)
    ultimately have "res_grown st (st\<lparr>mb_reserved := t3\<rparr>) c"
      unfolding res_grown_def using t3(3) t2(6) by (intro exI [of _ t3]) simp
    moreover have "memblock_double_array (Suc n) st RESERVED a s = Inr (st\<lparr>mb_reserved := t3\<rparr>, 0)"
      unfolding double_array_unfold [OF True] using c(1) False t2(1) t3(1) by simp
    ultimately show ?thesis using c False by blast
  qed
qed simp

subsection \<open>How many entries an addition needs\<close>

text \<open>
  The first uncovered address of every gap of \<open>[b, e)\<close>. Their number is the number of
  regions that the insertion pass creates, so it depends only on what is covered, not on how
  the covered addresses are cut into regions.
\<close>

definition gap_heads :: "phys_addr_t \<Rightarrow> phys_addr_t \<Rightarrow> (phys_addr_t \<Rightarrow> bool) \<Rightarrow> phys_addr_t set" where
  "gap_heads b e cov = {x. b \<le> x \<and> x < e \<and> \<not> cov x \<and> (x = b \<or> cov (x - 1))}"

lemma gap_heads_cong: "(\<And>x. b \<le> x \<Longrightarrow> x < e \<Longrightarrow> cov x = cov' x) \<Longrightarrow> gap_heads b e cov = gap_heads b e cov'"
proof -
  assume eq: "\<And>x. b \<le> x \<Longrightarrow> x < e \<Longrightarrow> cov x = cov' x"
  have "cov (x - 1) = cov' (x - 1)" if "b \<le> x" "x < e" "x \<noteq> b" for x
  proof (rule eq)
    have "x \<noteq> 0" using that by auto
    then show "x - 1 < e" using that word_pred_less [of x e] by (simp add: order_less_imp_le)
    have "b < x" using that by simp
    then show "b \<le> x - 1" using \<open>x \<noteq> 0\<close> by (meson dec_less_imp_less_eq linorder_not_le word_pred_less)
  qed
  then show ?thesis using eq by (auto simp: gap_heads_def)
qed

lemma gap_heads_none: "(\<And>x. b \<le> x \<Longrightarrow> x < e \<Longrightarrow> \<not> cov x) \<Longrightarrow> gap_heads b e cov = (if b < e then {b} else {})"
  using gap_heads_cong [of b e cov "\<lambda>_. False"] by (auto simp: gap_heads_def)

lemma gap_heads_covered:
  assumes "b < m" and "m \<le> e" and "\<And>x. b \<le> x \<Longrightarrow> x < m \<Longrightarrow> cov x"
  shows "gap_heads b e cov = gap_heads m e cov"
proof -
  have "cov (m - 1)"
  proof (rule assms(3))
    have "m \<noteq> 0" using assms(1) by auto
    then show "m - 1 < m" by (intro word_pred_less) auto
    show "b \<le> m - 1" using assms(1) \<open>m \<noteq> 0\<close> by (meson dec_less_imp_less_eq linorder_not_le word_pred_less)
  qed
  have "x \<in> gap_heads b e cov \<longleftrightarrow> x \<in> gap_heads m e cov" for x
  proof (cases "m \<le> x")
    case True
    then show ?thesis using \<open>cov (m - 1)\<close> assms(1) by (auto simp: gap_heads_def)
  next
    case False
    then show ?thesis using assms(3) by (auto simp: gap_heads_def)
  qed
  then show ?thesis by blast
qed

lemma gap_heads_first:
  assumes "b < c" and "c < e" and "\<And>x. b \<le> x \<Longrightarrow> x < c \<Longrightarrow> \<not> cov x" and "cov c"
  shows "gap_heads b e cov = insert b (gap_heads c e cov)" and "b \<notin> gap_heads c e cov"
proof -
  have "\<not> cov (x - 1)" if "b < x" "x < c" for x
  proof (rule assms(3))
    have "x \<noteq> 0" using that by auto
    then show "x - 1 < c" using that by (intro word_pred_less) auto
    show "b \<le> x - 1" using that \<open>x \<noteq> 0\<close> by (meson dec_less_imp_less_eq linorder_not_le word_pred_less)
  qed
  then have "x \<in> gap_heads b e cov \<longleftrightarrow> x = b \<or> x \<in> gap_heads c e cov" for x
    using assms by (cases "x < c"; cases "x = c") (auto simp: gap_heads_def)
  then show "gap_heads b e cov = insert b (gap_heads c e cov)" by auto
  show "b \<notin> gap_heads c e cov" using assms(1) by (auto simp: gap_heads_def)
qed

lemma gap_heads_empty [simp]: "gap_heads b b cov = {}"
  by (auto simp: gap_heads_def)

lemma gap_heads_finite [simp]: "finite (gap_heads b e cov)"
  by (rule finite)

lemma length_fill_gaps:
  assumes "regions_from lo rs" and "b \<le> e"
  shows "length (fill_gaps nid fl e b rs) = length rs + card (gap_heads b e (\<lambda>x. attr_at rs x \<noteq> None))"
  using assms
proof (induction rs arbitrary: lo b)
  case (Cons r rs)
  let ?m = "min (rgn_end r) e"
  let ?cov = "\<lambda>x. attr_at (r # rs) x \<noteq> None" and ?cov' = "\<lambda>x. attr_at rs x \<noteq> None"
  have r: "rgn_base r < rgn_end r" "regions_from (rgn_end r) rs" using Cons.prems by auto
  have beyond: "x < rgn_end r \<Longrightarrow> attr_at rs x = None" for x using r(2) by (rule attr_at_below)
  have same: "gap_heads ?m e ?cov = gap_heads ?m e ?cov'"
  proof (cases "e \<le> rgn_end r")
    case True
    then have "?m = e" by simp
    moreover have "gap_heads e e cov = {}" for cov by (auto simp: gap_heads_def)
    ultimately show ?thesis by (simp only:)
  next
    case False
    then show ?thesis by (intro gap_heads_cong) auto
  qed
  consider (above) "e \<le> rgn_base r" | (below) "\<not> e \<le> rgn_base r" "rgn_end r \<le> b"
    | (gap) "\<not> e \<le> rgn_base r" "\<not> rgn_end r \<le> b" "b < rgn_base r"
    | (cover) "\<not> e \<le> rgn_base r" "\<not> rgn_end r \<le> b" "\<not> b < rgn_base r" by blast
  then show ?case
  proof cases
    case above
    have "\<not> ?cov x" if "x < e" for x
      using that above r(1) beyond [of x] by auto
    then have "gap_heads b e ?cov = (if b < e then {b} else {})" by (intro gap_heads_none) auto
    then show ?thesis using above by (simp del: attr_at.simps)
  next
    case below
    then have "gap_heads b e ?cov = gap_heads b e ?cov'" by (intro gap_heads_cong) auto
    then show ?thesis using Cons.IH [OF r(2) Cons.prems(2)] below by (simp del: attr_at.simps)
  next
    case gap
    have uncov: "\<not> ?cov x" if "x < rgn_base r" for x
      using that r(1) beyond [of x] by auto
    have "gap_heads b e ?cov = insert b (gap_heads (rgn_base r) e ?cov)" "b \<notin> gap_heads (rgn_base r) e ?cov"
      using gap_heads_first [of b "rgn_base r" e ?cov] gap r(1) uncov by (simp_all add: linorder_not_le)
    moreover have "gap_heads (rgn_base r) e ?cov = gap_heads ?m e ?cov"
      using gap r(1) by (intro gap_heads_covered) auto
    ultimately have "card (gap_heads b e ?cov) = Suc (card (gap_heads ?m e ?cov'))"
      using same by (simp del: attr_at.simps)
    then show ?thesis using Cons.IH [OF r(2), of ?m] gap by (simp del: attr_at.simps)
  next
    case cover
    have "gap_heads b e ?cov = gap_heads ?m e ?cov"
    proof (cases "b < ?m")
      case True
      then show ?thesis using cover by (intro gap_heads_covered) auto
    next
      case False
      then have "?m = e" "b = e" using cover Cons.prems(2) by (auto simp: min_def split: if_splits)
      then show ?thesis by simp
    qed
    then show ?thesis using Cons.IH [OF r(2), of ?m] cover same by (simp del: attr_at.simps)
  qed
qed (simp add: gap_heads_none)

lemma room_needed_cong:
  assumes "mt_ok t" and "mt_ok t'" and "base \<le> base + sz"
    and "\<And>x. base \<le> x \<Longrightarrow> x < base + sz \<Longrightarrow> (attr_of t x = None) = (attr_of t' x = None)"
  shows "room_needed t base sz nid flags + length (live t') = room_needed t' base sz nid flags + length (live t)"
proof -
  have "gap_heads base (base + sz) (\<lambda>x. attr_at (live t) x \<noteq> None) =
        gap_heads base (base + sz) (\<lambda>x. attr_at (live t') x \<noteq> None)"
    using assms(4) by (intro gap_heads_cong) (simp add: attr_of_live)
  then show ?thesis
    unfolding room_needed_def
    using length_fill_gaps [OF live_regions_from [OF assms(1)] assms(3)]
      length_fill_gaps [OF live_regions_from [OF assms(2)] assms(3)] by simp
qed

section \<open>Growth as an interface\<close>

text \<open>
  What the growth of the reserved array preserves: only the reserved array changes, every
  reservation outside the storage of that array stays, and the only addresses that become
  reserved are those of its new storage.
\<close>

definition storage_reserved :: "memblock \<Rightarrow> bool" where
  "storage_reserved st \<longleftrightarrow> (\<forall>x \<in> array_block (mb_reserved st). attr_of (mb_reserved st) x \<noteq> None)"

definition res_kept :: "memblock \<Rightarrow> memblock \<Rightarrow> bool" where
  "res_kept st st' \<longleftrightarrow>
     (\<exists>t. st' = st\<lparr>mb_reserved := t\<rparr>) \<and> types_ok st' \<and>
     (\<forall>x. attr_of (mb_reserved st) x \<noteq> None \<and> x \<notin> array_block (mb_reserved st) \<longrightarrow>
        attr_of (mb_reserved st') x = attr_of (mb_reserved st) x \<and> x \<notin> array_block (mb_reserved st')) \<and>
     (\<forall>x. attr_of (mb_reserved st) x = None \<and> attr_of (mb_reserved st') x \<noteq> None \<longrightarrow>
        x \<in> array_block (mb_reserved st')) \<and>
     (dummy_only (mb_reserved st') \<longrightarrow> dummy_only (mb_reserved st)) \<and>
     (storage_reserved st \<longrightarrow> storage_reserved st')"

text \<open>The area being added and the storage of the array do not meet.\<close>

definition area_apart :: "memblock \<Rightarrow> phys_addr_t \<Rightarrow> phys_addr_t \<Rightarrow> bool" where
  "area_apart st base sz \<longleftrightarrow> base \<noteq> 0 \<and> mb_current_limit st \<noteq> 0 \<and> base \<le> base + sz \<and>
     (\<forall>x. base \<le> x \<and> x < base + sz \<longrightarrow> x \<notin> array_block (mb_reserved st))"

definition area_kept :: "memblock \<Rightarrow> memblock \<Rightarrow> phys_addr_t \<Rightarrow> phys_addr_t \<Rightarrow> bool" where
  "area_kept st st' base sz \<longleftrightarrow> area_apart st' base sz \<and>
     (\<forall>x. base \<le> x \<and> x < base + sz \<longrightarrow> attr_of (mb_reserved st') x = attr_of (mb_reserved st) x)"

definition growth_step :: "memblock \<Rightarrow> memblock \<Rightarrow> phys_addr_t \<Rightarrow> phys_addr_t \<Rightarrow> bool" where
  "growth_step st st' a s \<longleftrightarrow>
     (\<exists>c. res_grown st st' c \<and> usable st c (array_bytes (2 * mt_max (mb_reserved st))) \<and>
        (a \<noteq> 0 \<and> mb_current_limit st \<noteq> 0 \<longrightarrow> clear_of c (array_bytes (2 * mt_max (mb_reserved st))) a s))"

lemma growth_stepE:
  assumes "growth_step st st' a s"
  obtains c t where "st' = st\<lparr>mb_reserved := t\<rparr>" and "mt_ok t" and "\<not> dummy_only t" and "mt_max t = 2 * mt_max (mb_reserved st)"
    and "mt_cnt t \<le> mt_cnt (mb_reserved st) + 3" and "usable st c (array_bytes (mt_max t))"
    and "array_block t = {x. c \<le> x \<and> x < c + array_bytes (mt_max t)}"
    and "attr_of t = moved_to (attr_of (mb_reserved st)) (array_block (mb_reserved st)) c (array_bytes (mt_max t))"
    and "a \<noteq> 0 \<and> mb_current_limit st \<noteq> 0 \<longrightarrow> clear_of c (array_bytes (mt_max t)) a s"
proof -
  from assms obtain c where c: "res_grown st st' c"
    "usable st c (array_bytes (2 * mt_max (mb_reserved st)))"
    "a \<noteq> 0 \<and> mb_current_limit st \<noteq> 0 \<longrightarrow> clear_of c (array_bytes (2 * mt_max (mb_reserved st))) a s"
    by (auto simp: growth_step_def)
  from c(1) obtain t where t: "st' = st\<lparr>mb_reserved := t\<rparr>" "mt_ok t" "mt_max t = 2 * mt_max (mb_reserved st)"
    "mt_array t = At_phys c" "mt_cnt t \<le> mt_cnt (mb_reserved st) + 3" "\<not> dummy_only t"
    "attr_of t = moved_to (attr_of (mb_reserved st)) (array_block (mb_reserved st)) c (array_bytes (mt_max t))"
    by (auto simp: res_grown_def)
  have "array_block t = {x. c \<le> x \<and> x < c + array_bytes (mt_max t)}"
    using t(3,4) usable_cap [OF c(2)] by (simp add: array_block_def)
  with t c show ?thesis by (intro that [of t c]) simp_all
qed

lemma res_kept_refl: "types_ok st \<Longrightarrow> res_kept st st"
  unfolding res_kept_def by (auto intro: exI [of _ "mb_reserved st"])

lemma res_kept_step:
  assumes "res_kept st st1" and "growth_step st1 st2 a s"
  shows "res_kept st st2"
proof -
  obtain t1 where t1: "st1 = st\<lparr>mb_reserved := t1\<rparr>" using assms(1) by (auto simp: res_kept_def)
  from assms(2) obtain c t where g: "st2 = st1\<lparr>mb_reserved := t\<rparr>" "mt_ok t"
    and nd: "\<not> dummy_only t" and g': "usable st1 c (array_bytes (mt_max t))" "array_block t = {x. c \<le> x \<and> x < c + array_bytes (mt_max t)}"
    "attr_of t = moved_to (attr_of (mb_reserved st1)) (array_block (mb_reserved st1)) c (array_bytes (mt_max t))"
    by (rule growth_stepE)
  note g = g g'
  have ok: "types_ok st2" using assms(1) g(1,2) by (simp add: res_kept_def types_ok_def)
  have new: "x \<notin> array_block t" if "attr_of (mb_reserved st1) x \<noteq> None" for x
    using g(3,4) that by (auto simp: usable_def)
  have keep: "attr_of t x = attr_of (mb_reserved st) x \<and> x \<notin> array_block t"
    if x: "attr_of (mb_reserved st) x \<noteq> None" "x \<notin> array_block (mb_reserved st)" for x
  proof -
    have x1: "attr_of (mb_reserved st1) x = attr_of (mb_reserved st) x" "x \<notin> array_block (mb_reserved st1)"
      using assms(1) x by (auto simp: res_kept_def)
    then have nb: "x \<notin> array_block t" using new x(1) by metis
    then have "\<not> (c \<le> x \<and> x < c + array_bytes (mt_max t))" using g(4) by auto
    then show ?thesis using x1 nb unfolding g(5) moved_to_def by auto
  qed
  have fresh: "x \<in> array_block t" if x: "attr_of (mb_reserved st) x = None" "attr_of t x \<noteq> None" for x
  proof (rule ccontr)
    assume nb: "x \<notin> array_block t"
    then have "\<not> (c \<le> x \<and> x < c + array_bytes (mt_max t))" using g(4) by auto
    then have "x \<notin> array_block (mb_reserved st1)" "attr_of (mb_reserved st1) x \<noteq> None"
      using x(2) unfolding g(5) moved_to_def by (auto split: if_splits)
    then show False using assms(1) x(1) by (auto simp: res_kept_def)
  qed
  have "storage_reserved st2" using g(1,4,5) by (auto simp: storage_reserved_def moved_to_def)
  then show ?thesis unfolding res_kept_def using ok keep fresh nd g(1) t1 by auto
qed

lemma area_kept_step:
  assumes "area_kept st st1 base sz" and "growth_step st1 st2 base sz"
  shows "area_kept st st2 base sz"
proof -
  from assms(2) obtain c t where g: "st2 = st1\<lparr>mb_reserved := t\<rparr>"
    "usable st1 c (array_bytes (mt_max t))" "array_block t = {x. c \<le> x \<and> x < c + array_bytes (mt_max t)}"
    "attr_of t = moved_to (attr_of (mb_reserved st1)) (array_block (mb_reserved st1)) c (array_bytes (mt_max t))"
    "base \<noteq> 0 \<and> mb_current_limit st1 \<noteq> 0 \<longrightarrow> clear_of c (array_bytes (mt_max t)) base sz"
    by (rule growth_stepE)
  have ap: "area_apart st1 base sz" using assms(1) by (simp add: area_kept_def)
  then have cl: "clear_of c (array_bytes (mt_max t)) base sz" using g(5) by (simp add: area_apart_def)
  have out: "\<not> (c \<le> x \<and> x < c + array_bytes (mt_max t))" if "base \<le> x" "x < base + sz" for x
    using cl that by (auto simp: clear_of_def)
  then have "attr_of t x = attr_of (mb_reserved st1) x" if "base \<le> x" "x < base + sz" for x
    using ap that unfolding g(4) moved_to_def area_apart_def by auto
  then show ?thesis using assms(1) out ap g(1,3) by (auto simp: area_kept_def area_apart_def)
qed

lemma grow_loop_more_fuel:
  "grow_loop n dbl st w nr base sz = Inr y \<Longrightarrow> n \<le> m \<Longrightarrow> grow_loop m dbl st w nr base sz = Inr y"
proof (induction n arbitrary: m st)
  case (Suc n)
  then obtain m' where "m = Suc m'" "n \<le> m'" by (cases m) auto
  with Suc show ?case by (auto simp: and_then_Inr_iff split: if_splits) 
qed simp

locale reserved_growth =
  fixes dbl :: doubling
  assumes grow: "types_ok st \<Longrightarrow> cnt_small st \<Longrightarrow> mt_max (mb_reserved st) < 2 ^ 31 \<Longrightarrow>
    \<exists>st' r. dbl st RESERVED a s = Inr (st', r) \<and> (r = - 1 \<and> st' = st \<or> r = 0 \<and> growth_step st st' a s)"
begin

lemma grow_loop_kept:
  assumes "types_ok st" and "mt_cnt (mb_memory st) < 2 ^ 31"
    and "mt_cnt (mb_reserved st) + nr + 3 * n \<le> mt_max (mb_reserved st) * 2 ^ n"
    and "mt_max (mb_reserved st) * 2 ^ n < 2 ^ 31"
    and "res_kept st0 st" and "area_apart st0 base sz \<longrightarrow> area_kept st0 st base sz"
  shows "\<exists>st' r. grow_loop (Suc n) dbl st RESERVED nr base sz = Inr (st', r) \<and> res_kept st0 st' \<and>
    (area_apart st0 base sz \<longrightarrow> area_kept st0 st' base sz) \<and>
    (r = - ENOMEM \<or> r = 0 \<and> mt_cnt (mb_reserved st') + nr \<le> mt_max (mb_reserved st'))"
  using assms
proof (induction n arbitrary: st)
  case (Suc n)
  show ?case
  proof (cases "mt_cnt (mb_reserved st) + nr \<le> mt_max (mb_reserved st)")
    case True
    then show ?thesis using Suc.prems by simp
  next
    case False
    have "mt_max (mb_reserved st) < 2 ^ 31"
      using Suc.prems(4) by (rule le_less_trans [rotated]) simp
    moreover have "mt_cnt (mb_reserved st) \<le> mt_max (mb_reserved st)"
      using Suc.prems(1) by (simp add: types_ok_def mt_ok_def)
    ultimately obtain st1 r where d: "dbl st RESERVED base sz = Inr (st1, r)"
      "r = - 1 \<and> st1 = st \<or> r = 0 \<and> growth_step st st1 base sz"
      using grow [OF Suc.prems(1), of base sz] Suc.prems(2) by (auto simp: cnt_small_def)
    show ?thesis
    proof (cases "r = 0")
      case True
      with d(2) have step: "growth_step st st1 base sz" by auto
      then obtain t where t: "st1 = st\<lparr>mb_reserved := t\<rparr>" "mt_ok t" "mt_max t = 2 * mt_max (mb_reserved st)"
        "mt_cnt t \<le> mt_cnt (mb_reserved st) + 3" by (rule growth_stepE)
      have "\<exists>st' r. grow_loop (Suc n) dbl st1 RESERVED nr base sz = Inr (st', r) \<and> res_kept st0 st' \<and>
        (area_apart st0 base sz \<longrightarrow> area_kept st0 st' base sz) \<and>
        (r = - ENOMEM \<or> r = 0 \<and> mt_cnt (mb_reserved st') + nr \<le> mt_max (mb_reserved st'))"
      proof (rule Suc.IH)
        show "types_ok st1" using Suc.prems(1) t by (simp add: types_ok_def)
        show "mt_cnt (mb_memory st1) < 2 ^ 31" using Suc.prems(2) t by simp
        show "mt_cnt (mb_reserved st1) + nr + 3 * n \<le> mt_max (mb_reserved st1) * 2 ^ n"
          using Suc.prems(3) t by simp
        show "mt_max (mb_reserved st1) * 2 ^ n < 2 ^ 31" using Suc.prems(4) t by simp
        show "res_kept st0 st1" using Suc.prems(5) step by (rule res_kept_step)
        show "area_apart st0 base sz \<longrightarrow> area_kept st0 st1 base sz"
          using Suc.prems(6) step area_kept_step by blast
      qed
      then show ?thesis using False d(1) True by simp
    next
      case rne: False
      then show ?thesis using False d Suc.prems(5,6) by auto
    qed
  qed
qed (simp add: grow_loop_room)

lemma add_range_reserved:
  assumes "types_ok st" and "mt_cnt (mb_memory st) < 2 ^ 31" and "mt_max (mb_reserved st) < 2 ^ 29"
    and "sz = memblock_cap_size base sz0" and "area_apart st base sz"
  shows "\<exists>st' r. add_range_with dbl st RESERVED base sz0 nid flags = Inr (st', r) \<and>
    (r = - ENOMEM \<and> res_kept st st' \<or>
     r = 0 \<and> (\<exists>st1 t. res_kept st st1 \<and> area_kept st st1 base sz \<and> st' = st1\<lparr>mb_reserved := t\<rparr> \<and>
        added (mb_reserved st1) t base sz nid flags))"
proof -
  let ?t = "mb_reserved st"
  have ok: "mt_ok ?t" using assms(1) by (simp add: types_ok_def)
  have ak: "area_kept st st base sz" using assms(5) by (simp add: area_kept_def)
  note kr = res_kept_refl [OF assms(1)]
  show ?thesis
  proof (cases "room_needed ?t base sz nid flags \<le> mt_max ?t")
    case True
    then obtain t where "add_range_with dbl st RESERVED base sz0 nid flags = Inr (put_type RESERVED t st, 0)"
      "added ?t t base sz nid flags"
      using add_range_fits [of RESERVED st sz base sz0 nid flags dbl] ok assms(4) by auto
    then show ?thesis using kr ak by auto
  next
    case False
    have mx: "mt_cnt ?t \<le> mt_max ?t" "4 \<le> mt_max ?t" using ok by (simp_all add: mt_ok_def)
    have nd: "\<not> dummy_only ?t" using False mx by (auto simp: room_needed_def live_def split: if_splits)
    define nr where "nr = length (fill_gaps nid flags (base + sz) base (mt_regions ?t)) - mt_cnt ?t"
    have rn: "room_needed ?t base sz nid flags = mt_cnt ?t + nr"
      using nd length_fill_gaps_ge [of "mt_regions ?t"] by (simp add: nr_def room_needed_def live_def mt_cnt_def)
    have "nr \<le> mt_cnt ?t + 1" using fill_gaps_length_Suc [of nid flags "base + sz" base "mt_regions ?t"]
      by (simp add: nr_def mt_cnt_def)
    then have "mt_cnt ?t + nr + 3 * 2 \<le> mt_max ?t * 2 ^ 2" "mt_max ?t * 2 ^ 2 < 2 ^ 31" using mx assms(3) by simp_all
    then obtain st1 r where g: "grow_loop (Suc 2) dbl st RESERVED nr base sz = Inr (st1, r)" "res_kept st st1"
      "area_kept st st1 base sz" "r = - ENOMEM \<or> r = 0 \<and> mt_cnt (mb_reserved st1) + nr \<le> mt_max (mb_reserved st1)"
      using grow_loop_kept [OF assms(1,2) _ _ kr] assms(5) ak by blast
    have gl: "grow_loop grow_fuel dbl st RESERVED nr base sz = Inr (st1, r)"
      using g(1) by (rule grow_loop_more_fuel) (simp add: grow_fuel_def)
    have sz: "sz \<noteq> 0"
    proof
      assume "sz = 0"
      then have "room_needed ?t base sz nid flags \<le> mt_cnt ?t"
        using length_fill_gaps [OF live_regions_from [OF ok], of base base nid flags] nd
        by (simp add: room_needed_def live_def mt_cnt_def)
      then show False using False mx by simp
    qed
    note unf = add_range_with_grow [where w = RESERVED and st = st and nid = nid and flags = flags and dbl = dbl,
        unfolded get_type.simps, OF ok assms(4) sz nd, folded nr_def]
    have nr0: "nr \<noteq> 0" using rn False mx by auto
    show ?thesis
    proof (cases "r = 0")
      case False
      then show ?thesis using unf gl nr0 g by (simp add: ENOMEM_def)
    next
      case True
      let ?t1 = "mb_reserved st1"
      have ok1: "mt_ok ?t1" and nd1: "\<not> dummy_only ?t1" using g(2) nd by (auto simp: res_kept_def types_ok_def)
      have lt: "base < base + sz" using assms(4) sz by (rule cap_size_no_wrap)
      have "room_needed ?t base sz nid flags + length (live ?t1) = room_needed ?t1 base sz nid flags + length (live ?t)"
        using g(3) lt by (intro room_needed_cong [OF ok ok1]) (auto simp: area_kept_def)
      then have "length (fill_gaps nid flags (base + sz) base (mt_regions ?t1)) \<le> mt_max ?t1"
        using rn nd nd1 g(4) True by (simp add: room_needed_def live_def mt_cnt_def ENOMEM_def)
      then obtain t where "insert_merge base (base + sz) nid flags ?t1 = Inr t" "added ?t1 t base sz nid flags"
        using insert_merge_added [OF ok1 nd1 lt] by blast
      then show ?thesis using unf gl nr0 g(2,3) True by auto
    qed
  qed
qed

lemma remove_range_reserved:
  assumes "types_ok st" and "mt_cnt (mb_memory st) < 2 ^ 31" and "mt_max (mb_reserved st) < 2 ^ 29"
    and "sz = memblock_cap_size base sz0"
  shows "\<exists>st' r. remove_range_with dbl st RESERVED base sz0 = Inr (st', r) \<and>
    (r = - ENOMEM \<and> res_kept st st' \<or>
     r = 0 \<and> (\<exists>st1 t. res_kept st st1 \<and> st' = st1\<lparr>mb_reserved := t\<rparr> \<and> removed (mb_reserved st1) t base sz))"
proof (cases "sz = 0")
  case True
  have "st = st\<lparr>mb_reserved := mb_reserved st\<rparr>" by simp
  moreover have "remove_range_with dbl st RESERVED base sz0 = Inr (st, 0)"
    using True assms(4) by (simp add: remove_range_with_def isolate_range_with_def)
  ultimately show ?thesis using res_kept_refl [OF assms(1)] removed_nothing assms(1) True
    unfolding types_ok_def by blast
next
  case False
  let ?t = "mb_reserved st"
  have mx: "mt_cnt ?t \<le> mt_max ?t" "4 \<le> mt_max ?t" using assms(1) by (simp_all add: types_ok_def mt_ok_def)
  have "mt_cnt ?t + 2 + 3 * 2 \<le> mt_max ?t * 2 ^ 2" "mt_max ?t * 2 ^ 2 < 2 ^ 31" using mx assms(3) by simp_all
  then obtain st1 r where g: "grow_loop (Suc 2) dbl st RESERVED 2 base sz = Inr (st1, r)" "res_kept st st1"
    "r = - ENOMEM \<or> r = 0 \<and> mt_cnt (mb_reserved st1) + 2 \<le> mt_max (mb_reserved st1)"
    using grow_loop_kept [OF assms(1,2) _ _ res_kept_refl [OF assms(1)], of 2 2 base sz]
    by (auto simp: area_kept_def)
  have gl: "grow_loop grow_fuel dbl st RESERVED 2 base sz = Inr (st1, r)"
    using g(1) by (rule grow_loop_more_fuel) (simp add: grow_fuel_def)
  show ?thesis
  proof (cases "r = 0")
    case nz: False
    then show ?thesis using g gl False assms(4)
      by (simp add: remove_range_with_def isolate_range_with_def ENOMEM_def Let_def)
  next
    case True
    have ok1: "mt_ok (mb_reserved st1)" using g(2) by (simp add: res_kept_def types_ok_def)
    have room: "mt_cnt (mb_reserved st1) + 2 \<le> mt_max (mb_reserved st1)" using g(3) True by (simp add: ENOMEM_def)
    have lt: "base < base + sz" using assms(4) False by (rule cap_size_no_wrap)
    show ?thesis
      using isolate_loop_isolated [OF ok1 lt room] isolated_removed [OF ok1 lt room] gl g(2) True False
      by (auto simp: remove_range_with_def isolate_range_with_def Let_def assms(4) [symmetric])
  qed
qed

end

interpretation rg: reserved_growth "memblock_double_array (Suc n)" for n
  by unfold_locales (use double_reserved in \<open>auto simp: growth_step_def simp del: memblock_double_array.simps\<close>)

end
