(* ===== verification/Memblock_Api.thy ===== *)
theory Memblock_Api
  imports Memblock_Growth
begin

unbundle bit_operations_syntax

text \<open>
  The rest of the interface of \<open>mm/memblock.c\<close> and \<open>include/linux/memblock.h\<close>: region
  flags and node ids, the allocation routines, the queries, memory limits and trimming.
\<close>

section \<open>Flags and nodes\<close>

text \<open>\<open>for (i = start_rgn; i < end_rgn; i++) f(&type->regions[i]);\<close>\<close>

function update_regions ::
    "(memblock_region \<Rightarrow> memblock_region) \<Rightarrow> nat \<Rightarrow> nat \<Rightarrow> memblock_type \<Rightarrow> memblock_type" where
  "update_regions f i end_rgn t =
     (if i < end_rgn
      then update_regions f (i + 1) end_rgn (t\<lparr>mt_regions := (mt_regions t)[i := f (mt_regions t ! i)]\<rparr>)
      else t)"
  by pat_completeness auto
termination
  by (relation "measure (\<lambda>(f, i, e, t). e - i)") auto

declare update_regions.simps [simp del]

definition memblock_setclr_flag ::
    "memblock \<Rightarrow> phys_addr_t \<Rightarrow> phys_addr_t \<Rightarrow> bool \<Rightarrow> memblock_flags \<Rightarrow> (memblock \<times> int) res" where
  "memblock_setclr_flag st base sz set_it flag =
     and_then (memblock_isolate_range st MEMORY base sz)
       (\<lambda>(st1, ret, start_rgn, end_rgn).
          if ret \<noteq> 0 then Inr (st1, ret)
          else
            and_then (memblock_merge_regions
                        (update_regions
                           (if set_it then memblock_set_region_flags flag else memblock_clear_region_flags flag)
                           start_rgn end_rgn (mb_memory st1)))
              (\<lambda>t. Inr (st1\<lparr>mb_memory := t\<rparr>, 0)))"

definition memblock_mark_hotplug :: "memblock \<Rightarrow> phys_addr_t \<Rightarrow> phys_addr_t \<Rightarrow> (memblock \<times> int) res" where
  "memblock_mark_hotplug st base sz = memblock_setclr_flag st base sz True MEMBLOCK_HOTPLUG"

definition memblock_clear_hotplug :: "memblock \<Rightarrow> phys_addr_t \<Rightarrow> phys_addr_t \<Rightarrow> (memblock \<times> int) res" where
  "memblock_clear_hotplug st base sz = memblock_setclr_flag st base sz False MEMBLOCK_HOTPLUG"

definition memblock_mark_mirror :: "memblock \<Rightarrow> phys_addr_t \<Rightarrow> phys_addr_t \<Rightarrow> (memblock \<times> int) res" where
  "memblock_mark_mirror st base sz =
     memblock_setclr_flag (st\<lparr>mb_has_mirror := True\<rparr>) base sz True MEMBLOCK_MIRROR"

definition memblock_mark_nomap :: "memblock \<Rightarrow> phys_addr_t \<Rightarrow> phys_addr_t \<Rightarrow> (memblock \<times> int) res" where
  "memblock_mark_nomap st base sz = memblock_setclr_flag st base sz True MEMBLOCK_NOMAP"

definition memblock_clear_nomap :: "memblock \<Rightarrow> phys_addr_t \<Rightarrow> phys_addr_t \<Rightarrow> (memblock \<times> int) res" where
  "memblock_clear_nomap st base sz = memblock_setclr_flag st base sz False MEMBLOCK_NOMAP"

definition memblock_set_node ::
    "memblock \<Rightarrow> phys_addr_t \<Rightarrow> phys_addr_t \<Rightarrow> mt_sel \<Rightarrow> int \<Rightarrow> (memblock \<times> int) res" where
  "memblock_set_node st base sz w nid =
     and_then (memblock_isolate_range st w base sz)
       (\<lambda>(st1, ret, start_rgn, end_rgn).
          if ret \<noteq> 0 then Inr (st1, ret)
          else
            and_then (memblock_merge_regions
                        (update_regions (memblock_set_region_node nid) start_rgn end_rgn (get_type w st1)))
              (\<lambda>t. Inr (put_type w t st1, 0)))"

section \<open>Allocation\<close>

text \<open>An allocation yields the physical address; \<open>0\<close> is failure (\<open>NULL\<close> for the virtual interface).\<close>

definition find_and_reserve ::
    "memblock \<Rightarrow> phys_addr_t \<Rightarrow> phys_addr_t \<Rightarrow> phys_addr_t \<Rightarrow> phys_addr_t \<Rightarrow> int \<Rightarrow> memblock_flags \<Rightarrow>
     (memblock \<times> phys_addr_t) res" where
  "find_and_reserve st sz align start end nid flags =
     and_then (memblock_find_in_range_node st sz align start end nid flags)
       (\<lambda>found.
          if found = 0 then Inr (st, 0)
          else
            and_then (memblock_reserve st found sz)
              (\<lambda>(st', r). Inr (st', if r = 0 then found else 0)))"

definition memblock_alloc_range_nid ::
    "memblock \<Rightarrow> phys_addr_t \<Rightarrow> phys_addr_t \<Rightarrow> phys_addr_t \<Rightarrow> phys_addr_t \<Rightarrow> int \<Rightarrow> memblock_flags \<Rightarrow>
     (memblock \<times> phys_addr_t) res" where
  "memblock_alloc_range_nid st sz align start end nid flags =
     find_and_reserve st sz (if align = 0 then SMP_CACHE_BYTES else align) start end nid flags"

definition memblock_alloc_range ::
    "memblock \<Rightarrow> phys_addr_t \<Rightarrow> phys_addr_t \<Rightarrow> phys_addr_t \<Rightarrow> phys_addr_t \<Rightarrow> memblock_flags \<Rightarrow>
     (memblock \<times> phys_addr_t) res" where
  "memblock_alloc_range st sz align start end flags =
     memblock_alloc_range_nid st sz align start end NUMA_NO_NODE flags"

definition memblock_alloc_base_nid ::
    "memblock \<Rightarrow> phys_addr_t \<Rightarrow> phys_addr_t \<Rightarrow> phys_addr_t \<Rightarrow> int \<Rightarrow> memblock_flags \<Rightarrow>
     (memblock \<times> phys_addr_t) res" where
  "memblock_alloc_base_nid st sz align max_addr nid flags =
     memblock_alloc_range_nid st sz align 0 max_addr nid flags"

definition memblock_phys_alloc_nid ::
    "memblock \<Rightarrow> phys_addr_t \<Rightarrow> phys_addr_t \<Rightarrow> int \<Rightarrow> (memblock \<times> phys_addr_t) res" where
  "memblock_phys_alloc_nid st sz align nid =
     (let flags = choose_memblock_flags st in
      and_then (memblock_alloc_base_nid st sz align MEMBLOCK_ALLOC_ACCESSIBLE nid flags)
        (\<lambda>(st1, ret).
           if ret = 0 \<and> flags AND MEMBLOCK_MIRROR \<noteq> 0
           then memblock_alloc_base_nid st1 sz align MEMBLOCK_ALLOC_ACCESSIBLE nid (flags AND NOT MEMBLOCK_MIRROR)
           else Inr (st1, ret)))"

definition memblock_alloc_base_nopanic ::
    "memblock \<Rightarrow> phys_addr_t \<Rightarrow> phys_addr_t \<Rightarrow> phys_addr_t \<Rightarrow> (memblock \<times> phys_addr_t) res" where
  "memblock_alloc_base_nopanic st sz align max_addr =
     memblock_alloc_base_nid st sz align max_addr NUMA_NO_NODE MEMBLOCK_NONE"

definition memblock_alloc_base ::
    "memblock \<Rightarrow> phys_addr_t \<Rightarrow> phys_addr_t \<Rightarrow> phys_addr_t \<Rightarrow> (memblock \<times> phys_addr_t) res" where
  "memblock_alloc_base st sz align max_addr =
     and_then (memblock_alloc_base_nopanic st sz align max_addr)
       (\<lambda>(st', alloc). if alloc = 0 then Inl Panic else Inr (st', alloc))"

definition memblock_phys_alloc ::
    "memblock \<Rightarrow> phys_addr_t \<Rightarrow> phys_addr_t \<Rightarrow> (memblock \<times> phys_addr_t) res" where
  "memblock_phys_alloc st sz align = memblock_alloc_base st sz align MEMBLOCK_ALLOC_ACCESSIBLE"

definition memblock_phys_alloc_try_nid ::
    "memblock \<Rightarrow> phys_addr_t \<Rightarrow> phys_addr_t \<Rightarrow> int \<Rightarrow> (memblock \<times> phys_addr_t) res" where
  "memblock_phys_alloc_try_nid st sz align nid =
     and_then (memblock_phys_alloc_nid st sz align nid)
       (\<lambda>(st', r). if r \<noteq> 0 then Inr (st', r)
                   else memblock_alloc_base st' sz align MEMBLOCK_ALLOC_ACCESSIBLE)"

lemma clear_mirror: "(flags AND NOT MEMBLOCK_MIRROR) AND MEMBLOCK_MIRROR = 0"
  by (rule bit_word_eqI) (auto simp: bit_simps)

text \<open>
  The \<open>again:\<close> loop of \<open>memblock_alloc_internal\<close>. Each jump back either clears
  \<open>min_addr\<close> or clears the mirror flag.
\<close>

function alloc_internal_loop ::
    "memblock \<Rightarrow> phys_addr_t \<Rightarrow> phys_addr_t \<Rightarrow> phys_addr_t \<Rightarrow> phys_addr_t \<Rightarrow> int \<Rightarrow> memblock_flags \<Rightarrow>
     (memblock \<times> phys_addr_t) res" where
  "alloc_internal_loop st sz align min_addr max_addr nid flags =
     and_then (find_and_reserve st sz align min_addr max_addr nid flags)
       (\<lambda>(st1, alloc).
          if alloc \<noteq> 0 then Inr (st1, alloc)
          else
            and_then (if nid \<noteq> NUMA_NO_NODE
                      then find_and_reserve st1 sz align min_addr max_addr NUMA_NO_NODE flags
                      else Inr (st1, 0))
              (\<lambda>(st2, alloc2).
                 if alloc2 \<noteq> 0 then Inr (st2, alloc2)
                 else if min_addr \<noteq> 0 then alloc_internal_loop st2 sz align 0 max_addr nid flags
                 else if flags AND MEMBLOCK_MIRROR \<noteq> 0
                   then alloc_internal_loop st2 sz align min_addr max_addr nid (flags AND NOT MEMBLOCK_MIRROR)
                 else Inr (st2, 0)))"
  by pat_completeness auto

termination
  by (relation "measure (\<lambda>(st, sz, align, min_addr, max_addr, nid, flags).
        (if min_addr \<noteq> 0 then 1 else 0) + (if flags AND MEMBLOCK_MIRROR \<noteq> 0 then 1 else 0))")
    (auto simp: clear_mirror)

declare alloc_internal_loop.simps [simp del]

definition memblock_alloc_internal ::
    "memblock \<Rightarrow> phys_addr_t \<Rightarrow> phys_addr_t \<Rightarrow> phys_addr_t \<Rightarrow> phys_addr_t \<Rightarrow> int \<Rightarrow>
     (memblock \<times> phys_addr_t) res" where
  "memblock_alloc_internal st sz align min_addr max_addr nid =
     alloc_internal_loop st sz (if align = 0 then SMP_CACHE_BYTES else align) min_addr
       (if max_addr > mb_current_limit st then mb_current_limit st else max_addr)
       (if nid = MAX_NUMNODES then NUMA_NO_NODE else nid) (choose_memblock_flags st)"

text \<open>The block is zeroed before it is returned; memory contents are not part of the state.\<close>

definition memblock_alloc_try_nid_nopanic ::
    "memblock \<Rightarrow> phys_addr_t \<Rightarrow> phys_addr_t \<Rightarrow> phys_addr_t \<Rightarrow> phys_addr_t \<Rightarrow> int \<Rightarrow>
     (memblock \<times> phys_addr_t) res" where
  "memblock_alloc_try_nid_nopanic st sz align min_addr max_addr nid =
     memblock_alloc_internal st sz align min_addr max_addr nid"

definition memblock_alloc_try_nid ::
    "memblock \<Rightarrow> phys_addr_t \<Rightarrow> phys_addr_t \<Rightarrow> phys_addr_t \<Rightarrow> phys_addr_t \<Rightarrow> int \<Rightarrow>
     (memblock \<times> phys_addr_t) res" where
  "memblock_alloc_try_nid st sz align min_addr max_addr nid =
     and_then (memblock_alloc_internal st sz align min_addr max_addr nid)
       (\<lambda>(st', ptr). if ptr \<noteq> 0 then Inr (st', ptr) else Inl Panic)"

definition memblock_alloc :: "memblock \<Rightarrow> phys_addr_t \<Rightarrow> phys_addr_t \<Rightarrow> (memblock \<times> phys_addr_t) res" where
  "memblock_alloc st sz align =
     memblock_alloc_try_nid st sz align 0 MEMBLOCK_ALLOC_ACCESSIBLE NUMA_NO_NODE"

section \<open>Queries\<close>

definition memblock_phys_mem_size :: "memblock \<Rightarrow> phys_addr_t" where
  "memblock_phys_mem_size st = mt_total_size (mb_memory st)"

definition memblock_reserved_size :: "memblock \<Rightarrow> phys_addr_t" where
  "memblock_reserved_size st = mt_total_size (mb_reserved st)"

definition memblock_start_of_DRAM :: "memblock \<Rightarrow> phys_addr_t" where
  "memblock_start_of_DRAM st = rgn_base (mt_regions (mb_memory st) ! 0)"

definition memblock_end_of_DRAM :: "memblock \<Rightarrow> phys_addr_t" where
  "memblock_end_of_DRAM st =
     (let idx = mt_cnt (mb_memory st) - 1
      in rgn_base (mt_regions (mb_memory st) ! idx) + rgn_size (mt_regions (mb_memory st) ! idx))"

definition memblock_is_reserved :: "memblock \<Rightarrow> phys_addr_t \<Rightarrow> bool" where
  "memblock_is_reserved st addr \<longleftrightarrow> memblock_search (mb_reserved st) addr \<noteq> None"

definition memblock_is_memory :: "memblock \<Rightarrow> phys_addr_t \<Rightarrow> bool" where
  "memblock_is_memory st addr \<longleftrightarrow> memblock_search (mb_memory st) addr \<noteq> None"

definition memblock_is_map_memory :: "memblock \<Rightarrow> phys_addr_t \<Rightarrow> bool" where
  "memblock_is_map_memory st addr =
     (case memblock_search (mb_memory st) addr of
        None \<Rightarrow> False
      | Some i \<Rightarrow> \<not> memblock_is_nomap (mt_regions (mb_memory st) ! i))"

text \<open>The result: node id, start and end frame; \<open>None\<close> is the return value \<open>-1\<close>.\<close>

definition memblock_search_pfn_nid :: "memblock \<Rightarrow> u64 \<Rightarrow> (int \<times> u64 \<times> u64) option" where
  "memblock_search_pfn_nid st pfn =
     (case memblock_search (mb_memory st) (PFN_PHYS pfn) of
        None \<Rightarrow> None
      | Some mid \<Rightarrow>
          let r = mt_regions (mb_memory st) ! mid
          in Some (rgn_nid r, PFN_DOWN (rgn_base r), PFN_DOWN (rgn_base r + rgn_size r)))"

definition memblock_is_region_memory :: "memblock \<Rightarrow> phys_addr_t \<Rightarrow> phys_addr_t \<Rightarrow> bool" where
  "memblock_is_region_memory st base sz =
     (let end = base + memblock_cap_size base sz in
      case memblock_search (mb_memory st) base of
        None \<Rightarrow> False
      | Some idx \<Rightarrow> rgn_base (mt_regions (mb_memory st) ! idx) + rgn_size (mt_regions (mb_memory st) ! idx) \<ge> end)"

definition memblock_is_region_reserved :: "memblock \<Rightarrow> phys_addr_t \<Rightarrow> phys_addr_t \<Rightarrow> bool" where
  "memblock_is_region_reserved st base sz =
     memblock_overlaps_region (mb_reserved st) base (memblock_cap_size base sz)"

definition memblock_set_current_limit :: "memblock \<Rightarrow> phys_addr_t \<Rightarrow> memblock" where
  "memblock_set_current_limit st limit = st\<lparr>mb_current_limit := limit\<rparr>"

definition memblock_get_current_limit :: "memblock \<Rightarrow> phys_addr_t" where
  "memblock_get_current_limit st = mb_current_limit st"

definition memblock_set_bottom_up :: "memblock \<Rightarrow> bool \<Rightarrow> memblock" where
  "memblock_set_bottom_up st enable = st\<lparr>mb_bottom_up := enable\<rparr>"

definition memblock_allow_resize :: "memblock \<Rightarrow> memblock" where
  "memblock_allow_resize st = st\<lparr>mb_can_resize := True\<rparr>"

text \<open>
  \<open>__next_mem_pfn_range\<close>: the index is an \<open>int\<close> that starts at \<open>-1\<close>; the result is the
  new index and the range, if there is one.
\<close>

function next_mem_pfn_loop :: "memblock_type \<Rightarrow> int \<Rightarrow> nat \<Rightarrow> nat option" where
  "next_mem_pfn_loop t nid idx =
     (if idx < mt_cnt t then
        let r = mt_regions t ! idx in
        if PFN_UP (rgn_base r) \<ge> PFN_DOWN (rgn_base r + rgn_size r) then next_mem_pfn_loop t nid (idx + 1)
        else if nid = MAX_NUMNODES \<or> nid = rgn_nid r then Some idx
        else next_mem_pfn_loop t nid (idx + 1)
      else None)"
  by pat_completeness auto
termination
  by (relation "measure (\<lambda>(t, nid, idx). mt_cnt t - idx)") auto

declare next_mem_pfn_loop.simps [simp del]

definition next_mem_pfn_range :: "memblock \<Rightarrow> int \<Rightarrow> int \<Rightarrow> int \<times> (u64 \<times> u64 \<times> int) option" where
  "next_mem_pfn_range st idx nid =
     (case next_mem_pfn_loop (mb_memory st) nid (nat (idx + 1)) of
        None \<Rightarrow> (- 1, None)
      | Some i \<Rightarrow>
          let r = mt_regions (mb_memory st) ! i
          in (int i, Some (PFN_UP (rgn_base r), PFN_DOWN (rgn_base r + rgn_size r), rgn_nid r)))"

text \<open>\<open>__next_reserved_mem_region\<close>: the end it reports is inclusive.\<close>

definition next_reserved_mem_region :: "memblock \<Rightarrow> u64 \<Rightarrow> u64 \<times> (phys_addr_t \<times> phys_addr_t) option" where
  "next_reserved_mem_region st idx =
     (if unat idx < mt_cnt (mb_reserved st) then
        let r = mt_regions (mb_reserved st) ! unat idx
        in (idx + 1, Some (rgn_base r, rgn_base r + rgn_size r - 1))
      else (ULLONG_MAX, None))"

section \<open>Memory limits and trimming\<close>

fun find_max_addr_loop :: "memblock_region list \<Rightarrow> phys_addr_t \<Rightarrow> phys_addr_t" where
  "find_max_addr_loop [] limit = PHYS_ADDR_MAX"
| "find_max_addr_loop (r # rs) limit =
     (if limit \<le> rgn_size r then rgn_base r + limit else find_max_addr_loop rs (limit - rgn_size r))"

definition find_max_addr :: "memblock \<Rightarrow> phys_addr_t \<Rightarrow> phys_addr_t" where
  "find_max_addr st limit = find_max_addr_loop (mt_regions (mb_memory st)) limit"

definition memblock_enforce_memory_limit :: "memblock \<Rightarrow> phys_addr_t \<Rightarrow> memblock res" where
  "memblock_enforce_memory_limit st limit =
     (if limit = 0 then Inr st
      else let max_addr = find_max_addr st limit in
        if max_addr = PHYS_ADDR_MAX then Inr st
        else
          and_then (memblock_remove_range st MEMORY max_addr PHYS_ADDR_MAX)
            (\<lambda>(st1, _).
               and_then (memblock_remove_range st1 RESERVED max_addr PHYS_ADDR_MAX)
                 (\<lambda>(st2, _). Inr st2)))"

text \<open>
  The two loops of \<open>memblock_cap_memory_range\<close>: regions at indices below \<open>i\<close> and not
  below \<open>lo\<close>, from the top, unless they are marked \<open>MEMBLOCK_NOMAP\<close>.
\<close>

fun remove_mapped_down :: "memblock_type \<Rightarrow> nat \<Rightarrow> nat \<Rightarrow> memblock_type" where
  "remove_mapped_down t lo 0 = t"
| "remove_mapped_down t lo (Suc i) =
     (if i \<ge> lo then
        remove_mapped_down
          (if \<not> memblock_is_nomap (mt_regions t ! i) then memblock_remove_region t i else t) lo i
      else t)"

definition memblock_cap_memory_range :: "memblock \<Rightarrow> phys_addr_t \<Rightarrow> phys_addr_t \<Rightarrow> memblock res" where
  "memblock_cap_memory_range st base sz =
     (if sz = 0 then Inr st
      else
        and_then (memblock_isolate_range st MEMORY base sz)
          (\<lambda>(st1, ret, start_rgn, end_rgn).
             if ret \<noteq> 0 then Inr st1
             else
               let t1 = remove_mapped_down (mb_memory st1) end_rgn (mt_cnt (mb_memory st1));
                   t2 = remove_mapped_down t1 0 start_rgn
               in and_then (memblock_remove_range (st1\<lparr>mb_memory := t2\<rparr>) RESERVED 0 base)
                    (\<lambda>(st2, _).
                       and_then (memblock_remove_range st2 RESERVED (base + sz) PHYS_ADDR_MAX)
                         (\<lambda>(st3, _). Inr st3))))"

definition memblock_mem_limit_remove_map :: "memblock \<Rightarrow> phys_addr_t \<Rightarrow> memblock res" where
  "memblock_mem_limit_remove_map st limit =
     (if limit = 0 then Inr st
      else let max_addr = find_max_addr st limit in
        if max_addr = PHYS_ADDR_MAX then Inr st else memblock_cap_memory_range st 0 max_addr)"

text \<open>
  \<open>memblock_trim_memory\<close>: after a removal the loop visits the same index again. A removal
  that empties the array leaves the dummy entry behind, which is aligned as it is; hence
  the weight of an entry in the termination measure.
\<close>

definition trim_weight :: "memblock_region \<Rightarrow> nat" where
  "trim_weight r = (if r = empty_region then 1 else 2)"

definition trim_start :: "phys_addr_t \<Rightarrow> memblock_region \<Rightarrow> phys_addr_t" where
  "trim_start align r = round_up (rgn_base r) align"

definition trim_end :: "phys_addr_t \<Rightarrow> memblock_region \<Rightarrow> phys_addr_t" where
  "trim_end align r = round_down (rgn_base r + rgn_size r) align"

lemma round_zero: "round_up 0 y = 0" "round_down 0 y = 0"
  by (simp_all add: round_up_def round_down_def)

lemma trim_empty: "trim_start align empty_region = 0" "trim_end align empty_region = 0"
  by (simp_all add: trim_start_def trim_end_def empty_region_def round_zero)

lemma trim_weight_pos: "0 < trim_weight r"
  by (simp add: trim_weight_def)

lemma trim_drop: "i < length rs \<Longrightarrow> sum_list (map trim_weight (drop i rs)) =
    trim_weight (rs ! i) + sum_list (map trim_weight (drop (Suc i) rs))"
  by (simp add: Cons_nth_drop_Suc [symmetric])

lemma trim_remove_less:
  assumes "i < mt_cnt t" and "mt_regions t ! i \<noteq> empty_region"
  shows "sum_list (map trim_weight (drop i (mt_regions (memblock_remove_region t i)))) <
    sum_list (map trim_weight (drop i (mt_regions t)))"
proof (cases "take i (mt_regions t) @ drop (Suc i) (mt_regions t) = []")
  case True
  then have "i = 0" using assms(1) by (auto simp: mt_cnt_def)
  then show ?thesis using assms True trim_drop [of i "mt_regions t"]
    by (simp add: memblock_remove_region_def mt_cnt_def trim_weight_def)
next
  case False
  then have "mt_regions (memblock_remove_region t i) = take i (mt_regions t) @ drop (Suc i) (mt_regions t)"
    by (auto simp: memblock_remove_region_def Let_def)
  then show ?thesis using assms trim_drop [of i "mt_regions t"] trim_weight_pos
    by (simp add: mt_cnt_def)
qed

lemma trim_not_empty:
  "\<not> (trim_start align r = rgn_base r \<and> trim_end align r = rgn_end r) \<Longrightarrow> r \<noteq> empty_region"
  using trim_empty [of align] by (auto simp: empty_region_def)

function trim_memory_loop :: "phys_addr_t \<Rightarrow> nat \<Rightarrow> memblock_type \<Rightarrow> memblock_type" where
  "trim_memory_loop align i t =
     (if i < mt_cnt t then
        let r = mt_regions t ! i in
        if trim_start align r = rgn_base r \<and> trim_end align r = rgn_base r + rgn_size r
        then trim_memory_loop align (i + 1) t
        else if trim_start align r < trim_end align r
        then trim_memory_loop align (i + 1)
               (t\<lparr>mt_regions := (mt_regions t)[i := r\<lparr>rgn_base := trim_start align r,
                                                     rgn_size := trim_end align r - trim_start align r\<rparr>]\<rparr>)
        else trim_memory_loop align i (memblock_remove_region t i)
      else t)"
  by pat_completeness auto

termination
proof (relation "measure (\<lambda>(align, i, t). sum_list (map trim_weight (drop i (mt_regions t))))",
    goal_cases)
  case (4 align i t r)
  then show ?case using trim_remove_less [of i t] trim_not_empty [of align r] by simp
qed (auto simp: mt_cnt_def trim_drop trim_weight_pos)

declare trim_memory_loop.simps [simp del]

definition memblock_trim_memory :: "memblock \<Rightarrow> phys_addr_t \<Rightarrow> memblock" where
  "memblock_trim_memory st align = st\<lparr>mb_memory := trim_memory_loop align 0 (mb_memory st)\<rparr>"

section \<open>Changing the attributes of a range\<close>

lemma update_regions_parts:
  assumes "mt_regions t = xs @ mid @ zs"
  shows "update_regions f (length xs) (length xs + length mid) t = t\<lparr>mt_regions := xs @ map f mid @ zs\<rparr>"
  using assms
proof (induction mid arbitrary: t xs)
  case Nil
  then show ?case by (subst update_regions.simps) simp
next
  case (Cons m mid)
  let ?t = "t\<lparr>mt_regions := (mt_regions t)[length xs := f (mt_regions t ! length xs)]\<rparr>"
  have "mt_regions ?t = (xs @ [f m]) @ mid @ zs" using Cons.prems by (simp add: nth_append)
  from Cons.IH [OF this] show ?case
    by (subst update_regions.simps) simp
qed

lemma update_regions_none: "update_regions f i i t = t"
  by (subst update_regions.simps) simp

text \<open>
  The contract of the routines that isolate a range, change its regions and merge: the
  attributes inside the range change by \<open>g\<close>, nothing else changes, and the array is minimal.
\<close>

definition reattributed ::
    "memblock_type \<Rightarrow> memblock_type \<Rightarrow> phys_addr_t \<Rightarrow> phys_addr_t \<Rightarrow>
     (memblock_flags \<times> int \<Rightarrow> memblock_flags \<times> int) \<Rightarrow> bool" where
  "reattributed t t' base sz g \<longleftrightarrow>
     mt_ok t' \<and> mt_max t' = mt_max t \<and> mt_array t' = mt_array t \<and> mt_name t' = mt_name t \<and>
     mt_total_size t' = mt_total_size t \<and> minimal (mt_regions t') \<and>
     (\<forall>a. attr_of t' a = (if base \<le> a \<and> a < base + sz then map_option g (attr_of t a) else attr_of t a))"

lemma update_isolated:
  assumes "mt_ok t" and "\<not> dummy_only t"
  shows "update_regions f (iso_first base e t) (iso_last base e t) (isolated base e t) =
    t\<lparr>mt_regions := iso_low base e (mt_regions t) @ map f (iso_mid base e (mt_regions t)) @ iso_high base e (mt_regions t)\<rparr>"
proof -
  let ?rs = "mt_regions t"
  have lv: "live t = ?rs" using assms(2) by (simp add: live_def)
  have parts: "isolate_list base e ?rs = iso_low base e ?rs @ iso_mid base e ?rs @ iso_high base e ?rs"
    by (rule isolate_list_parts)
  show ?thesis
  proof (cases "iso_mid base e ?rs = []")
    case True
    then show ?thesis using parts assms(2)
      by (simp add: iso_first_def iso_last_def lv isolated_def update_regions_none)
  next
    case False
    then show ?thesis
      using update_regions_parts [of "isolated base e t" "iso_low base e ?rs" "iso_mid base e ?rs" "iso_high base e ?rs" f]
        parts assms(2) by (simp add: iso_first_def iso_last_def lv isolated_def)
  qed
qed

lemma merge_single: "mt_cnt t = 1 \<Longrightarrow> memblock_merge_regions t = Inr t"
  by (simp add: memblock_merge_regions_def memblock_merge_loop.simps)

lemma reattribute:
  assumes "mt_ok t" and "base < base + sz" and "mt_cnt t + 2 \<le> mt_max t"
    and f: "\<And>r. rgn_base (f r) = rgn_base r \<and> rgn_size (f r) = rgn_size r"
    and g: "\<And>r. (rgn_flags (f r), rgn_nid (f r)) = map_prod g h (rgn_flags r, rgn_nid r)"
  shows "\<exists>t'. memblock_merge_regions
      (update_regions f (iso_first base (base + sz) t) (iso_last base (base + sz) t) (isolated base (base + sz) t)) =
      Inr t' \<and> reattributed t t' base sz (map_prod g h)"
proof (cases "dummy_only t")
  case True
  then obtain r where r: "mt_regions t = [r]" "rgn_base r = 0" "rgn_size r = 0" by (rule dummy_onlyE)
  have "mt_cnt t = 1" using r by (simp add: mt_cnt_def)
  then show ?thesis using True assms(1) r
    by (intro exI [of _ t])
      (simp add: iso_first_def iso_last_def live_def isolated_def update_regions_none merge_single
        reattributed_def attr_of_def)
next
  case False
  let ?e = "base + sz" and ?rs = "mt_regions t"
  let ?new = "iso_low base ?e ?rs @ map f (iso_mid base ?e ?rs) @ iso_high base ?e ?rs"
  have parts: "isolate_list base ?e ?rs = iso_low base ?e ?rs @ iso_mid base ?e ?rs @ iso_high base ?e ?rs"
    by (rule isolate_list_parts)
  have reg: "regions_from 0 ?rs" and tot: "mt_total_size t = sum_list (map rgn_size ?rs)"
    using assms(1) False by (simp_all add: mt_ok_def)
  have regn: "regions_from 0 ?new"
    using isolate_list_regions_from [OF reg, of base ?e] regions_from_map [OF f] parts by simp
  have sizes: "sum_list (map rgn_size ?new) = sum_list (map rgn_size ?rs)"
    using isolate_list_sizes [of base ?e ?rs] f unfolding parts by (simp add: comp_def)
  have ne: "?new \<noteq> []" using isolate_list_Nil [of base ?e ?rs] parts assms(1) by (auto simp: mt_ok_def)
  have len: "length (merge_list ?new) \<le> mt_max t"
    using merge_list_length [of ?new] isolate_list_length [of base ?e ?rs] assms(3) parts by (simp add: mt_cnt_def)
  let ?t' = "t\<lparr>mt_regions := merge_list ?new\<rparr>"
  have "memblock_merge_regions (t\<lparr>mt_regions := ?new\<rparr>) = Inr ?t'"
    by (subst merge_regions_list [of 0]) (simp_all add: regn)
  moreover have "mt_ok ?t'"
    using assms(1) ne len tot sizes merge_list_regions_from [OF regn] merge_list_sizes [of ?new]
    by (simp add: mt_ok_def mt_cnt_def)
  moreover have "attr_of ?t' a = (if base \<le> a \<and> a < ?e then map_option (map_prod g h) (attr_of t a) else attr_of t a)" for a
    using iso_map_attr [OF reg assms(2) f, of g h a] g merge_list_attr [OF regn, of a] by (simp add: attr_of_def)
  ultimately show ?thesis
    using update_isolated [OF assms(1) False, of f base ?e] merge_list_minimal [of ?new]
    by (simp add: reattributed_def)
qed

lemma setclr_flag_fits:
  assumes "mt_ok (mb_memory st)" and "sz = memblock_cap_size base sz0" and "sz \<noteq> 0"
    and "mt_cnt (mb_memory st) + 2 \<le> mt_max (mb_memory st)"
  shows "\<exists>t'. memblock_setclr_flag st base sz0 set_it flag = Inr (st\<lparr>mb_memory := t'\<rparr>, 0) \<and>
    reattributed (mb_memory st) t' base sz
      (map_prod (\<lambda>f. if set_it then f OR flag else f AND NOT flag) (\<lambda>n. n))"
proof -
  let ?t = "mb_memory st"
  let ?f = "if set_it then memblock_set_region_flags flag else memblock_clear_region_flags flag"
  have iso: "memblock_isolate_range st MEMORY base sz0 =
    Inr (put_type MEMORY (isolated base (base + sz) ?t) st, 0, iso_first base (base + sz) ?t, iso_last base (base + sz) ?t)"
    using isolate_range_fits [of MEMORY st sz base sz0] assms by (simp add: memblock_isolate_range_def)
  have "\<exists>t'. memblock_merge_regions
      (update_regions ?f (iso_first base (base + sz) ?t) (iso_last base (base + sz) ?t) (isolated base (base + sz) ?t)) =
      Inr t' \<and> reattributed ?t t' base sz (map_prod (\<lambda>f. if set_it then f OR flag else f AND NOT flag) (\<lambda>n. n))"
    using assms(1) cap_size_no_wrap [OF assms(2,3)] assms(4)
    by (rule reattribute) (simp_all add: memblock_set_region_flags_def memblock_clear_region_flags_def)
  then show ?thesis using iso by (auto simp: memblock_setclr_flag_def)
qed

lemma set_node_fits:
  assumes "mt_ok (get_type w st)" and "sz = memblock_cap_size base sz0" and "sz \<noteq> 0"
    and "mt_cnt (get_type w st) + 2 \<le> mt_max (get_type w st)"
  shows "\<exists>t'. memblock_set_node st base sz0 w nid = Inr (put_type w t' st, 0) \<and>
    reattributed (get_type w st) t' base sz (map_prod (\<lambda>f. f) (\<lambda>n. nid))"
proof -
  let ?t = "get_type w st"
  have iso: "memblock_isolate_range st w base sz0 =
    Inr (put_type w (isolated base (base + sz) ?t) st, 0, iso_first base (base + sz) ?t, iso_last base (base + sz) ?t)"
    using isolate_range_fits [OF assms] by (simp add: memblock_isolate_range_def)
  have "\<exists>t'. memblock_merge_regions
      (update_regions (memblock_set_region_node nid) (iso_first base (base + sz) ?t) (iso_last base (base + sz) ?t)
        (isolated base (base + sz) ?t)) =
      Inr t' \<and> reattributed ?t t' base sz (map_prod (\<lambda>f. f) (\<lambda>n. nid))"
    using assms(1) cap_size_no_wrap [OF assms(2,3)] assms(4)
    by (rule reattribute) (simp_all add: memblock_set_region_node_def)
  then show ?thesis using iso by (auto simp: memblock_set_node_def)
qed

section \<open>Binary search\<close>

lemma memblock_search_loop_sound:
  "memblock_search_loop t addr left right = Some i \<Longrightarrow> left < right \<Longrightarrow>
   left \<le> i \<and> i < right \<and> addr \<in> rgn_range (mt_regions t ! i)"
proof (induction t addr left right rule: memblock_search_loop.induct)
  case (1 t addr left right)
  let ?mid = "(right + left) div 2"
  have mid: "left \<le> ?mid" "?mid < right" using 1(4) by auto
  show ?case using 1(3)
    by (subst (asm) memblock_search_loop.simps)
      (use mid 1 in \<open>fastforce simp: Let_def rgn_range_def split: if_splits\<close>)
qed

lemma memblock_search_loop_complete:
  assumes "mt_sorted t" and "left \<le> i" and "i < right" and "right \<le> mt_cnt t"
    and "addr \<in> rgn_range (mt_regions t ! i)"
  shows "\<exists>j. memblock_search_loop t addr left right = Some j"
  using assms
proof (induction t addr left right rule: memblock_search_loop.induct)
  case (1 t addr left right)
  let ?mid = "(right + left) div 2"
  let ?r = "mt_regions t ! ?mid"
  have mid: "left \<le> ?mid" "?mid < right" using 1 by auto
  have i: "rgn_base (mt_regions t ! i) \<le> addr" "addr < rgn_end (mt_regions t ! i)"
    using 1(7) by (auto simp: rgn_range_def)
  consider (lo) "addr < rgn_base ?r" | (hi) "\<not> addr < rgn_base ?r" "rgn_end ?r \<le> addr"
    | (at) "\<not> addr < rgn_base ?r" "\<not> rgn_end ?r \<le> addr" by blast
  then show ?case
  proof cases
    case lo
    have "\<not> ?mid \<le> i" using mt_sorted_base [of t ?mid i] 1(3,5,6) i lo by force
    then have "left < ?mid" "i < ?mid" using 1(4) by auto
    with lo 1(1) [OF refl refl lo] 1(3-7) mid show ?thesis
      by (subst memblock_search_loop.simps) (simp add: Let_def)
  next
    case hi
    have "\<not> i \<le> ?mid" using mt_sorted_end [of t i ?mid] 1(3,6) mid i hi by force
    then have "?mid + 1 \<le> i" "?mid + 1 < right" using 1(5) by auto
    with hi 1(2) [OF refl refl] 1(3-7) show ?thesis
      by (subst memblock_search_loop.simps) (simp add: Let_def)
  next
    case at
    then show ?thesis by (subst memblock_search_loop.simps) (simp add: Let_def)
  qed
qed

lemma attr_at_nth:
  assumes "regions_from lo rs" and "i < length rs" and "x \<in> rgn_range (rs ! i)"
  shows "attr_at rs x = Some (rgn_flags (rs ! i), rgn_nid (rs ! i))"
  using assms
proof (induction rs arbitrary: lo i)
  case (Cons r rs)
  show ?case
  proof (cases i)
    case 0
    then show ?thesis using Cons.prems(3) by (simp add: rgn_range_def)
  next
    case (Suc j)
    then have j: "j < length rs" "x \<in> rgn_range (rs ! j)" "regions_from (rgn_end r) rs"
      using Cons.prems by auto
    then have "rgn_end r \<le> x"
      using regions_from_ge [of "rgn_end r" rs "rs ! j"] by (auto simp: rgn_range_def)
    then show ?thesis using Cons.IH [OF j(3,1,2)] Suc by auto
  qed
qed simp

lemma attr_of_nth:
  assumes "mt_ok t" and "i < mt_cnt t" and "x \<in> rgn_range (mt_regions t ! i)"
  shows "attr_of t x = Some (rgn_flags (mt_regions t ! i), rgn_nid (mt_regions t ! i))"
proof (cases "dummy_only t")
  case True
  then show ?thesis using assms(2,3) by (auto simp: mt_cnt_def rgn_range_def elim!: dummy_onlyE)
next
  case False
  then show ?thesis
    using attr_at_nth [of 0 "mt_regions t" i x] assms by (simp add: mt_ok_def attr_of_def mt_cnt_def)
qed

lemma attr_of_None: "attr_of t x = None \<longleftrightarrow> (\<forall>i < mt_cnt t. x \<notin> rgn_range (mt_regions t ! i))"
  unfolding attr_of_def attr_at_iff mt_cnt_def by (metis in_set_conv_nth)

lemma search_some:
  assumes "mt_ok t" and "memblock_search t addr = Some i"
  shows "i < mt_cnt t" and "addr \<in> rgn_range (mt_regions t ! i)"
    and "attr_of t addr = Some (rgn_flags (mt_regions t ! i), rgn_nid (mt_regions t ! i))"
proof -
  have "0 < mt_cnt t" using assms(1) by (simp add: mt_ok_def mt_cnt_def)
  with memblock_search_loop_sound [OF assms(2) [unfolded memblock_search_def]]
  show i: "i < mt_cnt t" "addr \<in> rgn_range (mt_regions t ! i)" by auto
  show "attr_of t addr = Some (rgn_flags (mt_regions t ! i), rgn_nid (mt_regions t ! i))"
    using assms(1) i by (rule attr_of_nth)
qed

lemma search_none: "mt_ok t \<Longrightarrow> memblock_search t addr = None \<longleftrightarrow> attr_of t addr = None"
proof
  assume ok: "mt_ok t" and "memblock_search t addr = None"
  then have none: "memblock_search_loop t addr 0 (mt_cnt t) = None" by (simp add: memblock_search_def)
  show "attr_of t addr = None"
    unfolding attr_of_None
  proof (intro allI impI notI)
    fix i assume "i < mt_cnt t" "addr \<in> rgn_range (mt_regions t ! i)"
    then show False
      using memblock_search_loop_complete [OF mt_ok_sorted [OF ok], of 0 i "mt_cnt t" addr] none by simp
  qed
next
  assume ok: "mt_ok t" and "attr_of t addr = None"
  then show "memblock_search t addr = None" using search_some(3) [OF ok] by (cases "memblock_search t addr") auto
qed

lemma is_region_reserved_overlap:
  assumes "mt_ok (mb_reserved st)" and "sz = memblock_cap_size base sz0" and "sz \<noteq> 0"
  shows "memblock_is_region_reserved st base sz0 \<longleftrightarrow>
    (\<exists>x. base \<le> x \<and> x < base + sz \<and> attr_of (mb_reserved st) x \<noteq> None)"
proof -
  let ?t = "mb_reserved st"
  note lt = cap_size_no_wrap [OF assms(2,3)]
  have "memblock_addrs_overlap base sz (rgn_base r) (rgn_size r) \<longleftrightarrow>
      (\<exists>x. base \<le> x \<and> x < base + sz \<and> x \<in> rgn_range r)" if r: "r \<in> set (mt_regions ?t)" for r
  proof (cases "dummy_only ?t")
    case True
    then show ?thesis using r by (auto simp: memblock_addrs_overlap_def rgn_range_def elim!: dummy_onlyE)
  next
    case False
    then have ne: "rgn_base r < rgn_end r" using assms(1) r regions_from_ge by (auto simp: mt_ok_def)
    show ?thesis
    proof
      assume o: "memblock_addrs_overlap base sz (rgn_base r) (rgn_size r)"
      show "\<exists>x. base \<le> x \<and> x < base + sz \<and> x \<in> rgn_range r"
        using o ne lt by (intro exI [of _ "max base (rgn_base r)"]) (auto simp: memblock_addrs_overlap_def rgn_range_def)
    next
      assume "\<exists>x. base \<le> x \<and> x < base + sz \<and> x \<in> rgn_range r"
      then show "memblock_addrs_overlap base sz (rgn_base r) (rgn_size r)"
        by (auto simp: memblock_addrs_overlap_def rgn_range_def)
    qed
  qed
  then show ?thesis
    unfolding memblock_is_region_reserved_def memblock_overlaps_region_def assms(2) [symmetric] list_ex_iff attr_of_def
    by (auto simp: attr_at_iff)
qed

lemma is_region_memory_inside:
  assumes "mt_ok (mb_memory st)" and "sz = memblock_cap_size base sz0" and "sz \<noteq> 0"
  shows "memblock_is_region_memory st base sz0 \<longleftrightarrow>
    (\<exists>r \<in> set (mt_regions (mb_memory st)). \<forall>x. base \<le> x \<and> x < base + sz \<longrightarrow> x \<in> rgn_range r)"
proof -
  let ?t = "mb_memory st"
  note lt = cap_size_no_wrap [OF assms(2,3)]
  show ?thesis
  proof (cases "memblock_search ?t base")
    case None
    then have "\<And>r. r \<in> set (mt_regions ?t) \<Longrightarrow> base \<notin> rgn_range r"
      using search_none [OF assms(1), of base] by (simp add: attr_of_def attr_at_iff)
    then show ?thesis using None lt by (auto simp: memblock_is_region_memory_def)
  next
    case (Some i)
    note i = search_some [OF assms(1) Some]
    let ?r = "mt_regions ?t ! i"
    have "?r \<in> set (mt_regions ?t)" using i(1) by (simp add: mt_cnt_def)
    moreover have "base + sz \<le> rgn_end ?r"
      if r: "r \<in> set (mt_regions ?t)" "\<forall>x. base \<le> x \<and> x < base + sz \<longrightarrow> x \<in> rgn_range r" for r
    proof -
      obtain j where j: "j < mt_cnt ?t" "r = mt_regions ?t ! j" using r(1) by (auto simp: in_set_conv_nth mt_cnt_def)
      have "base \<in> rgn_range r" using r(2) lt by auto
      then have "j = i"
        using mt_sorted_nth [OF mt_ok_sorted [OF assms(1)], of i j] mt_sorted_nth [OF mt_ok_sorted [OF assms(1)], of j i] i j
        by (cases "i < j"; cases "j < i") (auto simp: rgn_range_def)
      moreover have "base + sz - 1 \<in> rgn_range r"
      proof -
        have ne: "base + sz \<noteq> 0" using lt by auto
        then have "base + sz - 1 < base + sz" by (rule word_pred_less) simp
        moreover have "base \<le> base + sz - 1" using lt ne by (meson dec_less_imp_less_eq linorder_not_le word_pred_less)
        ultimately show ?thesis using r(2) by blast
      qed
      ultimately show ?thesis using j by (auto simp: rgn_range_def intro: dec_less_imp_less_eq)
    qed
    ultimately show ?thesis
      using Some i(2) unfolding memblock_is_region_memory_def assms(2) [symmetric]
      by (auto simp: Let_def rgn_range_def intro!: bexI [of _ ?r])
  qed
qed

section \<open>Allocation\<close>

definition boot_ok :: "memblock \<Rightarrow> bool" where
  "boot_ok st \<longleftrightarrow> types_ok st \<and> storage_reserved st \<and> mb_current_limit st \<noteq> 0 \<and>
     mt_cnt (mb_memory st) < 2 ^ 31 \<and> mt_max (mb_reserved st) < 2 ^ 29"

text \<open>
  What a caller gets: on success an aligned block that was free, of the wanted node and
  kind, and is now reserved; whatever was reserved before stays so, but for the storage of
  the reserved array, which may have moved.
\<close>

definition allocated ::
    "memblock \<Rightarrow> memblock \<Rightarrow> int \<Rightarrow> memblock_flags \<Rightarrow> phys_addr_t \<Rightarrow> phys_addr_t \<Rightarrow> phys_addr_t \<Rightarrow>
     phys_addr_t \<Rightarrow> phys_addr_t \<Rightarrow> bool" where
  "allocated st st' nid flags start e sz align c \<longleftrightarrow>
     found_block st nid flags start e sz align c \<and>
     (\<forall>x. c \<le> x \<and> x < c + sz \<longrightarrow> attr_of (mb_reserved st') x \<noteq> None)"

definition reservations_kept :: "memblock \<Rightarrow> memblock \<Rightarrow> bool" where
  "reservations_kept st st' \<longleftrightarrow> types_ok st' \<and> storage_reserved st' \<and>
     st' = st\<lparr>mb_reserved := mb_reserved st'\<rparr> \<and>
     (\<forall>x. attr_of (mb_reserved st) x \<noteq> None \<and> x \<notin> array_block (mb_reserved st) \<longrightarrow>
        attr_of (mb_reserved st') x = attr_of (mb_reserved st) x)"

lemma reserve_result:
  assumes "boot_ok st" and "sz = memblock_cap_size base sz0" and "area_apart st base sz"
  shows "\<exists>st' r. memblock_reserve st base sz0 = Inr (st', r) \<and> reservations_kept st st' \<and>
    (r = - ENOMEM \<or> r = 0 \<and> (\<forall>x. base \<le> x \<and> x < base + sz \<longrightarrow> attr_of (mb_reserved st') x \<noteq> None))"
proof -
  have b: "types_ok st" "storage_reserved st" "mt_cnt (mb_memory st) < 2 ^ 31" "mt_max (mb_reserved st) < 2 ^ 29"
    using assms(1) by (simp_all add: boot_ok_def)
  obtain st' r where r: "memblock_reserve st base sz0 = Inr (st', r)"
    "r = - ENOMEM \<and> res_kept st st' \<or>
     r = 0 \<and> (\<exists>st1 t. res_kept st st1 \<and> area_kept st st1 base sz \<and> st' = st1\<lparr>mb_reserved := t\<rparr> \<and>
        added (mb_reserved st1) t base sz MAX_NUMNODES 0)"
    using rg.add_range_reserved [of st sz base sz0 1 MAX_NUMNODES 0] b assms(2,3)
    unfolding memblock_reserve_def memblock_add_range_def dbl_depth_def
    by (auto simp: numeral_2_eq_2 simp del: memblock_double_array.simps)
  show ?thesis
  proof (cases "r = 0")
    case False
    then have k: "res_kept st st'" "r = - ENOMEM" using r(2) by auto
    then have "reservations_kept st st'" using b(2) by (auto simp: res_kept_def reservations_kept_def)
    then show ?thesis using r(1) k(2) by blast
  next
    case True
    then obtain st1 t where k: "res_kept st st1" "st' = st1\<lparr>mb_reserved := t\<rparr>" "added (mb_reserved st1) t base sz MAX_NUMNODES 0"
      using r(2) by (auto simp: ENOMEM_def)
    have up: "attr_of t x = attr_of (mb_reserved st1) x" if "attr_of (mb_reserved st1) x \<noteq> None" for x
      using k(3) that by (auto simp: added_def split: option.splits)
    have "mt_max t = mt_max (mb_reserved st1)" "mt_array t = mt_array (mb_reserved st1)"
      using k(3) by (simp_all add: added_def)
    then have blk: "array_block t = array_block (mb_reserved st1)" by (simp only: array_block_def)
    have "storage_reserved st1" using k(1) b(2) by (simp add: res_kept_def)
    then have "storage_reserved st'" using k(2) blk up by (auto simp: storage_reserved_def)
    moreover have "types_ok st'" using k by (auto simp: types_ok_def res_kept_def added_def)
    moreover have "attr_of t x = attr_of (mb_reserved st) x"
      if "attr_of (mb_reserved st) x \<noteq> None" "x \<notin> array_block (mb_reserved st)" for x
      using k(1) up [of x] that by (auto simp: res_kept_def)
    moreover have "\<forall>x. base \<le> x \<and> x < base + sz \<longrightarrow> attr_of t x \<noteq> None"
      using k(3) by (auto simp: added_def split: option.splits)
    ultimately show ?thesis using r(1) True k(1,2) by (auto simp: reservations_kept_def res_kept_def)
  qed
qed

lemma found_apart:
  assumes "boot_ok st" and "found_block st nid flags start e sz align c" and "c \<noteq> 0"
  shows "area_apart st c sz" and "memblock_cap_size c sz = sz"
proof -
  note us = found_usable [OF assms(2)]
  show "memblock_cap_size c sz = sz" using us by (rule usable_cap)
  show "area_apart st c sz"
    using us assms(1,3) by (auto simp: area_apart_def boot_ok_def usable_def storage_reserved_def)
qed

lemma find_and_reserve_result:
  assumes "boot_ok st" and "sz \<noteq> 0" and "k < 64"
  shows "\<exists>st' c. find_and_reserve st sz (2 ^ k) start e nid flags = Inr (st', c) \<and> reservations_kept st st' \<and>
    (c \<noteq> 0 \<longrightarrow> allocated st st' nid flags start e sz (2 ^ k) c)"
proof -
  have "types_ok st" "cnt_small st" using assms(1)
    by (auto simp: boot_ok_def types_ok_def cnt_small_def mt_ok_def)
  then obtain c where c: "memblock_find_in_range_node st sz (2 ^ k) start e nid flags = Inr c"
    "c \<noteq> 0 \<longrightarrow> found_block st nid flags start e sz (2 ^ k) c"
    using find_in_range_node_block [OF _ _ assms(2,3)] by blast
  show ?thesis
  proof (cases "c = 0")
    case True
    have "reservations_kept st st" using assms(1) by (auto simp: reservations_kept_def boot_ok_def)
    then show ?thesis using c True by (simp add: find_and_reserve_def)
  next
    case False
    then have f: "found_block st nid flags start e sz (2 ^ k) c" using c(2) by simp
    obtain st' r where r: "memblock_reserve st c sz = Inr (st', r)" "reservations_kept st st'"
      "r = - ENOMEM \<or> r = 0 \<and> (\<forall>x. c \<le> x \<and> x < c + sz \<longrightarrow> attr_of (mb_reserved st') x \<noteq> None)"
      using reserve_result [OF assms(1) found_apart(2) [OF assms(1) f False, symmetric] found_apart(1) [OF assms(1) f False]]
      by blast
    then show ?thesis using c(1) False f by (auto simp: find_and_reserve_def allocated_def ENOMEM_def)
  qed
qed

end
