(* ===== verification/Pages.thy ===== *)
theory Pages
  imports Kernel_Prelude
begin

unbundle bit_operations_syntax

text \<open>
  Page descriptors: \<open>struct page\<close> (\<open>include/linux/page-types.h\<close>), its flag word with the
  node and zone fields (\<open>page-flags.h\<close>, \<open>page-flags-layout.h\<close>, \<open>page.h\<close>), the page type
  in the map-count word, and the reference count (\<open>page_ref.h\<close>).

  The page array is a function from page-frame numbers to descriptors: with the virtual
  memory map, \<open>page + n\<close> in the code is the descriptor of frame \<open>pfn + n\<close>. The list links
  of a page are not part of its descriptor here; the lists hold frame numbers.
\<close>

section \<open>Descriptors\<close>

record page =
  pg_flags :: u64
  pg_mapping :: u64
  pg_private :: nat
  pg_head :: "nat option"
  pg_compound_order :: nat
  pg_compound_mapcount :: int
  pg_type :: u32
  pg_count :: int

type_synonym pagemap = "nat \<Rightarrow> page"

text \<open>\<open>enum pageflags\<close>: bit numbers in the flag word.\<close>

definition PG_locked :: nat where "PG_locked = 0"
definition PG_dirty :: nat where "PG_dirty = 1"
definition PG_active :: nat where "PG_active = 2"
definition PG_slab :: nat where "PG_slab = 3"
definition PG_reserved :: nat where "PG_reserved = 4"
definition PG_private :: nat where "PG_private = 5"
definition PG_head :: nat where "PG_head = 6"
definition NR_PAGEFLAGS :: nat where "NR_PAGEFLAGS = 7"

definition PAGE_FLAGS_CHECK_AT_FREE :: u64 where
  "PAGE_FLAGS_CHECK_AT_FREE =
     push_bit PG_locked 1 OR push_bit PG_private 1 OR push_bit PG_reserved 1 OR push_bit PG_slab 1 OR
     push_bit PG_active 1"

definition PAGE_FLAGS_CHECK_AT_PREP :: u64 where
  "PAGE_FLAGS_CHECK_AT_PREP = push_bit NR_PAGEFLAGS 1 - 1"

definition TAIL_MAPPING :: u64 where
  "TAIL_MAPPING = 0x400 + 0xdead000000000000"

definition PAGE_MAPPING_FLAGS :: u64 where
  "PAGE_MAPPING_FLAGS = 0x1 OR 0x2"

section \<open>Node and zone fields\<close>

text \<open>Three zones take two bits, \<open>CONFIG_NODES_SHIFT\<close> is three.\<close>

definition ZONES_WIDTH :: nat where "ZONES_WIDTH = 2"
definition NODES_WIDTH :: nat where "NODES_WIDTH = 3"
definition NODES_PGSHIFT :: nat where "NODES_PGSHIFT = 64 - NODES_WIDTH"
definition ZONES_PGSHIFT :: nat where "ZONES_PGSHIFT = NODES_PGSHIFT - ZONES_WIDTH"
definition ZONES_MASK :: u64 where "ZONES_MASK = push_bit ZONES_WIDTH 1 - 1"
definition NODES_MASK :: u64 where "NODES_MASK = push_bit NODES_WIDTH 1 - 1"

definition set_page_node :: "u64 \<Rightarrow> page \<Rightarrow> page" where
  "set_page_node node p =
     p\<lparr>pg_flags := (pg_flags p AND NOT (push_bit NODES_PGSHIFT NODES_MASK)) OR
                   push_bit NODES_PGSHIFT (node AND NODES_MASK)\<rparr>"

definition page_to_nid :: "page \<Rightarrow> u64" where
  "page_to_nid p = drop_bit NODES_PGSHIFT (pg_flags p) AND NODES_MASK"

definition set_page_zone :: "u64 \<Rightarrow> page \<Rightarrow> page" where
  "set_page_zone zone p =
     p\<lparr>pg_flags := (pg_flags p AND NOT (push_bit ZONES_PGSHIFT ZONES_MASK)) OR
                   push_bit ZONES_PGSHIFT (zone AND ZONES_MASK)\<rparr>"

definition page_zonenum :: "page \<Rightarrow> u64" where
  "page_zonenum p = drop_bit ZONES_PGSHIFT (pg_flags p) AND ZONES_MASK"

definition set_page_links :: "u64 \<Rightarrow> u64 \<Rightarrow> page \<Rightarrow> page" where
  "set_page_links zone node p = set_page_node node (set_page_zone zone p)"

definition page_zone_id :: "page \<Rightarrow> u64" where
  "page_zone_id p = drop_bit ZONES_PGSHIFT (pg_flags p) AND ZONES_MASK"

text \<open>A zone is named by its node and its index in \<open>node_zones\<close>.\<close>

type_synonym zone_ptr = "u64 \<times> u64"

definition page_zone :: "page \<Rightarrow> zone_ptr" where
  "page_zone p = (page_to_nid p, page_zonenum p)"

section \<open>Page types\<close>

definition PAGE_TYPE_BASE :: u32 where "PAGE_TYPE_BASE = 0xf0000000"
definition PG_buddy :: u32 where "PG_buddy = 0x80"

definition PageType :: "page \<Rightarrow> u32 \<Rightarrow> bool" where
  "PageType p flag \<longleftrightarrow> pg_type p AND (PAGE_TYPE_BASE OR flag) = PAGE_TYPE_BASE"

definition PageBuddy :: "page \<Rightarrow> bool" where
  "PageBuddy p \<longleftrightarrow> PageType p PG_buddy"

definition SetPageBuddy :: "page \<Rightarrow> page res" where
  "SetPageBuddy p = (if \<not> PageType p 0 then Inl Bug else Inr (p\<lparr>pg_type := pg_type p AND NOT PG_buddy\<rparr>))"

definition ClearPageBuddy :: "page \<Rightarrow> page res" where
  "ClearPageBuddy p = (if \<not> PageBuddy p then Inl Bug else Inr (p\<lparr>pg_type := pg_type p OR PG_buddy\<rparr>))"

text \<open>\<open>_mapcount\<close> shares its word with the page type.\<close>

definition page_mapcount :: "page \<Rightarrow> int" where
  "page_mapcount p = sint (pg_type p)"

definition page_mapcount_reset :: "page \<Rightarrow> page" where
  "page_mapcount_reset p = p\<lparr>pg_type := - 1\<rparr>"

section \<open>Flags, compound pages, reference counts\<close>

definition PageTail :: "page \<Rightarrow> bool" where
  "PageTail p \<longleftrightarrow> pg_head p \<noteq> None"

definition compound_head :: "pagemap \<Rightarrow> nat \<Rightarrow> nat" where
  "compound_head pages pfn = (case pg_head (pages pfn) of Some h \<Rightarrow> h | None \<Rightarrow> pfn)"

definition PageHead :: "page \<Rightarrow> bool" where
  "PageHead p \<longleftrightarrow> bit (pg_flags p) PG_head"

definition PageCompound :: "page \<Rightarrow> bool" where
  "PageCompound p \<longleftrightarrow> PageHead p \<or> PageTail p"

definition SetPageHead :: "page \<Rightarrow> page" where
  "SetPageHead p = p\<lparr>pg_flags := pg_flags p OR push_bit PG_head 1\<rparr>"

definition PageReserved :: "page \<Rightarrow> bool" where
  "PageReserved p \<longleftrightarrow> bit (pg_flags p) PG_reserved"

text \<open>\<open>PF_NO_COMPOUND\<close>: the reserved flag must not be changed on a compound page.\<close>

definition SetPageReserved :: "page \<Rightarrow> page res" where
  "SetPageReserved p =
     (if PageCompound p then Inl Bug else Inr (p\<lparr>pg_flags := pg_flags p OR push_bit PG_reserved 1\<rparr>))"

definition ClearPageReserved :: "page \<Rightarrow> page res" where
  "ClearPageReserved p =
     (if PageCompound p then Inl Bug else Inr (p\<lparr>pg_flags := pg_flags p AND NOT (push_bit PG_reserved 1)\<rparr>))"

definition PageMappingFlags :: "page \<Rightarrow> bool" where
  "PageMappingFlags p \<longleftrightarrow> pg_mapping p AND PAGE_MAPPING_FLAGS \<noteq> 0"

definition compound_order :: "pagemap \<Rightarrow> nat \<Rightarrow> nat" where
  "compound_order pages pfn = (if \<not> PageHead (pages pfn) then 0 else pg_compound_order (pages (pfn + 1)))"

definition compound_mapcount :: "pagemap \<Rightarrow> nat \<Rightarrow> int res" where
  "compound_mapcount pages pfn =
     (if \<not> PageCompound (pages pfn) then Inl Bug
      else Inr (pg_compound_mapcount (pages (compound_head pages pfn + 1)) + 1))"

definition page_count :: "pagemap \<Rightarrow> nat \<Rightarrow> int" where
  "page_count pages pfn = pg_count (pages (compound_head pages pfn))"

definition set_page_count :: "int \<Rightarrow> page \<Rightarrow> page" where
  "set_page_count v p = p\<lparr>pg_count := v\<rparr>"

definition set_page_refcounted :: "page \<Rightarrow> page res" where
  "set_page_refcounted p = (if PageTail p \<or> pg_count p \<noteq> 0 then Inl Bug else Inr (set_page_count 1 p))"

definition put_page_testzero :: "page \<Rightarrow> (page \<times> bool) res" where
  "put_page_testzero p =
     (if pg_count p = 0 then Inl Bug
      else let p' = p\<lparr>pg_count := pg_count p - 1\<rparr> in Inr (p', pg_count p' = 0))"

definition page_expected_state :: "u64 \<Rightarrow> page \<Rightarrow> bool" where
  "page_expected_state check_flags p \<longleftrightarrow>
     page_mapcount p = - 1 \<and> pg_mapping p = 0 \<and> pg_count p = 0 \<and> pg_flags p AND check_flags = 0"

section \<open>Facts\<close>

lemma SetPageBuddy_ok:
  assumes "PageType p 0"
  shows "\<exists>p'. SetPageBuddy p = Inr p' \<and> PageBuddy p' \<and> PageType p' 0 \<and> p' = p\<lparr>pg_type := pg_type p'\<rparr>"
proof -
  have b: "pg_type p AND PAGE_TYPE_BASE = PAGE_TYPE_BASE" using assms by (simp add: PageType_def)
  have "(pg_type p AND NOT PG_buddy) AND (PAGE_TYPE_BASE OR PG_buddy) = PAGE_TYPE_BASE"
  proof -
    have "(pg_type p AND NOT PG_buddy) AND (PAGE_TYPE_BASE OR PG_buddy) =
        (pg_type p AND PAGE_TYPE_BASE) AND NOT PG_buddy"
      by (rule bit_word_eqI) (auto simp: bit_simps)
    also have "\<dots> = PAGE_TYPE_BASE" unfolding b by (simp add: PAGE_TYPE_BASE_def PG_buddy_def)
    finally show ?thesis .
  qed
  moreover have "(pg_type p AND NOT PG_buddy) AND PAGE_TYPE_BASE = PAGE_TYPE_BASE"
  proof -
    have "(pg_type p AND NOT PG_buddy) AND PAGE_TYPE_BASE = (pg_type p AND PAGE_TYPE_BASE) AND NOT PG_buddy"
      by (rule bit_word_eqI) (auto simp: bit_simps)
    also have "\<dots> = PAGE_TYPE_BASE" unfolding b by (simp add: PAGE_TYPE_BASE_def PG_buddy_def)
    finally show ?thesis .
  qed
  ultimately show ?thesis using assms by (simp add: SetPageBuddy_def PageBuddy_def PageType_def)
qed

lemma ClearPageBuddy_ok:
  assumes "PageBuddy p"
  shows "\<exists>p'. ClearPageBuddy p = Inr p' \<and> \<not> PageBuddy p' \<and> PageType p' 0 \<and> p' = p\<lparr>pg_type := pg_type p'\<rparr>"
proof -
  have b: "pg_type p AND (PAGE_TYPE_BASE OR PG_buddy) = PAGE_TYPE_BASE"
    using assms by (simp add: PageType_def PageBuddy_def)
  have "(pg_type p OR PG_buddy) AND (PAGE_TYPE_BASE OR PG_buddy) = (pg_type p AND (PAGE_TYPE_BASE OR PG_buddy)) OR PG_buddy"
    by (rule bit_word_eqI) (auto simp: bit_simps)
  then have n: "(pg_type p OR PG_buddy) AND (PAGE_TYPE_BASE OR PG_buddy) \<noteq> PAGE_TYPE_BASE"
    unfolding b by (simp add: PAGE_TYPE_BASE_def PG_buddy_def)
  have "(pg_type p OR PG_buddy) AND PAGE_TYPE_BASE = (pg_type p AND (PAGE_TYPE_BASE OR PG_buddy)) AND PAGE_TYPE_BASE OR (PG_buddy AND PAGE_TYPE_BASE)"
    by (rule bit_word_eqI) (auto simp: bit_simps)
  also have "\<dots> = PAGE_TYPE_BASE" unfolding b by (simp add: PAGE_TYPE_BASE_def PG_buddy_def)
  finally show ?thesis using assms n by (simp add: ClearPageBuddy_def PageBuddy_def PageType_def)
qed

lemma field_masks: "ZONES_MASK = mask 2" "NODES_MASK = mask 3" "PAGE_FLAGS_CHECK_AT_PREP = mask 7"
  by (simp_all add: ZONES_MASK_def NODES_MASK_def PAGE_FLAGS_CHECK_AT_PREP_def ZONES_WIDTH_def NODES_WIDTH_def
      NR_PAGEFLAGS_def mask_eq_exp_minus_1)

lemma field_shifts: "ZONES_PGSHIFT = 59" "NODES_PGSHIFT = 61"
  by (simp_all add: ZONES_PGSHIFT_def NODES_PGSHIFT_def ZONES_WIDTH_def NODES_WIDTH_def)

text \<open>The node and the zone of a page are read back as set, and the flags proper are not touched.\<close>

lemma page_zonenum_links: "page_zonenum (set_page_links zone node p) = zone AND ZONES_MASK"
  unfolding page_zonenum_def set_page_links_def set_page_node_def set_page_zone_def field_masks field_shifts
  by (rule bit_word_eqI) (auto simp: bit_simps)

lemma page_to_nid_links: "page_to_nid (set_page_links zone node p) = node AND NODES_MASK"
  unfolding page_to_nid_def set_page_links_def set_page_node_def set_page_zone_def field_masks field_shifts
  by (rule bit_word_eqI) (auto simp: bit_simps)

lemma page_flags_links:
  "pg_flags (set_page_links zone node p) AND PAGE_FLAGS_CHECK_AT_PREP = pg_flags p AND PAGE_FLAGS_CHECK_AT_PREP"
  unfolding set_page_links_def set_page_node_def set_page_zone_def field_masks field_shifts
  by (rule bit_word_eqI) (auto simp: bit_simps)

lemma page_zone_update [simp]:
  "page_zone (p\<lparr>pg_type := t\<rparr>) = page_zone p" "page_zone (p\<lparr>pg_private := v\<rparr>) = page_zone p"
  "page_zone (p\<lparr>pg_count := c\<rparr>) = page_zone p" "page_zone (p\<lparr>pg_mapping := m\<rparr>) = page_zone p"
  "page_zone (p\<lparr>pg_head := h\<rparr>) = page_zone p" "page_zone (p\<lparr>pg_compound_order := k\<rparr>) = page_zone p"
  "page_zone (p\<lparr>pg_compound_mapcount := n\<rparr>) = page_zone p"
  by (simp_all add: page_zone_def page_to_nid_def page_zonenum_def)

lemma page_zone_cong:
  assumes "pg_flags p = pg_flags q"
  shows "page_zone p = page_zone q" "page_zone_id p = page_zone_id q"
  using assms by (simp_all add: page_zone_def page_to_nid_def page_zonenum_def page_zone_id_def)

lemma page_zone_id_eq: "page_zone p = page_zone q \<Longrightarrow> page_zone_id p = page_zone_id q"
  by (simp add: page_zone_def page_zonenum_def page_zone_id_def)

end
