(* ===== verification/Buddy.thy ===== *)
theory Buddy
  imports Pages
begin

unbundle bit_operations_syntax

text \<open>
  The buddy system of \<open>mm/page_alloc.c\<close>: the free lists of one zone, splitting
  (\<open>expand\<close>), removal of the smallest fitting block (\<open>__rmqueue_smallest\<close>) and release
  with merging (\<open>__free_one_page\<close>).

  The lists hold page-frame numbers, first entry first. \<open>list_del(&page->lru)\<close> unlinks a
  page from the list it is on; a buddy page of order \<open>n\<close> is on the list of order \<open>n\<close>
  (clause \<open>linked\<close> of the invariant), which is where the model removes it.
\<close>

section \<open>Data\<close>

definition MAX_ORDER :: nat where
  "MAX_ORDER = 11"

record free_area =
  free_list :: "nat list"
  nr_free :: nat

definition find_buddy_pfn :: "nat \<Rightarrow> nat \<Rightarrow> nat" where
  "find_buddy_pfn page_pfn order = page_pfn XOR push_bit order 1"

definition page_order :: "page \<Rightarrow> nat" where
  "page_order p = pg_private p"

definition set_page_order :: "pagemap \<Rightarrow> nat \<Rightarrow> nat \<Rightarrow> pagemap res" where
  "set_page_order pages pfn order =
     and_then (SetPageBuddy ((pages pfn)\<lparr>pg_private := order\<rparr>)) (\<lambda>p. Inr (pages(pfn := p)))"

definition rmv_page_order :: "pagemap \<Rightarrow> nat \<Rightarrow> pagemap res" where
  "rmv_page_order pages pfn =
     and_then (ClearPageBuddy (pages pfn)) (\<lambda>p. Inr (pages(pfn := p\<lparr>pg_private := 0\<rparr>)))"

text \<open>There are no guard pages (\<open>page_is_guard\<close> is constantly false).\<close>

definition page_is_buddy :: "pagemap \<Rightarrow> nat \<Rightarrow> nat \<Rightarrow> nat \<Rightarrow> bool res" where
  "page_is_buddy pages pfn buddy order =
     (if PageBuddy (pages buddy) \<and> page_order (pages buddy) = order then
        if page_zone_id (pages pfn) \<noteq> page_zone_id (pages buddy) then Inr False
        else if page_count pages buddy \<noteq> 0 then Inl Bug
        else Inr True
      else Inr False)"

definition list_add :: "nat \<Rightarrow> free_area \<Rightarrow> free_area" where
  "list_add pfn a = a\<lparr>free_list := pfn # free_list a, nr_free := nr_free a + 1\<rparr>"

definition list_add_tail :: "nat \<Rightarrow> free_area \<Rightarrow> free_area" where
  "list_add_tail pfn a = a\<lparr>free_list := free_list a @ [pfn], nr_free := nr_free a + 1\<rparr>"

definition list_del :: "nat \<Rightarrow> free_area \<Rightarrow> free_area" where
  "list_del pfn a = a\<lparr>free_list := remove1 pfn (free_list a), nr_free := nr_free a - 1\<rparr>"

section \<open>Taking a block\<close>

fun expand :: "pagemap \<Rightarrow> free_area list \<Rightarrow> nat \<Rightarrow> nat \<Rightarrow> nat \<Rightarrow> (pagemap \<times> free_area list) res" where
  "expand pages fa pfn low 0 = Inr (pages, fa)"
| "expand pages fa pfn low (Suc high) =
     (if Suc high > low then
        and_then (set_page_order pages (pfn + 2 ^ high) high)
          (\<lambda>pages'. expand pages' (fa[high := list_add (pfn + 2 ^ high) (fa ! high)]) pfn low high)
      else Inr (pages, fa))"

function rmqueue_smallest_loop ::
    "pagemap \<Rightarrow> free_area list \<Rightarrow> nat \<Rightarrow> nat \<Rightarrow> (pagemap \<times> free_area list \<times> nat option) res" where
  "rmqueue_smallest_loop pages fa order current_order =
     (if current_order < MAX_ORDER then
        case free_list (fa ! current_order) of
          [] \<Rightarrow> rmqueue_smallest_loop pages fa order (current_order + 1)
        | page # _ \<Rightarrow>
            and_then (rmv_page_order pages page)
              (\<lambda>pages'.
                 and_then (expand pages' (fa[current_order := list_del page (fa ! current_order)])
                             page order current_order)
                   (\<lambda>(pages'', fa''). Inr (pages'', fa'', Some page)))
      else Inr (pages, fa, None))"
  by pat_completeness auto
termination
  by (relation "measure (\<lambda>(pages, fa, order, c). MAX_ORDER - c)") auto

declare rmqueue_smallest_loop.simps [simp del]

definition rmqueue_smallest ::
    "pagemap \<Rightarrow> free_area list \<Rightarrow> nat \<Rightarrow> (pagemap \<times> free_area list \<times> nat option) res" where
  "rmqueue_smallest pages fa order = rmqueue_smallest_loop pages fa order order"

section \<open>Releasing a block\<close>

text \<open>
  The loop \<open>while (order < max_order - 1)\<close>; \<open>pageblock_order\<close> is \<open>MAX_ORDER - 1\<close>, so
  \<open>max_order\<close> is \<open>MAX_ORDER\<close> and the second round of merging never runs. \<open>valid\<close> is
  \<open>pfn_valid\<close>.
\<close>

function merge_loop ::
    "(nat \<Rightarrow> bool) \<Rightarrow> pagemap \<Rightarrow> free_area list \<Rightarrow> nat \<Rightarrow> nat \<Rightarrow> (pagemap \<times> free_area list \<times> nat \<times> nat) res" where
  "merge_loop valid pages fa pfn order =
     (if order < MAX_ORDER - 1 then
        let buddy_pfn = find_buddy_pfn pfn order in
        if \<not> valid buddy_pfn then Inr (pages, fa, pfn, order)
        else
          and_then (page_is_buddy pages pfn buddy_pfn order)
            (\<lambda>is_buddy.
               if \<not> is_buddy then Inr (pages, fa, pfn, order)
               else
                 and_then (rmv_page_order pages buddy_pfn)
                   (\<lambda>pages'.
                      merge_loop valid pages' (fa[order := list_del buddy_pfn (fa ! order)])
                        (buddy_pfn AND pfn) (order + 1)))
      else Inr (pages, fa, pfn, order))"
  by pat_completeness auto
termination
  by (relation "measure (\<lambda>(valid, pages, fa, pfn, order). MAX_ORDER - order)") auto

declare merge_loop.simps [simp del]

text \<open>Whether the block goes to the tail of its list: the buddy of the next-highest order is free.\<close>

definition add_to_tail :: "(nat \<Rightarrow> bool) \<Rightarrow> pagemap \<Rightarrow> nat \<Rightarrow> nat \<Rightarrow> bool res" where
  "add_to_tail valid pages pfn order =
     (let buddy_pfn = find_buddy_pfn pfn order in
      if order < MAX_ORDER - 2 \<and> valid buddy_pfn then
        let combined_pfn = buddy_pfn AND pfn;
            higher_buddy = find_buddy_pfn combined_pfn (order + 1)
        in if valid higher_buddy then page_is_buddy pages combined_pfn higher_buddy (order + 1)
           else Inr False
      else Inr False)"

definition free_one_page_core ::
    "(nat \<Rightarrow> bool) \<Rightarrow> pagemap \<Rightarrow> free_area list \<Rightarrow> nat \<Rightarrow> nat \<Rightarrow> (pagemap \<times> free_area list) res" where
  "free_one_page_core valid pages fa pfn order =
     (if pg_flags (pages pfn) AND PAGE_FLAGS_CHECK_AT_PREP \<noteq> 0 then Inl Bug
      else if pfn AND (push_bit order 1 - 1) \<noteq> 0 then Inl Bug
      else
        and_then (merge_loop valid pages fa pfn order)
          (\<lambda>(pages1, fa1, pfn1, order1).
             and_then (set_page_order pages1 pfn1 order1)
               (\<lambda>pages2.
                  and_then (add_to_tail valid pages2 pfn1 order1)
                    (\<lambda>tail.
                       Inr (pages2, fa1[order1 := (if tail then list_add_tail else list_add) pfn1 (fa1 ! order1)])))))"

section \<open>The invariant\<close>

definition blocks :: "free_area list \<Rightarrow> (nat \<times> nat) set" where
  "blocks fa = {(p, k). k < length fa \<and> p \<in> set (free_list (fa ! k))}"

definition frames :: "nat \<times> nat \<Rightarrow> nat set" where
  "frames b = {fst b ..< fst b + 2 ^ snd b}"

definition free_frames :: "free_area list \<Rightarrow> nat set" where
  "free_frames fa = (\<Union>b \<in> blocks fa. frames b)"

text \<open>
  A free page passes the checks made when a page is allocated, apart from its buddy mark;
  a block is raw when none of its pages carries the mark.
\<close>

definition free_page :: "zone_ptr \<Rightarrow> page \<Rightarrow> bool" where
  "free_page z p \<longleftrightarrow>
     page_zone p = z \<and> (pg_type p = - 1 \<or> pg_type p = NOT PG_buddy) \<and> pg_mapping p = 0 \<and>
     pg_count p = 0 \<and> pg_head p = None \<and> pg_flags p AND PAGE_FLAGS_CHECK_AT_PREP = 0"

definition raw_block :: "(nat \<Rightarrow> bool) \<Rightarrow> zone_ptr \<Rightarrow> pagemap \<Rightarrow> nat \<times> nat \<Rightarrow> bool" where
  "raw_block valid z pages b \<longleftrightarrow>
     2 ^ snd b dvd fst b \<and> (\<forall>q \<in> frames b. valid q \<and> free_page z (pages q) \<and> pg_type (pages q) = - 1)"

text \<open>
  \<open>linked\<close>: a page of the zone is marked as a buddy page of order \<open>k\<close> exactly when it heads
  a block on the list of order \<open>k\<close>. \<open>idle\<close>: no marked page is in use. \<open>apart\<close>: blocks do
  not overlap.
\<close>

definition linked :: "(nat \<Rightarrow> bool) \<Rightarrow> zone_ptr \<Rightarrow> pagemap \<Rightarrow> free_area list \<Rightarrow> bool" where
  "linked valid z pages fa \<longleftrightarrow>
     (\<forall>p k. (p, k) \<in> blocks fa \<longleftrightarrow>
        valid p \<and> PageBuddy (pages p) \<and> page_order (pages p) = k \<and> page_zone (pages p) = z)"

definition idle :: "(nat \<Rightarrow> bool) \<Rightarrow> pagemap \<Rightarrow> bool" where
  "idle valid pages \<longleftrightarrow> (\<forall>p. valid p \<and> PageBuddy (pages p) \<longrightarrow> pg_count (pages p) = 0 \<and> pg_head (pages p) = None)"

text \<open>
  \<open>page_is_buddy\<close> compares \<open>page_zone_id\<close>, which holds the zone index but not the node. Two
  nodes may therefore not share a naturally aligned block of the largest order.
\<close>

definition zones_aligned :: "(nat \<Rightarrow> bool) \<Rightarrow> pagemap \<Rightarrow> bool" where
  "zones_aligned valid pages \<longleftrightarrow>
     (\<forall>p q. valid p \<and> valid q \<and> p div 2 ^ (MAX_ORDER - 1) = q div 2 ^ (MAX_ORDER - 1) \<and>
        page_zone_id (pages p) = page_zone_id (pages q) \<longrightarrow> page_zone (pages p) = page_zone (pages q))"

definition apart :: "(nat \<times> nat) set \<Rightarrow> bool" where
  "apart bs \<longleftrightarrow> (\<forall>b \<in> bs. \<forall>c \<in> bs. b \<noteq> c \<longrightarrow> frames b \<inter> frames c = {})"

definition lists_ok :: "free_area list \<Rightarrow> bool" where
  "lists_ok fa \<longleftrightarrow> length fa = MAX_ORDER \<and>
     (\<forall>k < MAX_ORDER. distinct (free_list (fa ! k)) \<and> nr_free (fa ! k) = length (free_list (fa ! k)))"

definition buddy_ok :: "(nat \<Rightarrow> bool) \<Rightarrow> zone_ptr \<Rightarrow> pagemap \<Rightarrow> free_area list \<Rightarrow> bool" where
  "buddy_ok valid z pages fa \<longleftrightarrow>
     lists_ok fa \<and> linked valid z pages fa \<and> idle valid pages \<and> zones_aligned valid pages \<and> apart (blocks fa) \<and>
     (\<forall>(p, k) \<in> blocks fa. 2 ^ k dvd p) \<and> (\<forall>q \<in> free_frames fa. valid q \<and> free_page z (pages q))"

text \<open>No two free buddies: everything that can be merged is merged.\<close>

definition merged :: "(nat \<times> nat) set \<Rightarrow> bool" where
  "merged bs \<longleftrightarrow> (\<forall>(p, k) \<in> bs. k < MAX_ORDER - 1 \<longrightarrow> (find_buddy_pfn p k, k) \<notin> bs)"

section \<open>Buddies\<close>

lemma push_bit_xor_one: "push_bit k (q :: nat) XOR push_bit k 1 = push_bit k (q XOR 1)"
  by (rule bit_eqI) (auto simp: bit_simps)

lemma find_buddy_eq: "find_buddy_pfn (2 ^ k * q) k = 2 ^ k * (if even q then q + 1 else q - 1)"
proof -
  have "find_buddy_pfn (2 ^ k * q) k = push_bit k q XOR push_bit k 1"
    by (simp add: find_buddy_pfn_def push_bit_eq_mult mult.commute)
  also have "\<dots> = push_bit k (q XOR 1)" by (rule push_bit_xor_one)
  also have "q XOR 1 = (if even q then q + 1 else q - 1)"
    by (simp add: xor_one_eq flip: One_nat_def)
  finally show ?thesis by (simp add: push_bit_eq_mult mult.commute)
qed

lemma buddy_same_block: "k < n \<Longrightarrow> find_buddy_pfn p k div 2 ^ n = p div 2 ^ n"
proof -
  assume "k < n"
  then have "drop_bit n (p XOR push_bit k 1) = drop_bit n p"
    by (intro bit_eqI) (auto simp: bit_simps bit_1_iff)
  then show ?thesis by (simp add: find_buddy_pfn_def drop_bit_eq_div)
qed

lemma combined_eq: "find_buddy_pfn (2 ^ k * q) k AND 2 ^ k * q = 2 ^ (k + 1) * (q div 2)"
proof -
  have "find_buddy_pfn (2 ^ k * q) k AND 2 ^ k * q = (push_bit k q XOR push_bit k 1) AND push_bit k q"
    by (simp add: find_buddy_pfn_def push_bit_eq_mult mult.commute)
  also have "\<dots> = push_bit k ((q XOR 1) AND q)" by (simp only: push_bit_xor_one push_bit_and)
  also have "(q XOR 1) AND q = 2 * (q div 2)"
  proof (rule bit_eqI)
    fix n show "bit ((q XOR 1) AND q) n = bit (2 * (q div 2)) n"
      unfolding bit_and_iff bit_xor_iff by (cases n) (auto simp: bit_1_iff bit_double_iff bit_0 bit_Suc)
  qed
  finally show ?thesis by (simp add: push_bit_eq_mult)
qed

lemma buddy_aligned: "2 ^ k dvd p \<Longrightarrow> 2 ^ k dvd find_buddy_pfn p k"
  by (auto simp: find_buddy_eq elim!: dvdE)

lemma buddy_invol: "find_buddy_pfn (find_buddy_pfn p k) k = p"
  by (simp add: find_buddy_pfn_def xor.assoc)

lemma buddy_frames:
  assumes "2 ^ k dvd p"
  shows "frames (find_buddy_pfn p k AND p, k + 1) = frames (p, k) \<union> frames (find_buddy_pfn p k, k)"
    and "frames (p, k) \<inter> frames (find_buddy_pfn p k, k) = {}"
    and "2 ^ (k + 1) dvd find_buddy_pfn p k AND p"
proof -
  obtain q where p: "p = 2 ^ k * q" using assms by (elim dvdE)
  obtain h where h: "q = 2 * h \<or> q = 2 * h + 1" using oddE evenE by metis
  show "frames (find_buddy_pfn p k AND p, k + 1) = frames (p, k) \<union> frames (find_buddy_pfn p k, k)"
    using h unfolding p combined_eq unfolding find_buddy_eq frames_def by (auto simp: algebra_simps)
  show "frames (p, k) \<inter> frames (find_buddy_pfn p k, k) = {}"
    using h unfolding p find_buddy_eq frames_def by (auto simp: algebra_simps)
  show "2 ^ (k + 1) dvd find_buddy_pfn p k AND p" unfolding p combined_eq by simp
qed

lemma buddy_upper:
  assumes "2 ^ Suc k dvd p" shows "find_buddy_pfn (p + 2 ^ k) k = p"
proof -
  obtain q where "p = 2 ^ Suc k * q" using assms by (elim dvdE)
  then have "p + 2 ^ k = 2 ^ k * (2 * q + 1)" "p = 2 ^ k * (2 * q)" by (simp_all add: algebra_simps)
  then show ?thesis by (simp only: find_buddy_eq) simp
qed

section \<open>Linking and unlinking one block\<close>

lemma frames_head [simp]: "p \<in> frames (p, k)"
  by (simp add: frames_def)

lemma in_free_frames: "(p, k) \<in> blocks fa \<Longrightarrow> q \<in> frames (p, k) \<Longrightarrow> q \<in> free_frames fa"
  by (auto simp: free_frames_def)

lemma PageBuddy_type: "pg_type p = NOT PG_buddy \<Longrightarrow> PageBuddy p" "pg_type p = - 1 \<Longrightarrow> \<not> PageBuddy p"
  by (simp_all add: PageBuddy_def PageType_def PG_buddy_def PAGE_TYPE_BASE_def)

lemma set_page_order_raw:
  assumes "pg_type (pages p) = - 1"
  shows "set_page_order pages p k =
    Inr (pages(p := (pages p)\<lparr>pg_private := k, pg_type := NOT PG_buddy\<rparr>))"
  using assms
  by (simp add: set_page_order_def SetPageBuddy_def PageType_def PG_buddy_def PAGE_TYPE_BASE_def)

lemma rmv_page_order_marked:
  assumes "pg_type (pages p) = NOT PG_buddy"
  shows "rmv_page_order pages p = Inr (pages(p := (pages p)\<lparr>pg_type := - 1, pg_private := 0\<rparr>))"
  using assms
  by (simp add: rmv_page_order_def ClearPageBuddy_def PageBuddy_def PageType_def PG_buddy_def PAGE_TYPE_BASE_def)

lemma page_count_idle: "idle valid pages \<Longrightarrow> valid p \<Longrightarrow> PageBuddy (pages p) \<Longrightarrow> page_count pages p = 0"
  by (auto simp: idle_def page_count_def compound_head_def)

lemma zones_aligned_cong:
  assumes "\<And>q. pg_flags (pages' q) = pg_flags (pages q)"
  shows "zones_aligned valid pages' = zones_aligned valid pages"
  unfolding zones_aligned_def by (simp add: page_zone_cong [OF assms])

lemma blocks_update:
  assumes "k < length fa"
  shows "blocks (fa[k := a]) = {(p, j). (p, j) \<in> blocks fa \<and> j \<noteq> k} \<union> (set (free_list a) \<times> {k})"
  using assms by (auto simp: blocks_def nth_list_update)

lemma buddy_okD:
  assumes "buddy_ok valid z pages fa"
  shows "length fa = MAX_ORDER"
    "\<And>k. k < MAX_ORDER \<Longrightarrow> distinct (free_list (fa ! k))"
    "\<And>k. k < MAX_ORDER \<Longrightarrow> nr_free (fa ! k) = length (free_list (fa ! k))"
    "\<And>p k. (p, k) \<in> blocks fa \<longleftrightarrow>
       valid p \<and> PageBuddy (pages p) \<and> page_order (pages p) = k \<and> page_zone (pages p) = z"
    "\<And>p. valid p \<Longrightarrow> PageBuddy (pages p) \<Longrightarrow> pg_count (pages p) = 0 \<and> pg_head (pages p) = None"
    "\<And>b c. b \<in> blocks fa \<Longrightarrow> c \<in> blocks fa \<Longrightarrow> b \<noteq> c \<Longrightarrow> frames b \<inter> frames c = {}"
    "\<And>p k. (p, k) \<in> blocks fa \<Longrightarrow> 2 ^ k dvd p"
    "\<And>q. q \<in> free_frames fa \<Longrightarrow> valid q"
    "\<And>q. q \<in> free_frames fa \<Longrightarrow> free_page z (pages q)"
    "zones_aligned valid pages"
  using assms unfolding buddy_ok_def lists_ok_def linked_def idle_def apart_def by blast+

lemma marked_block:
  assumes ok: "buddy_ok valid z pages fa" and b: "(p, k) \<in> blocks fa"
  shows "pg_type (pages p) = NOT PG_buddy" "k < MAX_ORDER" "p \<in> set (free_list (fa ! k))"
proof -
  have "free_page z (pages p)" "PageBuddy (pages p)"
    using buddy_okD(9) [OF ok in_free_frames [OF b frames_head]] buddy_okD(4) [OF ok] b by auto
  then show "pg_type (pages p) = NOT PG_buddy" using PageBuddy_type(2) by (auto simp: free_page_def)
  show "k < MAX_ORDER" "p \<in> set (free_list (fa ! k))"
    using b buddy_okD(1) [OF ok] by (auto simp: blocks_def)
qed

lemma unmarked_inside:
  assumes ok: "buddy_ok valid z pages fa" and b: "(p, k) \<in> blocks fa" and q: "q \<in> frames (p, k)" "q \<noteq> p"
  shows "pg_type (pages q) = - 1"
proof (rule ccontr)
  assume n: "pg_type (pages q) \<noteq> - 1"
  have fq: "valid q" "free_page z (pages q)"
    using buddy_okD(8,9) [OF ok in_free_frames [OF b q(1)]] .
  then have "(q, page_order (pages q)) \<in> blocks fa"
    using n PageBuddy_type(1) by (subst buddy_okD(4) [OF ok]) (auto simp: free_page_def)
  then have "frames (q, page_order (pages q)) \<inter> frames (p, k) = {}"
    using buddy_okD(6) [OF ok _ b] q(2) by blast
  then show False using q(1) frames_head by blast
qed

lemma unlink_block:
  assumes ok: "buddy_ok valid z pages fa" and b: "(p, k) \<in> blocks fa"
  defines "pages' \<equiv> pages(p := (pages p)\<lparr>pg_type := - 1, pg_private := 0\<rparr>)"
    and "fa' \<equiv> fa[k := list_del p (fa ! k)]"
  shows "rmv_page_order pages p = Inr pages'"
    and "blocks fa' = blocks fa - {(p, k)}"
    and "free_frames fa' = free_frames fa - frames (p, k)"
    and "raw_block valid z pages' (p, k)"
    and "buddy_ok valid z pages' fa'"
proof -
  note mb = marked_block [OF ok b] and okD = buddy_okD [OF ok]
  show "rmv_page_order pages p = Inr pages'" unfolding pages'_def by (rule rmv_page_order_marked) (rule mb(1))
  show bl: "blocks fa' = blocks fa - {(p, k)}"
    using mb okD(1,2) unfolding fa'_def
    by (subst blocks_update) (auto simp: list_del_def blocks_def set_remove1_eq)
  show ff: "free_frames fa' = free_frames fa - frames (p, k)"
    unfolding free_frames_def bl using okD(6) [OF b] b by blast
  have fp: "free_page z (pages p)" by (rule okD(9) [OF in_free_frames [OF b frames_head]])
  show "raw_block valid z pages' (p, k)"
    unfolding raw_block_def using okD(7,8,9) in_free_frames [OF b] unmarked_inside [OF ok b] b fp
    by (auto simp: pages'_def free_page_def)
  have np: "p \<notin> free_frames fa'" unfolding ff by simp
  have "lists_ok fa'" using okD(1-3) mb unfolding lists_ok_def fa'_def
    by (auto simp: nth_list_update list_del_def length_remove1)
  moreover have "linked valid z pages' fa'"
    unfolding linked_def bl using okD(4) b PageBuddy_type(2) by (auto simp: pages'_def)
  moreover have "idle valid pages'"
    unfolding idle_def using okD(5) PageBuddy_type(2)
    by (auto simp: pages'_def)
  moreover have "zones_aligned valid pages'"
    using okD(10) by (subst zones_aligned_cong [of _ pages]) (auto simp: pages'_def)
  moreover have "apart (blocks fa')" unfolding apart_def bl using okD(6) by blast
  moreover have "\<forall>(p, k) \<in> blocks fa'. 2 ^ k dvd p" unfolding bl using okD(7) by blast
  moreover have "\<forall>q \<in> free_frames fa'. valid q \<and> free_page z (pages' q)"
    using okD(8,9) np unfolding ff by (auto simp: pages'_def)
  ultimately show "buddy_ok valid z pages' fa'" unfolding buddy_ok_def by simp
qed

lemma link_block:
  assumes ok: "buddy_ok valid z pages fa" and raw: "raw_block valid z pages (p, k)" and k: "k < MAX_ORDER"
    and disj: "frames (p, k) \<inter> free_frames fa = {}"
    and add: "add = list_add \<or> add = list_add_tail"
  defines "pages' \<equiv> pages(p := (pages p)\<lparr>pg_private := k, pg_type := NOT PG_buddy\<rparr>)"
    and "fa' \<equiv> fa[k := add p (fa ! k)]"
  shows "set_page_order pages p k = Inr pages'"
    and "blocks fa' = insert (p, k) (blocks fa)"
    and "free_frames fa' = free_frames fa \<union> frames (p, k)"
    and "buddy_ok valid z pages' fa'"
proof -
  note okD = buddy_okD [OF ok]
  have rp: "\<And>q. q \<in> frames (p, k) \<Longrightarrow> valid q \<and> free_page z (pages q) \<and> pg_type (pages q) = - 1"
    and al: "2 ^ k dvd p" using raw by (auto simp: raw_block_def)
  have fl: "set (free_list (add p a)) = insert p (set (free_list a))" "nr_free (add p a) = nr_free a + 1"
    "length (free_list (add p a)) = length (free_list a) + 1"
    "distinct (free_list (add p a)) \<longleftrightarrow> p \<notin> set (free_list a) \<and> distinct (free_list a)" for a
    using add by (auto simp: list_add_def list_add_tail_def)
  have np: "(p, j) \<notin> blocks fa" for j using disj in_free_frames frames_head by blast
  show "set_page_order pages p k = Inr pages'"
    unfolding pages'_def by (rule set_page_order_raw) (simp add: rp)
  show bl: "blocks fa' = insert (p, k) (blocks fa)"
    using k okD(1) unfolding fa'_def by (subst blocks_update) (auto simp: fl blocks_def)
  show ff: "free_frames fa' = free_frames fa \<union> frames (p, k)"
    unfolding free_frames_def bl by blast
  have "lists_ok fa'" using okD(1-3) k np [of k] unfolding lists_ok_def fa'_def
    by (auto simp: nth_list_update fl blocks_def)
  moreover have "linked valid z pages' fa'"
    unfolding linked_def bl using okD(4) np rp [OF frames_head] PageBuddy_type(1)
    by (auto simp: pages'_def page_order_def free_page_def)
  moreover have "idle valid pages'"
    unfolding idle_def using okD(5) rp [OF frames_head]
    by (auto simp: pages'_def free_page_def)
  moreover have "zones_aligned valid pages'"
    using okD(10) by (subst zones_aligned_cong [of _ pages]) (auto simp: pages'_def)
  moreover have "apart (blocks fa')"
    unfolding apart_def bl using okD(6) disj by (fastforce simp: free_frames_def)
  moreover have "\<forall>(p, k) \<in> blocks fa'. 2 ^ k dvd p" unfolding bl using okD(7) al by blast
  moreover have "\<forall>q \<in> free_frames fa'. valid q \<and> free_page z (pages' q)"
    using okD(8,9) rp unfolding ff by (auto simp: pages'_def free_page_def)
  ultimately show "buddy_ok valid z pages' fa'" unfolding buddy_ok_def by simp
qed

section \<open>Splitting and allocation\<close>

lemma frames_split:
  "frames (p, Suc h) = frames (p, h) \<union> frames (p + 2 ^ h, h)" "frames (p, h) \<inter> frames (p + 2 ^ h, h) = {}"
  by (auto simp: frames_def)

lemma frames_mono: "j \<le> k \<Longrightarrow> frames (p, j) \<subseteq> frames (p, k)"
  by (auto simp: frames_def intro: less_le_trans)

text \<open>The upper halves of the block are linked at their orders, the lowest part is left over.\<close>

lemma expand_result:
  assumes "buddy_ok valid z pages fa" "raw_block valid z pages (p, high)" "high < MAX_ORDER"
    "frames (p, high) \<inter> free_frames fa = {}" "low \<le> high"
  shows "\<exists>pages' fa'. expand pages fa p low high = Inr (pages', fa') \<and> buddy_ok valid z pages' fa' \<and>
    raw_block valid z pages' (p, low) \<and>
    blocks fa' = blocks fa \<union> {(p + 2 ^ h, h) |h. low \<le> h \<and> h < high} \<and>
    free_frames fa' = free_frames fa \<union> (frames (p, high) - frames (p, low)) \<and>
    (\<forall>q. q \<notin> frames (p, high) - frames (p, low) \<longrightarrow> pages' q = pages q)"
  using assms
proof (induction high arbitrary: pages fa)
  case 0
  then show ?case by simp
next
  case (Suc h)
  show ?case
  proof (cases "low = Suc h")
    case True
    then show ?thesis using Suc.prems by auto
  next
    case False
    let ?u = "p + 2 ^ h"
    let ?pages = "pages(?u := (pages ?u)\<lparr>pg_private := h, pg_type := NOT PG_buddy\<rparr>)"
    let ?fa = "fa[h := list_add ?u (fa ! h)]"
    have lo: "low \<le> h" using False Suc.prems(5) by simp
    have al: "2 ^ Suc h dvd p" using Suc.prems(2) by (simp add: raw_block_def)
    have al': "2 ^ h dvd p" using al by (rule power_le_dvd) simp
    then have alu: "2 ^ h dvd ?u" by simp
    have ru: "raw_block valid z pages (?u, h)"
      using Suc.prems(2) alu unfolding raw_block_def frames_split(1) by simp
    have du: "frames (?u, h) \<inter> free_frames fa = {}" using Suc.prems(4) unfolding frames_split(1) by blast
    have hm: "h < MAX_ORDER" using Suc.prems(3) by simp
    note lk = link_block [OF Suc.prems(1) ru hm du disjI1 [OF refl]]
    have ne: "?u \<notin> frames (p, h)" using frames_split(2) [of p h] frames_head by blast
    have rl: "raw_block valid z ?pages (p, h)"
      using Suc.prems(2) al' ne unfolding raw_block_def frames_split(1) by auto
    have dl: "frames (p, h) \<inter> free_frames ?fa = {}"
      unfolding lk(3) using Suc.prems(4) frames_split [of p h] by blast
    obtain pages' fa' where IH: "expand ?pages ?fa p low h = Inr (pages', fa')"
      "buddy_ok valid z pages' fa'" "raw_block valid z pages' (p, low)"
      "blocks fa' = blocks ?fa \<union> {(p + 2 ^ h', h') |h'. low \<le> h' \<and> h' < h}"
      "free_frames fa' = free_frames ?fa \<union> (frames (p, h) - frames (p, low))"
      "\<forall>q. q \<notin> frames (p, h) - frames (p, low) \<longrightarrow> pages' q = ?pages q"
      using Suc.IH [OF lk(4) rl hm dl lo] by blast
    have sub: "frames (p, low) \<subseteq> frames (p, h)" using frames_mono [OF lo] .
    have "expand pages fa p low (Suc h) = Inr (pages', fa')" using lk(1) lo IH(1) by simp
    moreover have "blocks fa' = blocks fa \<union> {(p + 2 ^ h', h') |h'. low \<le> h' \<and> h' < Suc h}"
      unfolding IH(4) lk(2) using lo by (auto simp: less_Suc_eq)
    moreover have "free_frames fa' = free_frames fa \<union> (frames (p, Suc h) - frames (p, low))"
      unfolding IH(5) lk(3) using frames_split [of p h] sub by blast
    moreover have "\<forall>q. q \<notin> frames (p, Suc h) - frames (p, low) \<longrightarrow> pages' q = pages q"
    proof (intro allI impI)
      fix q assume q: "q \<notin> frames (p, Suc h) - frames (p, low)"
      then have "q \<notin> frames (p, h) - frames (p, low)" "q \<noteq> ?u"
        using frames_split [of p h] sub frames_head [of ?u h] by blast+
      then show "pages' q = pages q" using IH(6) by simp
    qed
    ultimately show ?thesis using IH(2,3) by blast
  qed
qed

text \<open>Splitting creates no pair of free buddies.\<close>

lemma expand_merged:
  assumes m: "merged bs" and al: "2 ^ high dvd p"
    and nb: "\<And>h. (p, h) \<notin> bs"
  shows "merged (bs \<union> {(p + 2 ^ h, h) |h. low \<le> h \<and> h < high})"
proof -
  have up: "find_buddy_pfn (p + 2 ^ h) h = p" if "h < high" for h
    using buddy_upper [OF dvd_trans [OF le_imp_power_dvd al]] that by (simp add: Suc_leI)
  have down: "find_buddy_pfn q k \<noteq> p + 2 ^ k" if "(q, k) \<in> bs" "k < high" for q k
  proof
    assume "find_buddy_pfn q k = p + 2 ^ k"
    then have "q = p" using up [OF that(2)] buddy_invol [of q k] by simp
    then show False using nb that(1) by simp
  qed
  show ?thesis unfolding merged_def
  proof (clarify)
    fix q k assume b: "(q, k) \<in> bs \<union> {(p + 2 ^ h, h) |h. low \<le> h \<and> h < high}" and k: "k < MAX_ORDER - 1"
      and n: "(find_buddy_pfn q k, k) \<in> bs \<union> {(p + 2 ^ h, h) |h. low \<le> h \<and> h < high}"
    show False
    proof (cases "(q, k) \<in> bs")
      case True
      then show False using n m k down [OF True] unfolding merged_def by auto
    next
      case False
      then have "q = p + 2 ^ k" "k < high" using b by auto
      then show False using n up [of k] nb by auto
    qed
  qed
qed

text \<open>What \<open>__rmqueue_smallest\<close> promises for a block of order \<open>k\<close>.\<close>

definition taken :: "(nat \<Rightarrow> bool) \<Rightarrow> zone_ptr \<Rightarrow> pagemap \<Rightarrow> free_area list \<Rightarrow> nat \<Rightarrow> pagemap \<Rightarrow> free_area list \<Rightarrow> nat \<Rightarrow> bool" where
  "taken valid z pages fa k pages' fa' p \<longleftrightarrow>
     buddy_ok valid z pages' fa' \<and> raw_block valid z pages' (p, k) \<and>
     frames (p, k) \<subseteq> free_frames fa \<and> free_frames fa' = free_frames fa - frames (p, k) \<and>
     (merged (blocks fa) \<longrightarrow> merged (blocks fa')) \<and>
     (\<forall>q. q \<notin> free_frames fa \<longrightarrow> pages' q = pages q)"

lemma take_block:
  assumes ok: "buddy_ok valid z pages fa" and b: "(p, c) \<in> blocks fa" and k: "k \<le> c"
  shows "\<exists>pages' fa'. and_then (rmv_page_order pages p)
      (\<lambda>pages'. and_then (expand pages' (fa[c := list_del p (fa ! c)]) p k c)
         (\<lambda>(pages'', fa''). Inr (pages'', fa'', Some p))) = Inr (pages', fa', Some p) \<and>
    taken valid z pages fa k pages' fa' p"
proof -
  let ?pages = "pages(p := (pages p)\<lparr>pg_type := - 1, pg_private := 0\<rparr>)"
  let ?fa = "fa[c := list_del p (fa ! c)]"
  note ul = unlink_block [OF ok b]
  have d: "frames (p, c) \<inter> free_frames ?fa = {}" unfolding ul(3) by blast
  obtain pages' fa' where ex: "expand ?pages ?fa p k c = Inr (pages', fa')" "buddy_ok valid z pages' fa'"
      "raw_block valid z pages' (p, k)"
      "blocks fa' = blocks ?fa \<union> {(p + 2 ^ h, h) |h. k \<le> h \<and> h < c}"
      "free_frames fa' = free_frames ?fa \<union> (frames (p, c) - frames (p, k))"
      "\<forall>q. q \<notin> frames (p, c) - frames (p, k) \<longrightarrow> pages' q = ?pages q"
    using expand_result [OF ul(5,4) marked_block(2) [OF ok b] d k] by blast
  have pc: "frames (p, c) \<subseteq> free_frames fa" using in_free_frames [OF b] by blast
  have kc: "frames (p, k) \<subseteq> frames (p, c)" using frames_mono [OF k] .
  have "free_frames fa' = free_frames fa - frames (p, k)" unfolding ex(5) ul(3) using pc kc by blast
  moreover have "merged (blocks fa')" if m: "merged (blocks fa)"
    unfolding ex(4) ul(2)
  proof (rule expand_merged)
    show "merged (blocks fa - {(p, c)})" using m unfolding merged_def by blast
    show "2 ^ c dvd p" by (rule buddy_okD(7) [OF ok b])
    show "(p, h) \<notin> blocks fa - {(p, c)}" for h
      using buddy_okD(6) [OF ok b, of "(p, h)"] frames_head by blast
  qed
  moreover have "\<forall>q. q \<notin> free_frames fa \<longrightarrow> pages' q = pages q"
  proof (intro allI impI)
    fix q assume "q \<notin> free_frames fa"
    then have "q \<notin> frames (p, c)" "q \<noteq> p" using pc frames_head by blast+
    then show "pages' q = pages q" using ex(6) by simp
  qed
  ultimately have "taken valid z pages fa k pages' fa' p"
    unfolding taken_def using ex(2,3) pc kc by blast
  then show ?thesis using ul(1) ex(1) by auto
qed

definition smallest_outcome ::
    "(nat \<Rightarrow> bool) \<Rightarrow> zone_ptr \<Rightarrow> pagemap \<Rightarrow> free_area list \<Rightarrow> nat \<Rightarrow> nat \<Rightarrow> pagemap \<times> free_area list \<times> nat option \<Rightarrow> bool" where
  "smallest_outcome valid z pages fa k c out \<longleftrightarrow>
     (case out of
        (pages', fa', None) \<Rightarrow> pages' = pages \<and> fa' = fa \<and> (\<forall>(p, j) \<in> blocks fa. j < c)
      | (pages', fa', Some p) \<Rightarrow> taken valid z pages fa k pages' fa' p)"

lemma rmqueue_smallest_loop_result:
  assumes "buddy_ok valid z pages fa" "k \<le> c"
  shows "\<exists>out. rmqueue_smallest_loop pages fa k c = Inr out \<and> smallest_outcome valid z pages fa k c out"
  using assms
proof (induction "MAX_ORDER - c" arbitrary: c)
  case 0
  then show ?case using buddy_okD(1) [OF 0(2)]
    by (subst rmqueue_smallest_loop.simps) (auto simp: blocks_def smallest_outcome_def)
next
  case (Suc n)
  have c: "c < MAX_ORDER" "n = MAX_ORDER - (c + 1)" using Suc.hyps(2) by auto
  show ?case
  proof (cases "free_list (fa ! c)")
    case Nil
    have "k \<le> c + 1" using Suc.prems(2) by simp
    then obtain out where out: "rmqueue_smallest_loop pages fa k (c + 1) = Inr out"
      "smallest_outcome valid z pages fa k (c + 1) out"
      using Suc.hyps(1) [OF c(2) Suc.prems(1)] by blast
    have "rmqueue_smallest_loop pages fa k c = rmqueue_smallest_loop pages fa k (c + 1)"
      using Nil c by (simp add: rmqueue_smallest_loop.simps [of pages fa k c])
    moreover have "(p, c) \<notin> blocks fa" for p using Nil by (simp add: blocks_def)
    then have "j < c" if "(p, j) \<in> blocks fa" "j < c + 1" for p j
      using that by (cases "j = c") auto
    then have "smallest_outcome valid z pages fa k c out"
      using out(2) unfolding smallest_outcome_def by (cases "snd (snd out)") (auto simp: case_prod_beta)
    ultimately show ?thesis using out(1) by simp
  next
    case (Cons p ps)
    have "(p, c) \<in> blocks fa" using Cons c buddy_okD(1) [OF Suc.prems(1)] by (simp add: blocks_def)
    from take_block [OF Suc.prems(1) this Suc.prems(2)] show ?thesis
      using Cons c by (subst rmqueue_smallest_loop.simps) (auto simp: smallest_outcome_def)
  qed
qed

section \<open>Merging and release\<close>

lemma page_is_buddy_iff:
  assumes ok: "buddy_ok valid z pages fa" and p: "page_zone (pages p) = z" "valid p" and v: "valid b"
    and b: "b = find_buddy_pfn p k" and k: "k < MAX_ORDER - 1"
  shows "page_is_buddy pages p b k = Inr ((b, k) \<in> blocks fa)"
proof -
  have "page_zone_id (pages p) = page_zone_id (pages b) \<longleftrightarrow> page_zone (pages p) = page_zone (pages b)"
    using buddy_okD(10) [OF ok] page_zone_id_eq buddy_same_block [OF k, of p] p(2) v
    unfolding zones_aligned_def b by metis
  then show ?thesis
    using buddy_okD(4) [OF ok] page_count_idle [of valid pages b] ok p(1) v
    by (auto simp: page_is_buddy_def buddy_ok_def)
qed

lemma page_is_buddy_total:
  assumes ok: "idle valid pages" and v: "valid b"
  shows "\<exists>r. page_is_buddy pages p b k = Inr r"
  using page_count_idle [OF ok v] by (auto simp: page_is_buddy_def)

definition merge_outcome ::
    "(nat \<Rightarrow> bool) \<Rightarrow> zone_ptr \<Rightarrow> pagemap \<Rightarrow> free_area list \<Rightarrow> nat \<Rightarrow> nat \<Rightarrow> pagemap \<Rightarrow> free_area list \<Rightarrow> nat \<Rightarrow> nat \<Rightarrow> bool" where
  "merge_outcome valid z pages fa p k pages' fa' p' k' \<longleftrightarrow>
     buddy_ok valid z pages' fa' \<and> raw_block valid z pages' (p', k') \<and> k' < MAX_ORDER \<and>
     frames (p', k') \<inter> free_frames fa' = {} \<and>
     free_frames fa' \<union> frames (p', k') = free_frames fa \<union> frames (p, k) \<and>
     blocks fa' \<subseteq> blocks fa \<and> (k' < MAX_ORDER - 1 \<longrightarrow> (find_buddy_pfn p' k', k') \<notin> blocks fa') \<and>
     (\<forall>q. q \<notin> free_frames fa \<union> frames (p, k) \<longrightarrow> pages' q = pages q)"

lemma merge_loop_stop:
  assumes "buddy_ok valid z pages fa" "raw_block valid z pages (p, k)" "k < MAX_ORDER"
    "frames (p, k) \<inter> free_frames fa = {}" "k < MAX_ORDER - 1 \<longrightarrow> (find_buddy_pfn p k, k) \<notin> blocks fa"
  shows "merge_outcome valid z pages fa p k pages fa p k"
  using assms by (simp add: merge_outcome_def)

lemma merge_step:
  assumes ok: "buddy_ok valid z pages fa" and raw: "raw_block valid z pages (p, k)"
    and d: "frames (p, k) \<inter> free_frames fa = {}" and b: "(find_buddy_pfn p k, k) \<in> blocks fa"
  defines "b \<equiv> find_buddy_pfn p k"
  defines "pages' \<equiv> pages(b := (pages b)\<lparr>pg_type := - 1, pg_private := 0\<rparr>)" and "fa' \<equiv> fa[k := list_del b (fa ! k)]"
  shows "raw_block valid z pages' (b AND p, k + 1)"
    and "frames (b AND p, k + 1) \<inter> free_frames fa' = {}"
    and "free_frames fa' \<union> frames (b AND p, k + 1) = free_frames fa \<union> frames (p, k)"
    and "\<And>q. q \<notin> free_frames fa \<Longrightarrow> pages' q = pages q"
proof -
  have al: "2 ^ k dvd p" using raw by (simp add: raw_block_def)
  note bf = buddy_frames [OF al, folded b_def] and ul = unlink_block [OF ok b, folded b_def, folded pages'_def fa'_def]
  have sub: "frames (b, k) \<subseteq> free_frames fa" using in_free_frames [OF b] unfolding b_def by blast
  show keep: "pages' q = pages q" if "q \<notin> free_frames fa" for q
  proof -
    have "q \<noteq> b" using that sub frames_head by blast
    then show ?thesis by (simp add: pages'_def)
  qed
  have "valid q \<and> free_page z (pages' q) \<and> pg_type (pages' q) = - 1" if "q \<in> frames (p, k)" for q
  proof -
    have "pages' q = pages q" using that d keep by blast
    then show ?thesis using that raw by (simp add: raw_block_def)
  qed
  then show "raw_block valid z pages' (b AND p, k + 1)"
    using ul(4) bf(3) unfolding raw_block_def fst_conv snd_conv bf(1) by auto
  show "frames (b AND p, k + 1) \<inter> free_frames fa' = {}" unfolding bf(1) ul(3) using d by blast
  show "free_frames fa' \<union> frames (b AND p, k + 1) = free_frames fa \<union> frames (p, k)"
    unfolding bf(1) ul(3) using sub by blast
qed

lemma merge_loop_result:
  assumes "buddy_ok valid z pages fa" "raw_block valid z pages (p, k)" "k < MAX_ORDER"
    "frames (p, k) \<inter> free_frames fa = {}"
  shows "\<exists>pages' fa' p' k'. merge_loop valid pages fa p k = Inr (pages', fa', p', k') \<and>
    merge_outcome valid z pages fa p k pages' fa' p' k'"
  using assms
proof (induction "MAX_ORDER - k" arbitrary: pages fa p k)
  case 0
  then show ?case by simp
next
  case (Suc n)
  let ?b = "find_buddy_pfn p k"
  let ?pages = "pages(?b := (pages ?b)\<lparr>pg_type := - 1, pg_private := 0\<rparr>)"
  let ?fa = "fa[k := list_del ?b (fa ! k)]"
  have pz: "page_zone (pages p) = z" "valid p"
    using Suc.prems(2) by (auto simp: raw_block_def free_page_def)
  show ?case
  proof (cases "k < MAX_ORDER - 1 \<and> (?b, k) \<in> blocks fa")
    case True
    then have b: "(?b, k) \<in> blocks fa" "valid ?b" and k: "k + 1 < MAX_ORDER" "n = MAX_ORDER - (k + 1)"
      using buddy_okD(4) [OF Suc.prems(1)] Suc.hyps(2) by auto
    note ms = merge_step [OF Suc.prems(1,2,4) b(1)] and ul = unlink_block [OF Suc.prems(1) b(1)]
    obtain pages' fa' p' k' where m: "merge_loop valid ?pages ?fa (?b AND p) (k + 1) = Inr (pages', fa', p', k')"
      "merge_outcome valid z ?pages ?fa (?b AND p) (k + 1) pages' fa' p' k'"
      using Suc.hyps(1) [OF k(2) ul(5) ms(1) k(1) ms(2)] by blast
    have "merge_loop valid pages fa p k = Inr (pages', fa', p', k')"
      using True b(2) m(1) ul(1) page_is_buddy_iff [OF Suc.prems(1) pz b(2) refl]
      by (simp add: merge_loop.simps [of valid pages fa p k] Let_def)
    moreover have "merge_outcome valid z pages fa p k pages' fa' p' k'"
      using m(2) ul(2) ms(3,4) unfolding merge_outcome_def by auto
    ultimately show ?thesis by blast
  next
    case False
    then have "merge_loop valid pages fa p k = Inr (pages, fa, p, k)"
      using page_is_buddy_iff [OF Suc.prems(1) pz _ refl]
      by (cases "valid ?b") (auto simp: merge_loop.simps [of valid pages fa p k] Let_def)
    moreover have "k < MAX_ORDER - 1 \<longrightarrow> (?b, k) \<notin> blocks fa" using False by simp
    ultimately show ?thesis using merge_loop_stop [OF Suc.prems] by blast
  qed
qed

lemma merged_insert:
  assumes "merged bs" "k < MAX_ORDER - 1 \<longrightarrow> (find_buddy_pfn p k, k) \<notin> bs" "2 ^ k dvd p"
  shows "merged (insert (p, k) bs)"
proof -
  have "find_buddy_pfn p k \<noteq> p"
    using buddy_frames(2) [OF assms(3)] frames_head by (metis IntI empty_iff)
  moreover have "(q, k) \<notin> bs" if "find_buddy_pfn q k = p" "k < MAX_ORDER - 1" for q
    using that assms(2) buddy_invol [of q k] by auto
  ultimately show ?thesis using assms(1,2) unfolding merged_def by auto
qed

text \<open>What \<open>__free_one_page\<close> promises for a raw block outside the free memory.\<close>

definition released ::
    "(nat \<Rightarrow> bool) \<Rightarrow> zone_ptr \<Rightarrow> pagemap \<Rightarrow> free_area list \<Rightarrow> nat \<Rightarrow> nat \<Rightarrow> pagemap \<Rightarrow> free_area list \<Rightarrow> bool" where
  "released valid z pages fa p k pages' fa' \<longleftrightarrow>
     buddy_ok valid z pages' fa' \<and> free_frames fa' = free_frames fa \<union> frames (p, k) \<and>
     (merged (blocks fa) \<longrightarrow> merged (blocks fa')) \<and>
     (\<forall>q. q \<notin> free_frames fa' \<longrightarrow> pages' q = pages q)"

lemma aligned_mask: "2 ^ k dvd (p :: nat) \<longleftrightarrow> p AND (push_bit k 1 - 1) = 0"
proof -
  have "push_bit k (1 :: nat) - 1 = mask k" by (simp add: mask_eq_exp_minus_1 push_bit_eq_mult)
  then show ?thesis by (simp only: take_bit_eq_mask [symmetric] take_bit_eq_0_iff)
qed

lemma add_to_tail_total:
  assumes "idle valid pages" shows "\<exists>t. add_to_tail valid pages p k = Inr t"
  unfolding add_to_tail_def Let_def using page_is_buddy_total [OF assms] by (auto split: if_splits)

lemma free_one_page_result:
  assumes ok: "buddy_ok valid z pages fa" and raw: "raw_block valid z pages (p, k)" and k: "k < MAX_ORDER"
    and d: "frames (p, k) \<inter> free_frames fa = {}"
  shows "\<exists>pages' fa'. free_one_page_core valid pages fa p k = Inr (pages', fa') \<and> released valid z pages fa p k pages' fa'"
proof -
  obtain pages1 fa1 p1 k1 where m: "merge_loop valid pages fa p k = Inr (pages1, fa1, p1, k1)"
    and mo: "merge_outcome valid z pages fa p k pages1 fa1 p1 k1"
    using merge_loop_result [OF assms] by blast
  note mo = mo [unfolded merge_outcome_def]
  let ?pages = "pages1(p1 := (pages1 p1)\<lparr>pg_private := k1, pg_type := NOT PG_buddy\<rparr>)"
  have lk: "set_page_order pages1 p1 k1 = Inr ?pages \<and>
      blocks (fa1[k1 := add p1 (fa1 ! k1)]) = insert (p1, k1) (blocks fa1) \<and>
      free_frames (fa1[k1 := add p1 (fa1 ! k1)]) = free_frames fa1 \<union> frames (p1, k1) \<and>
      buddy_ok valid z ?pages (fa1[k1 := add p1 (fa1 ! k1)])" if "add = list_add \<or> add = list_add_tail" for add
    by (intro conjI link_block [OF _ _ _ _ that]) (use mo in auto)
  have "idle valid ?pages" using lk [OF disjI1 [OF refl]] by (simp add: buddy_ok_def)
  then obtain t where t: "add_to_tail valid ?pages p1 k1 = Inr t"
    using add_to_tail_total by blast
  let ?add = "if t then list_add_tail else list_add"
  let ?fa = "fa1[k1 := ?add p1 (fa1 ! k1)]"
  have lk': "set_page_order pages1 p1 k1 = Inr ?pages" "blocks ?fa = insert (p1, k1) (blocks fa1)"
      "free_frames ?fa = free_frames fa1 \<union> frames (p1, k1)" "buddy_ok valid z ?pages ?fa"
    using lk [of ?add] by simp_all
  have "free_one_page_core valid pages fa p k = Inr (?pages, ?fa)"
    using m lk'(1) t raw by (simp add: free_one_page_core_def raw_block_def free_page_def aligned_mask)
  moreover have "released valid z pages fa p k ?pages ?fa"
    unfolding released_def
  proof (intro conjI impI allI)
    show "buddy_ok valid z ?pages ?fa" by (rule lk')
    show ff: "free_frames ?fa = free_frames fa \<union> frames (p, k)" using lk'(3) mo by simp
    show "merged (blocks ?fa)" if "merged (blocks fa)"
      unfolding lk'(2) using that mo by (intro merged_insert) (auto simp: merged_def raw_block_def)
    show "?pages q = pages q" if q: "q \<notin> free_frames ?fa" for q
    proof -
      have "q \<noteq> p1" using q lk'(3) frames_head [of p1 k1] by blast
      moreover have "pages1 q = pages q" using q mo unfolding ff by blast
      ultimately show ?thesis by simp
    qed
  qed
  ultimately show ?thesis by blast
qed

end
