(* ===== verification/Page_Alloc.thy ===== *)
theory Page_Alloc
  imports Buddy
begin

unbundle bit_operations_syntax

text \<open>
  The zoned page allocator of \<open>mm/page_alloc.c\<close> above the free lists: the checks on pages
  that enter and leave it, the per-cpu lists of single pages, allocation from one zone
  (\<open>rmqueue\<close>), the preparation of new pages, the walk over a zonelist, and the release of
  pages.

  Spin locks and the disabling of interrupts are not modelled: every operation below runs
  with the zone lock held or on the per-cpu list of its own CPU with interrupts off.
  \<open>cpu\<close> is the CPU the operation runs on.
\<close>

section \<open>State\<close>

record per_cpu_pages =
  pcp_count :: int
  pcp_high :: int
  pcp_batch :: nat
  pcp_lists :: "nat list"

record zone =
  zone_node :: u64
  zone_start_pfn :: nat
  managed_pages :: int
  spanned_pages :: nat
  present_pages :: nat
  initialized :: bool
  zone_free_area :: "free_area list"
  zone_pageset :: "nat \<Rightarrow> per_cpu_pages"

text \<open>
  A zonelist is the list of its entries, a zone and its index; the end of the list is the
  terminating entry with a null zone. \<open>page_data\<close> holds the bytes of each page frame.
\<close>

type_synonym zonelist = "(zone_ptr \<times> u64) list"

record mm =
  mem_map :: pagemap
  node_zones :: "zone_ptr \<Rightarrow> zone"
  node_zonelists :: "u64 \<Rightarrow> nat \<Rightarrow> zonelist"
  nr_online_nodes :: nat
  page_data :: "nat \<Rightarrow> nat \<Rightarrow> 8 word"

section \<open>Checks\<close>

text \<open>\<open>bad_page\<close> reports the page and resets its map count. \<open>__PG_HWPOISON\<close> is zero.\<close>

definition bad_page :: "page \<Rightarrow> page" where
  "bad_page p = page_mapcount_reset p"

definition check_new_page :: "pagemap \<Rightarrow> nat \<Rightarrow> pagemap \<times> bool" where
  "check_new_page pages pfn =
     (if page_expected_state PAGE_FLAGS_CHECK_AT_PREP (pages pfn) then (pages, False)
      else (pages(pfn := bad_page (pages pfn)), True))"

fun check_new_pages_loop :: "pagemap \<Rightarrow> nat list \<Rightarrow> pagemap \<times> bool" where
  "check_new_pages_loop pages [] = (pages, False)"
| "check_new_pages_loop pages (p # ps) =
     (case check_new_page pages p of
        (pages', bad) \<Rightarrow> if bad then (pages', True) else check_new_pages_loop pages' ps)"

definition check_new_pages :: "pagemap \<Rightarrow> nat \<Rightarrow> nat \<Rightarrow> pagemap \<times> bool" where
  "check_new_pages pages pfn order = check_new_pages_loop pages [pfn ..< pfn + 2 ^ order]"

definition free_pages_check :: "pagemap \<Rightarrow> nat \<Rightarrow> pagemap \<times> bool" where
  "free_pages_check pages pfn =
     (if page_expected_state PAGE_FLAGS_CHECK_AT_FREE (pages pfn) then (pages, False)
      else (pages(pfn := bad_page (pages pfn)), True))"

text \<open>
  The first tail page is checked for its compound map count, the second for nothing, the
  others for their poisoned mapping; the return value tells whether the page is bad.
\<close>

definition tail_mapping_ok :: "pagemap \<Rightarrow> nat \<Rightarrow> nat \<Rightarrow> bool res" where
  "tail_mapping_ok pages head_page page =
     (if page - head_page = 1 then and_then (compound_mapcount pages page) (\<lambda>m. Inr (m = 0))
      else if page - head_page = 2 then Inr True
      else Inr (pg_mapping (pages page) = TAIL_MAPPING))"

definition free_tail_pages_check :: "pagemap \<Rightarrow> nat \<Rightarrow> nat \<Rightarrow> (pagemap \<times> bool) res" where
  "free_tail_pages_check pages head_page page =
     and_then (tail_mapping_ok pages head_page page)
       (\<lambda>ok.
          let good = (ok \<and> PageTail (pages page) \<and> compound_head pages page = head_page);
              p = (if good then pages page else bad_page (pages page))
          in Inr (pages(page := p\<lparr>pg_mapping := 0, pg_head := None\<rparr>), \<not> good))"

definition clear_prep_flags :: "page \<Rightarrow> page" where
  "clear_prep_flags p = p\<lparr>pg_flags := pg_flags p AND NOT PAGE_FLAGS_CHECK_AT_PREP\<rparr>"

fun prepare_tails :: "bool \<Rightarrow> nat \<Rightarrow> nat list \<Rightarrow> pagemap \<Rightarrow> nat \<Rightarrow> (pagemap \<times> nat) res" where
  "prepare_tails compound head_page [] pages bad = Inr (pages, bad)"
| "prepare_tails compound head_page (p # ps) pages bad =
     and_then (if compound then free_tail_pages_check pages head_page p else Inr (pages, False))
       (\<lambda>(pages1, b1).
          case free_pages_check pages1 p of
            (pages2, b2) \<Rightarrow>
              if b2 then prepare_tails compound head_page ps pages2 (bad + of_bool b1 + 1)
              else prepare_tails compound head_page ps (pages2(p := clear_prep_flags (pages2 p))) (bad + of_bool b1))"

definition free_pages_prepare :: "pagemap \<Rightarrow> nat \<Rightarrow> nat \<Rightarrow> bool \<Rightarrow> (pagemap \<times> bool) res" where
  "free_pages_prepare pages page order check_free =
     (if PageTail (pages page) then Inl Bug
      else
        and_then
          (if order \<noteq> 0 then
             let compound = PageCompound (pages page) in
             if compound \<and> compound_order pages page \<noteq> order then Inl Bug
             else prepare_tails compound page [page + 1 ..< page + 2 ^ order] pages 0
           else Inr (pages, 0))
          (\<lambda>(pages1, bad).
             let pages2 = (if PageMappingFlags (pages1 page)
                           then pages1(page := (pages1 page)\<lparr>pg_mapping := 0\<rparr>) else pages1);
                 (pages3, b) = (if check_free then free_pages_check pages2 page else (pages2, False))
             in if bad \<noteq> 0 \<or> b then Inr (pages3, False)
                else Inr (pages3(page := clear_prep_flags (pages3 page)), True)))"

section \<open>Taking pages from a zone\<close>

fun rmqueue_bulk ::
    "nat \<Rightarrow> pagemap \<Rightarrow> free_area list \<Rightarrow> nat \<Rightarrow> nat list \<Rightarrow> int \<Rightarrow> (pagemap \<times> free_area list \<times> nat list \<times> int) res" where
  "rmqueue_bulk 0 pages fa order lst alloced = Inr (pages, fa, lst, alloced)"
| "rmqueue_bulk (Suc count) pages fa order lst alloced =
     and_then (rmqueue_smallest pages fa order)
       (\<lambda>(pages1, fa1, page).
          case page of
            None \<Rightarrow> Inr (pages1, fa1, lst, alloced)
          | Some p \<Rightarrow>
              (case check_new_page pages1 p of
                 (pages2, bad) \<Rightarrow>
                   if bad then rmqueue_bulk count pages2 fa1 order lst alloced
                   else rmqueue_bulk count pages2 fa1 order (lst @ [p]) (alloced + 1)))"

text \<open>\<open>check_new_pcp\<close> is constantly false, so the loop of \<open>__rmqueue_pcplist\<close> runs once.\<close>

definition rmqueue_pcplist :: "nat \<Rightarrow> pagemap \<Rightarrow> zone \<Rightarrow> (pagemap \<times> zone \<times> nat option) res" where
  "rmqueue_pcplist cpu pages z =
     (let pcp = zone_pageset z cpu in
      and_then
        (if pcp_lists pcp = [] then
           and_then (rmqueue_bulk (pcp_batch pcp) pages (zone_free_area z) 0 (pcp_lists pcp) 0)
             (\<lambda>(pages1, fa1, lst, alloced).
                Inr (pages1, z\<lparr>zone_free_area := fa1\<rparr>, pcp\<lparr>pcp_count := pcp_count pcp + alloced, pcp_lists := lst\<rparr>))
         else Inr (pages, z, pcp))
        (\<lambda>(pages1, z1, pcp1).
           case pcp_lists pcp1 of
             [] \<Rightarrow> Inr (pages1, z1\<lparr>zone_pageset := (zone_pageset z1)(cpu := pcp1)\<rparr>, None)
           | page # rest \<Rightarrow>
               Inr (pages1,
                    z1\<lparr>zone_pageset := (zone_pageset z1)(cpu := pcp1\<lparr>pcp_lists := rest, pcp_count := pcp_count pcp1 - 1\<rparr>)\<rparr>,
                    Some page)))"

text \<open>
  \<open>do ... while (page && check_new_pages(page, order))\<close>: every round takes a block off the
  lists, so the number of free frames bounds the rounds.
\<close>

primrec rmqueue_loop :: "nat \<Rightarrow> pagemap \<Rightarrow> free_area list \<Rightarrow> nat \<Rightarrow> (pagemap \<times> free_area list \<times> nat option) res" where
  "rmqueue_loop 0 pages fa order = Inl Out_of_fuel"
| "rmqueue_loop (Suc n) pages fa order =
     and_then
       (and_then (rmqueue_smallest pages fa order)
          (\<lambda>(pages1, fa1, page).
             if page = None then rmqueue_smallest pages1 fa1 order else Inr (pages1, fa1, page)))
       (\<lambda>(pages1, fa1, page).
          case page of
            None \<Rightarrow> Inr (pages1, fa1, None)
          | Some p \<Rightarrow>
              (case check_new_pages pages1 p order of
                 (pages2, bad) \<Rightarrow> if bad then rmqueue_loop n pages2 fa1 order else Inr (pages2, fa1, Some p)))"

definition nr_free_frames :: "free_area list \<Rightarrow> nat" where
  "nr_free_frames fa = (\<Sum>k \<leftarrow> [0 ..< length fa]. length (free_list (fa ! k)) * 2 ^ k)"

definition rmqueue :: "nat \<Rightarrow> pagemap \<Rightarrow> zone \<Rightarrow> nat \<Rightarrow> (pagemap \<times> zone \<times> nat option) res" where
  "rmqueue cpu pages z order =
     (if order = 0 then rmqueue_pcplist cpu pages z
      else
        and_then (rmqueue_loop (nr_free_frames (zone_free_area z) + 1) pages (zone_free_area z) order)
          (\<lambda>(pages1, fa1, page). Inr (pages1, z\<lparr>zone_free_area := fa1\<rparr>, page)))"

section \<open>New pages\<close>

definition prep_compound_page :: "pagemap \<Rightarrow> nat \<Rightarrow> nat \<Rightarrow> pagemap" where
  "prep_compound_page pages page order =
     (let pages1 = pages(page + 1 := (pages (page + 1))\<lparr>pg_compound_order := order\<rparr>);
          pages2 = pages1(page := SetPageHead (pages1 page));
          pages3 = fold (\<lambda>p ps. ps(p := (set_page_count 0 (ps p))\<lparr>pg_mapping := TAIL_MAPPING, pg_head := Some page\<rparr>))
                     [page + 1 ..< page + 2 ^ order] pages2
      in pages3(page + 1 := (pages3 (page + 1))\<lparr>pg_compound_mapcount := - 1\<rparr>))"

definition post_alloc_hook :: "pagemap \<Rightarrow> nat \<Rightarrow> pagemap res" where
  "post_alloc_hook pages page =
     and_then (set_page_refcounted ((pages page)\<lparr>pg_private := 0\<rparr>)) (\<lambda>p. Inr (pages(page := p)))"

definition GFP_DMA :: u32 where "GFP_DMA = 0x1"
definition GFP_NORMAL :: u32 where "GFP_NORMAL = 0x2"
definition GFP_MOVABLE :: u32 where "GFP_MOVABLE = 0x4"
definition GFP_ZERO :: u32 where "GFP_ZERO = 0x8"
definition GFP_THISNODE :: u32 where "GFP_THISNODE = 0x10"

definition clear_page :: "nat \<Rightarrow> (nat \<Rightarrow> nat \<Rightarrow> 8 word) \<Rightarrow> nat \<Rightarrow> nat \<Rightarrow> 8 word" where
  "clear_page pfn data = data(pfn := (\<lambda>_. 0))"

definition prep_new_page :: "mm \<Rightarrow> nat \<Rightarrow> nat \<Rightarrow> u32 \<Rightarrow> mm res" where
  "prep_new_page m page order gfp_mask =
     and_then (post_alloc_hook (mem_map m) page)
       (\<lambda>pages1.
          let data = (if gfp_mask AND GFP_ZERO \<noteq> 0 then fold clear_page [page ..< page + 2 ^ order] (page_data m)
                      else page_data m);
              pages2 = (if order \<noteq> 0 then prep_compound_page pages1 page order else pages1)
          in Inr (m\<lparr>mem_map := pages2, page_data := data\<rparr>))"

section \<open>Allocation\<close>

definition ZONE_DMA :: u64 where "ZONE_DMA = 0"
definition ZONE_NORMAL :: u64 where "ZONE_NORMAL = 1"
definition ZONE_MOVABLE :: u64 where "ZONE_MOVABLE = 2"

definition gfp_zone :: "u32 \<Rightarrow> u64" where
  "gfp_zone flags =
     (if GFP_DMA AND flags \<noteq> 0 then ZONE_DMA
      else if GFP_MOVABLE AND flags \<noteq> 0 then ZONE_MOVABLE
      else ZONE_NORMAL)"

definition ZONELIST_FALLBACK :: nat where "ZONELIST_FALLBACK = 0"
definition ZONELIST_NOFALLBACK :: nat where "ZONELIST_NOFALLBACK = 1"

definition gfp_zonelist :: "u32 \<Rightarrow> nat" where
  "gfp_zonelist flags = (if flags AND GFP_THISNODE \<noteq> 0 then ZONELIST_NOFALLBACK else ZONELIST_FALLBACK)"

definition zref_in_nodemask :: "(zone_ptr \<Rightarrow> zone) \<Rightarrow> zone_ptr \<Rightarrow> (u64 \<Rightarrow> bool) option \<Rightarrow> bool" where
  "zref_in_nodemask zones zp nodes =
     (case nodes of None \<Rightarrow> True | Some ns \<Rightarrow> ns (zone_node (zones zp)))"

fun next_zones_zonelist ::
    "(zone_ptr \<Rightarrow> zone) \<Rightarrow> zonelist \<Rightarrow> u64 \<Rightarrow> (u64 \<Rightarrow> bool) option \<Rightarrow> zonelist" where
  "next_zones_zonelist zones [] highest_zoneidx nodes = []"
| "next_zones_zonelist zones ((zp, idx) # zs) highest_zoneidx nodes =
     (if idx > highest_zoneidx \<or> \<not> zref_in_nodemask zones zp nodes
      then next_zones_zonelist zones zs highest_zoneidx nodes
      else (zp, idx) # zs)"

lemma next_zones_length: "length (next_zones_zonelist zones zs hi nodes) \<le> length zs"
  by (induction zones zs hi nodes rule: next_zones_zonelist.induct) auto

text \<open>
  One pass of \<open>get_page_from_freelist\<close> over the zones from the preferred one on. A pass
  that meets a zone of another node jumps back to the start (\<open>goto retry\<close>).
\<close>

datatype scan = Found nat | Exhausted | Retry

function scan_zones ::
    "nat \<Rightarrow> u32 \<Rightarrow> nat \<Rightarrow> u64 \<Rightarrow> (u64 \<Rightarrow> bool) option \<Rightarrow> zone_ptr \<Rightarrow> zonelist \<Rightarrow> mm \<Rightarrow> (mm \<times> scan) res" where
  "scan_zones cpu gfp_mask order high_zoneidx nodes preferred [] m = Inr (m, Exhausted)"
| "scan_zones cpu gfp_mask order high_zoneidx nodes preferred ((zp, idx) # zs) m =
     (if nr_online_nodes m > 1 \<and> zp \<noteq> preferred \<and>
         zone_node (node_zones m zp) \<noteq> zone_node (node_zones m preferred)
      then Inr (m, Retry)
      else
        and_then (rmqueue cpu (mem_map m) (node_zones m zp) order)
          (\<lambda>(pages1, z1, page).
             let m1 = m\<lparr>mem_map := pages1, node_zones := (node_zones m)(zp := z1)\<rparr> in
             case page of
               Some p \<Rightarrow> and_then (prep_new_page m1 p order gfp_mask) (\<lambda>m2. Inr (m2, Found p))
             | None \<Rightarrow>
                 scan_zones cpu gfp_mask order high_zoneidx nodes preferred
                   (next_zones_zonelist (node_zones m1) zs high_zoneidx nodes) m1))"
  by pat_completeness auto
termination
  by (relation "measure (\<lambda>(cpu, gfp_mask, order, high_zoneidx, nodes, preferred, zs, m). length zs)")
    (auto simp: less_Suc_eq_le next_zones_length)

text \<open>
  \<open>rounds\<close> is the number of times the pass is repeated before the model gives up; the code
  repeats it for ever.
\<close>

primrec get_page_from_freelist ::
    "nat \<Rightarrow> nat \<Rightarrow> u32 \<Rightarrow> nat \<Rightarrow> u64 \<Rightarrow> (u64 \<Rightarrow> bool) option \<Rightarrow> zonelist \<Rightarrow> mm \<Rightarrow> (mm \<times> nat option) res" where
  "get_page_from_freelist 0 cpu gfp_mask order high_zoneidx nodes preferred_zoneref m = Inl Hang"
| "get_page_from_freelist (Suc rounds) cpu gfp_mask order high_zoneidx nodes preferred_zoneref m =
     and_then
       (scan_zones cpu gfp_mask order high_zoneidx nodes (fst (hd preferred_zoneref)) preferred_zoneref m)
       (\<lambda>(m1, r).
          case r of
            Found p \<Rightarrow> Inr (m1, Some p)
          | Exhausted \<Rightarrow> Inr (m1, None)
          | Retry \<Rightarrow> get_page_from_freelist rounds cpu gfp_mask order high_zoneidx nodes preferred_zoneref m1)"

text \<open>\<open>__alloc_pages_slowpath\<close> is \<open>BUG_ON(1)\<close>.\<close>

definition alloc_pages_nodemask ::
    "nat \<Rightarrow> nat \<Rightarrow> mm \<Rightarrow> u32 \<Rightarrow> nat \<Rightarrow> u64 \<Rightarrow> (u64 \<Rightarrow> bool) option \<Rightarrow> (mm \<times> nat option) res" where
  "alloc_pages_nodemask rounds cpu m gfp_mask order preferred_nid nodemask =
     (if order \<ge> MAX_ORDER then Inr (m, None)
      else
        let high_zoneidx = gfp_zone gfp_mask;
            zonelist = node_zonelists m preferred_nid (gfp_zonelist gfp_mask);
            preferred_zoneref = next_zones_zonelist (node_zones m) zonelist high_zoneidx nodemask
        in and_then (get_page_from_freelist rounds cpu gfp_mask order high_zoneidx nodemask preferred_zoneref m)
             (\<lambda>(m1, page). case page of Some p \<Rightarrow> Inr (m1, Some p) | None \<Rightarrow> Inl Bug))"

section \<open>Release\<close>

text \<open>\<open>valid\<close> is \<open>pfn_valid\<close>.\<close>

definition free_one_page :: "(nat \<Rightarrow> bool) \<Rightarrow> pagemap \<Rightarrow> zone \<Rightarrow> nat \<Rightarrow> nat \<Rightarrow> (pagemap \<times> zone) res" where
  "free_one_page valid pages z pfn order =
     (if \<not> initialized z then Inl Bug
      else and_then (free_one_page_core valid pages (zone_free_area z) pfn order)
             (\<lambda>(pages1, fa1). Inr (pages1, z\<lparr>zone_free_area := fa1\<rparr>)))"

text \<open>
  The collecting loop of \<open>free_pcppages_bulk\<close>: there is one list per CPU, so every round of
  the outer loop takes one page, the last of the list. On an empty list the code spins.
\<close>

primrec pcp_collect :: "nat \<Rightarrow> pagemap \<Rightarrow> per_cpu_pages \<Rightarrow> nat list \<Rightarrow> (pagemap \<times> per_cpu_pages \<times> nat list) res" where
  "pcp_collect 0 pages pcp head = Inr (pages, pcp, head)"
| "pcp_collect (Suc count) pages pcp head =
     (if pcp_lists pcp = [] then Inl Hang
      else
        let page = last (pcp_lists pcp);
            pcp1 = pcp\<lparr>pcp_lists := butlast (pcp_lists pcp), pcp_count := pcp_count pcp - 1\<rparr>
        in case free_pages_check pages page of
             (pages1, bad) \<Rightarrow> pcp_collect count pages1 pcp1 (if bad then head else head @ [page]))"

primrec free_list_pages :: "(nat \<Rightarrow> bool) \<Rightarrow> nat list \<Rightarrow> pagemap \<Rightarrow> zone \<Rightarrow> (pagemap \<times> zone) res" where
  "free_list_pages valid [] pages z = Inr (pages, z)"
| "free_list_pages valid (p # ps) pages z =
     and_then (free_one_page valid pages z p 0) (\<lambda>(pages1, z1). free_list_pages valid ps pages1 z1)"

definition free_pcppages_bulk :: "(nat \<Rightarrow> bool) \<Rightarrow> nat \<Rightarrow> pagemap \<Rightarrow> zone \<Rightarrow> nat \<Rightarrow> (pagemap \<times> zone) res" where
  "free_pcppages_bulk valid cpu pages z count =
     and_then (pcp_collect count pages (zone_pageset z cpu) [])
       (\<lambda>(pages1, pcp1, head).
          free_list_pages valid head pages1 (z\<lparr>zone_pageset := (zone_pageset z)(cpu := pcp1)\<rparr>))"

definition free_unref_page_commit :: "(nat \<Rightarrow> bool) \<Rightarrow> nat \<Rightarrow> pagemap \<Rightarrow> zone \<Rightarrow> nat \<Rightarrow> (pagemap \<times> zone) res" where
  "free_unref_page_commit valid cpu pages z page =
     (let pcp = zone_pageset z cpu;
          pcp1 = pcp\<lparr>pcp_lists := page # pcp_lists pcp, pcp_count := pcp_count pcp + 1\<rparr>;
          z1 = z\<lparr>zone_pageset := (zone_pageset z)(cpu := pcp1)\<rparr>
      in if pcp_count pcp1 \<ge> pcp_high pcp1 then free_pcppages_bulk valid cpu pages z1 (pcp_batch pcp1)
         else Inr (pages, z1))"

definition free_unref_page :: "(nat \<Rightarrow> bool) \<Rightarrow> nat \<Rightarrow> mm \<Rightarrow> nat \<Rightarrow> mm res" where
  "free_unref_page valid cpu m page =
     and_then (free_pages_prepare (mem_map m) page 0 False)
       (\<lambda>(pages1, ok).
          if \<not> ok then Inr (m\<lparr>mem_map := pages1\<rparr>)
          else
            let zp = page_zone (pages1 page) in
            and_then (free_unref_page_commit valid cpu pages1 (node_zones m zp) page)
              (\<lambda>(pages2, z2). Inr (m\<lparr>mem_map := pages2, node_zones := (node_zones m)(zp := z2)\<rparr>)))"

definition free_pages_ok :: "(nat \<Rightarrow> bool) \<Rightarrow> mm \<Rightarrow> nat \<Rightarrow> nat \<Rightarrow> mm res" where
  "free_pages_ok valid m page order =
     and_then (free_pages_prepare (mem_map m) page order True)
       (\<lambda>(pages1, ok).
          if \<not> ok then Inr (m\<lparr>mem_map := pages1\<rparr>)
          else
            let zp = page_zone (pages1 page) in
            and_then (free_one_page valid pages1 (node_zones m zp) page order)
              (\<lambda>(pages2, z2). Inr (m\<lparr>mem_map := pages2, node_zones := (node_zones m)(zp := z2)\<rparr>)))"

definition free_the_page :: "(nat \<Rightarrow> bool) \<Rightarrow> nat \<Rightarrow> mm \<Rightarrow> nat \<Rightarrow> nat \<Rightarrow> mm res" where
  "free_the_page valid cpu m page order =
     (if order = 0 then free_unref_page valid cpu m page else free_pages_ok valid m page order)"

definition free_pages :: "(nat \<Rightarrow> bool) \<Rightarrow> nat \<Rightarrow> mm \<Rightarrow> nat \<Rightarrow> nat \<Rightarrow> mm res" where
  "free_pages valid cpu m page order =
     and_then (put_page_testzero (mem_map m page))
       (\<lambda>(p, zero).
          let m1 = m\<lparr>mem_map := (mem_map m)(page := p)\<rparr> in
          if zero then free_the_page valid cpu m1 page order else Inr m1)"

end
