(* ===== verification/Page_Zone.thy ===== *)
theory Page_Zone
  imports Page_Alloc
begin

unbundle bit_operations_syntax

text \<open>
  One zone of the page allocator: its invariant, which covers the free lists and the per-cpu
  lists, and what taking pages from it (\<open>rmqueue\<close>) and giving pages back to it
  (\<open>free_one_page\<close>, \<open>free_unref_page_commit\<close>) do to the frames it holds.
\<close>

section \<open>One zone\<close>

definition pcp_ok :: "per_cpu_pages \<Rightarrow> bool" where
  "pcp_ok pcp \<longleftrightarrow>
     pcp_count pcp = int (length (pcp_lists pcp)) \<and> distinct (pcp_lists pcp) \<and>
     1 \<le> pcp_batch pcp \<and> int (pcp_batch pcp) \<le> max 1 (pcp_high pcp)"

definition pcp_pages :: "zone \<Rightarrow> nat set" where
  "pcp_pages z = (\<Union>cpu. set (pcp_lists (zone_pageset z cpu)))"

definition avail :: "zone \<Rightarrow> nat set" where
  "avail z = free_frames (zone_free_area z) \<union> pcp_pages z"

text \<open>
  The zone as a whole: the free lists are well formed, every CPU's list holds pages that are
  ready for use, and no frame is held twice.
\<close>

definition zone_ok :: "(nat \<Rightarrow> bool) \<Rightarrow> zone_ptr \<Rightarrow> pagemap \<Rightarrow> zone \<Rightarrow> bool" where
  "zone_ok valid zp pages z \<longleftrightarrow>
     initialized z \<and> buddy_ok valid zp pages (zone_free_area z) \<and>
     (\<forall>cpu. pcp_ok (zone_pageset z cpu)) \<and>
     (\<forall>q \<in> pcp_pages z. raw_block valid zp pages (q, 0)) \<and>
     pcp_pages z \<inter> free_frames (zone_free_area z) = {} \<and>
     (\<forall>c d. c \<noteq> d \<longrightarrow> set (pcp_lists (zone_pageset z c)) \<inter> set (pcp_lists (zone_pageset z d)) = {})"

lemma frames_one [simp]: "frames (q, 0) = {q}"
  by (auto simp: frames_def)

lemma raw_one: "raw_block valid zp pages (q, 0) \<longleftrightarrow> valid q \<and> free_page zp (pages q) \<and> pg_type (pages q) = - 1"
  by (simp add: raw_block_def)

lemma raw_block_frame: "raw_block valid zp pages b \<Longrightarrow> q \<in> frames b \<Longrightarrow> raw_block valid zp pages (q, 0)"
  by (simp add: raw_block_def)

lemma raw_block_cong: "(\<And>q. q \<in> frames b \<Longrightarrow> pages' q = pages q) \<Longrightarrow> raw_block valid zp pages' b = raw_block valid zp pages b"
  by (simp add: raw_block_def)

lemma check_new_page_raw: "raw_block valid zp pages (q, 0) \<Longrightarrow> check_new_page pages q = (pages, False)"
  by (simp add: raw_one check_new_page_def page_expected_state_def free_page_def page_mapcount_def)

lemma check_new_pages_raw:
  assumes "raw_block valid zp pages (p, k)" shows "check_new_pages pages p k = (pages, False)"
proof -
  have "check_new_pages_loop pages qs = (pages, False)" if "set qs \<subseteq> frames (p, k)" for qs
    using that by (induction qs) (auto simp: check_new_page_raw [OF raw_block_frame [OF assms]])
  then show ?thesis by (simp add: check_new_pages_def frames_def)
qed

lemma check_at_free_zero: "f AND PAGE_FLAGS_CHECK_AT_PREP = 0 \<Longrightarrow> f AND PAGE_FLAGS_CHECK_AT_FREE = 0"
proof -
  assume a: "f AND PAGE_FLAGS_CHECK_AT_PREP = 0"
  have "PAGE_FLAGS_CHECK_AT_FREE = PAGE_FLAGS_CHECK_AT_PREP AND PAGE_FLAGS_CHECK_AT_FREE"
    by (simp add: PAGE_FLAGS_CHECK_AT_FREE_def PAGE_FLAGS_CHECK_AT_PREP_def NR_PAGEFLAGS_def PG_locked_def
        PG_private_def PG_reserved_def PG_slab_def PG_active_def)
  then have "f AND PAGE_FLAGS_CHECK_AT_FREE = (f AND PAGE_FLAGS_CHECK_AT_PREP) AND PAGE_FLAGS_CHECK_AT_FREE"
    by (simp only: and.assoc)
  then show ?thesis by (simp add: a)
qed

lemma free_pages_check_raw: "raw_block valid zp pages (q, 0) \<Longrightarrow> free_pages_check pages q = (pages, False)"
  by (simp add: raw_one free_pages_check_def page_expected_state_def free_page_def page_mapcount_def check_at_free_zero)

section \<open>Taking pages\<close>

lemma rmqueue_smallest_result:
  "buddy_ok valid z pages fa \<Longrightarrow>
   \<exists>out. rmqueue_smallest pages fa k = Inr out \<and> smallest_outcome valid z pages fa k k out"
  unfolding rmqueue_smallest_def by (erule rmqueue_smallest_loop_result) simp

lemma no_blocks: "\<forall>(p, j) \<in> blocks fa. j < (0 :: nat) \<Longrightarrow> free_frames fa = {}"
  by (auto simp: free_frames_def)

definition bulk_outcome ::
    "(nat \<Rightarrow> bool) \<Rightarrow> zone_ptr \<Rightarrow> pagemap \<Rightarrow> free_area list \<Rightarrow> nat \<Rightarrow> pagemap \<Rightarrow> free_area list \<Rightarrow> nat list \<Rightarrow> bool" where
  "bulk_outcome valid zp pages fa n pages' fa' new \<longleftrightarrow>
     buddy_ok valid zp pages' fa' \<and> distinct new \<and> set new \<subseteq> free_frames fa \<and>
     (\<forall>q \<in> set new. raw_block valid zp pages' (q, 0)) \<and>
     free_frames fa' = free_frames fa - set new \<and>
     (merged (blocks fa) \<longrightarrow> merged (blocks fa')) \<and>
     (\<forall>q. q \<notin> free_frames fa \<longrightarrow> pages' q = pages q) \<and>
     (new = [] \<longrightarrow> pages' = pages \<and> fa' = fa \<and> (n = 0 \<or> free_frames fa = {}))"

lemma rmqueue_bulk_result:
  assumes "buddy_ok valid zp pages fa"
  shows "\<exists>pages' fa' new. rmqueue_bulk n pages fa 0 lst a = Inr (pages', fa', lst @ new, a + int (length new)) \<and>
    bulk_outcome valid zp pages fa n pages' fa' new"
  using assms
proof (induction n arbitrary: pages fa lst a)
  case 0
  then show ?case by (simp add: bulk_outcome_def)
next
  case (Suc n)
  obtain pages1 fa1 r where r: "rmqueue_smallest pages fa 0 = Inr (pages1, fa1, r)"
    "smallest_outcome valid zp pages fa 0 0 (pages1, fa1, r)"
    using rmqueue_smallest_result [OF Suc.prems, of 0] by (elim exE conjE, case_tac out) blast
  show ?case
  proof (cases r)
    case None
    then have "pages1 = pages" "fa1 = fa" "free_frames fa = {}"
      using r(2) no_blocks by (auto simp: smallest_outcome_def)
    then show ?thesis using r(1) None Suc.prems by (simp add: bulk_outcome_def)
  next
    case (Some p)
    then have t: "taken valid zp pages fa 0 pages1 fa1 p" using r(2) by (simp add: smallest_outcome_def)
    note t = t [unfolded taken_def frames_one]
    have ok1: "buddy_ok valid zp pages1 fa1" using t by (rule conjunct1)
    obtain pages' fa' new where IH:
      "rmqueue_bulk n pages1 fa1 0 (lst @ [p]) (a + 1) = Inr (pages', fa', (lst @ [p]) @ new, a + 1 + int (length new))"
      "bulk_outcome valid zp pages1 fa1 n pages' fa' new"
      using Suc.IH [OF ok1, of "lst @ [p]" "a + 1"] by (elim exE conjE) (rule that)
    note IHo = IH(2) [unfolded bulk_outcome_def]
    have pn: "p \<notin> free_frames fa1" using t by blast
    then have "pages' p = pages1 p" using IHo by blast
    then have rp: "raw_block valid zp pages' (p, 0)" using t by (simp add: raw_one)
    have "bulk_outcome valid zp pages fa (Suc n) pages' fa' (p # new)"
      unfolding bulk_outcome_def
    proof (intro conjI ballI allI impI)
      show "buddy_ok valid zp pages' fa'" using IHo by blast
      show "distinct (p # new)" "set (p # new) \<subseteq> free_frames fa" "free_frames fa' = free_frames fa - set (p # new)"
        using IHo t pn by auto
      show "merged (blocks fa')" if "merged (blocks fa)" using that IHo t by blast
      show "raw_block valid zp pages' (q, 0)" if "q \<in> set (p # new)" for q using that IHo rp by auto
      show "pages' q = pages q" if "q \<notin> free_frames fa" for q
      proof -
        have "pages' q = pages1 q" "pages1 q = pages q" using that IHo t by blast+
        then show ?thesis by simp
      qed
    qed simp_all
    moreover have "rmqueue_bulk (Suc n) pages fa 0 lst a = Inr (pages', fa', lst @ p # new, a + int (length (p # new)))"
      using r(1) Some IH(1) t check_new_page_raw [of valid zp pages1 p] by simp
    ultimately show ?thesis by blast
  qed
qed
text \<open>What \<open>rmqueue\<close> promises: a block ready for use, removed from what the zone holds.\<close>

definition zone_taken ::
    "(nat \<Rightarrow> bool) \<Rightarrow> zone_ptr \<Rightarrow> pagemap \<Rightarrow> zone \<Rightarrow> nat \<Rightarrow> pagemap \<Rightarrow> zone \<Rightarrow> nat \<Rightarrow> bool" where
  "zone_taken valid zp pages z k pages' z' p \<longleftrightarrow>
     zone_ok valid zp pages' z' \<and> raw_block valid zp pages' (p, k) \<and>
     frames (p, k) \<subseteq> avail z \<and> avail z' = avail z - frames (p, k) \<and>
     (merged (blocks (zone_free_area z)) \<longrightarrow> merged (blocks (zone_free_area z'))) \<and>
     (\<forall>q. q \<notin> avail z \<longrightarrow> pages' q = pages q)"

text \<open>A request fails only when nothing fits: for a single page this CPU's list and the free lists are empty.\<close>

definition zone_empty :: "nat \<Rightarrow> zone \<Rightarrow> nat \<Rightarrow> bool" where
  "zone_empty cpu z k \<longleftrightarrow>
     (\<forall>(p, j) \<in> blocks (zone_free_area z). j < k) \<and> (k = 0 \<longrightarrow> pcp_lists (zone_pageset z cpu) = [])"

definition rmqueue_outcome ::
    "(nat \<Rightarrow> bool) \<Rightarrow> zone_ptr \<Rightarrow> nat \<Rightarrow> pagemap \<Rightarrow> zone \<Rightarrow> nat \<Rightarrow> pagemap \<times> zone \<times> nat option \<Rightarrow> bool" where
  "rmqueue_outcome valid zp cpu pages z k out \<longleftrightarrow>
     (case out of
        (pages', z', None) \<Rightarrow> pages' = pages \<and> z' = z \<and> zone_empty cpu z k
      | (pages', z', Some p) \<Rightarrow> zone_taken valid zp pages z k pages' z' p)"

lemma zone_okD:
  assumes "zone_ok valid zp pages z"
  shows "initialized z" "buddy_ok valid zp pages (zone_free_area z)" "\<And>cpu. pcp_ok (zone_pageset z cpu)"
    "\<And>q. q \<in> pcp_pages z \<Longrightarrow> raw_block valid zp pages (q, 0)"
    "pcp_pages z \<inter> free_frames (zone_free_area z) = {}"
    "\<And>c d. c \<noteq> d \<Longrightarrow> set (pcp_lists (zone_pageset z c)) \<inter> set (pcp_lists (zone_pageset z d)) = {}"
  using assms unfolding zone_ok_def by blast+

lemma pcp_pages_update:
  "pcp_pages (z\<lparr>zone_free_area := fa, zone_pageset := (zone_pageset z)(cpu := pcp)\<rparr>) =
     set (pcp_lists pcp) \<union> (\<Union>c \<in> - {cpu}. set (pcp_lists (zone_pageset z c)))"
  by (auto simp: pcp_pages_def split: if_splits)

lemma pcp_pages_split:
  "pcp_pages z = set (pcp_lists (zone_pageset z cpu)) \<union> (\<Union>c \<in> - {cpu}. set (pcp_lists (zone_pageset z c)))"
  by (auto simp: pcp_pages_def)

lemma others_disjoint:
  assumes "zone_ok valid zp pages z"
  shows "set (pcp_lists (zone_pageset z cpu)) \<inter> (\<Union>c \<in> - {cpu}. set (pcp_lists (zone_pageset z c))) = {}"
  using zone_okD(6) [OF assms] by blast

text \<open>Replacing the free lists and this CPU's list keeps the zone in order when nothing is held twice.\<close>

lemma zone_ok_update:
  assumes ok: "zone_ok valid zp pages z" and b: "buddy_ok valid zp pages' fa" and p: "pcp_ok pcp"
    and raw: "\<And>q. q \<in> set (pcp_lists pcp) \<Longrightarrow> raw_block valid zp pages' (q, 0)"
    and keep: "\<And>q c. c \<noteq> cpu \<Longrightarrow> q \<in> set (pcp_lists (zone_pageset z c)) \<Longrightarrow>
                 pages' q = pages q \<and> q \<notin> free_frames fa \<and> q \<notin> set (pcp_lists pcp)"
    and d: "set (pcp_lists pcp) \<inter> free_frames fa = {}"
  shows "zone_ok valid zp pages' (z\<lparr>zone_free_area := fa, zone_pageset := (zone_pageset z)(cpu := pcp)\<rparr>)"
  unfolding zone_ok_def pcp_pages_update
proof (intro conjI allI ballI impI)
  fix q assume q: "q \<in> set (pcp_lists pcp) \<union> (\<Union>c \<in> - {cpu}. set (pcp_lists (zone_pageset z c)))"
  show "raw_block valid zp pages' (q, 0)"
  proof (cases "q \<in> set (pcp_lists pcp)")
    case False
    then obtain c where c: "c \<noteq> cpu" "q \<in> set (pcp_lists (zone_pageset z c))" using q by blast
    then have "raw_block valid zp pages (q, 0)" using zone_okD(4) [OF ok] by (auto simp: pcp_pages_def)
    then show ?thesis using keep [OF c] by (simp add: raw_one)
  qed (rule raw)
next
  fix c e :: nat assume "c \<noteq> e"
  then show "set (pcp_lists (zone_pageset (z\<lparr>zone_free_area := fa, zone_pageset := (zone_pageset z)(cpu := pcp)\<rparr>) c)) \<inter>
      set (pcp_lists (zone_pageset (z\<lparr>zone_free_area := fa, zone_pageset := (zone_pageset z)(cpu := pcp)\<rparr>) e)) = {}"
    using keep [of c] keep [of e] zone_okD(6) [OF ok, of c e] by (cases "c = cpu"; cases "e = cpu") auto
qed (use zone_okD(1,3) [OF ok] b p d keep in auto)

lemma zone_update_id: "z\<lparr>zone_free_area := zone_free_area z, zone_pageset := (zone_pageset z)(cpu := zone_pageset z cpu)\<rparr> = z"
  by simp

lemma rmqueue_pcplist_first:
  assumes ok: "zone_ok valid zp pages z" and ne: "pcp_lists (zone_pageset z cpu) = p # rest"
  shows "\<exists>out. rmqueue_pcplist cpu pages z = Inr out \<and> rmqueue_outcome valid zp cpu pages z 0 out"
proof -
  let ?pcp = "zone_pageset z cpu"
  let ?pcp' = "?pcp\<lparr>pcp_lists := rest, pcp_count := pcp_count ?pcp - 1\<rparr>"
  let ?z = "z\<lparr>zone_free_area := zone_free_area z, zone_pageset := (zone_pageset z)(cpu := ?pcp')\<rparr>"
  have pok: "pcp_ok ?pcp" by (rule zone_okD(3) [OF ok])
  then have d: "p \<notin> set rest" and pok': "pcp_ok ?pcp'" by (auto simp: pcp_ok_def ne)
  have in_pcp: "set (p # rest) \<subseteq> pcp_pages z" using ne pcp_pages_split [of z cpu] by auto
  have zok: "zone_ok valid zp pages ?z"
  proof (rule zone_ok_update [OF ok zone_okD(2) [OF ok] pok'])
    show "raw_block valid zp pages (q, 0)" if "q \<in> set (pcp_lists ?pcp')" for q
      using that in_pcp zone_okD(4) [OF ok] by auto
    show "set (pcp_lists ?pcp') \<inter> free_frames (zone_free_area z) = {}"
      using in_pcp zone_okD(5) [OF ok] by auto
    show "pages q = pages q \<and> q \<notin> free_frames (zone_free_area z) \<and> q \<notin> set (pcp_lists ?pcp')"
      if "c \<noteq> cpu" "q \<in> set (pcp_lists (zone_pageset z c))" for q c
    proof -
      have "q \<in> pcp_pages z" using that(2) by (auto simp: pcp_pages_def)
      then show ?thesis using zone_okD(5) [OF ok] zone_okD(6) [OF ok that(1)] that(2) ne by auto
    qed
  qed
  have "p \<notin> (\<Union>c \<in> - {cpu}. set (pcp_lists (zone_pageset z c)))"
    using others_disjoint [OF ok, of cpu] ne by auto
  then have pp: "pcp_pages ?z = pcp_pages z - {p}"
    unfolding pcp_pages_update using pcp_pages_split [of z cpu] ne d by auto
  have "p \<notin> free_frames (zone_free_area z)" using zone_okD(5) [OF ok] in_pcp by auto
  then have "avail ?z = avail z - {p}" unfolding avail_def pp by auto
  then have "zone_taken valid zp pages z 0 pages ?z p"
    unfolding zone_taken_def using zok zone_okD(4) [OF ok, of p] in_pcp by (auto simp: avail_def)
  moreover have "rmqueue_pcplist cpu pages z = Inr (pages, ?z, Some p)"
    using ne by (simp add: rmqueue_pcplist_def Let_def)
  ultimately show ?thesis by (auto simp: rmqueue_outcome_def)
qed

lemma rmqueue_pcplist_refill:
  assumes ok: "zone_ok valid zp pages z" and e: "pcp_lists (zone_pageset z cpu) = []"
  shows "\<exists>out. rmqueue_pcplist cpu pages z = Inr out \<and> rmqueue_outcome valid zp cpu pages z 0 out"
proof -
  let ?pcp = "zone_pageset z cpu" and ?fa = "zone_free_area z"
  obtain pages' fa' new where bk: "rmqueue_bulk (pcp_batch ?pcp) pages ?fa 0 [] 0 = Inr (pages', fa', new, int (length new))"
    and bo: "bulk_outcome valid zp pages ?fa (pcp_batch ?pcp) pages' fa' new"
    using rmqueue_bulk_result [OF zone_okD(2) [OF ok], of "pcp_batch ?pcp" "[]" 0] by auto
  note bo = bo [unfolded bulk_outcome_def]
  have pok: "pcp_ok ?pcp" by (rule zone_okD(3) [OF ok])
  show ?thesis
  proof (cases new)
    case Nil
    then have eq: "pages' = pages" "fa' = ?fa" "free_frames ?fa = {}" using bo pok by (auto simp: pcp_ok_def)
    have "?pcp\<lparr>pcp_lists := []\<rparr> = ?pcp" using e by (intro per_cpu_pages.equality) simp_all
    then have "z\<lparr>zone_pageset := (zone_pageset z)(cpu := ?pcp\<lparr>pcp_lists := []\<rparr>)\<rparr> = z"
      by (simp only: fun_upd_triv) simp
    note id = this
    have "rmqueue_pcplist cpu pages z = Inr (pages, z, None)"
      using e bk Nil eq by (simp add: rmqueue_pcplist_def Let_def id)
    moreover have "blocks ?fa = {}" using eq(3) in_free_frames [OF _ frames_head] by fastforce
    ultimately show ?thesis using e by (auto simp: rmqueue_outcome_def zone_empty_def)
  next
    case (Cons p rest)
    let ?pcp' = "?pcp\<lparr>pcp_lists := rest, pcp_count := pcp_count ?pcp + int (length new) - 1\<rparr>"
    let ?z = "z\<lparr>zone_free_area := fa', zone_pageset := (zone_pageset z)(cpu := ?pcp')\<rparr>"
    have pok': "pcp_ok ?pcp'" using pok bo e Cons by (auto simp: pcp_ok_def)
    have zok: "zone_ok valid zp pages' ?z"
    proof (rule zone_ok_update [OF ok _ pok'])
      show "buddy_ok valid zp pages' fa'" using bo by blast
      show "raw_block valid zp pages' (q, 0)" if "q \<in> set (pcp_lists ?pcp')" for q
        using that bo Cons by auto
      show "set (pcp_lists ?pcp') \<inter> free_frames fa' = {}" using bo Cons by auto
      show "pages' q = pages q \<and> q \<notin> free_frames fa' \<and> q \<notin> set (pcp_lists ?pcp')"
        if "c \<noteq> cpu" "q \<in> set (pcp_lists (zone_pageset z c))" for q c
      proof -
        have "q \<notin> free_frames ?fa" using that(2) zone_okD(5) [OF ok] by (auto simp: pcp_pages_def)
        then show ?thesis using bo Cons by auto
      qed
    qed
    have op: "(\<Union>c \<in> - {cpu}. set (pcp_lists (zone_pageset z c))) = pcp_pages z"
      unfolding pcp_pages_split [of z cpu] e by simp
    have pp: "pcp_pages ?z = pcp_pages z \<union> set rest" unfolding pcp_pages_update op by auto
    have "p \<in> free_frames ?fa" "p \<notin> set rest" "set rest \<subseteq> free_frames ?fa" "free_frames fa' = free_frames ?fa - insert p (set rest)"
      using bo Cons by auto
    moreover have "p \<notin> pcp_pages z" using zone_okD(5) [OF ok] calculation(1) by blast
    ultimately have "avail ?z = avail z - {p}" "p \<in> avail z" unfolding avail_def pp by auto
    moreover have "pages' q = pages q" if "q \<notin> avail z" for q using that bo by (auto simp: avail_def)
    ultimately have "zone_taken valid zp pages z 0 pages' ?z p"
      unfolding zone_taken_def using zok bo Cons by auto
    moreover have "rmqueue_pcplist cpu pages z = Inr (pages', ?z, Some p)"
      using e bk Cons by (simp add: rmqueue_pcplist_def Let_def)
    ultimately show ?thesis by (auto simp: rmqueue_outcome_def)
  qed
qed

lemma rmqueue_result:
  assumes ok: "zone_ok valid zp pages z"
  shows "\<exists>out. rmqueue cpu pages z k = Inr out \<and> rmqueue_outcome valid zp cpu pages z k out"
proof (cases "k = 0")
  case True
  then show ?thesis
    using rmqueue_pcplist_first [OF ok] rmqueue_pcplist_refill [OF ok]
    by (cases "pcp_lists (zone_pageset z cpu)") (auto simp: rmqueue_def)
next
  case False
  let ?fa = "zone_free_area z"
  obtain pages1 fa1 r where r: "rmqueue_smallest pages ?fa k = Inr (pages1, fa1, r)"
    and o: "smallest_outcome valid zp pages ?fa k k (pages1, fa1, r)"
    using rmqueue_smallest_result [OF zone_okD(2) [OF ok], of k] by (elim exE conjE, case_tac out) blast
  show ?thesis
  proof (cases r)
    case None
    then have "pages1 = pages" "fa1 = ?fa" "\<forall>(p, j) \<in> blocks ?fa. j < k" using o by (auto simp: smallest_outcome_def)
    moreover from this have "rmqueue cpu pages z k = Inr (pages, z, None)"
      using r None False by (simp add: rmqueue_def)
    ultimately show ?thesis using False by (auto simp: rmqueue_outcome_def zone_empty_def)
  next
    case (Some p)
    then have t: "taken valid zp pages ?fa k pages1 fa1 p" using o by (simp add: smallest_outcome_def)
    note t = t [unfolded taken_def]
    let ?z = "z\<lparr>zone_free_area := fa1\<rparr>"
    have "rmqueue cpu pages z k = Inr (pages1, ?z, Some p)"
      using r Some False t check_new_pages_raw [of valid zp pages1 p k] by (simp add: rmqueue_def)
    moreover have pp: "pcp_pages ?z = pcp_pages z" by (simp add: pcp_pages_def)
    have keep: "pages1 q = pages q" "q \<notin> free_frames fa1" if "q \<in> pcp_pages z" for q
      using that zone_okD(5) [OF ok] t by blast+
    have "zone_ok valid zp pages1 ?z"
      unfolding zone_ok_def pp using zone_okD [OF ok] t keep by (auto simp: raw_one)
    moreover have "avail ?z = avail z - frames (p, k)"
      unfolding avail_def pp using t zone_okD(5) [OF ok] by auto
    moreover have "pages1 q = pages q" if "q \<notin> avail z" for q using that t by (auto simp: avail_def)
    ultimately show ?thesis using t by (auto simp: rmqueue_outcome_def zone_taken_def avail_def)
  qed
qed

section \<open>Releasing pages\<close>

definition zone_released ::
    "(nat \<Rightarrow> bool) \<Rightarrow> zone_ptr \<Rightarrow> pagemap \<Rightarrow> zone \<Rightarrow> nat set \<Rightarrow> pagemap \<Rightarrow> zone \<Rightarrow> bool" where
  "zone_released valid zp pages z A pages' z' \<longleftrightarrow>
     zone_ok valid zp pages' z' \<and> avail z' = avail z \<union> A \<and>
     (merged (blocks (zone_free_area z)) \<longrightarrow> merged (blocks (zone_free_area z'))) \<and>
     (\<forall>q. q \<notin> avail z' \<longrightarrow> pages' q = pages q)"

lemma free_one_page_zone:
  assumes ok: "zone_ok valid zp pages z" and raw: "raw_block valid zp pages (p, k)" and k: "k < MAX_ORDER"
    and d: "frames (p, k) \<inter> avail z = {}"
  shows "\<exists>pages' z'. free_one_page valid pages z p k = Inr (pages', z') \<and>
    zone_released valid zp pages z (frames (p, k)) pages' z' \<and> zone_pageset z' = zone_pageset z"
proof -
  let ?fa = "zone_free_area z"
  have d': "frames (p, k) \<inter> free_frames ?fa = {}" "frames (p, k) \<inter> pcp_pages z = {}" using d by (auto simp: avail_def)
  obtain pages' fa' where c: "free_one_page_core valid pages ?fa p k = Inr (pages', fa')"
    and r: "released valid zp pages ?fa p k pages' fa'"
    using free_one_page_result [OF zone_okD(2) [OF ok] raw k d'(1)] by blast
  note r = r [unfolded released_def]
  let ?z = "z\<lparr>zone_free_area := fa'\<rparr>"
  have pp: "pcp_pages ?z = pcp_pages z" by (simp add: pcp_pages_def)
  have keep: "pages' q = pages q" "q \<notin> free_frames fa'" if "q \<in> pcp_pages z" for q
  proof -
    show "q \<notin> free_frames fa'" using that r d'(2) zone_okD(5) [OF ok] by blast
    then show "pages' q = pages q" using r by blast
  qed
  have "zone_ok valid zp pages' ?z"
    unfolding zone_ok_def pp using zone_okD [OF ok] r keep by (auto simp: raw_one)
  moreover have "avail ?z = avail z \<union> frames (p, k)" unfolding avail_def pp using r by auto
  ultimately have "zone_released valid zp pages z (frames (p, k)) pages' ?z"
    unfolding zone_released_def using r by (auto simp: avail_def)
  moreover have "free_one_page valid pages z p k = Inr (pages', ?z)"
    using c zone_okD(1) [OF ok] by (simp add: free_one_page_def)
  ultimately show ?thesis by (intro exI [of _ pages'] exI [of _ ?z]) simp
qed

lemma free_list_pages_result:
  assumes "zone_ok valid zp pages z" "\<And>q. q \<in> set qs \<Longrightarrow> raw_block valid zp pages (q, 0)" "distinct qs"
    "set qs \<inter> avail z = {}"
  shows "\<exists>pages' z'. free_list_pages valid qs pages z = Inr (pages', z') \<and> zone_released valid zp pages z (set qs) pages' z'"
  using assms
proof (induction qs arbitrary: pages z)
  case Nil
  then show ?case by (simp add: zone_released_def)
next
  case (Cons q qs)
  have d: "frames (q, 0) \<inter> avail z = {}" using Cons.prems(4) by auto
  have rq: "raw_block valid zp pages (q, 0)" by (rule Cons.prems(2)) simp
  have "0 < MAX_ORDER" by (simp add: MAX_ORDER_def)
  then obtain pages1 z1 where f: "free_one_page valid pages z q 0 = Inr (pages1, z1)"
    and r: "zone_released valid zp pages z {q} pages1 z1"
    using free_one_page_zone [OF Cons.prems(1) rq _ d] by auto
  note r1 = r [unfolded zone_released_def]
  have d1: "set qs \<inter> avail z1 = {}" using r1 Cons.prems(3,4) by auto
  have raw1: "raw_block valid zp pages1 (q', 0)" if "q' \<in> set qs" for q'
  proof -
    have "pages1 q' = pages q'" using d1 that r1 by blast
    then show ?thesis using Cons.prems(2) [of q'] that by (simp add: raw_one)
  qed
  obtain pages' z' where g: "free_list_pages valid qs pages1 z1 = Inr (pages', z')"
    and r2: "zone_released valid zp pages1 z1 (set qs) pages' z'"
    using Cons.IH [of pages1 z1] r1 raw1 Cons.prems(3) d1 by auto
  have "zone_released valid zp pages z (set (q # qs)) pages' z'"
    using r1 r2 unfolding zone_released_def by auto
  then show ?case using f g by simp
qed

lemma pcp_collect_raw:
  assumes "\<And>q. q \<in> set (pcp_lists pcp) \<Longrightarrow> raw_block valid zp pages (q, 0)" "n \<le> length (pcp_lists pcp)"
  shows "pcp_collect n pages pcp head =
    Inr (pages, pcp\<lparr>pcp_lists := take (length (pcp_lists pcp) - n) (pcp_lists pcp), pcp_count := pcp_count pcp - int n\<rparr>,
         head @ rev (drop (length (pcp_lists pcp) - n) (pcp_lists pcp)))"
  using assms
proof (induction n arbitrary: pcp head)
  case 0
  then show ?case by simp
next
  case (Suc n)
  obtain ys y where xs: "pcp_lists pcp = ys @ [y]"
    using Suc.prems(2) by (cases "pcp_lists pcp" rule: rev_cases) auto
  let ?pcp = "pcp\<lparr>pcp_lists := ys, pcp_count := pcp_count pcp - 1\<rparr>"
  have "raw_block valid zp pages (q, 0)" if "q \<in> set (pcp_lists ?pcp)" for q
    using Suc.prems(1) that xs by simp
  then have IH: "pcp_collect n pages ?pcp (head @ [y]) =
    Inr (pages, ?pcp\<lparr>pcp_lists := take (length ys - n) ys, pcp_count := pcp_count pcp - 1 - int n\<rparr>,
         (head @ [y]) @ rev (drop (length ys - n) ys))"
    using Suc.IH [of ?pcp "head @ [y]"] Suc.prems(2) xs by simp
  have "free_pages_check pages y = (pages, False)"
    using free_pages_check_raw [of valid zp pages y] Suc.prems(1) xs by simp
  then have "pcp_collect (Suc n) pages pcp head = pcp_collect n pages ?pcp (head @ [y])"
    using xs by (simp add: Let_def)
  then show ?case unfolding IH by (simp add: xs)
qed

lemma pcp_exchange:
  assumes ok: "zone_ok valid zp pages z" and raw: "raw_block valid zp pages (p, 0)" and d: "p \<notin> avail z"
    and pcp: "pcp_ok pcp" "set (pcp_lists pcp) \<subseteq> insert p (set (pcp_lists (zone_pageset z cpu)))"
  shows "zone_ok valid zp pages (z\<lparr>zone_free_area := zone_free_area z, zone_pageset := (zone_pageset z)(cpu := pcp)\<rparr>)"
proof (rule zone_ok_update [OF ok zone_okD(2) [OF ok] pcp(1)])
  let ?fa = "zone_free_area z" and ?pcp = "zone_pageset z cpu"
  have mine: "set (pcp_lists ?pcp) \<subseteq> pcp_pages z" using pcp_pages_split [of z cpu] by auto
  have pn: "p \<notin> free_frames ?fa" "p \<notin> pcp_pages z" using d by (auto simp: avail_def)
  show "raw_block valid zp pages (q, 0)" if "q \<in> set (pcp_lists pcp)" for q
    using that pcp(2) raw mine zone_okD(4) [OF ok] by auto
  show "set (pcp_lists pcp) \<inter> free_frames ?fa = {}" using pcp(2) pn mine zone_okD(5) [OF ok] by blast
  show "pages q = pages q \<and> q \<notin> free_frames ?fa \<and> q \<notin> set (pcp_lists pcp)"
    if c: "c \<noteq> cpu" "q \<in> set (pcp_lists (zone_pageset z c))" for q c
  proof -
    have "q \<in> pcp_pages z" using c(2) by (auto simp: pcp_pages_def)
    then have "q \<noteq> p" "q \<notin> free_frames ?fa" using pn zone_okD(5) [OF ok] by auto
    then show ?thesis using zone_okD(6) [OF ok c(1)] c(2) pcp(2) by blast
  qed
qed

lemma avail_exchange:
  assumes ok: "zone_ok valid zp pages z"
  shows "avail (z\<lparr>zone_free_area := zone_free_area z, zone_pageset := (zone_pageset z)(cpu := pcp)\<rparr>) =
      avail z - set (pcp_lists (zone_pageset z cpu)) \<union> set (pcp_lists pcp)"
  unfolding avail_def pcp_pages_update using pcp_pages_split [of z cpu] others_disjoint [OF ok, of cpu]
    zone_okD(5) [OF ok] by auto

text \<open>A page that leaves its owner enters this CPU's list, which gives a batch back when it is full.\<close>

lemma free_unref_page_commit_result:
  assumes ok: "zone_ok valid zp pages z" and raw: "raw_block valid zp pages (p, 0)" and d: "p \<notin> avail z"
  shows "\<exists>pages' z'. free_unref_page_commit valid cpu pages z p = Inr (pages', z') \<and>
    zone_released valid zp pages z {p} pages' z'"
proof -
  let ?fa = "zone_free_area z" and ?pcp = "zone_pageset z cpu"
  let ?pcp1 = "?pcp\<lparr>pcp_lists := p # pcp_lists ?pcp, pcp_count := pcp_count ?pcp + 1\<rparr>"
  have pok: "pcp_ok ?pcp" by (rule zone_okD(3) [OF ok])
  have mine: "set (pcp_lists ?pcp) \<subseteq> pcp_pages z" using pcp_pages_split [of z cpu] by auto
  have pn: "p \<notin> free_frames ?fa" "p \<notin> pcp_pages z" using d by (auto simp: avail_def)
  have raw1: "raw_block valid zp pages (q, 0)" if "q \<in> set (pcp_lists ?pcp1)" for q
    using that raw mine zone_okD(4) [OF ok] by auto
  have dist: "distinct (pcp_lists ?pcp1)" using pok mine pn by (auto simp: pcp_ok_def)
  note sub = pcp_exchange [OF ok raw d] and av = avail_exchange [OF ok, of cpu]
  have mav: "set (pcp_lists ?pcp) \<subseteq> avail z" using mine by (auto simp: avail_def)
  show ?thesis
  proof (cases "pcp_count ?pcp1 \<ge> pcp_high ?pcp1")
    case False
    let ?z = "z\<lparr>zone_free_area := ?fa, zone_pageset := (zone_pageset z)(cpu := ?pcp1)\<rparr>"
    have "pcp_ok ?pcp1" using pok dist by (simp add: pcp_ok_def)
    then have "zone_ok valid zp pages ?z" by (rule sub) simp
    moreover have "avail ?z = avail z \<union> {p}" unfolding av using mav by auto
    moreover have "free_unref_page_commit valid cpu pages z p = Inr (pages, ?z)"
      using False by (simp add: free_unref_page_commit_def Let_def)
    ultimately show ?thesis by (intro exI [of _ pages] exI [of _ ?z]) (simp add: zone_released_def)
  next
    case True
    let ?n = "pcp_batch ?pcp" and ?xs = "p # pcp_lists ?pcp"
    let ?m = "length ?xs - ?n"
    let ?pcp2 = "?pcp1\<lparr>pcp_lists := take ?m ?xs, pcp_count := pcp_count ?pcp1 - int ?n\<rparr>"
    let ?z = "z\<lparr>zone_free_area := ?fa, zone_pageset := (zone_pageset z)(cpu := ?pcp2)\<rparr>"
    have n: "?n \<le> length ?xs" "1 \<le> ?n" using True pok by (auto simp: pcp_ok_def max_def split: if_splits)
    have col: "pcp_collect ?n pages ?pcp1 [] = Inr (pages, ?pcp2, rev (drop ?m ?xs))"
      using pcp_collect_raw [of ?pcp1 valid zp pages ?n "[]"] raw1 n(1) by simp
    have p2: "pcp_ok ?pcp2" using pok dist n by (auto simp: pcp_ok_def distinct_take)
    have zok: "zone_ok valid zp pages ?z" by (rule sub [OF p2]) (use set_take_subset [of ?m ?xs] in auto)
    have split: "set ?xs = set (take ?m ?xs) \<union> set (drop ?m ?xs)" "set (take ?m ?xs) \<inter> set (drop ?m ?xs) = {}"
      using dist by (metis append_take_drop_id set_append) (use dist set_take_disj_set_drop_if_distinct [of ?xs ?m ?m] in simp)
    have "set (rev (drop ?m ?xs)) \<inter> avail ?z = {}" unfolding av using split d mav by auto
    moreover have "raw_block valid zp pages (q, 0)" if "q \<in> set (rev (drop ?m ?xs))" for q
      using raw1 [of q] that set_drop_subset [of ?m ?xs] by auto
    moreover have "distinct (rev (drop ?m ?xs))" using dist by (simp add: distinct_drop)
    ultimately obtain pages' z' where f: "free_list_pages valid (rev (drop ?m ?xs)) pages ?z = Inr (pages', z')"
      and r: "zone_released valid zp pages ?z (set (rev (drop ?m ?xs))) pages' z'"
      using free_list_pages_result [OF zok] by blast
    have "avail ?z \<union> set (rev (drop ?m ?xs)) = avail z \<union> {p}" unfolding av using split(1) mav by auto
    then have "zone_released valid zp pages z {p} pages' z'" using r by (simp add: zone_released_def)
    moreover have "free_unref_page_commit valid cpu pages z p = Inr (pages', z')"
      using True col f by (simp add: free_unref_page_commit_def free_pcppages_bulk_def Let_def)
    ultimately show ?thesis by blast
  qed
qed

end
