(* ===== verification/Page_Alloc_Mm.thy ===== *)
theory Page_Alloc_Mm
  imports Page_Zone
begin

unbundle bit_operations_syntax

text \<open>
  The page allocator as a whole: blocks in use, the preparation of new and of released
  blocks, and what \<open>__alloc_pages_nodemask\<close> and \<open>__free_pages\<close> do to the frames that the
  zones of the machine hold.
\<close>

section \<open>Pages in use\<close>

text \<open>
  A block as \<open>alloc_pages\<close> hands it out: one reference on the head page, and for orders
  above zero a compound page whose tails point to the head.
\<close>

definition used_page :: "(nat \<Rightarrow> bool) \<Rightarrow> zone_ptr \<Rightarrow> pagemap \<Rightarrow> nat \<Rightarrow> bool" where
  "used_page valid zp pages q \<longleftrightarrow>
     valid q \<and> page_zone (pages q) = zp \<and> pg_type (pages q) = - 1 \<and>
     pg_flags (pages q) AND PAGE_FLAGS_CHECK_AT_FREE = 0"

definition used_head :: "pagemap \<Rightarrow> nat \<Rightarrow> nat \<Rightarrow> bool" where
  "used_head pages p k \<longleftrightarrow>
     pg_count (pages p) = 1 \<and> pg_mapping (pages p) = 0 \<and> pg_head (pages p) = None \<and>
     (PageHead (pages p) \<longleftrightarrow> k \<noteq> 0) \<and>
     (k \<noteq> 0 \<longrightarrow> pg_compound_order (pages (p + 1)) = k \<and> pg_compound_mapcount (pages (p + 1)) = - 1)"

definition used_tail :: "pagemap \<Rightarrow> nat \<Rightarrow> nat \<Rightarrow> bool" where
  "used_tail pages p q \<longleftrightarrow>
     pg_count (pages q) = 0 \<and> pg_mapping (pages q) = TAIL_MAPPING \<and> pg_head (pages q) = Some p"

definition in_use :: "(nat \<Rightarrow> bool) \<Rightarrow> zone_ptr \<Rightarrow> pagemap \<Rightarrow> nat \<times> nat \<Rightarrow> bool" where
  "in_use valid zp pages b \<longleftrightarrow>
     2 ^ snd b dvd fst b \<and> snd b < MAX_ORDER \<and> (\<forall>q \<in> frames b. used_page valid zp pages q) \<and>
     used_head pages (fst b) (snd b) \<and> (\<forall>q \<in> frames b - {fst b}. used_tail pages (fst b) q)"

lemma fold_update:
  "distinct xs \<Longrightarrow> fold (\<lambda>p g. g(p := f (g p))) xs g = (\<lambda>q. if q \<in> set xs then f (g q) else g q)"
  by (induction xs arbitrary: g) (auto simp: fun_eq_iff)

lemma prep_compound_page_eq:
  assumes "k \<noteq> 0"
  shows "prep_compound_page pages p k = (\<lambda>q.
    if q = p then SetPageHead (pages p)
    else if q = p + 1 then (pages q)\<lparr>pg_compound_order := k, pg_count := 0, pg_mapping := TAIL_MAPPING,
                                      pg_head := Some p, pg_compound_mapcount := - 1\<rparr>
    else if q \<in> frames (p, k) then (pages q)\<lparr>pg_count := 0, pg_mapping := TAIL_MAPPING, pg_head := Some p\<rparr>
    else pages q)"
proof -
  have k: "Suc p < p + 2 ^ k" using assms one_less_power [of "2 :: nat" k] by simp
  let ?f = "\<lambda>pg. (set_page_count 0 pg)\<lparr>pg_mapping := TAIL_MAPPING, pg_head := Some p\<rparr>"
  have fold: "fold (\<lambda>q g. g(q := ?f (g q))) [p + 1 ..< p + 2 ^ k] g =
      (\<lambda>q. if q \<in> set [p + 1 ..< p + 2 ^ k] then ?f (g q) else g q)" for g
    by (rule fold_update) simp
  show ?thesis unfolding prep_compound_page_def Let_def fold
    using k by (auto simp: fun_eq_iff frames_def set_page_count_def)
qed

lemma head_flag_check: "(f OR push_bit PG_head 1) AND PAGE_FLAGS_CHECK_AT_FREE = f AND PAGE_FLAGS_CHECK_AT_FREE"
proof -
  have "push_bit PG_head 1 AND PAGE_FLAGS_CHECK_AT_FREE = 0"
    by (simp add: PAGE_FLAGS_CHECK_AT_FREE_def PG_head_def PG_locked_def PG_private_def PG_reserved_def PG_slab_def
        PG_active_def)
  then show ?thesis by (simp add: bit.conj_disj_distrib2)
qed

lemma page_zone_SetPageHead: "page_zone (SetPageHead p) = page_zone p"
proof -
  have "drop_bit n (f OR push_bit PG_head 1) = drop_bit n f" if "PG_head < n" for f :: u64 and n
    using that by (intro bit_word_eqI) (auto simp: bit_simps bit_1_iff)
  then show ?thesis
    by (simp add: page_zone_def page_to_nid_def page_zonenum_def SetPageHead_def field_shifts PG_head_def)
qed

lemma SetPageHead_simps [simp]:
  "pg_mapping (SetPageHead p) = pg_mapping p" "pg_count (SetPageHead p) = pg_count p"
  "pg_head (SetPageHead p) = pg_head p" "pg_type (SetPageHead p) = pg_type p"
  "page_zone (SetPageHead p) = page_zone p"
  "pg_flags (SetPageHead p) AND PAGE_FLAGS_CHECK_AT_FREE = pg_flags p AND PAGE_FLAGS_CHECK_AT_FREE"
  "PageHead (SetPageHead p)"
proof -
  have "bit (f OR push_bit PG_head 1) PG_head" for f :: u64 by (simp add: bit_simps PG_head_def)
  then show "PageHead (SetPageHead p)" by (simp add: PageHead_def SetPageHead_def)
  show "pg_flags (SetPageHead p) AND PAGE_FLAGS_CHECK_AT_FREE = pg_flags p AND PAGE_FLAGS_CHECK_AT_FREE"
    using head_flag_check by (simp add: SetPageHead_def)
qed (simp_all add: page_zone_SetPageHead, simp_all add: SetPageHead_def)

lemma raw_frame:
  assumes "raw_block valid zp pages (p, k)" "q \<in> frames (p, k)"
  shows "valid q" "pg_type (pages q) = - 1" "page_zone (pages q) = zp" "pg_mapping (pages q) = 0"
    "pg_count (pages q) = 0" "pg_head (pages q) = None" "pg_flags (pages q) AND PAGE_FLAGS_CHECK_AT_PREP = 0"
    "pg_flags (pages q) AND PAGE_FLAGS_CHECK_AT_FREE = 0" "\<not> PageHead (pages q)"
proof -
  show f: "pg_flags (pages q) AND PAGE_FLAGS_CHECK_AT_PREP = 0" using assms by (auto simp: raw_block_def free_page_def)
  then show "pg_flags (pages q) AND PAGE_FLAGS_CHECK_AT_FREE = 0" by (rule check_at_free_zero)
  have "bit (pg_flags (pages q) AND PAGE_FLAGS_CHECK_AT_PREP) PG_head = bit (pg_flags (pages q)) PG_head"
    by (simp add: bit_simps field_masks PG_head_def)
  then show "\<not> PageHead (pages q)" by (simp add: PageHead_def f)
qed (use assms in \<open>auto simp: raw_block_def free_page_def\<close>)

text \<open>The descriptors of a block after \<open>prep_new_page\<close>.\<close>

definition prepped :: "pagemap \<Rightarrow> nat \<Rightarrow> nat \<Rightarrow> pagemap" where
  "prepped pages p k =
     (let pages1 = pages(p := (pages p)\<lparr>pg_private := 0, pg_count := 1\<rparr>)
      in if k \<noteq> 0 then prep_compound_page pages1 p k else pages1)"

lemma prepped_outside: "q \<notin> frames (p, k) \<Longrightarrow> prepped pages p k q = pages q"
proof -
  assume q: "q \<notin> frames (p, k)"
  have "Suc p \<in> frames (p, k)" if "k \<noteq> 0" using that one_less_power [of "2 :: nat" k] by (simp add: frames_def)
  then show ?thesis using q by (auto simp: prepped_def Let_def prep_compound_page_eq)
qed

lemma prepped_in_use:
  assumes raw: "raw_block valid zp pages (p, k)" and k: "k < MAX_ORDER"
  shows "in_use valid zp (prepped pages p k) (p, k)"
proof (cases "k = 0")
  case True
  then show ?thesis using raw_frame [OF raw frames_head] raw k
    by (simp add: in_use_def prepped_def used_page_def used_head_def PageHead_def raw_block_def)
next
  case False
  note rf = raw_frame [OF raw] and pe = prepped_def Let_def prep_compound_page_eq [OF False]
  have "used_page valid zp (prepped pages p k) q" if "q \<in> frames (p, k)" for q
    using rf [OF that] rf [OF frames_head] that False by (auto simp: used_page_def pe)
  moreover have "used_head (prepped pages p k) p k"
    using rf [OF frames_head] False by (simp add: used_head_def pe)
  moreover have "used_tail (prepped pages p k) p q" if "q \<in> frames (p, k) - {p}" for q
    using that False by (simp add: used_tail_def pe)
  ultimately show ?thesis using raw k by (simp add: in_use_def raw_block_def)
qed

lemma prep_new_page_eq:
  assumes raw: "raw_block valid zp (mem_map m) (p, k)"
  shows "prep_new_page m p k gfp_mask =
    Inr (m\<lparr>mem_map := prepped (mem_map m) p k,
           page_data := (\<lambda>q. if gfp_mask AND GFP_ZERO \<noteq> 0 \<and> q \<in> frames (p, k) then (\<lambda>_. 0) else page_data m q)\<rparr>)"
proof -
  have "fold clear_page [p ..< p + 2 ^ k] (page_data m) = (\<lambda>q. if q \<in> frames (p, k) then (\<lambda>_. 0) else page_data m q)"
    using fold_update [of "[p ..< p + 2 ^ k]" "\<lambda>_ _. 0" "page_data m"]
    by (simp add: clear_page_def [abs_def] frames_def)
  then show ?thesis using raw_frame [OF raw frames_head]
    by (simp add: prep_new_page_def post_alloc_hook_def set_page_refcounted_def PageTail_def set_page_count_def
        prepped_def Let_def fun_eq_iff)
qed

section \<open>Preparing a block for release\<close>

lemma clear_prep_flags_simps [simp]:
  "pg_mapping (clear_prep_flags p) = pg_mapping p" "pg_count (clear_prep_flags p) = pg_count p"
  "pg_head (clear_prep_flags p) = pg_head p" "pg_type (clear_prep_flags p) = pg_type p"
  "page_zone (clear_prep_flags p) = page_zone p"
  "pg_flags (clear_prep_flags p) AND PAGE_FLAGS_CHECK_AT_PREP = 0"
proof -
  have "drop_bit n (f AND NOT PAGE_FLAGS_CHECK_AT_PREP) = drop_bit n f" if "7 \<le> n" for f :: u64 and n
    using that by (intro bit_word_eqI) (auto simp: bit_simps field_masks dest: bit_imp_le_length)
  then show "page_zone (clear_prep_flags p) = page_zone p"
    by (simp add: page_zone_def page_to_nid_def page_zonenum_def clear_prep_flags_def field_shifts)
  show "pg_flags (clear_prep_flags p) AND PAGE_FLAGS_CHECK_AT_PREP = 0"
    by (simp add: clear_prep_flags_def and.assoc)
qed (simp_all add: clear_prep_flags_def)

text \<open>A tail page as it is when the block has been prepared.\<close>

definition cleared_tail :: "page \<Rightarrow> page" where
  "cleared_tail p = clear_prep_flags (p\<lparr>pg_mapping := 0, pg_head := None\<rparr>)"

text \<open>The tails of a compound block that nobody refers to any more are all good.\<close>

lemma prepare_tails_compound:
  assumes "distinct qs" "set qs \<subseteq> frames (p, k) - {p}" "k \<noteq> 0"
    "\<And>q. q \<in> frames (p, k) \<Longrightarrow> used_page valid zp pages q" "\<And>q. q \<in> set qs \<Longrightarrow> used_tail pages p q"
    "pg_head (pages p) = None" "pg_compound_mapcount (pages (p + 1)) = - 1"
  shows "prepare_tails True p qs pages 0 =
    Inr ((\<lambda>q. if q \<in> set qs then cleared_tail (pages q) else pages q), 0)"
  using assms
proof (induction qs arbitrary: pages)
  case Nil
  then show ?case by simp
next
  case (Cons q qs)
  have ut: "used_tail pages p q" and up: "used_page valid zp pages q" and q: "q \<in> frames (p, k)" "q \<noteq> p"
    using Cons.prems by auto
  have tm: "tail_mapping_ok pages p q = Inr True"
    using ut Cons.prems(7) by (simp add: tail_mapping_ok_def used_tail_def compound_mapcount_def PageCompound_def
        PageTail_def compound_head_def)
  let ?pages1 = "pages(q := (pages q)\<lparr>pg_mapping := 0, pg_head := None\<rparr>)"
  have fc: "free_tail_pages_check pages p q = Inr (?pages1, False)"
    using ut tm by (simp add: free_tail_pages_check_def used_tail_def PageTail_def compound_head_def)
  have ck: "free_pages_check ?pages1 q = (?pages1, False)"
    using ut up by (simp add: free_pages_check_def page_expected_state_def page_mapcount_def used_tail_def used_page_def)
  let ?pages2 = "pages(q := cleared_tail (pages q))"
  have "prepare_tails True p (q # qs) pages 0 = prepare_tails True p qs ?pages2 0"
    using fc ck by (simp add: cleared_tail_def)
  also have "\<dots> = Inr ((\<lambda>r. if r \<in> set qs then cleared_tail (?pages2 r) else ?pages2 r), 0)"
  proof (rule Cons.IH)
    show "used_page valid zp ?pages2 r" if "r \<in> frames (p, k)" for r
      using Cons.prems(4) [OF that] up by (auto simp: used_page_def cleared_tail_def check_at_free_zero)
    show "used_tail ?pages2 p r" if "r \<in> set qs" for r
      using Cons.prems(1,5) that by (auto simp: used_tail_def)
    show "pg_compound_mapcount (?pages2 (p + 1)) = - 1"
      using Cons.prems(7) by (auto simp: cleared_tail_def clear_prep_flags_def)
  qed (use Cons.prems q(2) in auto)
  also have "(\<lambda>r. if r \<in> set qs then cleared_tail (?pages2 r) else ?pages2 r) =
      (\<lambda>r. if r \<in> set (q # qs) then cleared_tail (pages r) else pages r)"
    using Cons.prems(1) by (auto simp: fun_eq_iff)
  finally show ?case .
qed

lemma free_pages_prepare_result:
  assumes u: "in_use valid zp pages (p, k)"
  defines "pages1 \<equiv> pages(p := (pages p)\<lparr>pg_count := 0\<rparr>)"
  shows "\<exists>pages'. free_pages_prepare pages1 p k check_free = Inr (pages', True) \<and> raw_block valid zp pages' (p, k) \<and>
    (\<forall>q. q \<notin> frames (p, k) \<longrightarrow> pages' q = pages q)"
proof -
  have up: "used_page valid zp pages q" if "q \<in> frames (p, k)" for q using u that by (auto simp: in_use_def)
  have hd: "used_head pages p k" and tl: "\<And>q. q \<in> frames (p, k) - {p} \<Longrightarrow> used_tail pages p q"
    and al: "2 ^ k dvd p" using u by (auto simp: in_use_def)
  have up1: "used_page valid zp pages1 q" if "q \<in> frames (p, k)" for q
    using up [OF that] by (auto simp: used_page_def pages1_def)
  let ?tails = "[p + 1 ..< p + 2 ^ k]"
  define pages2 where "pages2 = (\<lambda>q. if q \<in> set ?tails then cleared_tail (pages1 q) else pages1 q)"
  have st: "set ?tails = frames (p, k) - {p}" by (auto simp: frames_def)
  have tails: "prepare_tails True p ?tails pages1 0 = Inr (pages2, 0)" if "k \<noteq> 0"
    unfolding pages2_def
  proof (rule prepare_tails_compound [of _ p k valid zp])
    show "used_tail pages1 p q" if "q \<in> set ?tails" for q
      using tl [of q] that unfolding st by (auto simp: used_tail_def pages1_def)
  qed (use that hd st up1 in \<open>auto simp: used_head_def pages1_def\<close>)
  have p2: "pages2 p = pages1 p" by (simp add: pages2_def)
  have nm: "\<not> PageMappingFlags (pages1 p)" "\<not> PageTail (pages1 p)"
    using hd by (auto simp: PageMappingFlags_def PageTail_def used_head_def pages1_def)
  have co: "PageCompound (pages1 p)" "compound_order pages1 p = k" if "k \<noteq> 0"
    using hd that by (auto simp: PageCompound_def compound_order_def PageHead_def used_head_def pages1_def)
  have "page_expected_state PAGE_FLAGS_CHECK_AT_FREE (pages1 p)"
    using hd up [OF frames_head] by (simp add: page_expected_state_def page_mapcount_def used_head_def used_page_def pages1_def)
  then have ck: "free_pages_check g p = (g, False)" if "g p = pages1 p" for g
    using that by (simp add: free_pages_check_def)
  let ?pages' = "pages2(p := clear_prep_flags (pages1 p))"
  have "free_pages_prepare pages1 p k check_free = Inr (?pages', True)"
  proof (cases "k = 0")
    case True
    then show ?thesis using nm ck [of pages1] by (simp add: free_pages_prepare_def Let_def pages2_def)
  next
    case False
    then show ?thesis
      using nm co [OF False] tails [OF False] ck [of pages2] p2 by (simp add: free_pages_prepare_def Let_def)
  qed
  moreover have "raw_block valid zp ?pages' (p, k)"
    unfolding raw_block_def
  proof (intro conjI ballI)
    fix q assume q: "q \<in> frames (p, k)"
    note u = up [OF q, unfolded used_page_def] and h = hd [unfolded used_head_def] and t = tl [of q, unfolded used_tail_def]
    show "valid q" using u by simp
    show "free_page zp (?pages' q)" "pg_type (?pages' q) = - 1"
      using q u h t unfolding pages2_def st by (auto simp: free_page_def cleared_tail_def pages1_def)
  qed (use al in simp)
  moreover have "?pages' q = pages q" if "q \<notin> frames (p, k)" for q
    using that frames_head [of p k] unfolding pages2_def st by (auto simp: pages1_def)
  ultimately show ?thesis by blast
qed

section \<open>All zones\<close>

definition mm_ok :: "(nat \<Rightarrow> bool) \<Rightarrow> zone_ptr set \<Rightarrow> mm \<Rightarrow> bool" where
  "mm_ok valid live m \<longleftrightarrow> (\<forall>zp \<in> live. zone_ok valid zp (mem_map m) (node_zones m zp))"

text \<open>The frames the allocator holds.\<close>

definition held :: "zone_ptr set \<Rightarrow> mm \<Rightarrow> nat set" where
  "held live m = (\<Union>zp \<in> live. avail (node_zones m zp))"

lemma avail_free_page:
  assumes "zone_ok valid zp pages z" "q \<in> avail z"
  shows "valid q" "free_page zp (pages q)"
  using assms buddy_okD(8,9) [OF zone_okD(2) [OF assms(1)]] zone_okD(4) [OF assms(1)]
  by (auto simp: avail_def raw_one)

text \<open>Changes to pages a zone does not hold leave it in order.\<close>

lemma zone_ok_change:
  assumes ok: "zone_ok valid zp pages z" and out: "\<And>q. q \<notin> A \<Longrightarrow> pages' q = pages q" and dis: "A \<inter> avail z = {}"
    and zn: "\<And>q. q \<in> A \<Longrightarrow> page_zone (pages' q) = page_zone (pages q)"
    and nb: "\<And>q. q \<in> A \<Longrightarrow> page_zone (pages q) = zp \<Longrightarrow> \<not> PageBuddy (pages q) \<and> \<not> PageBuddy (pages' q)"
    and id: "\<And>q. q \<in> A \<Longrightarrow> valid q \<Longrightarrow> PageBuddy (pages' q) \<Longrightarrow> pg_count (pages' q) = 0 \<and> pg_head (pages' q) = None"
  shows "zone_ok valid zp pages' z"
proof -
  let ?fa = "zone_free_area z"
  note okD = buddy_okD [OF zone_okD(2) [OF ok]]
  have keep: "pages' q = pages q" if "q \<in> avail z" for q using that out dis by blast
  have pz: "page_zone (pages' q) = page_zone (pages q)" for q using zn out by (cases "q \<in> A") simp_all
  have "linked valid zp pages' ?fa"
    unfolding linked_def
  proof (intro allI)
    fix p k show "(p, k) \<in> blocks ?fa \<longleftrightarrow> valid p \<and> PageBuddy (pages' p) \<and> page_order (pages' p) = k \<and> page_zone (pages' p) = zp"
      using okD(4) [of p k] nb [of p] pz [of p] out [of p] by (cases "p \<in> A") auto
  qed
  moreover have "idle valid pages'" unfolding idle_def using okD(5) id out by metis
  moreover have "zones_aligned valid pages'"
    using okD(10) page_zone_id_eq [OF pz] unfolding zones_aligned_def pz by simp
  ultimately have "buddy_ok valid zp pages' ?fa"
    using zone_okD(2) [OF ok] keep unfolding buddy_ok_def by (auto simp: avail_def)
  moreover have "raw_block valid zp pages' (q, 0)" if "q \<in> pcp_pages z" for q
    using zone_okD(4) [OF ok that] keep [of q] that by (simp add: raw_one avail_def)
  ultimately show ?thesis using zone_okD [OF ok] by (simp add: zone_ok_def)
qed

lemma mm_ok_update:
  assumes ok: "mm_ok valid live m" and z: "zone_ok valid zp pages' z'"
    and out: "\<And>q. q \<notin> A \<Longrightarrow> pages' q = mem_map m q"
    and own: "\<And>q. q \<in> A \<Longrightarrow> page_zone (mem_map m q) = zp \<and> page_zone (pages' q) = zp"
  shows "mm_ok valid live (m\<lparr>mem_map := pages', node_zones := (node_zones m)(zp := z')\<rparr>)"
proof -
  have "zone_ok valid zp2 pages' (node_zones m zp2)" if l: "zp2 \<in> live" "zp2 \<noteq> zp" for zp2
  proof (rule zone_ok_change [of _ _ "mem_map m" _ A])
    have ok2: "zone_ok valid zp2 (mem_map m) (node_zones m zp2)" using ok l(1) by (auto simp: mm_ok_def)
    then show "zone_ok valid zp2 (mem_map m) (node_zones m zp2)" .
    show "A \<inter> avail (node_zones m zp2) = {}"
      using own avail_free_page(2) [OF ok2] l(2) by (auto simp: free_page_def)
    show "pg_count (pages' q) = 0 \<and> pg_head (pages' q) = None" if "valid q" "PageBuddy (pages' q)" for q
      using buddy_okD(5) [OF zone_okD(2) [OF z]] that by blast
  qed (use out own l(2) in auto)
  then show ?thesis using z by (simp add: mm_ok_def)
qed

lemma used_not_free: "in_use valid zp pages (p, k) \<Longrightarrow> q \<in> frames (p, k) \<Longrightarrow> \<not> free_page zp' (pages q)"
  by (cases "q = p") (auto simp: in_use_def used_head_def used_tail_def free_page_def)

lemma used_block_frame:
  assumes "in_use valid zp pages (p, k)" "q \<in> frames (p, k)"
  shows "page_zone (pages q) = zp" "\<not> PageBuddy (pages q)"
  using assms PageBuddy_type(2) by (auto simp: in_use_def used_page_def)

section \<open>Allocation\<close>

text \<open>
  What a successful allocation promises: the block was held, is no longer, is set up for its
  new owner, and nothing else that is in use was touched.
\<close>

definition alloc_outcome :: "(nat \<Rightarrow> bool) \<Rightarrow> zone_ptr set \<Rightarrow> mm \<Rightarrow> nat \<Rightarrow> u32 \<Rightarrow> mm \<Rightarrow> zone_ptr \<Rightarrow> nat \<Rightarrow> bool" where
  "alloc_outcome valid live m k gfp_mask m' zp p \<longleftrightarrow>
     mm_ok valid live m' \<and> in_use valid zp (mem_map m') (p, k) \<and> frames (p, k) \<subseteq> avail (node_zones m zp) \<and>
     held live m' = held live m - frames (p, k) \<and>
     (\<forall>q. q \<notin> held live m \<longrightarrow> mem_map m' q = mem_map m q) \<and>
     (\<forall>q. q \<notin> frames (p, k) \<longrightarrow> page_data m' q = page_data m q) \<and>
     (gfp_mask AND GFP_ZERO \<noteq> 0 \<longrightarrow> (\<forall>q \<in> frames (p, k). page_data m' q = (\<lambda>_. 0))) \<and>
     node_zonelists m' = node_zonelists m \<and> nr_online_nodes m' = nr_online_nodes m"

lemma other_zones_disjoint:
  assumes ok: "mm_ok valid live m" and l: "zp2 \<in> live" "zp2 \<noteq> zp" and B: "\<And>q. q \<in> B \<Longrightarrow> page_zone (mem_map m q) = zp"
  shows "B \<inter> avail (node_zones m zp2) = {}"
proof -
  have "zone_ok valid zp2 (mem_map m) (node_zones m zp2)" using ok l(1) by (simp add: mm_ok_def)
  from avail_free_page(2) [OF this] show ?thesis using B l(2) by (auto simp: free_page_def)
qed

lemma held_split: "zp \<in> live \<Longrightarrow> held live m = avail (node_zones m zp) \<union> (\<Union>zp2 \<in> live - {zp}. avail (node_zones m zp2))"
  by (auto simp: held_def)

lemma held_update:
  assumes "zp \<in> live" "node_zones m' = (node_zones m)(zp := z)"
  shows "held live m' = avail z \<union> (\<Union>zp2 \<in> live - {zp}. avail (node_zones m zp2))"
  unfolding held_split [OF assms(1)] assms(2) by simp

lemma prepped_zone_ok:
  assumes ok: "zone_ok valid zp pages z" and raw: "raw_block valid zp pages (p, k)" and k: "k < MAX_ORDER"
    and d: "frames (p, k) \<inter> avail z = {}"
  shows "zone_ok valid zp (prepped pages p k) z"
proof -
  note use = prepped_in_use [OF raw k]
  show ?thesis
  proof (rule zone_ok_change [OF ok _ d])
    show "\<not> PageBuddy (pages q) \<and> \<not> PageBuddy (prepped pages p k q)" if "q \<in> frames (p, k)" for q
      using raw_frame(2) [OF raw that] PageBuddy_type(2) used_block_frame(2) [OF use that] by blast
  qed (use prepped_outside used_block_frame [OF use] raw_frame(3) [OF raw] in auto)
qed

lemma held_taken:
  assumes ok: "mm_ok valid live m" and zp: "zp \<in> live" and B: "B \<subseteq> avail (node_zones m zp)"
    and m': "node_zones m' = (node_zones m)(zp := z)" "avail z = avail (node_zones m zp) - B"
  shows "held live m' = held live m - B"
proof -
  have "zone_ok valid zp (mem_map m) (node_zones m zp)" using ok zp by (simp add: mm_ok_def)
  then have own: "page_zone (mem_map m q) = zp" if "q \<in> B" for q
    using avail_free_page(2) that B by (fastforce simp: free_page_def)
  have "B \<inter> avail (node_zones m zp2) = {}" if "zp2 \<in> live - {zp}" for zp2
    using other_zones_disjoint [OF ok _ _ own, of zp2] that by blast
  then have "B \<inter> (\<Union>zp2 \<in> live - {zp}. avail (node_zones m zp2)) = {}" by blast
  then show ?thesis unfolding held_split [OF zp, of m] held_update [OF zp m'(1)] m'(2) by blast
qed

lemma take_and_prep:
  assumes ok: "mm_ok valid live m" and zp: "zp \<in> live" and k: "k < MAX_ORDER"
    and t: "zone_taken valid zp (mem_map m) (node_zones m zp) k pages1 z1 p"
  shows "\<exists>m2. prep_new_page (m\<lparr>mem_map := pages1, node_zones := (node_zones m)(zp := z1)\<rparr>) p k gfp_mask = Inr m2 \<and>
    alloc_outcome valid live m k gfp_mask m2 zp p"
proof -
  let ?z = "node_zones m zp" and ?pages = "prepped pages1 p k"
  have zok: "zone_ok valid zp (mem_map m) ?z" using ok zp by (simp add: mm_ok_def)
  have raw: "raw_block valid zp pages1 (p, k)" and fr: "frames (p, k) \<subseteq> avail ?z" "avail z1 = avail ?z - frames (p, k)"
    and zok1: "zone_ok valid zp pages1 z1" and keep: "\<And>q. q \<notin> avail ?z \<Longrightarrow> pages1 q = mem_map m q"
    using t unfolding zone_taken_def by blast+
  note use = prepped_in_use [OF raw k]
  have z2: "zone_ok valid zp ?pages z1" by (rule prepped_zone_ok [OF zok1 raw k]) (use fr(2) in blast)
  have own: "page_zone (mem_map m q) = zp \<and> page_zone (?pages q) = zp" if q: "q \<in> avail ?z" for q
  proof -
    have "page_zone (?pages q) = zp"
    proof (cases "q \<in> frames (p, k)")
      case False
      then have "q \<in> avail z1" using q fr(2) by blast
      then show ?thesis using avail_free_page(2) [OF z2] by (simp add: free_page_def)
    qed (rule used_block_frame(1) [OF use])
    then show ?thesis using avail_free_page(2) [OF zok q] by (simp add: free_page_def)
  qed
  have out: "?pages q = mem_map m q" if "q \<notin> avail ?z" for q
    using prepped_outside [of q p k pages1] keep [OF that] that fr(1) by auto
  let ?m1 = "m\<lparr>mem_map := pages1, node_zones := (node_zones m)(zp := z1)\<rparr>"
  let ?m2 = "m\<lparr>node_zones := (node_zones m)(zp := z1), mem_map := ?pages,
    page_data := (\<lambda>q. if gfp_mask AND GFP_ZERO \<noteq> 0 \<and> q \<in> frames (p, k) then (\<lambda>_. 0) else page_data m q)\<rparr>"
  have "mm_ok valid live ?m2"
    using mm_ok_update [OF ok z2, of "avail ?z"] out own by (simp add: mm_ok_def)
  moreover have "held live ?m2 = held live m - frames (p, k)"
    by (rule held_taken [OF ok zp fr(1) _ fr(2)]) simp
  moreover have "?pages q = mem_map m q" if "q \<notin> held live m" for q
    using that out zp by (auto simp: held_def)
  ultimately have "alloc_outcome valid live m k gfp_mask ?m2 zp p"
    unfolding alloc_outcome_def using use fr by auto
  moreover have "prep_new_page ?m1 p k gfp_mask = Inr ?m2"
    using prep_new_page_eq [of valid zp ?m1 p k gfp_mask] raw by (simp cong: if_cong)
  ultimately show ?thesis by blast
qed

text \<open>Which entries of a zonelist a request may use.\<close>

definition eligible :: "(zone_ptr \<Rightarrow> zone) \<Rightarrow> u64 \<Rightarrow> (u64 \<Rightarrow> bool) option \<Rightarrow> zone_ptr \<times> u64 \<Rightarrow> bool" where
  "eligible zones hi nodes e \<longleftrightarrow> snd e \<le> hi \<and> zref_in_nodemask zones (fst e) nodes"

lemma next_zones_set:
  shows "set (next_zones_zonelist zones zs hi nodes) \<subseteq> set zs"
    and "\<And>e. e \<in> set zs \<Longrightarrow> eligible zones hi nodes e \<Longrightarrow> e \<in> set (next_zones_zonelist zones zs hi nodes)"
    and "\<And>e es. next_zones_zonelist zones zs hi nodes = e # es \<Longrightarrow> eligible zones hi nodes e"
  by (induction zones zs hi nodes rule: next_zones_zonelist.induct) (auto simp: eligible_def split: if_splits)

definition scan_outcome ::
    "(nat \<Rightarrow> bool) \<Rightarrow> zone_ptr set \<Rightarrow> nat \<Rightarrow> mm \<Rightarrow> nat \<Rightarrow> u32 \<Rightarrow> u64 \<Rightarrow> (u64 \<Rightarrow> bool) option \<Rightarrow> zonelist \<Rightarrow> mm \<times> scan \<Rightarrow> bool" where
  "scan_outcome valid live cpu m k gfp_mask hi nodes zs out \<longleftrightarrow>
     (case out of
        (m', Found p) \<Rightarrow> (\<exists>zp \<in> fst ` set zs. alloc_outcome valid live m k gfp_mask m' zp p)
      | (m', Exhausted) \<Rightarrow>
          m' = m \<and> (\<forall>e \<in> set zs. eligible (node_zones m) hi nodes e \<longrightarrow> zone_empty cpu (node_zones m (fst e)) k)
      | (m', Retry) \<Rightarrow> False)"

lemma scan_outcome_skip:
  assumes o: "scan_outcome valid live cpu m k gfp_mask hi nodes (next_zones_zonelist (node_zones m) zs hi nodes) out"
    and e: "zone_empty cpu (node_zones m zp) k"
  shows "scan_outcome valid live cpu m k gfp_mask hi nodes ((zp, idx) # zs) out"
  using o e next_zones_set(1,2) [where zones = "node_zones m" and zs = zs and hi = hi and nodes = nodes]
  unfolding scan_outcome_def by (cases "snd out") (auto simp: case_prod_beta)

lemma scan_zones_result:
  assumes ok: "mm_ok valid live m" and k: "k < MAX_ORDER"
  shows "fst ` set zs \<subseteq> live \<Longrightarrow>
    (\<And>e. e \<in> set zs \<Longrightarrow> nr_online_nodes m \<le> 1 \<or> zone_node (node_zones m (fst e)) = zone_node (node_zones m preferred)) \<Longrightarrow>
    \<exists>out. scan_zones cpu gfp_mask k hi nodes preferred zs m = Inr out \<and>
      scan_outcome valid live cpu m k gfp_mask hi nodes zs out"
proof (induction "length zs" arbitrary: zs rule: less_induct)
  case less
  show ?case
  proof (cases zs)
    case Nil
    then show ?thesis by (simp add: scan_outcome_def)
  next
    case (Cons e zs')
    obtain zp idx where e: "e = (zp, idx)" by (cases e)
    have zp: "zp \<in> live" using less.prems(1) Cons e by auto
    have loc: "\<not> (nr_online_nodes m > 1 \<and> zp \<noteq> preferred \<and> zone_node (node_zones m zp) \<noteq> zone_node (node_zones m preferred))"
      using less.prems(2) [of e] Cons e by auto
    have zok: "zone_ok valid zp (mem_map m) (node_zones m zp)" using ok zp by (simp add: mm_ok_def)
    obtain pages1 z1 r where r: "rmqueue cpu (mem_map m) (node_zones m zp) k = Inr (pages1, z1, r)"
      and o: "rmqueue_outcome valid zp cpu (mem_map m) (node_zones m zp) k (pages1, z1, r)"
      using rmqueue_result [OF zok, of cpu k] by (elim exE conjE, case_tac out) blast
    show ?thesis
    proof (cases r)
      case None
      then have same: "pages1 = mem_map m" "z1 = node_zones m zp" "zone_empty cpu (node_zones m zp) k"
        using o by (auto simp: rmqueue_outcome_def)
      let ?zs = "next_zones_zonelist (node_zones m) zs' hi nodes"
      have sub: "set ?zs \<subseteq> set zs" and len: "length ?zs < length zs"
        using next_zones_set(1) [of "node_zones m" zs' hi nodes] next_zones_length [of "node_zones m" zs' hi nodes] Cons
        by auto
      obtain out where out: "scan_zones cpu gfp_mask k hi nodes preferred ?zs m = Inr out"
        "scan_outcome valid live cpu m k gfp_mask hi nodes ?zs out"
        using less.hyps [OF len] less.prems sub by blast
      have "scan_zones cpu gfp_mask k hi nodes preferred zs m = Inr out"
        unfolding Cons e scan_zones.simps if_not_P [OF loc] using r None same out(1) by (simp add: Let_def)
      moreover have "scan_outcome valid live cpu m k gfp_mask hi nodes zs out"
        unfolding Cons e by (rule scan_outcome_skip [OF out(2) same(3)])
      ultimately show ?thesis by blast
    next
      case (Some p)
      then have t: "zone_taken valid zp (mem_map m) (node_zones m zp) k pages1 z1 p" using o by (simp add: rmqueue_outcome_def)
      obtain m2 where m2: "prep_new_page (m\<lparr>mem_map := pages1, node_zones := (node_zones m)(zp := z1)\<rparr>) p k gfp_mask = Inr m2"
        "alloc_outcome valid live m k gfp_mask m2 zp p"
        using take_and_prep [OF ok zp k t] by blast
      have "scan_zones cpu gfp_mask k hi nodes preferred zs m = Inr (m2, Found p)"
        unfolding Cons e scan_zones.simps if_not_P [OF loc] using r Some m2(1) by (simp add: Let_def)
      then show ?thesis using m2(2) Cons e by (auto simp: scan_outcome_def)
    qed
  qed
qed

lemma alloc_pages_nodemask_result:
  assumes ok: "mm_ok valid live m" and k: "k < MAX_ORDER"
    and zl: "zl = node_zonelists m nid (gfp_zonelist gfp_mask)" "fst ` set zl \<subseteq> live"
    and loc: "nr_online_nodes m \<le> 1 \<or> (\<exists>n. \<forall>e \<in> set zl. zone_node (node_zones m (fst e)) = n)"
  shows "(\<exists>m' p. \<exists>zp \<in> fst ` set zl. alloc_pages_nodemask (Suc rounds) cpu m gfp_mask k nid nodes = Inr (m', Some p) \<and>
            alloc_outcome valid live m k gfp_mask m' zp p) \<or>
    alloc_pages_nodemask (Suc rounds) cpu m gfp_mask k nid nodes = Inl Bug \<and>
      (\<forall>e \<in> set zl. eligible (node_zones m) (gfp_zone gfp_mask) nodes e \<longrightarrow> zone_empty cpu (node_zones m (fst e)) k)"
proof -
  let ?hi = "gfp_zone gfp_mask"
  let ?zs = "next_zones_zonelist (node_zones m) zl ?hi nodes"
  let ?pref = "fst (hd ?zs)"
  note nz = next_zones_set(1,2) [where zones = "node_zones m" and zs = zl and hi = ?hi and nodes = nodes]
  have loc': "nr_online_nodes m \<le> 1 \<or> zone_node (node_zones m (fst e)) = zone_node (node_zones m ?pref)" if "e \<in> set ?zs" for e
  proof -
    have "hd ?zs \<in> set zl" "e \<in> set zl" using that nz(1) by (cases ?zs; auto)+
    then show ?thesis using loc by auto
  qed
  have sub: "fst ` set ?zs \<subseteq> live" using nz(1) zl(2) by blast
  have "\<exists>out. scan_zones cpu gfp_mask k ?hi nodes ?pref ?zs m = Inr out \<and>
      scan_outcome valid live cpu m k gfp_mask ?hi nodes ?zs out"
    by (rule scan_zones_result [OF ok k sub loc'])
  then obtain m' r where s: "scan_zones cpu gfp_mask k ?hi nodes ?pref ?zs m = Inr (m', r)"
    and o: "scan_outcome valid live cpu m k gfp_mask ?hi nodes ?zs (m', r)"
    by (elim exE conjE, case_tac out) blast
  have a: "alloc_pages_nodemask (Suc rounds) cpu m gfp_mask k nid nodes =
      (case r of Found p \<Rightarrow> Inr (m', Some p) | Exhausted \<Rightarrow> Inl Bug
       | Retry \<Rightarrow> alloc_pages_nodemask (Suc rounds) cpu m gfp_mask k nid nodes)"
    using k s by (cases r) (simp_all add: alloc_pages_nodemask_def Let_def zl(1))
  show ?thesis
  proof (cases r)
    case (Found p)
    then show ?thesis using a o nz(1) unfolding scan_outcome_def by (intro disjI1) fastforce
  next
    case Exhausted
    then show ?thesis using a o nz(2) unfolding scan_outcome_def by (intro disjI2) simp
  next
    case Retry
    then show ?thesis using o by (simp add: scan_outcome_def)
  qed
qed

section \<open>Release\<close>

definition free_outcome :: "(nat \<Rightarrow> bool) \<Rightarrow> zone_ptr set \<Rightarrow> mm \<Rightarrow> nat \<Rightarrow> nat \<Rightarrow> mm \<Rightarrow> bool" where
  "free_outcome valid live m p k m' \<longleftrightarrow>
     mm_ok valid live m' \<and> held live m' = held live m \<union> frames (p, k) \<and>
     (\<forall>q. q \<notin> held live m' \<longrightarrow> mem_map m' q = mem_map m q) \<and> page_data m' = page_data m \<and>
     node_zonelists m' = node_zonelists m \<and> nr_online_nodes m' = nr_online_nodes m"

lemma release_zone:
  assumes ok: "zone_ok valid zp pages z" and raw: "raw_block valid zp pages (p, k)" and k: "k < MAX_ORDER"
    and d: "frames (p, k) \<inter> avail z = {}"
  shows "\<exists>pages' z'. (if k = 0 then free_unref_page_commit valid cpu pages z p else free_one_page valid pages z p k) = Inr (pages', z') \<and>
    zone_released valid zp pages z (frames (p, k)) pages' z'"
proof (cases "k = 0")
  case True
  then show ?thesis using free_unref_page_commit_result [OF ok, of p cpu] raw d by auto
next
  case False
  then show ?thesis using free_one_page_zone [OF ok raw k d] by auto
qed

lemma free_the_page_eq:
  assumes "free_pages_prepare (mem_map m) p k (k \<noteq> 0) = Inr (pages', True)" "page_zone (pages' p) = zp"
    "(if k = 0 then free_unref_page_commit valid cpu pages' (node_zones m zp) p
      else free_one_page valid pages' (node_zones m zp) p k) = Inr (pages'', z)"
  shows "free_the_page valid cpu m p k = Inr (m\<lparr>mem_map := pages'', node_zones := (node_zones m)(zp := z)\<rparr>)"
  using assms by (cases "k = 0") (simp_all add: free_the_page_def free_unref_page_def free_pages_ok_def Let_def)

text \<open>Once a block is prepared it goes back to the zone it came from.\<close>

lemma free_the_page_result:
  assumes ok: "mm_ok valid live m" and zp: "zp \<in> live" and k: "k < MAX_ORDER"
    and m1: "mem_map m1 = pages1" "node_zones m1 = node_zones m" "page_data m1 = page_data m"
      "node_zonelists m1 = node_zonelists m" "nr_online_nodes m1 = nr_online_nodes m"
    and p2: "free_pages_prepare pages1 p k (k \<noteq> 0) = Inr (pages2, True)" and raw: "raw_block valid zp pages2 (p, k)"
    and out2: "\<And>q. q \<notin> frames (p, k) \<Longrightarrow> pages2 q = mem_map m q"
    and old: "\<And>q. q \<in> frames (p, k) \<Longrightarrow>
      page_zone (mem_map m q) = zp \<and> \<not> PageBuddy (mem_map m q) \<and> \<not> free_page zp (mem_map m q)"
  shows "\<exists>m'. free_the_page valid cpu m1 p k = Inr m' \<and> free_outcome valid live m p k m'"
proof -
  let ?z = "node_zones m zp"
  have zok: "zone_ok valid zp (mem_map m) ?z" using ok zp by (simp add: mm_ok_def)
  have d: "frames (p, k) \<inter> avail ?z = {}" using old avail_free_page(2) [OF zok] by blast
  have "zone_ok valid zp pages2 ?z"
    by (rule zone_ok_change [OF zok out2 d])
      (use old raw_frame(2,3) [OF raw] PageBuddy_type(2) in auto)
  then obtain pages3 z3 where f: "(if k = 0 then free_unref_page_commit valid cpu pages2 ?z p else free_one_page valid pages2 ?z p k) = Inr (pages3, z3)"
    and r: "zone_released valid zp pages2 ?z (frames (p, k)) pages3 z3"
    using release_zone [OF _ raw k d] by blast
  have z3: "zone_ok valid zp pages3 z3" and av: "avail z3 = avail ?z \<union> frames (p, k)"
    and out3: "\<And>q. q \<notin> avail z3 \<Longrightarrow> pages3 q = pages2 q"
    using r unfolding zone_released_def by blast+
  let ?m' = "m1\<lparr>mem_map := pages3, node_zones := (node_zones m1)(zp := z3)\<rparr>"
  have out: "pages3 q = mem_map m q" if "q \<notin> avail z3" for q using out3 [OF that] out2 [of q] that av by auto
  have own: "page_zone (mem_map m q) = zp \<and> page_zone (pages3 q) = zp" if "q \<in> avail z3" for q
    using avail_free_page(2) [OF z3 that] avail_free_page(2) [OF zok, of q] old [of q] that av
    by (auto simp: free_page_def)
  have "mm_ok valid live ?m'"
    using mm_ok_update [OF ok z3 out own] by (simp add: mm_ok_def m1)
  moreover have hd: "held live ?m' = held live m \<union> frames (p, k)"
  proof -
    have "held live ?m' = avail z3 \<union> (\<Union>zp2 \<in> live - {zp}. avail (node_zones m zp2))"
      by (rule held_update [OF zp]) (simp add: m1)
    then show ?thesis unfolding held_split [OF zp, of m] av by blast
  qed
  moreover have "pages3 q = mem_map m q" if "q \<notin> held live ?m'" for q
    using out [of q] that av zp unfolding hd by (auto simp: held_def)
  ultimately have "free_outcome valid live m p k ?m'" by (simp add: free_outcome_def m1)
  moreover have "free_the_page valid cpu m1 p k = Inr ?m'"
    using free_the_page_eq [of m1 p k pages2 zp valid cpu pages3 z3] p2 raw_frame(3) [OF raw frames_head] f
    by (simp add: m1 cong: if_cong)
  ultimately show ?thesis by blast
qed

lemma free_pages_result:
  assumes ok: "mm_ok valid live m" and zp: "zp \<in> live" and u: "in_use valid zp (mem_map m) (p, k)"
  shows "\<exists>m'. free_pages valid cpu m p k = Inr m' \<and> free_outcome valid live m p k m'"
proof -
  let ?pages1 = "(mem_map m)(p := (mem_map m p)\<lparr>pg_count := 0\<rparr>)"
  let ?m1 = "m\<lparr>mem_map := ?pages1\<rparr>"
  obtain pages2 where p2: "free_pages_prepare ?pages1 p k (k \<noteq> 0) = Inr (pages2, True)"
    and raw: "raw_block valid zp pages2 (p, k)" and out2: "\<And>q. q \<notin> frames (p, k) \<Longrightarrow> pages2 q = mem_map m q"
    using free_pages_prepare_result [OF u, of "k \<noteq> 0"] by blast
  have "k < MAX_ORDER" using u by (simp add: in_use_def)
  then have "\<exists>m'. free_the_page valid cpu ?m1 p k = Inr m' \<and> free_outcome valid live m p k m'"
    by (rule free_the_page_result [OF ok zp _ _ _ _ _ _ p2 raw out2])
      (use used_block_frame [OF u] used_not_free [OF u] in simp_all)
  moreover have "free_pages valid cpu m p k = free_the_page valid cpu ?m1 p k"
    using u by (simp add: free_pages_def put_page_testzero_def in_use_def used_head_def Let_def)
  ultimately show ?thesis by simp
qed

end
