(* ===== verification/Handover.thy ===== *)
theory Handover
  imports Memblock_Api Page_Alloc_Mm
begin

unbundle bit_operations_syntax

text \<open>
  The end of early boot: \<open>memblock_free_all\<close> (\<open>mm/memblock.c\<close>) marks the reserved pages and
  releases every free page of the boot allocator to the page allocator, in naturally aligned
  blocks (\<open>__free_pages_memory\<close>), through \<open>__free_pages_boot_core\<close> (\<open>mm/page_alloc.c\<close>).
\<close>

text \<open>\<open>pfn_valid\<close> of \<open>arch/arm64/mm/init.c\<close>: the frame is memory that is mapped.\<close>

definition pfn_valid :: "memblock \<Rightarrow> nat \<Rightarrow> bool" where
  "pfn_valid mb pfn =
     (let addr = push_bit PAGE_SHIFT (of_nat pfn) :: phys_addr_t
      in unat (drop_bit PAGE_SHIFT addr) = pfn \<and> memblock_is_map_memory mb addr)"

section \<open>Reserved pages and release of one block\<close>

fun reserve_pages :: "(nat \<Rightarrow> bool) \<Rightarrow> nat list \<Rightarrow> pagemap \<Rightarrow> pagemap res" where
  "reserve_pages valid [] pages = Inr pages"
| "reserve_pages valid (pfn # pfns) pages =
     (if valid pfn then
        and_then (SetPageReserved ((pages pfn)\<lparr>pg_head := None\<rparr>)) (\<lambda>p. reserve_pages valid pfns (pages(pfn := p)))
      else reserve_pages valid pfns pages)"

definition reserve_bootmem_region :: "(nat \<Rightarrow> bool) \<Rightarrow> phys_addr_t \<Rightarrow> phys_addr_t \<Rightarrow> pagemap \<Rightarrow> pagemap res" where
  "reserve_bootmem_region valid start end pages =
     reserve_pages valid [unat (PFN_DOWN start) ..< unat (PFN_UP end)] pages"

fun clear_reserved :: "nat list \<Rightarrow> pagemap \<Rightarrow> pagemap res" where
  "clear_reserved [] pages = Inr pages"
| "clear_reserved (p # ps) pages =
     and_then (ClearPageReserved (pages p)) (\<lambda>pg. clear_reserved ps (pages(p := set_page_count 0 pg)))"

definition free_pages_boot_core :: "(nat \<Rightarrow> bool) \<Rightarrow> nat \<Rightarrow> mm \<Rightarrow> nat \<Rightarrow> nat \<Rightarrow> mm res" where
  "free_pages_boot_core valid cpu m page order =
     and_then (clear_reserved [page ..< page + 2 ^ order] (mem_map m))
       (\<lambda>pages1.
          let zp = page_zone (pages1 page);
              z = node_zones m zp;
              m1 = m\<lparr>node_zones := (node_zones m)(zp := z\<lparr>managed_pages := managed_pages z + 2 ^ order\<rparr>)\<rparr>
          in and_then (set_page_refcounted (pages1 page))
               (\<lambda>p. free_pages valid cpu (m1\<lparr>mem_map := pages1(page := p)\<rparr>) page order))"

section \<open>Release of a range\<close>

text \<open>
  \<open>__ffs\<close> is a compiler builtin whose value at zero is undefined: \<open>undef\<close> stands for
  whatever it returns there.
\<close>

function ffs :: "nat \<Rightarrow> nat \<Rightarrow> nat" where
  "ffs undef w = (if w = 0 then undef else if odd w then 0 else Suc (ffs undef (w div 2)))"
  by pat_completeness auto
termination
  by (relation "measure snd") auto

declare ffs.simps [simp del]

fun fit_order :: "nat \<Rightarrow> nat \<Rightarrow> nat \<Rightarrow> nat" where
  "fit_order start end 0 = 0"
| "fit_order start end (Suc order) = (if start + 2 ^ Suc order > end then fit_order start end order else Suc order)"

definition block_order :: "nat \<Rightarrow> nat \<Rightarrow> nat \<Rightarrow> nat" where
  "block_order undef start end = fit_order start end (min (MAX_ORDER - 1) (ffs undef start))"

function free_pages_memory :: "nat \<Rightarrow> (nat \<Rightarrow> bool) \<Rightarrow> nat \<Rightarrow> nat \<Rightarrow> nat \<Rightarrow> mm \<Rightarrow> mm res" where
  "free_pages_memory undef valid cpu start end m =
     (if start < end then
        let order = block_order undef start end in
        and_then (free_pages_boot_core valid cpu m start order)
          (\<lambda>m1. free_pages_memory undef valid cpu (start + 2 ^ order) end m1)
      else Inr m)"
  by pat_completeness auto
termination
  by (relation "measure (\<lambda>(undef, valid, cpu, start, end, m). end - start)") (auto intro: diff_less_mono2)

declare free_pages_memory.simps [simp del]

definition free_memory_core ::
    "nat \<Rightarrow> (nat \<Rightarrow> bool) \<Rightarrow> nat \<Rightarrow> memblock \<Rightarrow> phys_addr_t \<Rightarrow> phys_addr_t \<Rightarrow> mm \<Rightarrow> (mm \<times> u64) res" where
  "free_memory_core undef valid cpu mb start end m =
     (let max_low_pfn = PFN_DOWN (memblock_end_of_DRAM mb);
          start_pfn = PFN_UP start;
          end_pfn = min (PFN_DOWN end) max_low_pfn
      in if start_pfn \<ge> end_pfn then Inr (m, 0)
         else and_then (free_pages_memory undef valid cpu (unat start_pfn) (unat end_pfn) m)
                (\<lambda>m1. Inr (m1, end_pfn - start_pfn)))"

section \<open>The whole hand-over\<close>

primrec reserved_iter :: "nat \<Rightarrow> (nat \<Rightarrow> bool) \<Rightarrow> memblock \<Rightarrow> u64 \<Rightarrow> pagemap \<Rightarrow> pagemap res" where
  "reserved_iter 0 valid mb i pages = Inl Out_of_fuel"
| "reserved_iter (Suc n) valid mb i pages =
     (case next_reserved_mem_region mb i of
        (i', None) \<Rightarrow> Inr pages
      | (i', Some (start, end)) \<Rightarrow>
          and_then (reserve_bootmem_region valid start end pages) (\<lambda>pages1. reserved_iter n valid mb i' pages1))"

fun free_ranges :: "nat \<Rightarrow> (nat \<Rightarrow> bool) \<Rightarrow> nat \<Rightarrow> memblock \<Rightarrow> mem_range list \<Rightarrow> mm \<Rightarrow> u64 \<Rightarrow> (mm \<times> u64) res" where
  "free_ranges undef valid cpu mb [] m count = Inr (m, count)"
| "free_ranges undef valid cpu mb ((start, end, nid) # rs) m count =
     and_then (free_memory_core undef valid cpu mb start end m)
       (\<lambda>(m1, n). free_ranges undef valid cpu mb rs m1 (count + n))"

definition free_low_memory_core_early :: "nat \<Rightarrow> nat \<Rightarrow> memblock \<Rightarrow> mm \<Rightarrow> (memblock \<times> mm \<times> u64) res" where
  "free_low_memory_core_early undef cpu mb m =
     and_then (memblock_clear_hotplug mb 0 (- 1))
       (\<lambda>(mb1, _).
          let valid = pfn_valid mb1 in
          and_then (reserved_iter (mt_cnt (mb_reserved mb1) + 1) valid mb1 0 (mem_map m))
            (\<lambda>pages1.
               and_then (for_each_mem_range (mb_memory mb1) (Some (mb_reserved mb1)) NUMA_NO_NODE MEMBLOCK_NONE)
                 (\<lambda>ranges.
                    and_then (free_ranges undef valid cpu mb1 ranges (m\<lparr>mem_map := pages1\<rparr>) 0)
                      (\<lambda>(m1, count). Inr (mb1, m1, count)))))"

text \<open>
  \<open>online\<close> lists the online nodes. The flag \<open>reset_managed_pages_done\<close> is clear on the only
  call, from \<open>mem_init\<close>; \<open>totalram_pages\<close> is the count that is returned.
\<close>

definition reset_node_managed_pages :: "u64 \<Rightarrow> (zone_ptr \<Rightarrow> zone) \<Rightarrow> zone_ptr \<Rightarrow> zone" where
  "reset_node_managed_pages nid zones = (\<lambda>zp. if fst zp = nid then (zones zp)\<lparr>managed_pages := 0\<rparr> else zones zp)"

definition reset_all_zones_managed_pages :: "u64 list \<Rightarrow> mm \<Rightarrow> mm" where
  "reset_all_zones_managed_pages online m = m\<lparr>node_zones := fold reset_node_managed_pages online (node_zones m)\<rparr>"

definition memblock_free_all :: "nat \<Rightarrow> nat \<Rightarrow> u64 list \<Rightarrow> memblock \<Rightarrow> mm \<Rightarrow> (memblock \<times> mm \<times> u64) res" where
  "memblock_free_all undef cpu online mb m =
     free_low_memory_core_early undef cpu mb (reset_all_zones_managed_pages online m)"

section \<open>One block\<close>

text \<open>A page as \<open>__init_single_page\<close> leaves it, possibly marked reserved since.\<close>

definition boot_page :: "(nat \<Rightarrow> bool) \<Rightarrow> zone_ptr \<Rightarrow> nat \<Rightarrow> page \<Rightarrow> bool" where
  "boot_page valid zp q p \<longleftrightarrow>
     valid q \<and> page_zone p = zp \<and> pg_type p = - 1 \<and> pg_mapping p = 0 \<and> pg_head p = None \<and> pg_count p = 1 \<and>
     pg_flags p AND PAGE_FLAGS_CHECK_AT_PREP AND NOT (push_bit PG_reserved 1) = 0"

lemma reserved_clear: "f AND PAGE_FLAGS_CHECK_AT_PREP AND NOT (push_bit PG_reserved 1) = 0 \<Longrightarrow>
    f AND NOT (push_bit PG_reserved 1) AND PAGE_FLAGS_CHECK_AT_PREP = 0" for f :: u64
  by (simp add: and.assoc and.commute and.left_commute)

lemma page_zone_reserved [simp]:
  "page_zone (p\<lparr>pg_flags := pg_flags p AND NOT (push_bit PG_reserved 1)\<rparr>) = page_zone p"
  "page_zone (p\<lparr>pg_flags := pg_flags p OR push_bit PG_reserved 1\<rparr>) = page_zone p"
proof -
  have "drop_bit n (f AND NOT (push_bit PG_reserved 1)) = drop_bit n f"
    "drop_bit n (f OR push_bit PG_reserved 1) = drop_bit n f" if "PG_reserved < n" for f :: u64 and n
    using that by (intro bit_word_eqI; auto simp: bit_simps bit_1_iff dest: bit_imp_le_length)+
  moreover have "PG_reserved < 59" "PG_reserved < 61" by (simp_all add: PG_reserved_def)
  ultimately show "page_zone (p\<lparr>pg_flags := pg_flags p AND NOT (push_bit PG_reserved 1)\<rparr>) = page_zone p"
    "page_zone (p\<lparr>pg_flags := pg_flags p OR push_bit PG_reserved 1\<rparr>) = page_zone p"
    unfolding page_zone_def page_to_nid_def page_zonenum_def field_shifts page.select_convs page.update_convs
    by (simp_all del: push_bit_of_1 drop_bit_and drop_bit_or)
qed

lemma boot_page_simple: "boot_page valid zp q p \<Longrightarrow> \<not> PageCompound p"
proof -
  assume b: "boot_page valid zp q p"
  have "bit (pg_flags p AND PAGE_FLAGS_CHECK_AT_PREP AND NOT (push_bit PG_reserved 1)) PG_head = bit (pg_flags p) PG_head"
    unfolding field_masks by (simp add: bit_simps PG_head_def PG_reserved_def)
  then show ?thesis using b by (simp add: boot_page_def PageCompound_def PageHead_def PageTail_def)
qed

definition unreserved :: "page \<Rightarrow> page" where
  "unreserved p = p\<lparr>pg_flags := pg_flags p AND NOT (push_bit PG_reserved 1), pg_count := 0\<rparr>"

lemma clear_reserved_boot:
  assumes "distinct qs" "\<And>q. q \<in> set qs \<Longrightarrow> boot_page valid zp q (pages q)"
  shows "clear_reserved qs pages = Inr (\<lambda>q. if q \<in> set qs then unreserved (pages q) else pages q)"
  using assms
proof (induction qs arbitrary: pages)
  case Nil
  then show ?case by simp
next
  case (Cons q qs)
  have "clear_reserved (q # qs) pages = clear_reserved qs (pages(q := unreserved (pages q)))"
    using boot_page_simple [OF Cons.prems(2)] by (simp add: ClearPageReserved_def set_page_count_def unreserved_def)
  also have "\<dots> = Inr (\<lambda>r. if r \<in> set qs then unreserved ((pages(q := unreserved (pages q))) r) else (pages(q := unreserved (pages q))) r)"
    using Cons.prems by (intro Cons.IH) auto
  also have "(\<lambda>r. if r \<in> set qs then unreserved ((pages(q := unreserved (pages q))) r) else (pages(q := unreserved (pages q))) r) =
      (\<lambda>r. if r \<in> set (q # qs) then unreserved (pages r) else pages r)"
    using Cons.prems(1) by (auto simp: fun_eq_iff)
  finally show ?case .
qed

lemma unreserved_raw:
  assumes "boot_page valid zp q p" shows "valid q \<and> free_page zp (unreserved p) \<and> pg_type (unreserved p) = - 1"
  using assms reserved_clear [of "pg_flags p"] page_zone_reserved(1) [of p]
  by (simp add: boot_page_def unreserved_def free_page_def and.assoc)

text \<open>The pages of a block that is not compound pass the checks of \<open>free_pages_prepare\<close>.\<close>

lemma prepare_tails_raw:
  assumes "distinct qs" "\<And>q. q \<in> set qs \<Longrightarrow> raw_block valid zp pages (q, 0)"
  shows "prepare_tails False p qs pages 0 = Inr ((\<lambda>q. if q \<in> set qs then clear_prep_flags (pages q) else pages q), 0)"
  using assms
proof (induction qs arbitrary: pages)
  case Nil
  then show ?case by simp
next
  case (Cons q qs)
  have "prepare_tails False p (q # qs) pages 0 = prepare_tails False p qs (pages(q := clear_prep_flags (pages q))) 0"
    using free_pages_check_raw [OF Cons.prems(2), of q] by simp
  also have "\<dots> = Inr ((\<lambda>r. if r \<in> set qs then clear_prep_flags ((pages(q := clear_prep_flags (pages q))) r)
      else (pages(q := clear_prep_flags (pages q))) r), 0)"
    using Cons.prems by (intro Cons.IH) (auto simp: raw_one)
  also have "(\<lambda>r. if r \<in> set qs then clear_prep_flags ((pages(q := clear_prep_flags (pages q))) r)
      else (pages(q := clear_prep_flags (pages q))) r) =
      (\<lambda>r. if r \<in> set (q # qs) then clear_prep_flags (pages r) else pages r)"
    using Cons.prems(1) by (auto simp: fun_eq_iff)
  finally show ?case .
qed

lemma clear_prep_raw: "raw_block valid zp pages (q, 0) \<Longrightarrow> raw_block valid zp (\<lambda>q. clear_prep_flags (pages q)) (q, 0)"
  by (simp add: raw_one free_page_def)

lemma free_pages_prepare_raw:
  assumes raw: "raw_block valid zp pages (p, k)"
  shows "\<exists>pages'. free_pages_prepare pages p k c = Inr (pages', True) \<and> raw_block valid zp pages' (p, k) \<and>
    (\<forall>q. q \<notin> frames (p, k) \<longrightarrow> pages' q = pages q)"
proof -
  note rf = raw_frame [OF raw frames_head]
  let ?tails = "[p + 1 ..< p + 2 ^ k]"
  define pages1 where "pages1 = (\<lambda>q. if q \<in> set ?tails then clear_prep_flags (pages q) else pages q)"
  have sub: "set ?tails \<subseteq> frames (p, k)" by (auto simp: frames_def)
  have t: "prepare_tails False p ?tails pages 0 = Inr (pages1, 0)"
    unfolding pages1_def by (rule prepare_tails_raw [of _ valid zp]) (use sub raw_block_frame [OF raw] in auto)
  have p1: "pages1 p = pages p" by (simp add: pages1_def)
  have ck: "free_pages_check g p = (g, False)" if "g p = pages p" for g
    using free_pages_check_raw [of valid zp g p] raw_block_frame [OF raw frames_head] that by (simp add: raw_one)
  have np: "\<not> PageTail (pages p)" "\<not> PageCompound (pages p)" "\<not> PageMappingFlags (pages p)"
    using rf by (auto simp: PageTail_def PageCompound_def PageMappingFlags_def)
  let ?pages' = "pages1(p := clear_prep_flags (pages p))"
  have "free_pages_prepare pages p k c = Inr (?pages', True)"
  proof (cases "k = 0")
    case True
    then show ?thesis using np ck [of pages] by (simp add: free_pages_prepare_def Let_def pages1_def)
  next
    case False
    then show ?thesis using np t ck [of pages1] p1 by (simp add: free_pages_prepare_def Let_def)
  qed
  moreover have "?pages' q = clear_prep_flags (pages q)" if "q \<in> frames (p, k)" for q
    using that by (auto simp: pages1_def frames_def)
  then have "raw_block valid zp ?pages' (p, k)"
    using raw by (simp add: raw_block_def free_page_def)
  moreover have "?pages' q = pages q" if "q \<notin> frames (p, k)" for q
    using that sub frames_head [of p k] by (auto simp: pages1_def)
  ultimately show ?thesis by blast
qed

lemma zone_managed [simp]:
  "zone_ok valid zp pages (z\<lparr>managed_pages := n\<rparr>) = zone_ok valid zp pages z" "avail (z\<lparr>managed_pages := n\<rparr>) = avail z"
  by (simp_all add: zone_ok_def avail_def pcp_pages_def)

lemma boot_block_raw:
  assumes "2 ^ k dvd p" "\<And>q. q \<in> frames (p, k) \<Longrightarrow> boot_page valid zp q (pages q)"
  shows "raw_block valid zp (\<lambda>q. if q \<in> frames (p, k) then unreserved (pages q) else pages q) (p, k)"
  using assms(1) unreserved_raw [OF assms(2)] by (simp add: raw_block_def)

lemma free_pages_boot_core_result:
  assumes ok: "mm_ok valid Z m" and zp: "zp \<in> Z" and k: "k < MAX_ORDER" and al: "2 ^ k dvd p"
    and boot: "\<And>q. q \<in> frames (p, k) \<Longrightarrow> boot_page valid zp q (mem_map m q)"
  shows "\<exists>m'. free_pages_boot_core valid cpu m p k = Inr m' \<and> free_outcome valid Z m p k m'"
proof -
  define pages1 where "pages1 = (\<lambda>q. if q \<in> frames (p, k) then unreserved (mem_map m q) else mem_map m q)"
  have raw: "raw_block valid zp pages1 (p, k)" unfolding pages1_def by (rule boot_block_raw [OF al boot])
  note rf = raw_frame [OF raw frames_head]
  have clr: "clear_reserved [p ..< p + 2 ^ k] (mem_map m) = Inr pages1"
    using clear_reserved_boot [of "[p ..< p + 2 ^ k]" valid zp "mem_map m"] boot by (simp add: pages1_def frames_def)
  let ?zones = "(node_zones m)(zp := (node_zones m zp)\<lparr>managed_pages := managed_pages (node_zones m zp) + 2 ^ k\<rparr>)"
  let ?m0 = "m\<lparr>node_zones := ?zones\<rparr>"
  have ok0: "mm_ok valid Z ?m0" using ok by (simp add: mm_ok_def)
  have held0: "held Z ?m0 = held Z m" by (auto simp: held_def split: if_splits)
  obtain pages2 where p2: "free_pages_prepare pages1 p k (k \<noteq> 0) = Inr (pages2, True)"
    and raw2: "raw_block valid zp pages2 (p, k)" and out2: "\<And>q. q \<notin> frames (p, k) \<Longrightarrow> pages2 q = pages1 q"
    using free_pages_prepare_raw [OF raw] by blast
  have "\<exists>m'. free_the_page valid cpu (?m0\<lparr>mem_map := pages1\<rparr>) p k = Inr m' \<and> free_outcome valid Z ?m0 p k m'"
  proof (rule free_the_page_result [OF ok0 zp k _ _ _ _ _ p2 raw2])
    show "pages2 q = mem_map ?m0 q" if "q \<notin> frames (p, k)" for q using out2 [OF that] that by (simp add: pages1_def)
    show "page_zone (mem_map ?m0 q) = zp \<and> \<not> PageBuddy (mem_map ?m0 q) \<and> \<not> free_page zp (mem_map ?m0 q)"
      if "q \<in> frames (p, k)" for q
      using boot [OF that] PageBuddy_type(2) by (auto simp: boot_page_def free_page_def)
  qed simp_all
  then obtain m' where f: "free_the_page valid cpu (?m0\<lparr>mem_map := pages1\<rparr>) p k = Inr m'"
    and fo: "free_outcome valid Z ?m0 p k m'" by blast
  have "pages1(p := (pages1 p)\<lparr>pg_count := 0\<rparr>) = pages1"
    using rf(5) by (intro ext) (simp add: page.equality)
  then have "free_pages valid cpu (?m0\<lparr>mem_map := pages1(p := (pages1 p)\<lparr>pg_count := 1\<rparr>)\<rparr>) p k = Inr m'"
    using f by (simp add: free_pages_def put_page_testzero_def Let_def)
  then have "free_pages_boot_core valid cpu m p k = Inr m'"
    using clr rf by (simp add: free_pages_boot_core_def set_page_refcounted_def PageTail_def set_page_count_def Let_def)
  moreover have "free_outcome valid Z m p k m'" using fo by (simp add: free_outcome_def held0)
  ultimately show ?thesis by blast
qed

section \<open>A range\<close>

lemma ffs_dvd: "2 ^ ffs undef w dvd w"
proof (induction undef w rule: ffs.induct)
  case (1 undef w)
  show ?case
  proof (cases "w = 0 \<or> odd w")
    case True
    then show ?thesis by (subst ffs.simps) auto
  next
    case False
    then have "2 ^ ffs undef (w div 2) dvd w div 2" using 1 by blast
    then have "2 * 2 ^ ffs undef (w div 2) dvd 2 * (w div 2)" by (rule mult_dvd_mono [OF dvd_refl])
    moreover have "2 * (w div 2) = w" using False by simp
    ultimately have "2 * 2 ^ ffs undef (w div 2) dvd w" by (simp only:)
    then show ?thesis using False by (simp add: ffs.simps [of undef w])
  qed
qed

lemma fit_order_props: "start < end \<Longrightarrow> fit_order start end o1 \<le> o1 \<and> start + 2 ^ fit_order start end o1 \<le> end"
  by (induction start "end" o1 rule: fit_order.induct) auto

lemma block_order_props:
  assumes "start < end"
  shows "start + 2 ^ block_order undef start end \<le> end" "block_order undef start end < MAX_ORDER"
    "2 ^ block_order undef start end dvd start"
proof -
  let ?o = "min (MAX_ORDER - 1) (ffs undef start)"
  note fp = fit_order_props [OF assms, of ?o]
  show "start + 2 ^ block_order undef start end \<le> end" using fp by (simp add: block_order_def)
  show "block_order undef start end < MAX_ORDER" using fp by (simp add: block_order_def MAX_ORDER_def)
  have "block_order undef start end \<le> ffs undef start" using fp by (simp add: block_order_def)
  then show "2 ^ block_order undef start end dvd start"
    using ffs_dvd [of undef start] le_imp_power_dvd dvd_trans by blast
qed

text \<open>
  The pages of a range are ready for release when each is as it was initialised, in a zone of
  the machine, and no naturally aligned block of the largest order lies in two zones.
\<close>

definition boot_range :: "(nat \<Rightarrow> bool) \<Rightarrow> zone_ptr set \<Rightarrow> pagemap \<Rightarrow> nat set \<Rightarrow> bool" where
  "boot_range valid Z pages S \<longleftrightarrow>
     (\<forall>q \<in> S. page_zone (pages q) \<in> Z \<and> boot_page valid (page_zone (pages q)) q (pages q)) \<and>
     (\<forall>p \<in> S. \<forall>q \<in> S. p div 2 ^ (MAX_ORDER - 1) = q div 2 ^ (MAX_ORDER - 1) \<longrightarrow> page_zone (pages p) = page_zone (pages q))"

lemma frames_same_max_block:
  assumes "2 ^ k dvd p" "k < MAX_ORDER" "q \<in> frames (p, k)"
  shows "q div 2 ^ (MAX_ORDER - 1) = p div 2 ^ (MAX_ORDER - 1)"
proof -
  have "q div 2 ^ k = p div 2 ^ k"
    using assms(1,3) by (auto elim!: dvdE simp: frames_def intro: div_nat_eqI)
  moreover have "(2 :: nat) ^ (MAX_ORDER - 1) = 2 ^ k * 2 ^ (MAX_ORDER - 1 - k)"
    using assms(2) by (simp flip: power_add)
  ultimately show ?thesis by (simp add: div_mult2_eq)
qed

lemma boot_not_held:
  assumes ok: "mm_ok valid Z m" and b: "boot_page valid zp q (mem_map m q)"
  shows "q \<notin> held Z m"
proof
  assume "q \<in> held Z m"
  then obtain zp' where "zp' \<in> Z" "q \<in> avail (node_zones m zp')" by (auto simp: held_def)
  then have "free_page zp' (mem_map m q)"
    using ok avail_free_page(2) [of valid zp' "mem_map m" "node_zones m zp'" q] by (simp add: mm_ok_def)
  then show False using b by (simp add: boot_page_def free_page_def)
qed

lemma boot_rangeD:
  assumes "boot_range valid Z pages S" "q \<in> S"
  shows "page_zone (pages q) \<in> Z" "boot_page valid (page_zone (pages q)) q (pages q)"
  using assms unfolding boot_range_def by blast+

lemma boot_range_mono:
  assumes b: "boot_range valid Z pages S" and sub: "T \<subseteq> S" and eq: "\<And>q. q \<in> T \<Longrightarrow> pages' q = pages q"
  shows "boot_range valid Z pages' T"
proof -
  have "\<And>q. q \<in> T \<Longrightarrow> q \<in> S" using sub by blast
  then show ?thesis using b eq unfolding boot_range_def by (intro conjI ballI impI) simp_all
qed

text \<open>The allocator has taken over the frames of \<open>S\<close> and has touched nothing else.\<close>

definition handed :: "(nat \<Rightarrow> bool) \<Rightarrow> zone_ptr set \<Rightarrow> mm \<Rightarrow> nat set \<Rightarrow> mm \<Rightarrow> bool" where
  "handed valid Z m S m' \<longleftrightarrow>
     mm_ok valid Z m' \<and> held Z m' = held Z m \<union> S \<and> (\<forall>q. q \<notin> held Z m' \<longrightarrow> mem_map m' q = mem_map m q) \<and>
     page_data m' = page_data m"

lemma handed_refl: "mm_ok valid Z m \<Longrightarrow> handed valid Z m {} m"
  by (simp add: handed_def)

lemma handed_trans: "handed valid Z m S m1 \<Longrightarrow> handed valid Z m1 T m' \<Longrightarrow> handed valid Z m (S \<union> T) m'"
  unfolding handed_def by auto

lemma free_outcome_handed: "free_outcome valid Z m p k m' \<Longrightarrow> handed valid Z m (frames (p, k)) m'"
  by (simp add: handed_def free_outcome_def)

text \<open>Pages that still wait for their release are not touched by an earlier one.\<close>

lemma handed_boot_range:
  assumes ok: "mm_ok valid Z m" and b: "boot_range valid Z (mem_map m) U" and h: "handed valid Z m S m'"
    and T: "T \<subseteq> U" "T \<inter> S = {}"
  shows "boot_range valid Z (mem_map m') T"
proof (rule boot_range_mono [OF b T(1)])
  fix q assume q: "q \<in> T"
  then have "q \<in> U" using T(1) by blast
  then have "q \<notin> held Z m" by (rule boot_not_held [OF ok boot_rangeD(2) [OF b]])
  then show "mem_map m' q = mem_map m q" using h q T(2) unfolding handed_def by blast
qed

lemma free_pages_memory_result:
  assumes "mm_ok valid Z m" "boot_range valid Z (mem_map m) {start ..< end}"
  shows "\<exists>m'. free_pages_memory undef valid cpu start end m = Inr m' \<and> handed valid Z m {start ..< end} m'"
  using assms
proof (induction "end - start" arbitrary: start m rule: less_induct)
  case less
  show ?case
  proof (cases "start < end")
    case False
    then show ?thesis using handed_refl [OF less.prems(1)] by (subst free_pages_memory.simps) simp
  next
    case True
    let ?k = "block_order undef start end"
    let ?zp = "page_zone (mem_map m start)"
    note bo = block_order_props [OF True, of undef]
    have fsub: "frames (start, ?k) \<subseteq> {start ..< end}" using bo(1) by (auto simp: frames_def)
    have zp: "?zp \<in> Z" by (rule boot_rangeD(1) [OF less.prems(2)]) (simp add: True)
    have boot: "boot_page valid ?zp q (mem_map m q)" if "q \<in> frames (start, ?k)" for q
    proof -
      have q: "q \<in> {start ..< end}" "start \<in> {start ..< end}" using that fsub True by auto
      moreover have "q div 2 ^ (MAX_ORDER - 1) = start div 2 ^ (MAX_ORDER - 1)"
        by (rule frames_same_max_block [OF bo(3,2) that])
      ultimately have "page_zone (mem_map m q) = ?zp" using less.prems(2) unfolding boot_range_def by blast
      then show ?thesis using boot_rangeD(2) [OF less.prems(2) q(1)] by simp
    qed
    obtain m1 where f: "free_pages_boot_core valid cpu m start ?k = Inr m1" and h: "handed valid Z m (frames (start, ?k)) m1"
      using free_pages_boot_core_result [OF less.prems(1) zp bo(2,3) boot] free_outcome_handed by blast
    have br: "boot_range valid Z (mem_map m1) {start + 2 ^ ?k ..< end}"
      by (rule handed_boot_range [OF less.prems h]) (auto simp: frames_def)
    have lt: "end - (start + 2 ^ ?k) < end - start" using True by (simp add: diff_less_mono2)
    have ok1: "mm_ok valid Z m1" using h by (simp add: handed_def)
    obtain m' where m': "free_pages_memory undef valid cpu (start + 2 ^ ?k) end m1 = Inr m'"
      "handed valid Z m1 {start + 2 ^ ?k ..< end} m'"
      using less.hyps [OF lt ok1 br] by (elim exE conjE) (rule that)
    have "free_pages_memory undef valid cpu start end m = Inr m'"
      by (subst free_pages_memory.simps) (simp only: True if_True Let_def f and_then.simps m'(1))
    moreover have "frames (start, ?k) \<union> {start + 2 ^ ?k ..< end} = {start ..< end}" using bo(1) by (auto simp: frames_def)
    ultimately show ?thesis using handed_trans [OF h m'(2)] by simp
  qed
qed

section \<open>The ranges of the boot allocator\<close>

lemma scan_gaps_inside: "scan_gaps tb m_start m_end b = (b', Some (s, e, f)) \<Longrightarrow> m_start \<le> s \<and> e \<le> m_end"
proof (induction tb m_start m_end b rule: scan_gaps.induct)
  case (1 tb m_start m_end b)
  show ?case
    using 1(1) [OF _ refl refl] 1(2) unfolding scan_gaps.simps [of tb m_start m_end b] Let_def
    by (auto split: if_splits)
qed

lemma next_mem_range_inside:
  "next_mem_range_loop nid flags ta (Some tb) a b = Some ((s, e, n), c) \<Longrightarrow>
   \<exists>r \<in> set (mt_regions ta). rgn_base r \<le> s \<and> e \<le> rgn_end r"
proof (induction "mt_cnt ta - a" arbitrary: a b)
  case 0
  then show ?case by (subst (asm) next_mem_range_loop.simps) (simp split: if_splits)
next
  case (Suc k)
  let ?m = "mt_regions ta ! a"
  have a: "a < mt_cnt ta" "k = mt_cnt ta - (a + 1)" using Suc.hyps(2) by auto
  then have mem: "?m \<in> set (mt_regions ta)" by (simp add: mt_cnt_def)
  show ?case
  proof (cases "mem_range_skip nid flags ?m")
    case True
    then show ?thesis using Suc.prems Suc.hyps(1) [OF a(2)] a(1)
      by (simp add: next_mem_range_loop.simps [of nid flags ta _ a] Let_def)
  next
    case False
    obtain b' r where g: "scan_gaps tb (rgn_base ?m) (rgn_base ?m + rgn_size ?m) b = (b', r)" by (cases "scan_gaps tb (rgn_base ?m) (rgn_base ?m + rgn_size ?m) b")
    show ?thesis
    proof (cases r)
      case None
      then show ?thesis using Suc.prems Suc.hyps(1) [OF a(2)] a(1) False g
        by (simp add: next_mem_range_loop.simps [of nid flags ta _ a] Let_def)
    next
      case (Some t)
      obtain s' e' f where t: "t = (s', e', f)" by (cases t)
      have "s' = s" "e' = e" using Suc.prems a(1) False g Some t
        by (simp_all add: next_mem_range_loop.simps [of nid flags ta _ a] Let_def)
      then show ?thesis using scan_gaps_inside [of tb "rgn_base ?m" "rgn_base ?m + rgn_size ?m" b b' s e f] g Some t mem
        by auto
    qed
  qed
qed

lemma mem_range_iter_inside:
  "mem_range_iter k (\<lambda>idx. next_mem_range idx nid flags ta (Some tb)) i = Inr xs \<Longrightarrow> (s, e, n) \<in> set xs \<Longrightarrow>
   \<exists>r \<in> set (mt_regions ta). rgn_base r \<le> s \<and> e \<le> rgn_end r"
proof (induction k arbitrary: i xs)
  case (Suc k)
  obtain i' r where nx: "next_mem_range i nid flags ta (Some tb) = (i', r)" by (cases "next_mem_range i nid flags ta (Some tb)")
  show ?case
  proof (cases r)
    case (Some out)
    then obtain ys where ys: "xs = [] \<or> xs = out # ys \<and> mem_range_iter k (\<lambda>idx. next_mem_range idx nid flags ta (Some tb)) i' = Inr ys"
      using Suc.prems(1) nx by (auto split: if_splits sum.splits)
    have "\<exists>r \<in> set (mt_regions ta). rgn_base r \<le> s \<and> e \<le> rgn_end r" if "out = (s, e, n)"
      using nx Some that next_mem_range_inside [of _ flags ta tb]
      by (auto simp: next_mem_range_def Let_def split: option.splits)
    then show ?thesis using ys Suc.IH Suc.prems(2) by auto
  qed (use Suc.prems nx in simp)
qed simp

text \<open>The page frames that lie inside a range of addresses.\<close>

definition range_frames :: "mem_range \<Rightarrow> nat set" where
  "range_frames = (\<lambda>(s, e, n). {q. unat s \<le> q * 4096 \<and> (q + 1) * 4096 \<le> unat e})"

lemma unat_PFN_DOWN: "unat (PFN_DOWN e) = unat e div 4096"
  by (simp add: PFN_DOWN_def PAGE_SHIFT_def drop_bit_eq_div unat_div)

lemma unat_PFN_UP:
  assumes "unat s + 4095 < 2 ^ 64" shows "unat (PFN_UP s) = (unat s + 4095) div 4096"
proof -
  have "PFN_UP s = (s + 4095) div 4096" by (simp add: PFN_UP_def PAGE_SIZE_def PAGE_SHIFT_def drop_bit_eq_div add.commute)
  moreover have "unat (s + 4095) = unat s + 4095" using assms by (subst unat_add_lem [THEN iffD1]) simp_all
  ultimately show ?thesis by (simp add: unat_div)
qed

lemma pfn_range_frames:
  assumes "unat s + 4095 < 2 ^ 64" shows "{unat (PFN_UP s) ..< unat (PFN_DOWN e)} = range_frames (s, e, n)"
proof -
  have "(a + 4095) div 4096 \<le> q \<longleftrightarrow> a \<le> q * 4096" for a q :: nat
    using div_less_iff_less_mult [of 4096 "a + 4095" "Suc q"] by (simp add: less_Suc_eq_le)
  moreover have "q < b div 4096 \<longleftrightarrow> (q + 1) * 4096 \<le> b" for b q :: nat
    using less_eq_div_iff_mult_less_eq [of 4096 "Suc q" b] by (simp add: Suc_le_eq)
  ultimately show ?thesis by (auto simp: range_frames_def unat_PFN_DOWN unat_PFN_UP [OF assms])
qed

lemma free_memory_core_result:
  assumes ok: "mm_ok valid Z m" and b: "boot_range valid Z (mem_map m) (range_frames (s, e, n))"
    and lim: "e \<le> memblock_end_of_DRAM mb" "unat s + 4095 < 2 ^ 64"
  shows "\<exists>m'. free_memory_core undef valid cpu mb s e m = Inr (m', of_nat (card (range_frames (s, e, n)))) \<and>
    handed valid Z m (range_frames (s, e, n)) m'"
proof -
  have "PFN_DOWN e \<le> PFN_DOWN (memblock_end_of_DRAM mb)"
    using lim(1) by (simp add: word_le_nat_alt unat_PFN_DOWN div_le_mono)
  then have mn: "min (PFN_DOWN e) (PFN_DOWN (memblock_end_of_DRAM mb)) = PFN_DOWN e" by simp
  note rf = pfn_range_frames [OF lim(2), of e n]
  show ?thesis
  proof (cases "PFN_DOWN e \<le> PFN_UP s")
    case True
    then have "range_frames (s, e, n) = {}" using rf by (auto simp: word_le_nat_alt)
    then show ?thesis using True mn handed_refl [OF ok] by (simp add: free_memory_core_def)
  next
    case False
    obtain m' where f: "free_pages_memory undef valid cpu (unat (PFN_UP s)) (unat (PFN_DOWN e)) m = Inr m'"
      and h: "handed valid Z m (range_frames (s, e, n)) m'"
      using free_pages_memory_result [OF ok, of "unat (PFN_UP s)" "unat (PFN_DOWN e)" undef cpu] b rf by auto
    have "card (range_frames (s, e, n)) = unat (PFN_DOWN e - PFN_UP s)"
      using False rf by (simp add: unat_sub flip: rf)
    then have "of_nat (card (range_frames (s, e, n))) = PFN_DOWN e - PFN_UP s" by simp
    then show ?thesis using False mn f h by (simp add: free_memory_core_def Let_def)
  qed
qed

definition ranges_frames :: "mem_range list \<Rightarrow> nat set" where
  "ranges_frames xs = (\<Union>r \<in> set xs. range_frames r)"

lemma range_frames_addr:
  assumes "q \<in> range_frames (s, e, n)" "q * 4096 \<le> a" "a < (q + 1) * 4096"
  shows "(of_nat a :: phys_addr_t) \<in> {s ..< e}" "a < 2 ^ 64"
proof -
  have q: "unat s \<le> a" "a < unat e" using assms by (auto simp: range_frames_def)
  have "unat e < 2 ^ LENGTH(64)" by (rule unsigned_less)
  then have "unat e < 2 ^ 64" by simp
  then show a: "a < 2 ^ 64" using q(2) by linarith
  then have "unat (of_nat a :: phys_addr_t) = a" by (simp add: unsigned_of_nat take_bit_nat_eq_self)
  then show "(of_nat a :: phys_addr_t) \<in> {s ..< e}" using q by (simp add: word_le_nat_alt word_less_nat_alt)
qed

lemma range_frames_disjoint:
  assumes "\<forall>x \<in> {s ..< e}. \<forall>y \<in> ranges_of xs. x < y"
  shows "range_frames (s, e, n) \<inter> ranges_frames xs = {}"
proof (rule ccontr)
  assume "range_frames (s, e, n) \<inter> ranges_frames xs \<noteq> {}"
  then obtain q s' e' n' where q: "q \<in> range_frames (s, e, n)" "q \<in> range_frames (s', e', n')" "(s', e', n') \<in> set xs"
    by (auto simp: ranges_frames_def)
  then have "(of_nat (q * 4096) :: phys_addr_t) \<in> {s ..< e}" "(of_nat (q * 4096) :: phys_addr_t) \<in> ranges_of xs"
    using range_frames_addr(1) [OF q(1), of "q * 4096"] range_frames_addr(1) [OF q(2), of "q * 4096"]
    by (auto simp: ranges_of_def)
  then show False using assms by blast
qed

lemma finite_range_frames: "finite (range_frames r)"
proof -
  obtain s e n where r: "r = (s, e, n)" by (cases r)
  have "range_frames r \<subseteq> {.. unat e}" by (auto simp: range_frames_def r)
  then show ?thesis using finite_subset by blast
qed

lemma ball_subset: "\<forall>x \<in> A. P x \<Longrightarrow> B \<subseteq> A \<Longrightarrow> \<forall>x \<in> B. P x"
  by blast

lemma free_ranges_result:
  assumes "mm_ok valid Z m" "boot_range valid Z (mem_map m) (ranges_frames xs)" "ranges_sorted (<) xs"
    "\<forall>(s, e, n) \<in> set xs. e \<le> memblock_end_of_DRAM mb \<and> unat s + 4095 < 2 ^ 64"
  shows "\<exists>m'. free_ranges undef valid cpu mb xs m c = Inr (m', c + of_nat (card (ranges_frames xs))) \<and>
    handed valid Z m (ranges_frames xs) m'"
  using assms
proof (induction xs arbitrary: m c)
  case Nil
  then show ?case by (simp add: ranges_frames_def handed_refl)
next
  case (Cons r xs)
  obtain s e n where r: "r = (s, e, n)" by (cases r)
  have rs: "ranges_frames (r # xs) = range_frames (s, e, n) \<union> ranges_frames xs" by (simp add: ranges_frames_def r)
  have dis: "range_frames (s, e, n) \<inter> ranges_frames xs = {}"
    by (rule range_frames_disjoint) (use Cons.prems(3) r in simp)
  have lim: "e \<le> memblock_end_of_DRAM mb" "unat s + 4095 < 2 ^ 64" using Cons.prems(4) r by auto
  have srt: "ranges_sorted (<) xs" using Cons.prems(3) r by simp
  have lims: "\<forall>(s, e, n) \<in> set xs. e \<le> memblock_end_of_DRAM mb \<and> unat s + 4095 < 2 ^ 64"
    using Cons.prems(4) by (rule ball_subset) auto
  have b1: "boot_range valid Z (mem_map m) (range_frames (s, e, n))"
    by (rule boot_range_mono [OF Cons.prems(2)]) (auto simp: rs)
  obtain m1 where f: "free_memory_core undef valid cpu mb s e m = Inr (m1, of_nat (card (range_frames (s, e, n))))"
    and h: "handed valid Z m (range_frames (s, e, n)) m1"
    using free_memory_core_result [OF Cons.prems(1) b1 lim] by blast
  have ok1: "mm_ok valid Z m1" using h by (simp add: handed_def)
  have b2: "boot_range valid Z (mem_map m1) (ranges_frames xs)"
    by (rule handed_boot_range [OF Cons.prems(1,2) h]) (use dis rs in auto)
  obtain m' where g: "free_ranges undef valid cpu mb xs m1 (c + of_nat (card (range_frames (s, e, n)))) =
      Inr (m', c + of_nat (card (range_frames (s, e, n))) + of_nat (card (ranges_frames xs)))"
    and h': "handed valid Z m1 (ranges_frames xs) m'"
    using Cons.IH [OF ok1 b2 srt lims, where c = "c + of_nat (card (range_frames (s, e, n)))"] by (elim exE conjE) (rule that)
  have "card (ranges_frames (r # xs)) = card (range_frames (s, e, n)) + card (ranges_frames xs)"
    unfolding rs by (rule card_Un_disjoint) (auto simp: ranges_frames_def finite_range_frames dis [unfolded ranges_frames_def])
  then show ?case using f g handed_trans [OF h h'] by (simp add: r rs [unfolded r] add.assoc)
qed

section \<open>Marking the reserved pages\<close>

lemma reserved_or: "(f OR push_bit PG_reserved 1) AND PAGE_FLAGS_CHECK_AT_PREP AND NOT (push_bit PG_reserved 1) =
    f AND PAGE_FLAGS_CHECK_AT_PREP AND NOT (push_bit PG_reserved 1)" for f :: u64
  by (rule bit_word_eqI) (auto simp: bit_simps)

lemma boot_page_reserved:
  "boot_page valid zp q p \<Longrightarrow> boot_page valid zp q (p\<lparr>pg_head := None, pg_flags := pg_flags p OR push_bit PG_reserved 1\<rparr>)"
  using reserved_or [of "pg_flags p"] page_zone_reserved(2) [of "p\<lparr>pg_head := None\<rparr>"]
  by (simp add: boot_page_def)

text \<open>Marking keeps every valid page releasable and every zone in order.\<close>

definition boot_map :: "(nat \<Rightarrow> bool) \<Rightarrow> zone_ptr set \<Rightarrow> pagemap \<Rightarrow> bool" where
  "boot_map valid Z pages \<longleftrightarrow> boot_range valid Z pages {q. valid q}"

definition marked_map :: "(nat \<Rightarrow> bool) \<Rightarrow> zone_ptr set \<Rightarrow> mm \<Rightarrow> pagemap \<Rightarrow> bool" where
  "marked_map valid Z m pages \<longleftrightarrow> mm_ok valid Z (m\<lparr>mem_map := pages\<rparr>) \<and> boot_map valid Z pages"

lemma mark_page:
  assumes ok: "marked_map valid Z m pages" and v: "valid q"
  defines "p' \<equiv> (pages q)\<lparr>pg_head := None, pg_flags := pg_flags (pages q) OR push_bit PG_reserved 1\<rparr>"
  shows "marked_map valid Z m (pages(q := p'))" "\<not> PageCompound ((pages q)\<lparr>pg_head := None\<rparr>)"
proof -
  have okm: "mm_ok valid Z (m\<lparr>mem_map := pages\<rparr>)" and bm: "boot_range valid Z pages {q. valid q}"
    using ok by (auto simp: marked_map_def boot_map_def)
  have b: "boot_page valid (page_zone (pages q)) q (pages q)" by (rule boot_rangeD(2) [OF bm]) (simp add: v)
  then have b': "boot_page valid (page_zone (pages q)) q p'" unfolding p'_def by (rule boot_page_reserved)
  then have pz: "page_zone p' = page_zone (pages q)" by (simp add: boot_page_def)
  have "pg_head (pages q) = None" using b by (simp add: boot_page_def)
  then have "(pages q)\<lparr>pg_head := None\<rparr> = pages q" by (intro page.equality) simp_all
  then show "\<not> PageCompound ((pages q)\<lparr>pg_head := None\<rparr>)" using boot_page_simple [OF b] by simp
  have nh: "q \<notin> held Z (m\<lparr>mem_map := pages\<rparr>)" by (rule boot_not_held [OF okm, of "page_zone (pages q)"]) (simp add: b)
  have "zone_ok valid zp (pages(q := p')) (node_zones m zp)" if "zp \<in> Z" for zp
  proof (rule zone_ok_change [of _ _ pages _ "{q}"])
    show "zone_ok valid zp pages (node_zones m zp)" using okm that by (simp add: mm_ok_def)
    show "{q} \<inter> avail (node_zones m zp) = {}" using nh that by (auto simp: held_def)
  qed (use b b' pz PageBuddy_type(2) in \<open>auto simp: boot_page_def\<close>)
  then have "mm_ok valid Z (m\<lparr>mem_map := pages(q := p')\<rparr>)" by (simp add: mm_ok_def)
  moreover have "boot_range valid Z (pages(q := p')) {q. valid q}"
  proof -
    have z: "page_zone ((pages(q := p')) r) = page_zone (pages r)" for r using pz by simp
    have "boot_page valid (page_zone (pages r)) r ((pages(q := p')) r)" if "valid r" for r
      using boot_rangeD(2) [OF bm, of r] that b' by auto
    then show ?thesis using bm unfolding boot_range_def z by blast
  qed
  ultimately show "marked_map valid Z m (pages(q := p'))" by (simp add: marked_map_def boot_map_def)
qed

lemma reserve_pages_result:
  "marked_map valid Z m pages \<Longrightarrow> \<exists>pages'. reserve_pages valid qs pages = Inr pages' \<and> marked_map valid Z m pages'"
proof (induction qs arbitrary: pages)
  case (Cons q qs)
  show ?case
  proof (cases "valid q")
    case True
    note mp = mark_page [OF Cons.prems True]
    show ?thesis using True mp(2) Cons.IH [OF mp(1)] by (simp add: SetPageReserved_def fun_upd_def)
  qed (use Cons in simp)
qed simp

lemma reserved_iter_result:
  assumes "marked_map valid Z m pages" "mt_cnt (mb_reserved mb) < 2 ^ 31" "i \<le> mt_cnt (mb_reserved mb)"
    "mt_cnt (mb_reserved mb) - i < n"
  shows "\<exists>pages'. reserved_iter n valid mb (of_nat i) pages = Inr pages' \<and> marked_map valid Z m pages'"
  using assms
proof (induction n arbitrary: i pages)
  case (Suc n)
  let ?c = "mt_cnt (mb_reserved mb)"
  have "i < 2 ^ 64" using Suc.prems(2,3) by simp
  then have ui: "unat (of_nat i :: u64) = i" by (simp add: unsigned_of_nat take_bit_nat_eq_self)
  show ?case
  proof (cases "i < ?c")
    case True
    let ?r = "mt_regions (mb_reserved mb) ! i"
    obtain pages1 where p1: "reserve_bootmem_region valid (rgn_base ?r) (rgn_base ?r + rgn_size ?r - 1) pages = Inr pages1"
      "marked_map valid Z m pages1"
      using reserve_pages_result [OF Suc.prems(1)] by (auto simp: reserve_bootmem_region_def)
    have "of_nat i + 1 = (of_nat (i + 1) :: u64)" by simp
    then show ?thesis using True p1 Suc.IH [OF p1(2) Suc.prems(2), of "i + 1"] Suc.prems(4) ui
      by (simp add: next_reserved_mem_region_def Let_def add.commute)
  next
    case False
    then show ?thesis using ui Suc.prems(1) by (simp add: next_reserved_mem_region_def)
  qed
qed simp

section \<open>The hand-over\<close>

lemma is_map_memory_attr:
  assumes "mt_ok (mb_memory mb)"
  shows "memblock_is_map_memory mb a \<longleftrightarrow> (\<exists>f n. attr_of (mb_memory mb) a = Some (f, n) \<and> f AND MEMBLOCK_NOMAP = 0)"
  using search_some(3) [OF assms, of a] search_none [OF assms, of a]
  by (auto simp: memblock_is_map_memory_def memblock_is_nomap_def split: option.splits)

lemma hotplug_nomap: "(f AND NOT MEMBLOCK_HOTPLUG) AND MEMBLOCK_NOMAP = f AND MEMBLOCK_NOMAP" for f :: memblock_flags
proof -
  have "NOT MEMBLOCK_HOTPLUG AND MEMBLOCK_NOMAP = MEMBLOCK_NOMAP" by (simp add: MEMBLOCK_HOTPLUG_def MEMBLOCK_NOMAP_def)
  then show ?thesis by (simp add: and.assoc)
qed

lemma pfn_valid_cong:
  assumes "mt_ok (mb_memory mb)" "mt_ok (mb_memory mb')"
    "\<And>a. attr_of (mb_memory mb') a = map_option (map_prod (\<lambda>f. f AND NOT MEMBLOCK_HOTPLUG) (\<lambda>n. n)) (attr_of (mb_memory mb) a)"
  shows "pfn_valid mb' = pfn_valid mb"
proof -
  have "memblock_is_map_memory mb' a = memblock_is_map_memory mb a" for a
    unfolding is_map_memory_attr [OF assms(1)] is_map_memory_attr [OF assms(2)] assms(3)
    by (cases "attr_of (mb_memory mb) a") (auto simp: hotplug_nomap)
  then show ?thesis by (simp add: pfn_valid_def fun_eq_iff)
qed

lemma free_frames_valid:
  assumes ok: "mt_ok (mb_memory mb)" and r: "ranges_of xs = free_mem_area NUMA_NO_NODE MEMBLOCK_NONE (mb_memory mb) (mb_reserved mb)"
    and q: "q \<in> ranges_frames xs"
  shows "pfn_valid mb q"
proof -
  obtain s e n where q: "q \<in> range_frames (s, e, n)" "(s, e, n) \<in> set xs" using q by (auto simp: ranges_frames_def)
  let ?a = "of_nat (q * 4096) :: phys_addr_t"
  have a: "?a \<in> ranges_of xs" "q * 4096 < 2 ^ 64"
    using range_frames_addr [OF q(1), of "q * 4096"] q(2) by (auto simp: ranges_of_def)
  then obtain i where i: "i < mt_cnt (mb_memory mb)" "?a \<in> rgn_range (mt_regions (mb_memory mb) ! i)"
    "\<not> mem_range_skip (eff_nid NUMA_NO_NODE) MEMBLOCK_NONE (mt_regions (mb_memory mb) ! i)"
    unfolding r free_mem_area_def by (auto simp: in_set_conv_nth mt_cnt_def)
  then have "memblock_is_map_memory mb ?a"
    unfolding is_map_memory_attr [OF ok] attr_of_nth [OF ok i(1,2)]
    by (simp add: mem_range_skip_def memblock_is_nomap_def MEMBLOCK_NONE_def)
  moreover have ad: "push_bit PAGE_SHIFT (of_nat q) = ?a" by (simp add: PAGE_SHIFT_def push_bit_eq_mult)
  moreover have "unat ?a = q * 4096" using a(2) by (simp add: unsigned_of_nat take_bit_nat_eq_self del: of_nat_mult)
  then have "unat (drop_bit PAGE_SHIFT ?a) = q" by (simp add: PAGE_SHIFT_def drop_bit_eq_div unat_div del: of_nat_mult)
  ultimately show ?thesis by (simp add: pfn_valid_def Let_def del: of_nat_mult)
qed

lemma end_of_DRAM_max:
  assumes "mt_sorted (mb_memory mb)" "r \<in> set (mt_regions (mb_memory mb))"
  shows "rgn_end r \<le> memblock_end_of_DRAM mb"
proof -
  obtain i where "i < mt_cnt (mb_memory mb)" "r = mt_regions (mb_memory mb) ! i"
    using assms(2) by (auto simp: in_set_conv_nth mt_cnt_def)
  then show ?thesis using mt_sorted_end [OF assms(1), of i "mt_cnt (mb_memory mb) - 1"]
    by (simp add: memblock_end_of_DRAM_def Let_def)
qed

lemma reset_managed:
  "zone_ok valid zp pages (fold reset_node_managed_pages ns zones zp) = zone_ok valid zp pages (zones zp)"
  "avail (fold reset_node_managed_pages ns zones zp) = avail (zones zp)"
  by (induction ns arbitrary: zones) (simp_all add: reset_node_managed_pages_def)

lemma reset_all_ok:
  "mm_ok valid Z (reset_all_zones_managed_pages ns m) = mm_ok valid Z m"
  "held Z (reset_all_zones_managed_pages ns m) = held Z m"
  "mem_map (reset_all_zones_managed_pages ns m) = mem_map m"
  by (simp_all add: reset_all_zones_managed_pages_def mm_ok_def held_def reset_managed)

text \<open>The memory of the boot allocator that is mapped and not reserved.\<close>

definition free_addresses :: "memblock \<Rightarrow> phys_addr_t set" where
  "free_addresses mb = {a. (\<exists>f n. attr_of (mb_memory mb) a = Some (f, n) \<and> f AND MEMBLOCK_NOMAP = 0) \<and>
     attr_of (mb_reserved mb) a = None}"

lemma free_addresses_hotplug:
  assumes "\<And>a. attr_of (mb_memory mb') a = map_option (map_prod (\<lambda>f. f AND NOT MEMBLOCK_HOTPLUG) (\<lambda>n. n)) (attr_of (mb_memory mb) a)"
    "mb_reserved mb' = mb_reserved mb"
  shows "free_addresses mb' = free_addresses mb"
  unfolding free_addresses_def assms by (auto simp: hotplug_nomap)

lemma region_end_bound:
  assumes ok: "mt_ok t" and r: "r \<in> set (mt_regions t)" and top: "\<And>a. attr_of t a \<noteq> None \<Longrightarrow> unat a + 4096 < 2 ^ 64"
  shows "unat (rgn_end r) + 4095 < 2 ^ 64"
proof (cases "rgn_base r < rgn_end r")
  case True
  let ?l = "rgn_end r - 1"
  obtain i where i: "i < mt_cnt t" "r = mt_regions t ! i" using r by (auto simp: in_set_conv_nth mt_cnt_def)
  have "rgn_end r \<noteq> 0" using True by auto
  then have e: "unat ?l = unat (rgn_end r) - 1" by (rule unat_minus_one)
  then have "?l \<in> rgn_range r" using True by (auto simp: rgn_range_def word_le_nat_alt word_less_nat_alt)
  then have "unat ?l + 4096 < 2 ^ 64" using top attr_of_nth [OF ok i(1)] i(2) by simp
  then show ?thesis using e True by (simp add: word_less_nat_alt)
next
  case False
  then have "dummy_only t" using ok r by (auto simp: mt_ok_def dest!: regions_from_ge)
  then show ?thesis using r by (auto elim!: dummy_onlyE)
qed

lemma clear_hotplug_all:
  assumes ok: "mt_ok (mb_memory mb)" and room: "mt_cnt (mb_memory mb) + 2 \<le> mt_max (mb_memory mb)"
    and top: "\<And>a. attr_of (mb_memory mb) a \<noteq> None \<Longrightarrow> unat a + 4096 < 2 ^ 64"
  obtains t where "memblock_clear_hotplug mb 0 (- 1) = Inr (mb\<lparr>mb_memory := t\<rparr>, 0)" "mt_ok t" "mt_max t = mt_max (mb_memory mb)"
    "\<And>a. attr_of t a = map_option (map_prod (\<lambda>f. f AND NOT MEMBLOCK_HOTPLUG) (\<lambda>n. n)) (attr_of (mb_memory mb) a)"
proof -
  have cap: "(- 1 :: phys_addr_t) = memblock_cap_size 0 (- 1)" by (simp add: memblock_cap_size_def PHYS_ADDR_MAX_def)
  obtain t where t: "memblock_setclr_flag mb 0 (- 1) False MEMBLOCK_HOTPLUG = Inr (mb\<lparr>mb_memory := t\<rparr>, 0)"
    and r: "reattributed (mb_memory mb) t 0 (- 1) (map_prod (\<lambda>f. if False then f OR MEMBLOCK_HOTPLUG else f AND NOT MEMBLOCK_HOTPLUG) (\<lambda>n. n))"
    using setclr_flag_fits [OF ok cap _ room, of False MEMBLOCK_HOTPLUG] by auto
  have "attr_of t a = map_option (map_prod (\<lambda>f. f AND NOT MEMBLOCK_HOTPLUG) (\<lambda>n. n)) (attr_of (mb_memory mb) a)" for a
  proof (cases "a = - 1")
    case True
    then have "attr_of (mb_memory mb) a = None" using top [of a]
      by (cases "attr_of (mb_memory mb) a") (simp_all add: unsigned_minus_1_eq_mask mask_eq_exp_minus_1)
    then show ?thesis using r True by (simp add: reattributed_def)
  next
    case False
    then have "a < - 1" by (metis word_order.not_eq_extremum)
    then show ?thesis using r by (simp add: reattributed_def)
  qed
  then show thesis using that t r by (simp add: memblock_clear_hotplug_def reattributed_def)
qed

lemma free_area_addresses:
  assumes ok: "mt_ok (mb_memory mb)"
  shows "free_mem_area NUMA_NO_NODE MEMBLOCK_NONE (mb_memory mb) (mb_reserved mb) = free_addresses mb"
proof (rule set_eqI)
  fix a
  have "(\<exists>r \<in> set (mt_regions (mb_memory mb)). \<not> mem_range_skip (eff_nid NUMA_NO_NODE) MEMBLOCK_NONE r \<and> a \<in> rgn_range r) \<longleftrightarrow>
    (\<exists>f n. attr_of (mb_memory mb) a = Some (f, n) \<and> f AND MEMBLOCK_NOMAP = 0)" (is "?L \<longleftrightarrow> ?R")
  proof
    assume ?L
    then obtain i where i: "i < mt_cnt (mb_memory mb)" "a \<in> rgn_range (mt_regions (mb_memory mb) ! i)"
      "\<not> mem_range_skip (eff_nid NUMA_NO_NODE) MEMBLOCK_NONE (mt_regions (mb_memory mb) ! i)"
      by (auto simp: in_set_conv_nth mt_cnt_def)
    then show ?R unfolding attr_of_nth [OF ok i(1,2)]
      by (simp add: mem_range_skip_def memblock_is_nomap_def MEMBLOCK_NONE_def)
  next
    assume R: ?R
    then obtain r where r: "r \<in> set (mt_regions (mb_memory mb))" "a \<in> rgn_range r"
      using attr_at_iff [of "mt_regions (mb_memory mb)" a] by (auto simp: attr_of_def)
    then obtain i where i: "i < mt_cnt (mb_memory mb)" "r = mt_regions (mb_memory mb) ! i"
      by (auto simp: in_set_conv_nth mt_cnt_def)
    have "\<not> mem_range_skip (eff_nid NUMA_NO_NODE) MEMBLOCK_NONE r"
      using R attr_of_nth [OF ok i(1)] r(2) i(2)
      by (simp add: mem_range_skip_def memblock_is_nomap_def MEMBLOCK_NONE_def eff_nid_def NUMA_NO_NODE_def MAX_NUMNODES_def movable_node_is_enabled_def)
    then show ?L using r by blast
  qed
  then show "a \<in> free_mem_area NUMA_NO_NODE MEMBLOCK_NONE (mb_memory mb) (mb_reserved mb) \<longleftrightarrow> a \<in> free_addresses mb"
    by (simp add: free_mem_area_def free_addresses_def attr_at_iff attr_of_def)
qed

text \<open>
  The hand-over is total, keeps the page allocator well-formed and adds to its free pages the
  frames of the free ranges, which it counts.
\<close>

lemma memblock_free_all_result:
  assumes ok: "types_ok mb" and room: "mt_cnt (mb_memory mb) + 2 \<le> mt_max (mb_memory mb)"
    and small: "mt_max (mb_memory mb) < 2 ^ 31" "mt_cnt (mb_reserved mb) < 2 ^ 31"
    and top: "\<And>a. attr_of (mb_memory mb) a \<noteq> None \<Longrightarrow> unat a + 4096 < 2 ^ 64"
    and mm: "mm_ok (pfn_valid mb) Z m" "boot_map (pfn_valid mb) Z (mem_map m)"
  obtains mb' m' xs where "memblock_free_all undef cpu online mb m = Inr (mb', m', of_nat (card (ranges_frames xs)))"
    "ranges_of xs = free_addresses mb" "ranges_sorted (<) xs"
    "mm_ok (pfn_valid mb) Z m'" "held Z m' = held Z m \<union> ranges_frames xs"
proof -
  let ?m = "reset_all_zones_managed_pages online m"
  obtain t where t: "memblock_clear_hotplug mb 0 (- 1) = Inr (mb\<lparr>mb_memory := t\<rparr>, 0)" "mt_ok t" "mt_max t = mt_max (mb_memory mb)"
    "\<And>a. attr_of t a = map_option (map_prod (\<lambda>f. f AND NOT MEMBLOCK_HOTPLUG) (\<lambda>n. n)) (attr_of (mb_memory mb) a)"
    using clear_hotplug_all [of mb] ok room top by (auto simp: types_ok_def)
  let ?mb = "mb\<lparr>mb_memory := t\<rparr>"
  have okm: "mt_ok (mb_memory mb)" and okr: "mt_ok (mb_reserved mb)" using ok by (simp_all add: types_ok_def)
  have v: "pfn_valid ?mb = pfn_valid mb" using pfn_valid_cong [OF okm, of ?mb] t by simp
  have "marked_map (pfn_valid mb) Z ?m (mem_map m)"
    using mm reset_all_ok(1) [of "pfn_valid mb" Z online m] by (simp add: marked_map_def reset_all_zones_managed_pages_def)
  then obtain pages where pages: "reserved_iter (mt_cnt (mb_reserved mb) + 1) (pfn_valid mb) ?mb 0 (mem_map ?m) = Inr pages"
    "marked_map (pfn_valid mb) Z ?m pages"
    using reserved_iter_result [of "pfn_valid mb" Z ?m "mem_map m" ?mb 0 "mt_cnt (mb_reserved mb) + 1"] small reset_all_ok(3)
    by auto
  have arr: "arrays_ok t (mb_reserved mb)"
    using t(2,3) okr small by (auto simp: arrays_ok_def mt_ok_sorted mt_ok_def)
  obtain xs where xs: "for_each_mem_range t (Some (mb_reserved mb)) NUMA_NO_NODE MEMBLOCK_NONE = Inr xs"
    "ranges_of xs = free_mem_area NUMA_NO_NODE MEMBLOCK_NONE t (mb_reserved mb)" "ranges_sorted (<) xs"
    using for_each_mem_range_exact [OF arr] by blast
  have val: "ranges_frames xs \<subseteq> {q. pfn_valid mb q}"
    using free_frames_valid [of ?mb xs] t(2) xs(2) v by auto
  let ?m1 = "?m\<lparr>mem_map := pages\<rparr>"
  have okm1: "mm_ok (pfn_valid mb) Z ?m1" and bm: "boot_range (pfn_valid mb) Z pages {q. pfn_valid mb q}"
    using pages(2) by (simp_all add: marked_map_def boot_map_def)
  have br: "boot_range (pfn_valid mb) Z (mem_map ?m1) (ranges_frames xs)" using boot_range_mono [OF bm val] by simp
  have lim: "\<forall>(s, e, n) \<in> set xs. e \<le> memblock_end_of_DRAM ?mb \<and> unat s + 4095 < 2 ^ 64"
  proof (clarify)
    fix s e n assume x: "(s, e, n) \<in> set xs"
    obtain r where r: "r \<in> set (mt_regions t)" "e \<le> rgn_end r"
      using mem_range_iter_inside [OF xs(1) [unfolded for_each_mem_range_def] x] by blast
    have "unat (rgn_end r) + 4095 < 2 ^ 64" by (rule region_end_bound [OF t(2) r(1)]) (use t(4) top in auto)
    moreover have "s \<le> e" using xs(3) x by (auto simp: ranges_sorted_def)
    ultimately show "e \<le> memblock_end_of_DRAM ?mb \<and> unat s + 4095 < 2 ^ 64"
      using end_of_DRAM_max [of ?mb r] mt_ok_sorted [OF t(2)] r by (auto simp: word_le_nat_alt)
  qed
  obtain m' where m': "free_ranges undef (pfn_valid mb) cpu ?mb xs ?m1 0 = Inr (m', 0 + of_nat (card (ranges_frames xs)))"
    "handed (pfn_valid mb) Z ?m1 (ranges_frames xs) m'"
    using free_ranges_result [OF okm1 br xs(3) lim] by blast
  have h: "held Z ?m1 = held Z m" using reset_all_ok(2) [of Z online m] by (simp add: held_def)
  have fa: "ranges_of xs = free_addresses mb"
    using xs(2) free_area_addresses [of ?mb] free_addresses_hotplug [of ?mb mb] t(2,4) by simp
  show thesis
  proof (rule that)
    show "memblock_free_all undef cpu online mb m = Inr (?mb, m', of_nat (card (ranges_frames xs)))"
      using t(1) pages(1) xs(1) m'(1) v by (simp add: memblock_free_all_def free_low_memory_core_early_def Let_def)
  qed (use fa xs(3) m'(2) h in \<open>auto simp: handed_def\<close>)
qed

end
