(* ===== verification/Numa.thy ===== *)
theory Numa
  imports Memblock_Api
begin

unbundle bit_operations_syntax

text \<open>
  The NUMA bring-up of \<open>arch/arm64/mm/numa.c\<close>: the distance table, the nodes found by the
  firmware parser, the registration of nodes; and the walks over the page-frame ranges of a
  node (\<open>for_each_mem_pfn_range\<close> and its users in \<open>mm/page_alloc.c\<close>).
\<close>

section \<open>Page-frame ranges\<close>

lemma next_mem_pfn_loop_result:
  "next_mem_pfn_loop t nid i = Some j \<Longrightarrow> i \<le> j \<and> j < mt_cnt t"
proof (induction t nid i rule: next_mem_pfn_loop.induct)
  case (1 t nid i)
  show ?case
    using 1(3) 1(1,2) by (subst (asm) next_mem_pfn_loop.simps) (fastforce simp: Let_def split: if_splits)
qed

lemma next_mem_pfn_range_result:
  "next_mem_pfn_range mb idx nid = (i, Some r) \<Longrightarrow> idx < i \<and> i < int (mt_cnt (mb_memory mb))"
  using next_mem_pfn_loop_result [of "mb_memory mb" nid "nat (idx + 1)"]
  by (fastforce simp: next_mem_pfn_range_def Let_def split: option.splits)

text \<open>\<open>for_each_mem_pfn_range\<close>: the ranges its body sees, from index \<open>idx\<close> on.\<close>

function mem_pfn_ranges :: "memblock \<Rightarrow> int \<Rightarrow> int \<Rightarrow> (u64 \<times> u64 \<times> int) list" where
  "mem_pfn_ranges mb nid idx =
     (case next_mem_pfn_range mb idx nid of
        (i, None) \<Rightarrow> []
      | (i, Some r) \<Rightarrow> r # mem_pfn_ranges mb nid i)"
  by pat_completeness auto
termination
  by (relation "measure (\<lambda>(mb, nid, idx). nat (int (mt_cnt (mb_memory mb)) - idx))")
    (auto dest!: next_mem_pfn_range_result [OF sym])

declare mem_pfn_ranges.simps [simp del]

definition for_each_mem_pfn_range :: "memblock \<Rightarrow> int \<Rightarrow> (u64 \<times> u64 \<times> int) list" where
  "for_each_mem_pfn_range mb nid = mem_pfn_ranges mb nid (- 1)"

definition get_pfn_range_for_nid :: "memblock \<Rightarrow> int \<Rightarrow> u64 \<times> u64" where
  "get_pfn_range_for_nid mb nid =
     (case fold (\<lambda>(s, e, _) (start_pfn, end_pfn). (min start_pfn s, max end_pfn e))
             (for_each_mem_pfn_range mb nid) (- 1, 0) of
        (start_pfn, end_pfn) \<Rightarrow> (if start_pfn = - 1 then 0 else start_pfn, end_pfn))"

definition find_min_pfn_for_node :: "memblock \<Rightarrow> int \<Rightarrow> u64" where
  "find_min_pfn_for_node mb nid =
     (let min_pfn = fold (\<lambda>r min_pfn. min min_pfn (fst r)) (for_each_mem_pfn_range mb nid) (- 1)
      in if min_pfn = - 1 then 0 else min_pfn)"

definition find_min_pfn_with_active_regions :: "memblock \<Rightarrow> u64" where
  "find_min_pfn_with_active_regions mb = find_min_pfn_for_node mb MAX_NUMNODES"

section \<open>Distances\<close>

text \<open>
  \<open>numa_distance\<close> is the physical address of the table and its bytes. A node mask is the set
  of its nodes; \<open>node_data\<close> maps a node to the address of its descriptor and the range it
  is set up with.
\<close>

record numa =
  numa_memblock :: memblock
  numa_nodes_parsed :: "int set"
  node_online_mask :: "int set"
  numa_distance_cnt :: int
  numa_distance :: "(phys_addr_t \<times> 8 word list) option"
  node_data :: "int \<rightharpoonup> phys_addr_t \<times> u64 \<times> u64"
  cpu_to_node_map :: "nat \<Rightarrow> int"
  node_to_cpumask_map :: "int \<Rightarrow> nat set"

definition LOCAL_DISTANCE :: int where "LOCAL_DISTANCE = 10"
definition REMOTE_DISTANCE :: int where "REMOTE_DISTANCE = 20"

definition node_distance :: "numa \<Rightarrow> int \<Rightarrow> int \<Rightarrow> int" where
  "node_distance s from to =
     (if from \<ge> numa_distance_cnt s \<or> to \<ge> numa_distance_cnt s
      then (if from = to then LOCAL_DISTANCE else REMOTE_DISTANCE)
      else case numa_distance s of
             None \<Rightarrow> 0
           | Some (_, d) \<Rightarrow> uint (d ! nat (from * numa_distance_cnt s + to)))"

definition numa_free_distance :: "numa \<Rightarrow> numa res" where
  "numa_free_distance s =
     (case numa_distance s of
        None \<Rightarrow> Inr s
      | Some (phys, _) \<Rightarrow>
          and_then (memblock_free (numa_memblock s) phys (of_int (numa_distance_cnt s * numa_distance_cnt s)))
            (\<lambda>(mb, _). Inr (s\<lparr>numa_memblock := mb, numa_distance_cnt := 0, numa_distance := None\<rparr>)))"

definition default_distances :: "nat \<Rightarrow> 8 word list" where
  "default_distances n = map (\<lambda>k. if k div n = k mod n then 10 else 20) [0 ..< n * n]"

definition numa_alloc_distance :: "int \<Rightarrow> u64 \<Rightarrow> numa \<Rightarrow> (numa \<times> int) res" where
  "numa_alloc_distance nr_possible_nodes max_pfn s =
     (let size = of_int (nr_possible_nodes * nr_possible_nodes) in
      and_then (memblock_find_in_range (numa_memblock s) 0 (PFN_PHYS max_pfn) size PAGE_SIZE)
        (\<lambda>phys.
           if phys = 0 then Inr (s, - ENOMEM)
           else
             and_then (memblock_reserve (numa_memblock s) phys size)
               (\<lambda>(mb, _).
                  Inr (s\<lparr>numa_memblock := mb, numa_distance_cnt := nr_possible_nodes,
                         numa_distance := Some (phys, default_distances (nat nr_possible_nodes))\<rparr>, 0))))"

definition numa_set_distance :: "int \<Rightarrow> int \<Rightarrow> int \<Rightarrow> numa \<Rightarrow> numa" where
  "numa_set_distance from to distance s =
     (case numa_distance s of
        None \<Rightarrow> s
      | Some (phys, d) \<Rightarrow>
          if from \<ge> numa_distance_cnt s \<or> to \<ge> numa_distance_cnt s \<or> from < 0 \<or> to < 0 then s
          else if uint (of_int distance :: 8 word) \<noteq> distance \<or> (from = to \<and> distance \<noteq> LOCAL_DISTANCE) then s
          else s\<lparr>numa_distance := Some (phys, d[nat (from * numa_distance_cnt s + to) := of_int distance])\<rparr>)"

section \<open>CPUs and nodes\<close>

definition numa_update_cpu :: "nat \<Rightarrow> bool \<Rightarrow> numa \<Rightarrow> numa" where
  "numa_update_cpu cpu remove s =
     (let nid = cpu_to_node_map s cpu;
          cpus = node_to_cpumask_map s nid
      in if nid = NUMA_NO_NODE then s
         else s\<lparr>node_to_cpumask_map :=
                (node_to_cpumask_map s)(nid := if remove then cpus - {cpu} else insert cpu cpus)\<rparr>)"

definition numa_add_cpu :: "nat \<Rightarrow> numa \<Rightarrow> numa" where
  "numa_add_cpu cpu s = numa_update_cpu cpu False s"

definition numa_remove_cpu :: "nat \<Rightarrow> numa \<Rightarrow> numa" where
  "numa_remove_cpu cpu s = numa_update_cpu cpu True s"

definition set_cpu_numa_node :: "nat \<Rightarrow> int \<Rightarrow> numa \<Rightarrow> numa" where
  "set_cpu_numa_node cpu node s =
     s\<lparr>cpu_to_node_map := (cpu_to_node_map s)(cpu := if node < 0 \<or> node \<ge> MAX_NUMNODES then 0 else node)\<rparr>"

definition numa_clear_node :: "nat \<Rightarrow> numa \<Rightarrow> numa" where
  "numa_clear_node cpu s = set_cpu_numa_node cpu NUMA_NO_NODE (numa_remove_cpu cpu s)"

section \<open>Registration of nodes\<close>

definition numa_add_memblk :: "int \<Rightarrow> u64 \<Rightarrow> u64 \<Rightarrow> numa \<Rightarrow> (numa \<times> int) res" where
  "numa_add_memblk nid start end s =
     and_then (memblock_set_node (numa_memblock s) start (end - start) MEMORY nid)
       (\<lambda>(mb, ret).
          if ret < 0 then Inr (s\<lparr>numa_memblock := mb\<rparr>, ret)
          else Inr (s\<lparr>numa_memblock := mb, numa_nodes_parsed := insert nid (numa_nodes_parsed s)\<rparr>, ret))"

text \<open>\<open>nd_size\<close> is the rounded size of \<open>pg_data_t\<close>.\<close>

definition setup_node_data :: "u64 \<Rightarrow> int \<Rightarrow> u64 \<Rightarrow> u64 \<Rightarrow> numa \<Rightarrow> numa res" where
  "setup_node_data nd_size nid start_pfn end_pfn s =
     and_then (memblock_phys_alloc_try_nid (numa_memblock s) nd_size SMP_CACHE_BYTES nid)
       (\<lambda>(mb, nd_pa).
          Inr (s\<lparr>numa_memblock := mb, node_data := (node_data s)(nid \<mapsto> (nd_pa, start_pfn, end_pfn - start_pfn))\<rparr>))"

text \<open>\<open>for_each_node_mask\<close> visits the nodes of a mask in ascending order.\<close>

definition nodes_of :: "int set \<Rightarrow> int list" where
  "nodes_of ns = filter (\<lambda>n. n \<in> ns) [0 .. MAX_NUMNODES - 1]"

definition node_set_online :: "int \<Rightarrow> numa \<Rightarrow> numa" where
  "node_set_online nid s = s\<lparr>node_online_mask := insert nid (node_online_mask s)\<rparr>"

primrec register_nodes :: "u64 \<Rightarrow> int list \<Rightarrow> numa \<Rightarrow> numa res" where
  "register_nodes nd_size [] s = Inr s"
| "register_nodes nd_size (nid # nids) s =
     (case get_pfn_range_for_nid (numa_memblock s) nid of
        (start_pfn, end_pfn) \<Rightarrow>
          and_then (setup_node_data nd_size nid start_pfn end_pfn s)
            (\<lambda>s1. register_nodes nd_size nids (node_set_online nid s1)))"

definition numa_register_nodes :: "u64 \<Rightarrow> numa \<Rightarrow> (numa \<times> int) res" where
  "numa_register_nodes nd_size s =
     (if \<exists>r \<in> set (mt_regions (mb_memory (numa_memblock s))). rgn_nid r = NUMA_NO_NODE \<or> rgn_nid r \<ge> MAX_NUMNODES
      then Inr (s, - EINVAL)
      else and_then (register_nodes nd_size (nodes_of (numa_nodes_parsed s)) s) (\<lambda>s1. Inr (s1, 0)))"

text \<open>\<open>mask_size\<close> is \<open>cpumask_size()\<close>.\<close>

primrec setup_node_to_cpumask_map :: "u64 \<Rightarrow> int list \<Rightarrow> numa \<Rightarrow> numa res" where
  "setup_node_to_cpumask_map mask_size [] s = Inr s"
| "setup_node_to_cpumask_map mask_size (node # nodes) s =
     and_then (memblock_alloc (numa_memblock s) mask_size SMP_CACHE_BYTES)
       (\<lambda>(mb, _). setup_node_to_cpumask_map mask_size nodes
          (s\<lparr>numa_memblock := mb, node_to_cpumask_map := (node_to_cpumask_map s)(node := {})\<rparr>))"

text \<open>\<open>init_func\<close> is the parser of the firmware tables, \<open>of_numa_init\<close> below.\<close>

definition numa_init ::
    "int \<Rightarrow> u64 \<Rightarrow> u64 \<Rightarrow> u64 \<Rightarrow> (numa \<Rightarrow> (numa \<times> int) res) \<Rightarrow> numa \<Rightarrow> (numa \<times> int) res" where
  "numa_init nr_possible_nodes max_pfn nd_size mask_size init_func s =
     (let fail = (\<lambda>s ret. and_then (numa_free_distance s) (\<lambda>s1. Inr (s1, ret))) in
      and_then (numa_alloc_distance nr_possible_nodes max_pfn (s\<lparr>numa_nodes_parsed := {}, node_online_mask := {}\<rparr>))
        (\<lambda>(s1, ret1).
           if ret1 < 0 then Inr (s1, ret1)
           else and_then (init_func s1)
             (\<lambda>(s2, ret2).
                if ret2 < 0 then fail s2 ret2
                else if numa_nodes_parsed s2 = {} then fail s2 (- EINVAL)
                else and_then (numa_register_nodes nd_size s2)
                  (\<lambda>(s3, ret3).
                     if ret3 < 0 then fail s3 ret3
                     else and_then (setup_node_to_cpumask_map mask_size [0 .. nr_possible_nodes - 1] s3)
                       (\<lambda>s4. Inr (s4, 0))))))"

section \<open>The device tree\<close>

text \<open>
  The parser sees the device tree through \<open>of_property_read_u32\<close> (an error code or the
  value of \<open>numa-node-id\<close>) and \<open>of_address_to_resource\<close> (the ranges of a memory node, with
  inclusive ends). The distance matrix is absent, without its property, or a list of words.
\<close>

type_synonym node_prop = "int + u32"

record device_tree =
  of_cpu_nodes :: "node_prop list"
  of_memory_nodes :: "(node_prop \<times> (u64 \<times> u64) list) list"
  of_distance_map :: "u32 list option option"

definition of_numa_parse_cpu_nodes :: "device_tree \<Rightarrow> numa \<Rightarrow> numa" where
  "of_numa_parse_cpu_nodes dt s =
     fold (\<lambda>p s. case p of
             Inl _ \<Rightarrow> s
           | Inr nid \<Rightarrow>
               if uint nid \<ge> MAX_NUMNODES then s
               else s\<lparr>numa_nodes_parsed := insert (uint nid) (numa_nodes_parsed s)\<rparr>)
       (of_cpu_nodes dt) s"

primrec add_memory_ranges :: "int \<Rightarrow> (u64 \<times> u64) list \<Rightarrow> numa \<Rightarrow> (numa \<times> int) res" where
  "add_memory_ranges nid [] s = Inr (s, 0)"
| "add_memory_ranges nid (r # rs) s =
     and_then (numa_add_memblk nid (fst r) (snd r + 1) s)
       (\<lambda>(s1, ret). if ret \<noteq> 0 then Inr (s1, ret) else add_memory_ranges nid rs s1)"

text \<open>
  \<open>nid\<close> is one local variable of the whole loop, so after an error other than \<open>-EINVAL\<close> the
  test against \<open>MAX_NUMNODES\<close> sees the value of an earlier memory node.
\<close>

primrec of_numa_parse_memory_nodes :: "(node_prop \<times> (u64 \<times> u64) list) list \<Rightarrow> u32 \<Rightarrow> numa \<Rightarrow> (numa \<times> int) res" where
  "of_numa_parse_memory_nodes [] nid s = Inr (s, 0)"
| "of_numa_parse_memory_nodes (np # nps) nid s =
     (case fst np of
        Inl r \<Rightarrow>
          if r = - EINVAL then of_numa_parse_memory_nodes nps nid s
          else Inr (s, if uint nid \<ge> MAX_NUMNODES then - EINVAL else r)
      | Inr nid' \<Rightarrow>
          if uint nid' \<ge> MAX_NUMNODES then Inr (s, - EINVAL)
          else if snd np = [] then Inr (s, - EINVAL)
          else
            and_then (add_memory_ranges (uint nid') (snd np) s)
              (\<lambda>(s1, r). if r \<noteq> 0 then Inr (s1, r) else of_numa_parse_memory_nodes nps nid' s1))"

fun parse_distances :: "u32 list \<Rightarrow> numa \<Rightarrow> numa \<times> int" where
  "parse_distances (nodea # nodeb # distance # ws) s =
     (if (nodea = nodeb \<and> uint distance \<noteq> LOCAL_DISTANCE) \<or> (nodea \<noteq> nodeb \<and> uint distance \<le> LOCAL_DISTANCE)
      then (s, - EINVAL)
      else
        let s1 = numa_set_distance (sint nodea) (sint nodeb) (sint distance) s;
            s2 = (if nodeb > nodea then numa_set_distance (sint nodeb) (sint nodea) (sint distance) s1 else s1)
        in parse_distances ws s2)"
| "parse_distances ws s = (s, 0)"

definition of_numa_parse_distance_map :: "u32 list option option \<Rightarrow> numa \<Rightarrow> numa \<times> int" where
  "of_numa_parse_distance_map dm s =
     (case dm of
        None \<Rightarrow> (s, 0)
      | Some None \<Rightarrow> (s, - EINVAL)
      | Some (Some ws) \<Rightarrow> if ws = [] then (s, - EINVAL) else parse_distances ws s)"

text \<open>\<open>undef\<close> is the initial content of the local variable \<open>nid\<close>.\<close>

definition of_numa_init :: "u32 \<Rightarrow> device_tree \<Rightarrow> numa \<Rightarrow> (numa \<times> int) res" where
  "of_numa_init undef dt s =
     and_then (of_numa_parse_memory_nodes (of_memory_nodes dt) undef (of_numa_parse_cpu_nodes dt s))
       (\<lambda>(s1, r). if r \<noteq> 0 then Inr (s1, r) else Inr (of_numa_parse_distance_map (of_distance_map dt) s1))"

definition arm64_numa_init :: "u32 \<Rightarrow> u64 \<Rightarrow> u64 \<Rightarrow> u64 \<Rightarrow> device_tree \<Rightarrow> numa \<Rightarrow> (numa \<times> int) res" where
  "arm64_numa_init undef max_pfn nd_size mask_size dt s =
     numa_init MAX_NUMNODES max_pfn nd_size mask_size (of_numa_init undef dt) s"

section \<open>The ranges of a node\<close>

definition pfn_wanted :: "int \<Rightarrow> memblock_region \<Rightarrow> bool" where
  "pfn_wanted nid r \<longleftrightarrow> PFN_UP (rgn_base r) < PFN_DOWN (rgn_end r) \<and> (nid = MAX_NUMNODES \<or> nid = rgn_nid r)"

definition pfn_range :: "memblock_region \<Rightarrow> u64 \<times> u64 \<times> int" where
  "pfn_range r = (PFN_UP (rgn_base r), PFN_DOWN (rgn_end r), rgn_nid r)"

lemma next_mem_pfn_loop_step:
  "next_mem_pfn_loop t nid i =
     (if i < mt_cnt t then if pfn_wanted nid (mt_regions t ! i) then Some i else next_mem_pfn_loop t nid (Suc i) else None)"
  by (subst next_mem_pfn_loop.simps) (auto simp: Let_def pfn_wanted_def not_less)

lemma next_mem_pfn_loop_filter:
  "filter (pfn_wanted nid) (drop i (mt_regions t)) =
     (case next_mem_pfn_loop t nid i of
        None \<Rightarrow> []
      | Some j \<Rightarrow> mt_regions t ! j # filter (pfn_wanted nid) (drop (Suc j) (mt_regions t)))"
proof (induction "mt_cnt t - i" arbitrary: i)
  case 0
  then show ?case by (subst next_mem_pfn_loop_step) (simp add: mt_cnt_def)
next
  case (Suc n)
  then have i: "i < length (mt_regions t)" by (simp add: mt_cnt_def)
  then show ?case using Suc(1) [of "Suc i"] Suc(2)
    by (subst next_mem_pfn_loop_step) (simp add: mt_cnt_def Cons_nth_drop_Suc [OF i, symmetric])
qed

lemma mem_pfn_ranges_filter:
  "mem_pfn_ranges mb nid idx = map pfn_range (filter (pfn_wanted nid) (drop (nat (idx + 1)) (mt_regions (mb_memory mb))))"
proof (induction mb nid idx rule: mem_pfn_ranges.induct)
  case (1 mb nid idx)
  show ?case
  proof (cases "next_mem_pfn_loop (mb_memory mb) nid (nat (idx + 1))")
    case None
    then show ?thesis
      by (subst mem_pfn_ranges.simps, subst next_mem_pfn_loop_filter) (simp add: next_mem_pfn_range_def)
  next
    case (Some j)
    let ?r = "mt_regions (mb_memory mb) ! j"
    have n: "next_mem_pfn_range mb idx nid = (int j, Some (pfn_range ?r))"
      using Some by (simp add: next_mem_pfn_range_def pfn_range_def Let_def)
    have "nat (1 + int j) = Suc j" by simp
    then show ?thesis using 1 [OF n [symmetric] refl] n Some
      by (subst mem_pfn_ranges.simps, subst next_mem_pfn_loop_filter) (simp add: add.commute)
  qed
qed

text \<open>The walk visits the wanted regions in order, whole pages only.\<close>

lemma for_each_mem_pfn_range_eq:
  "for_each_mem_pfn_range mb nid = map pfn_range (filter (pfn_wanted nid) (mt_regions (mb_memory mb)))"
  by (simp add: for_each_mem_pfn_range_def mem_pfn_ranges_filter)

lemma fold_pfn_bounds:
  fixes s0 e0 a b :: u64
  assumes "fold (\<lambda>(s, e, _) (a, b). (min a s, max b e)) xs (s0, e0) = (a, b)"
  shows "(\<forall>x \<in> set xs. a \<le> fst x \<and> fst (snd x) \<le> b) \<and> a \<le> s0 \<and> e0 \<le> b \<and>
    (a = s0 \<or> a \<in> fst ` set xs) \<and> (b = e0 \<or> b \<in> (fst \<circ> snd) ` set xs)"
  using assms
proof (induction xs arbitrary: s0 e0)
  case (Cons x xs)
  obtain s e n where x: "x = (s, e, n)" by (cases x)
  have "fold (\<lambda>(s, e, _) (a, b). (min a s, max b e)) xs (min s0 s, max e0 e) = (a, b)" using Cons.prems x by simp
  from Cons.IH [OF this] show ?case unfolding x by (auto simp: min_def max_def split: if_splits)
qed simp

text \<open>The bounds of a node: they enclose all its ranges and are attained; both are zero for a node without memory.\<close>

lemma get_pfn_range_bounds:
  assumes "get_pfn_range_for_nid mb nid = (s, e)"
  shows "\<And>x. x \<in> set (for_each_mem_pfn_range mb nid) \<Longrightarrow> s \<le> fst x \<and> fst (snd x) \<le> e"
    and "for_each_mem_pfn_range mb nid = [] \<Longrightarrow> s = 0 \<and> e = 0"
    and "for_each_mem_pfn_range mb nid \<noteq> [] \<Longrightarrow>
      s \<in> fst ` set (for_each_mem_pfn_range mb nid) \<and> e \<in> (fst \<circ> snd) ` set (for_each_mem_pfn_range mb nid)"
proof -
  let ?xs = "for_each_mem_pfn_range mb nid"
  obtain a b where ab: "fold (\<lambda>(s, e, _) (a, b). (min a s, max b e)) ?xs (- 1, 0) = (a, b)"
    by (cases "fold (\<lambda>(s, e, _) (a, b). (min a s, max b e)) ?xs (- 1, 0)")
  note fb = fold_pfn_bounds [OF ab, THEN conjunct1, rule_format] fold_pfn_bounds [OF ab, THEN conjunct2]
  have se: "s = (if a = - 1 then 0 else a)" "e = b" using assms ab by (auto simp: get_pfn_range_for_nid_def)
  have lt: "fst x < fst (snd x)" if "x \<in> set ?xs" for x
    using that by (auto simp: for_each_mem_pfn_range_eq pfn_range_def pfn_wanted_def)
  show "s \<le> fst x \<and> fst (snd x) \<le> e" if "x \<in> set ?xs" for x
    using fb(1) [OF that] se by (cases "a = - 1") auto
  show "s = 0 \<and> e = 0" if "?xs = []" using ab that se by simp
  assume ne: "?xs \<noteq> []"
  let ?x = "hd ?xs"
  have x: "?x \<in> set ?xs" using ne by simp
  have ax: "a < fst (snd ?x)" by (rule order_le_less_trans [OF conjunct1 [OF fb(1) [OF x]] lt [OF x]])
  then have "a \<noteq> - 1" using word_order.extremum_strict [of "fst (snd ?x)"] by auto
  moreover have "a < b" by (rule order_less_le_trans [OF ax conjunct2 [OF fb(1) [OF x]]])
  then have "b \<noteq> 0" by auto
  ultimately show "s \<in> fst ` set ?xs \<and> e \<in> (fst \<circ> snd) ` set ?xs" using fb(2) se by simp
qed

section \<open>The distance table\<close>

text \<open>A table has an entry for every pair of nodes; a node is at \<open>LOCAL_DISTANCE\<close> from itself.\<close>

definition distance_ok :: "numa \<Rightarrow> bool" where
  "distance_ok s \<longleftrightarrow>
     (case numa_distance s of
        None \<Rightarrow> numa_distance_cnt s = 0
      | Some (_, d) \<Rightarrow> 0 \<le> numa_distance_cnt s \<and> length d = nat (numa_distance_cnt s * numa_distance_cnt s)) \<and>
     (\<forall>n \<ge> 0. node_distance s n n = LOCAL_DISTANCE)"

lemma table_index:
  fixes i j n :: int
  assumes "0 \<le> i" "i < n" "0 \<le> j" "j < n"
  shows "nat (i * n + j) < nat (n * n)" "0 \<le> i * n + j"
proof -
  have "i * n + n \<le> n * n" using mult_right_mono [of "i + 1" n n] assms by (simp add: algebra_simps)
  then show "nat (i * n + j) < nat (n * n)" using assms by (simp add: nat_less_eq_zless)
  show "0 \<le> i * n + j" using assms by simp
qed

lemma table_index_inj:
  fixes i j k l n :: int
  assumes "0 \<le> i" "i < n" "0 \<le> j" "j < n" "0 \<le> k" "k < n" "0 \<le> l" "l < n" "i * n + j = k * n + l"
  shows "i = k \<and> j = l"
proof -
  have "(i * n + j) div n = i" "(k * n + l) div n = k" using assms(1-8) by (simp_all add: div_add1_eq)
  then have "i = k" using assms(9) by simp
  then show ?thesis using assms(9) by simp
qed

text \<open>What \<open>numa_set_distance\<close> accepts is read back; all other distances stay.\<close>

definition distance_accepted :: "numa \<Rightarrow> int \<Rightarrow> int \<Rightarrow> int \<Rightarrow> bool" where
  "distance_accepted s from to distance \<longleftrightarrow>
     numa_distance s \<noteq> None \<and> 0 \<le> from \<and> from < numa_distance_cnt s \<and> 0 \<le> to \<and> to < numa_distance_cnt s \<and>
     0 \<le> distance \<and> distance < 256 \<and> (from = to \<longrightarrow> distance = LOCAL_DISTANCE)"

lemma byte_exact: "uint (of_int x :: 8 word) = x \<longleftrightarrow> 0 \<le> x \<and> x < 256"
  by (simp add: uint_word_of_int_eq take_bit_int_eq_self_iff)

lemma set_distance_lookup:
  assumes ok: "distance_ok s" and ij: "0 \<le> i" "0 \<le> j"
  shows "node_distance (numa_set_distance from to distance s) i j =
    (if distance_accepted s from to distance \<and> i = from \<and> j = to then distance else node_distance s i j)"
proof (cases "distance_accepted s from to distance")
  case True
  then obtain phys d where d: "numa_distance s = Some (phys, d)" by (auto simp: distance_accepted_def)
  let ?n = "numa_distance_cnt s" and ?k = "nat (from * numa_distance_cnt s + to)"
  have r: "0 \<le> from" "from < ?n" "0 \<le> to" "to < ?n" "uint (of_int distance :: 8 word) = distance" "from = to \<longrightarrow> distance = LOCAL_DISTANCE"
    using True by (auto simp: distance_accepted_def byte_exact)
  then have new: "numa_set_distance from to distance s = s\<lparr>numa_distance := Some (phys, d[?k := of_int distance])\<rparr>"
    using d by (auto simp: numa_set_distance_def)
  show ?thesis
  proof (cases "i < ?n \<and> j < ?n")
    case False
    then have "\<not> (i = from \<and> j = to)" using r by auto
    then show ?thesis using False new by (auto simp: node_distance_def)
  next
    case t: True
    have len: "length d = nat (?n * ?n)" using ok d by (simp add: distance_ok_def)
    have k: "?k < length d" using table_index(1) [OF r(1-4)] len by simp
    have lt: "i < ?n" "j < ?n" using t by auto
    have "nat (i * ?n + j) = ?k \<longleftrightarrow> i * ?n + j = from * ?n + to"
      by (rule eq_nat_nat_iff [OF table_index(2) [OF ij(1) lt(1) ij(2) lt(2)] table_index(2) [OF r(1-4)]])
    also have "\<dots> \<longleftrightarrow> i = from \<and> j = to" using table_index_inj [OF ij(1) lt(1) ij(2) lt(2) r(1-4)] by blast
    finally have ix: "nat (i * ?n + j) = ?k \<longleftrightarrow> i = from \<and> j = to" .
    have "node_distance (numa_set_distance from to distance s) i j = uint (d[?k := of_int distance] ! nat (i * ?n + j))"
      unfolding new node_distance_def using lt by simp
    moreover have "node_distance s i j = uint (d ! nat (i * ?n + j))" unfolding node_distance_def d using lt by simp
    ultimately show ?thesis
    proof (cases "i = from \<and> j = to")
      case True
      then show ?thesis
        using \<open>node_distance (numa_set_distance from to distance s) i j = _\<close> k r(5) \<open>distance_accepted s from to distance\<close> by simp
    next
      case False
      then have "?k \<noteq> nat (i * ?n + j)" using ix by metis
      then show ?thesis
        using False \<open>node_distance (numa_set_distance from to distance s) i j = _\<close> \<open>node_distance s i j = _\<close>
        by (simp only: nth_list_update_neq if_False simp_thms)
    qed
  qed
next
  case False
  then have "numa_set_distance from to distance s = s"
    by (auto simp: numa_set_distance_def distance_accepted_def byte_exact split: option.splits)
  then show ?thesis using False by simp
qed

lemma set_distance_ok: "distance_ok s \<Longrightarrow> distance_ok (numa_set_distance from to distance s)"
proof -
  assume ok: "distance_ok s"
  have "node_distance (numa_set_distance from to distance s) n n = LOCAL_DISTANCE" if "0 \<le> n" for n
    unfolding set_distance_lookup [OF ok that that] using ok that by (auto simp: distance_ok_def distance_accepted_def)
  then show ?thesis using ok by (auto simp: distance_ok_def numa_set_distance_def split: option.splits)
qed

end
