(* ===== verification/Page_Init.thy ===== *)
theory Page_Init
  imports Handover Numa
begin

unbundle bit_operations_syntax

text \<open>
  The set-up of the page allocator (\<open>mm/page_alloc.c\<close>): the sizes of the zones of every node,
  the initial page descriptors, the per-CPU page lists and the zonelists.
\<close>

section \<open>Per-CPU page lists\<close>

definition pageset_init :: per_cpu_pages where
  "pageset_init = \<lparr>pcp_count = 0, pcp_high = 0, pcp_batch = 0, pcp_lists = []\<rparr>"

definition pageset_update :: "nat \<Rightarrow> nat \<Rightarrow> per_cpu_pages \<Rightarrow> per_cpu_pages" where
  "pageset_update high batch pcp =
     (let pcp1 = pcp\<lparr>pcp_batch := 1\<rparr>;
          pcp2 = pcp1\<lparr>pcp_high := int high\<rparr>
      in pcp2\<lparr>pcp_batch := batch\<rparr>)"

definition pageset_set_batch :: "nat \<Rightarrow> per_cpu_pages \<Rightarrow> per_cpu_pages" where
  "pageset_set_batch batch pcp = pageset_update (6 * batch) (max 1 (1 * batch)) pcp"

definition setup_pageset :: "nat \<Rightarrow> per_cpu_pages" where
  "setup_pageset batch = pageset_set_batch batch pageset_init"

fun ilog2 :: "nat \<Rightarrow> nat" where
  "ilog2 n = (if n \<le> 1 then 0 else 1 + ilog2 (n div 2))"

declare ilog2.simps [simp del]

definition rounddown_pow_of_two :: "nat \<Rightarrow> nat" where
  "rounddown_pow_of_two n = 2 ^ ilog2 n"

text \<open>\<open>batch\<close> is a C \<open>int\<close>; the product with \<open>PAGE_SIZE\<close> is unsigned.\<close>

definition zone_batchsize :: "zone \<Rightarrow> nat" where
  "zone_batchsize z =
     (let b0 = signed_take_bit 31 (managed_pages z div 1024);
          b1 = (if uint (of_int b0 * PAGE_SIZE :: u64) > 1024 * 1024 then (1024 * 1024) div 4096 else b0);
          b2 = b1 div 4;
          b3 = (if b2 < 1 then 1 else b2)
      in rounddown_pow_of_two (nat (b3 + b3 div 2)) - 1)"

definition pageset_set_high_and_batch :: "zone \<Rightarrow> per_cpu_pages \<Rightarrow> per_cpu_pages" where
  "pageset_set_high_and_batch z pcp = pageset_set_batch (zone_batchsize z) pcp"

definition zone_pageset_init :: "zone \<Rightarrow> per_cpu_pages" where
  "zone_pageset_init z = pageset_set_high_and_batch z pageset_init"

definition setup_zone_pageset :: "zone \<Rightarrow> zone" where
  "setup_zone_pageset z = z\<lparr>zone_pageset := (\<lambda>cpu. zone_pageset_init z)\<rparr>"

text \<open>\<open>for_each_populated_zone\<close> visits the zones of the online nodes that have memory.\<close>

definition setup_per_cpu_pageset :: "u64 list \<Rightarrow> mm \<Rightarrow> mm" where
  "setup_per_cpu_pageset online m =
     m\<lparr>node_zones := (\<lambda>zp. let z = node_zones m zp in
        if fst zp \<in> set online \<and> present_pages z \<noteq> 0 then setup_zone_pageset z else z)\<rparr>"

section \<open>Zonelists\<close>

definition MAX_NR_ZONES :: nat where "MAX_NR_ZONES = 3"
definition INT_MAX :: int where "INT_MAX = 2 ^ 31 - 1"
definition PENALTY_FOR_NODE_WITH_CPUS :: int where "PENALTY_FOR_NODE_WITH_CPUS = 1"

definition zone_at :: "int \<Rightarrow> nat \<Rightarrow> zone_ptr" where
  "zone_at nid j = (of_int nid, of_nat j)"

definition managed_zone :: "zone \<Rightarrow> bool" where
  "managed_zone z \<longleftrightarrow> managed_pages z \<noteq> 0"

definition build_zonerefs_node :: "(zone_ptr \<Rightarrow> zone) \<Rightarrow> int \<Rightarrow> zonelist" where
  "build_zonerefs_node zones nid =
     map (\<lambda>j. (zone_at nid j, of_nat j)) (filter (\<lambda>j. managed_zone (zones (zone_at nid j))) (rev [0 ..< MAX_NR_ZONES]))"

text \<open>\<open>find_next_best_node\<close>: the score of a node that has not been used yet, and the choice.\<close>

definition node_score :: "numa \<Rightarrow> int \<Rightarrow> (int \<Rightarrow> int) \<Rightarrow> int \<Rightarrow> int \<Rightarrow> int" where
  "node_score s nr_online node_load node n =
     (node_distance s node n + (if n < node then 1 else 0) +
      (if node_to_cpumask_map s n \<noteq> {} then PENALTY_FOR_NODE_WITH_CPUS else 0)) *
     (nr_online * MAX_NUMNODES) + node_load n"

definition find_next_best_node ::
    "numa \<Rightarrow> int \<Rightarrow> (int \<Rightarrow> int) \<Rightarrow> int list \<Rightarrow> int \<Rightarrow> int set \<Rightarrow> int \<times> int set" where
  "find_next_best_node s nr_online node_load online node used =
     (if node \<notin> used then (node, insert node used)
      else
        case fold (\<lambda>n (min_val, best_node).
               if n \<in> used then (min_val, best_node)
               else let val = node_score s nr_online node_load node n
                    in if val < min_val then (val, n) else (min_val, best_node))
             online (INT_MAX, NUMA_NO_NODE) of
          (min_val, best_node) \<Rightarrow>
            (best_node, if best_node \<ge> 0 then insert best_node used else used))"

text \<open>The loop of \<open>build_zonelists\<close> that orders the nodes; every round uses up a node.\<close>

primrec order_nodes ::
    "nat \<Rightarrow> numa \<Rightarrow> int \<Rightarrow> int list \<Rightarrow> int \<Rightarrow> int \<Rightarrow> int \<Rightarrow> int set \<Rightarrow> (int \<Rightarrow> int) \<Rightarrow> int list \<Rightarrow>
     (int list \<times> (int \<Rightarrow> int)) res" where
  "order_nodes 0 s nr_online online local prev_node load used node_load node_order = Inl Out_of_fuel"
| "order_nodes (Suc k) s nr_online online local prev_node load used node_load node_order =
     (case find_next_best_node s nr_online node_load online local used of
        (node, used1) \<Rightarrow>
          if node < 0 then Inr (node_order, node_load)
          else
            let node_load1 = (if node_distance s local node \<noteq> node_distance s local prev_node
                              then node_load(node := load) else node_load)
            in order_nodes k s nr_online online local node (load - 1) used1 node_load1 (node_order @ [node]))"

declare order_nodes.simps [simp del]

definition build_zonelists_in_node_order :: "int \<Rightarrow> int list \<Rightarrow> mm \<Rightarrow> mm" where
  "build_zonelists_in_node_order nid node_order m =
     m\<lparr>node_zonelists := (node_zonelists m)(of_int nid :=
        (node_zonelists m (of_int nid))(ZONELIST_FALLBACK := concat (map (build_zonerefs_node (node_zones m)) node_order)))\<rparr>"

definition build_thisnode_zonelists :: "int \<Rightarrow> mm \<Rightarrow> mm" where
  "build_thisnode_zonelists nid m =
     m\<lparr>node_zonelists := (node_zonelists m)(of_int nid :=
        (node_zonelists m (of_int nid))(ZONELIST_NOFALLBACK := build_zonerefs_node (node_zones m) nid))\<rparr>"

definition build_zonelists :: "numa \<Rightarrow> int list \<Rightarrow> int \<Rightarrow> mm \<times> (int \<Rightarrow> int) \<Rightarrow> (mm \<times> (int \<Rightarrow> int)) res" where
  "build_zonelists s online nid = (\<lambda>(m, node_load).
     and_then (order_nodes (length online + 2) s (int (nr_online_nodes m)) online nid nid (int (nr_online_nodes m)) {} node_load [])
       (\<lambda>(node_order, node_load1).
          Inr (build_thisnode_zonelists nid (build_zonelists_in_node_order nid node_order m), node_load1)))"

primrec build_nodes :: "numa \<Rightarrow> int list \<Rightarrow> int list \<Rightarrow> mm \<times> (int \<Rightarrow> int) \<Rightarrow> (mm \<times> (int \<Rightarrow> int)) res" where
  "build_nodes s online [] st = Inr st"
| "build_nodes s online (nid # nids) st = and_then (build_zonelists s online nid st) (build_nodes s online nids)"

text \<open>
  At boot every zone uses the one \<open>boot_pageset\<close>. With its limits (\<open>high\<close> 0, \<open>batch\<close> 1) its list is
  empty between two operations, so each zone has a copy of its own here.
\<close>

definition build_all_zonelists :: "numa \<Rightarrow> int list \<Rightarrow> mm \<Rightarrow> mm res" where
  "build_all_zonelists s online m =
     and_then (build_nodes s online online (m, \<lambda>_. 0))
       (\<lambda>(m1, _). Inr (m1\<lparr>node_zones := (\<lambda>zp. (node_zones m1 zp)\<lparr>zone_pageset := (\<lambda>cpu. setup_pageset 0)\<rparr>)\<rparr>))"

section \<open>Descriptors\<close>

definition zeroed_page :: page where
  "zeroed_page =
     \<lparr>pg_flags = 0, pg_mapping = 0, pg_private = 0, pg_head = None, pg_compound_order = 0,
      pg_compound_mapcount = 0, pg_type = 0, pg_count = 0\<rparr>"

definition init_page_count :: "page \<Rightarrow> page" where
  "init_page_count p = set_page_count 1 p"

definition init_single_page :: "nat \<Rightarrow> int \<Rightarrow> page" where
  "init_single_page zone nid =
     (page_mapcount_reset (init_page_count (set_page_links (of_nat zone) (of_int nid) zeroed_page)))\<lparr>pg_head := None\<rparr>"

definition memmap_init_zone :: "u64 \<Rightarrow> int \<Rightarrow> nat \<Rightarrow> u64 \<Rightarrow> pagemap \<Rightarrow> pagemap" where
  "memmap_init_zone sz nid zone start_pfn pages =
     fold (\<lambda>pfn ps. ps(pfn := init_single_page zone nid)) [unat start_pfn ..< unat (start_pfn + sz)] pages"

text \<open>\<open>zero_pfn_range\<close> skips a whole page block when its first page is not memory.\<close>

function zero_pfn_range :: "(nat \<Rightarrow> bool) \<Rightarrow> nat \<Rightarrow> nat \<Rightarrow> pagemap \<Rightarrow> u64 \<Rightarrow> pagemap \<times> u64" where
  "zero_pfn_range valid pfn epfn pages pgcnt =
     (if pfn < epfn then
        let block = pfn - pfn mod 2 ^ (MAX_ORDER - 1) in
        if \<not> valid block then zero_pfn_range valid (block + 2 ^ (MAX_ORDER - 1)) epfn pages pgcnt
        else zero_pfn_range valid (pfn + 1) epfn (pages(pfn := zeroed_page)) (pgcnt + 1)
      else (pages, pgcnt))"
  by pat_completeness auto
termination
proof (relation "measure (\<lambda>(valid, pfn, epfn, pages, pgcnt). epfn - pfn)")
  fix pfn epfn :: nat and valid :: "nat \<Rightarrow> bool" and pages :: pagemap and pgcnt :: u64 and x
  assume "pfn < epfn" "x = pfn - pfn mod 2 ^ (MAX_ORDER - 1)"
  moreover have "pfn mod 2 ^ (MAX_ORDER - 1) < 2 ^ (MAX_ORDER - 1)" "pfn mod 2 ^ (MAX_ORDER - 1) \<le> pfn" by simp_all
  ultimately have "pfn < x + 2 ^ (MAX_ORDER - 1)" by linarith
  with \<open>pfn < epfn\<close> show "((valid, x + 2 ^ (MAX_ORDER - 1), epfn, pages, pgcnt), valid, pfn, epfn, pages, pgcnt)
      \<in> measure (\<lambda>(valid, pfn, epfn, pages, pgcnt). epfn - pfn)" by simp
qed auto

declare zero_pfn_range.simps [simp del]

primrec zero_gaps :: "(nat \<Rightarrow> bool) \<Rightarrow> mem_range list \<Rightarrow> phys_addr_t \<Rightarrow> pagemap \<Rightarrow> u64 \<Rightarrow> pagemap \<times> u64 \<times> phys_addr_t" where
  "zero_gaps valid [] nxt pages pgcnt = (pages, pgcnt, nxt)"
| "zero_gaps valid (r # rs) nxt pages pgcnt =
     (case r of (start, end, nid) \<Rightarrow>
        case (if nxt < start then zero_pfn_range valid (unat (PFN_DOWN nxt)) (unat (PFN_UP start)) pages pgcnt
              else (pages, pgcnt)) of
          (pages1, pgcnt1) \<Rightarrow> zero_gaps valid rs end pages1 pgcnt1)"

definition zero_resv_unavail :: "memblock \<Rightarrow> u64 \<Rightarrow> pagemap \<Rightarrow> pagemap res" where
  "zero_resv_unavail mb max_pfn pages =
     and_then (for_each_mem_range (mb_memory mb) None NUMA_NO_NODE MEMBLOCK_NONE)
       (\<lambda>ranges. case zero_gaps (pfn_valid mb) ranges 0 pages 0 of
          (pages1, pgcnt, nxt) \<Rightarrow>
            Inr (fst (zero_pfn_range (pfn_valid mb) (unat (PFN_DOWN nxt)) (unat max_pfn) pages1 pgcnt)))"

section \<open>Sizes of zones and nodes\<close>

text \<open>
  \<open>zone_range\<close> holds \<open>arch_zone_lowest_possible_pfn\<close> and \<open>arch_zone_highest_possible_pfn\<close>.
  \<open>zone_movable_pfn\<close> stays zero, so \<open>adjust_zone_range_for_zone_movable\<close> does nothing.
\<close>

type_synonym zone_range = "nat \<Rightarrow> u64 \<times> u64"

record pglist_data =
  node_start_pfn :: u64
  node_spanned_pages :: u64
  node_present_pages :: u64

definition zone_spanned_pages_in_node :: "zone_range \<Rightarrow> nat \<Rightarrow> u64 \<Rightarrow> u64 \<Rightarrow> u64 \<times> u64" where
  "zone_spanned_pages_in_node arch zone_type node_start node_end =
     (if node_start = 0 \<and> node_end = 0 then (0, 0)
      else
        case arch zone_type of (lo, hi) \<Rightarrow>
          if hi < node_start \<or> lo > node_end then (0, lo)
          else let zone_end = min hi node_end; zone_start = max lo node_start in (zone_end - zone_start, zone_start))"

definition absent_pages_in_range :: "memblock \<Rightarrow> int \<Rightarrow> u64 \<Rightarrow> u64 \<Rightarrow> u64" where
  "absent_pages_in_range mb nid range_start range_end =
     fold (\<lambda>(s, e, _) nr_absent. nr_absent - (clamp e range_start range_end - clamp s range_start range_end))
       (for_each_mem_pfn_range mb nid) (range_end - range_start)"

definition zone_absent_pages_in_node :: "memblock \<Rightarrow> zone_range \<Rightarrow> int \<Rightarrow> nat \<Rightarrow> u64 \<Rightarrow> u64 \<Rightarrow> u64" where
  "zone_absent_pages_in_node mb arch nid zone_type node_start node_end =
     (if node_start = 0 \<and> node_end = 0 then 0
      else case arch zone_type of (lo, hi) \<Rightarrow>
        absent_pages_in_range mb nid (clamp node_start lo hi) (clamp node_end lo hi))"

definition size_zone :: "memblock \<Rightarrow> zone_range \<Rightarrow> int \<Rightarrow> u64 \<Rightarrow> u64 \<Rightarrow> nat \<Rightarrow> zone \<Rightarrow> zone" where
  "size_zone mb arch nid node_start node_end i z =
     (case zone_spanned_pages_in_node arch i node_start node_end of
        (sz, zone_start) \<Rightarrow>
          let real_size = sz - zone_absent_pages_in_node mb arch nid i node_start node_end
          in z\<lparr>zone_start_pfn := (if sz \<noteq> 0 then unat zone_start else 0),
               spanned_pages := unat sz, present_pages := unat real_size\<rparr>)"

definition calculate_node_totalpages ::
    "memblock \<Rightarrow> zone_range \<Rightarrow> int \<Rightarrow> u64 \<Rightarrow> u64 \<Rightarrow> (zone_ptr \<Rightarrow> zone) \<Rightarrow> pglist_data \<Rightarrow> (zone_ptr \<Rightarrow> zone) \<times> pglist_data" where
  "calculate_node_totalpages mb arch nid node_start node_end zones pgdat =
     (let zones1 = fold (\<lambda>i zs. zs(zone_at nid i := size_zone mb arch nid node_start node_end i (zs (zone_at nid i))))
                     [0 ..< MAX_NR_ZONES] zones;
          total = (\<Sum>i \<leftarrow> [0 ..< MAX_NR_ZONES]. of_nat (spanned_pages (zones1 (zone_at nid i))));
          realtotal = (\<Sum>i \<leftarrow> [0 ..< MAX_NR_ZONES]. of_nat (present_pages (zones1 (zone_at nid i))))
      in (zones1, pgdat\<lparr>node_spanned_pages := total, node_present_pages := realtotal\<rparr>))"

section \<open>Zones and nodes\<close>

definition zone_init_free_lists :: "zone \<Rightarrow> zone" where
  "zone_init_free_lists z = z\<lparr>zone_free_area := replicate MAX_ORDER \<lparr>free_list = [], nr_free = 0\<rparr>\<rparr>"

definition init_currently_empty_zone :: "nat \<Rightarrow> zone \<Rightarrow> zone" where
  "init_currently_empty_zone start z = (zone_init_free_lists (z\<lparr>zone_start_pfn := start\<rparr>))\<lparr>initialized := True\<rparr>"

definition zone_init_internals :: "int \<Rightarrow> nat \<Rightarrow> zone \<Rightarrow> zone" where
  "zone_init_internals nid remaining_pages z =
     z\<lparr>managed_pages := int remaining_pages, zone_node := of_int nid, zone_pageset := (\<lambda>cpu. pageset_init)\<rparr>"

definition init_zone :: "int \<Rightarrow> nat \<Rightarrow> mm \<Rightarrow> mm" where
  "init_zone nid j m =
     (let z = node_zones m (zone_at nid j);
          sz = spanned_pages z;
          z1 = zone_init_internals nid (present_pages z) z
      in if sz = 0 then m\<lparr>node_zones := (node_zones m)(zone_at nid j := z1)\<rparr>
         else m\<lparr>node_zones := (node_zones m)(zone_at nid j := init_currently_empty_zone (zone_start_pfn z) z1),
                mem_map := memmap_init_zone (of_nat sz) nid j (of_nat (zone_start_pfn z)) (mem_map m)\<rparr>)"

definition free_area_init_core :: "int \<Rightarrow> mm \<Rightarrow> mm" where
  "free_area_init_core nid m = fold (init_zone nid) [0 ..< MAX_NR_ZONES] m"

definition free_area_init_node ::
    "memblock \<Rightarrow> zone_range \<Rightarrow> int \<Rightarrow> u64 \<Rightarrow> mm \<times> (int \<Rightarrow> pglist_data) \<Rightarrow> mm \<times> (int \<Rightarrow> pglist_data)" where
  "free_area_init_node mb arch nid start = (\<lambda>(m, nodes).
     case get_pfn_range_for_nid mb nid of (start_pfn, end_pfn) \<Rightarrow>
       (case calculate_node_totalpages mb arch nid start_pfn end_pfn (node_zones m) ((nodes nid)\<lparr>node_start_pfn := start\<rparr>) of
          (zones1, pgdat1) \<Rightarrow> (free_area_init_core nid (m\<lparr>node_zones := zones1\<rparr>), nodes(nid := pgdat1))))"

definition zone_ranges :: "u64 \<Rightarrow> (nat \<Rightarrow> u64) \<Rightarrow> zone_range" where
  "zone_ranges start_pfn max_zone_pfn =
     snd (fold (\<lambda>i (start, arch). if i = 2 then (start, arch)
                 else let end_pfn = max (max_zone_pfn i) start in (end_pfn, arch(i := (start, end_pfn))))
            [0 ..< MAX_NR_ZONES] (start_pfn, \<lambda>_. (0, 0)))"

definition free_area_init_nodes ::
    "memblock \<Rightarrow> int list \<Rightarrow> u64 \<Rightarrow> (nat \<Rightarrow> u64) \<Rightarrow> mm \<times> (int \<Rightarrow> pglist_data) \<Rightarrow> (mm \<times> (int \<Rightarrow> pglist_data)) res" where
  "free_area_init_nodes mb online max_pfn max_zone_pfn = (\<lambda>(m, nodes).
     let arch = zone_ranges (find_min_pfn_with_active_regions mb) max_zone_pfn in
     and_then (zero_resv_unavail mb max_pfn (mem_map m))
       (\<lambda>pages1. Inr (fold (\<lambda>nid. free_area_init_node mb arch nid (find_min_pfn_for_node mb nid)) online
                         (m\<lparr>mem_map := pages1\<rparr>, nodes))))"

definition zone_sizes_init :: "memblock \<Rightarrow> int list \<Rightarrow> u64 \<Rightarrow> mm \<times> (int \<Rightarrow> pglist_data) \<Rightarrow> (mm \<times> (int \<Rightarrow> pglist_data)) res" where
  "zone_sizes_init mb online max_pfn = free_area_init_nodes mb online max_pfn ((\<lambda>_. 0)(1 := max_pfn))"

section \<open>Facts on the per-CPU lists\<close>

lemma setup_pageset_ok: "pcp_ok (setup_pageset b)"
  by (simp add: setup_pageset_def pageset_set_batch_def pageset_update_def pageset_init_def pcp_ok_def Let_def)

lemma zone_pageset_init_eq: "zone_pageset_init z = setup_pageset (zone_batchsize z)"
  by (simp add: zone_pageset_init_def pageset_set_high_and_batch_def setup_pageset_def)

lemma ilog2_le: "0 < n \<Longrightarrow> 2 ^ ilog2 n \<le> n"
proof (induction n rule: ilog2.induct)
  case (1 n)
  show ?case
  proof (cases "n \<le> 1")
    case True
    then show ?thesis using 1(2) by (subst ilog2.simps) simp
  next
    case False
    then have "0 < n div 2" by simp
    then have "2 ^ ilog2 (n div 2) \<le> n div 2" using 1(1) [OF False] by simp
    then show ?thesis using False by (subst ilog2.simps) simp
  qed
qed

lemma zone_batchsize_bound: "zone_batchsize z < 64" "\<exists>k. zone_batchsize z + 1 = 2 ^ k"
proof -
  define b0 where "b0 = signed_take_bit 31 (managed_pages z div 1024)"
  define b1 where "b1 = (if uint (of_int b0 * PAGE_SIZE :: u64) > 1024 * 1024 then (1024 * 1024) div 4096 else b0)"
  define b3 where "b3 = (if b1 div 4 < 1 then 1 else b1 div 4)"
  have z: "zone_batchsize z = rounddown_pow_of_two (nat (b3 + b3 div 2)) - 1"
    unfolding b3_def b1_def b0_def zone_batchsize_def Let_def ..
  have "b1 \<le> 256"
  proof (cases "uint (of_int b0 * PAGE_SIZE :: u64) > 1024 * 1024")
    case False
    have "b0 \<le> 256"
    proof (cases "0 \<le> b0")
      case True
      have "b0 < 2 ^ 31" unfolding b0_def by (rule signed_take_bit_int_less_exp)
      then have "take_bit 64 b0 = b0" using True by (simp add: take_bit_int_eq_self_iff)
      then have "uint (of_int b0 * PAGE_SIZE :: u64) = b0 * 4096" using True \<open>b0 < 2 ^ 31\<close>
        by (simp add: uint_word_ariths PAGE_SIZE_def PAGE_SHIFT_def push_bit_eq_mult uint_word_of_int_eq)
      then show ?thesis using False by simp
    qed simp
    then show ?thesis using False by (simp add: b1_def)
  qed (simp add: b1_def)
  then have b3: "1 \<le> b3" "b3 \<le> 64" by (auto simp: b3_def)
  then have n: "0 < nat (b3 + b3 div 2)" "nat (b3 + b3 div 2) \<le> 96" by auto
  have le: "2 ^ ilog2 (nat (b3 + b3 div 2)) \<le> (96 :: nat)" by (rule order_trans [OF ilog2_le [OF n(1)] n(2)])
  have "ilog2 (nat (b3 + b3 div 2)) < 7"
  proof (rule ccontr)
    assume "\<not> ilog2 (nat (b3 + b3 div 2)) < 7"
    then have "(2 :: nat) ^ 7 \<le> 2 ^ ilog2 (nat (b3 + b3 div 2))" by (intro power_increasing) simp_all
    then show False using le by simp
  qed
  then have "2 ^ ilog2 (nat (b3 + b3 div 2)) \<le> (2 :: nat) ^ 6" by (intro power_increasing) simp_all
  then show "zone_batchsize z < 64" unfolding z rounddown_pow_of_two_def by simp
  show "\<exists>k. zone_batchsize z + 1 = 2 ^ k" unfolding z rounddown_pow_of_two_def by (intro exI) simp
qed

section \<open>Facts on the zonelists\<close>

text \<open>What \<open>find_next_best_node\<close> minimises, before the load is taken into account.\<close>

definition base_score :: "numa \<Rightarrow> int \<Rightarrow> int \<Rightarrow> int" where
  "base_score s node n =
     node_distance s node n + (if n < node then 1 else 0) + (if node_to_cpumask_map s n \<noteq> {} then PENALTY_FOR_NODE_WITH_CPUS else 0)"

lemma node_distance_range: "0 \<le> node_distance s i j \<and> node_distance s i j < 256"
proof -
  have "uint (w :: 8 word) < 2 ^ 8" for w by (rule order_less_le_trans [OF uint_lt2p]) simp
  then show ?thesis by (auto simp: node_distance_def LOCAL_DISTANCE_def REMOTE_DISTANCE_def split: option.splits)
qed

lemma base_score_range: "0 \<le> base_score s i j \<and> base_score s i j < 258"
  using node_distance_range [of s i j] by (auto simp: base_score_def PENALTY_FOR_NODE_WITH_CPUS_def)

lemma node_score_eq: "node_score s nr node_load node n = base_score s node n * (nr * 8) + node_load n"
  by (simp add: node_score_def base_score_def MAX_NUMNODES_def)

lemma fold_best:
  fixes f :: "int \<Rightarrow> int"
  assumes "fold (\<lambda>n (mv, b). if n \<in> used then (mv, b) else let v = f n in if v < mv then (v, n) else (mv, b)) xs (mv0, b0) = (mv, b)"
  shows "mv \<le> mv0 \<and> (\<forall>n \<in> set xs - used. mv \<le> f n) \<and> (mv = mv0 \<and> b = b0 \<or> b \<in> set xs - used \<and> mv = f b)"
  using assms
proof (induction xs arbitrary: mv0 b0)
  case (Cons n xs)
  show ?case using Cons.IH Cons.prems by (fastforce simp: Let_def split: if_splits)
qed simp

text \<open>Loads stay between zero and the number of nodes.\<close>

definition loads_ok :: "int \<Rightarrow> (int \<Rightarrow> int) \<Rightarrow> bool" where
  "loads_ok nr node_load \<longleftrightarrow> (\<forall>n. 0 \<le> node_load n \<and> node_load n \<le> nr)"

lemma node_score_small:
  assumes "loads_ok nr node_load" "1 \<le> nr" "nr \<le> 8"
  shows "node_score s nr node_load node n < INT_MAX"
proof -
  have "base_score s node n * (nr * 8) \<le> 258 * (8 * 8)"
    using base_score_range [of s node n] assms(2,3) by (intro mult_mono) auto
  moreover have "node_load n \<le> 8" using assms by (auto simp: loads_ok_def intro: order_trans)
  moreover have "258 * (8 * 8) + 8 < (2 ^ 31 - 1 :: int)" by simp
  ultimately show ?thesis unfolding node_score_eq INT_MAX_def by linarith
qed

lemma node_score_base:
  assumes "loads_ok nr node_load" "1 \<le> nr" "node_score s nr node_load node b \<le> node_score s nr node_load node n"
  shows "base_score s node b \<le> base_score s node n"
proof (rule ccontr)
  assume "\<not> ?thesis"
  then have "(base_score s node n + 1) * (nr * 8) \<le> base_score s node b * (nr * 8)"
    using assms(2) by (intro mult_right_mono) auto
  moreover have "0 \<le> node_load b" "node_load n \<le> nr" using assms(1) by (auto simp: loads_ok_def)
  ultimately show False using assms(2,3) by (simp add: node_score_eq algebra_simps)
qed

lemma next_best:
  assumes "node \<in> used" and l: "loads_ok nr node_load" "1 \<le> nr" "nr \<le> 8" and pos: "\<And>n. n \<in> set online \<Longrightarrow> 0 \<le> n"
  shows "set online \<subseteq> used \<Longrightarrow> find_next_best_node s nr node_load online node used = (- 1, used)"
    and "\<not> set online \<subseteq> used \<Longrightarrow> \<exists>b \<in> set online - used.
      find_next_best_node s nr node_load online node used = (b, insert b used) \<and>
      (\<forall>n \<in> set online - used. base_score s node b \<le> base_score s node n)"
proof -
  let ?f = "node_score s nr node_load node"
  obtain mv b where mb: "fold (\<lambda>n (mv, b). if n \<in> used then (mv, b) else let v = ?f n in if v < mv then (v, n) else (mv, b))
      online (INT_MAX, NUMA_NO_NODE) = (mv, b)" by (meson surj_pair)
  note fb = fold_best [OF mb]
  have find: "find_next_best_node s nr node_load online node used = (b, if b \<ge> 0 then insert b used else used)"
    using assms(1) mb by (simp add: find_next_best_node_def)
  show "find_next_best_node s nr node_load online node used = (- 1, used)" if "set online \<subseteq> used"
  proof -
    have "b = - 1" using fb that by (auto simp: NUMA_NO_NODE_def)
    then show ?thesis using find by simp
  qed
  assume "\<not> set online \<subseteq> used"
  then obtain n where n: "n \<in> set online - used" by blast
  have "mv \<le> ?f n" using fb n by blast
  then have "mv \<noteq> INT_MAX" using node_score_small [OF l, of s node n] by simp
  then have b: "b \<in> set online - used" "mv = ?f b" "\<And>n. n \<in> set online - used \<Longrightarrow> ?f b \<le> ?f n" using fb by auto
  show "\<exists>b \<in> set online - used. find_next_best_node s nr node_load online node used = (b, insert b used) \<and>
      (\<forall>n \<in> set online - used. base_score s node b \<le> base_score s node n)"
  proof (intro bexI [OF _ b(1)] conjI ballI)
    show "find_next_best_node s nr node_load online node used = (b, insert b used)" using find pos b(1) by simp
    show "base_score s node b \<le> base_score s node n" if "n \<in> set online - used" for n
      by (rule node_score_base [OF l(1,2) b(3) [OF that]])
  qed
qed

lemma order_nodes_result:
  assumes "local \<in> used" and l: "1 \<le> nr" "nr \<le> 8" and pos: "\<And>n. n \<in> set online \<Longrightarrow> 0 \<le> n"
  shows "loads_ok nr node_load \<Longrightarrow> card (set online - used) < k \<Longrightarrow> int (card (set online - used)) \<le> load \<Longrightarrow> load \<le> nr \<Longrightarrow>
    local \<in> used \<Longrightarrow>
    \<exists>ys nl. order_nodes k s nr online local prev load used node_load ord = Inr (ord @ ys, nl) \<and>
      distinct ys \<and> set ys = set online - used \<and> sorted (map (base_score s local) ys) \<and> loads_ok nr nl"
proof (induction k arbitrary: prev load used node_load ord)
  case (Suc k)
  show ?case
  proof (cases "set online \<subseteq> used")
    case True
    then have "set online - used = {}" by blast
    then show ?thesis using next_best(1) [OF Suc.prems(5,1) l pos True, of s] Suc.prems(1) by (auto simp: order_nodes.simps)
  next
    case False
    obtain b where b: "b \<in> set online - used" and f: "find_next_best_node s nr node_load online local used = (b, insert b used)"
      and mn: "\<And>n. n \<in> set online - used \<Longrightarrow> base_score s local b \<le> base_score s local n"
      using next_best(2) [OF Suc.prems(5,1) l pos False] by blast
    let ?nl = "if node_distance s local b \<noteq> node_distance s local prev then node_load(b := load) else node_load"
    have c: "card (set online - insert b used) = card (set online - used) - 1" "0 < card (set online - used)"
      using b by (auto simp: card_gt_0_iff card_Diff_insert)
    have nl: "loads_ok nr ?nl" using Suc.prems(1,3,4) by (auto simp: loads_ok_def)
    have "card (set online - insert b used) < k" "int (card (set online - insert b used)) \<le> load - 1" "load - 1 \<le> nr" "local \<in> insert b used"
      using c Suc.prems(2-5) by linarith+ (simp add: Suc.prems(5))
    then obtain ys nl where ys: "order_nodes k s nr online local b (load - 1) (insert b used) ?nl (ord @ [b]) = Inr ((ord @ [b]) @ ys, nl)"
      "distinct ys" "set ys = set online - insert b used" "sorted (map (base_score s local) ys)" "loads_ok nr nl"
      using Suc.IH [OF nl, of "insert b used" "load - 1" b "ord @ [b]"] by blast
    have "order_nodes (Suc k) s nr online local prev load used node_load ord = Inr (ord @ (b # ys), nl)"
      using ys(1) f pos [of b] b by (simp add: Let_def order_nodes.simps)
    moreover have "distinct (b # ys)" "set (b # ys) = set online - used" using ys(2,3) b by auto
    moreover have "sorted (map (base_score s local) (b # ys))" using ys(3,4) mn by auto
    ultimately show ?thesis using ys(5) by blast
  qed
qed simp

text \<open>
  The fallback list of a node: its own zones, then those of every other online node once, in
  the order of increasing distance (with the penalties for lower nodes and for nodes with CPUs).
\<close>

definition zonelist_of :: "numa \<Rightarrow> int list \<Rightarrow> (zone_ptr \<Rightarrow> zone) \<Rightarrow> int \<Rightarrow> (nat \<Rightarrow> zonelist) \<Rightarrow> bool" where
  "zonelist_of s online zones nid zl \<longleftrightarrow>
     (\<exists>ys. distinct (nid # ys) \<and> set (nid # ys) = set online \<and> sorted (map (base_score s nid) ys) \<and>
        zl ZONELIST_FALLBACK = concat (map (build_zonerefs_node zones) (nid # ys))) \<and>
     zl ZONELIST_NOFALLBACK = build_zonerefs_node zones nid"

lemma build_zonelists_result:
  assumes on: "distinct online" "\<And>n. n \<in> set online \<Longrightarrow> 0 \<le> n" "nr_online_nodes m = length online" "length online \<le> 8"
    and nid: "nid \<in> set online" and l: "loads_ok (int (length online)) node_load"
  shows "\<exists>m' nl. build_zonelists s online nid (m, node_load) = Inr (m', nl) \<and> loads_ok (int (length online)) nl \<and>
    m' = m\<lparr>node_zonelists := node_zonelists m'\<rparr> \<and> zonelist_of s online (node_zones m) nid (node_zonelists m' (of_int nid)) \<and>
    (\<forall>n. n \<noteq> of_int nid \<longrightarrow> node_zonelists m' n = node_zonelists m n)"
proof -
  let ?nr = "int (length online)"
  have nr: "1 \<le> ?nr" "?nr \<le> 8" using nid on(4) by (cases online; simp)+
  have c: "card (set online - {nid}) = length online - 1" using nid on(1) by (simp add: distinct_card)
  have b1: "card (set online - {nid}) < length online + 1" using c by simp
  have b2: "int (card (set online - {nid})) \<le> ?nr - 1" using c nr(1) by simp
  obtain ys nl where ys: "order_nodes (length online + 1) s ?nr online nid nid (?nr - 1) {nid} node_load [nid] = Inr ([nid] @ ys, nl)"
    "distinct ys" "set ys = set online - {nid}" "sorted (map (base_score s nid) ys)" "loads_ok ?nr nl"
    using order_nodes_result [OF _ nr on(2) l b1 b2, of nid s nid "[nid]"] by auto
  have f: "find_next_best_node s ?nr node_load online nid {} = (nid, {nid})" by (simp add: find_next_best_node_def)
  have "order_nodes (length online + 2) s ?nr online nid nid ?nr {} node_load [] =
      order_nodes (length online + 1) s ?nr online nid nid (?nr - 1) {nid} node_load [nid]"
    unfolding add_2_eq_Suc' order_nodes.simps(2) [of "Suc _"] f using on(2) [OF nid] by simp
  then have ord: "order_nodes (length online + 2) s ?nr online nid nid ?nr {} node_load [] = Inr (nid # ys, nl)" using ys(1) by simp
  let ?m = "build_thisnode_zonelists nid (build_zonelists_in_node_order nid (nid # ys) m)"
  have "build_zonelists s online nid (m, node_load) = Inr (?m, nl)"
    using ord on(3) by (simp add: build_zonelists_def)
  moreover have "?m = m\<lparr>node_zonelists := node_zonelists ?m\<rparr>"
    by (simp add: build_thisnode_zonelists_def build_zonelists_in_node_order_def)
  moreover have "zonelist_of s online (node_zones m) nid (node_zonelists ?m (of_int nid))"
    unfolding zonelist_of_def using ys(2-4) nid
    by (intro conjI exI [of _ ys])
      (auto simp: build_thisnode_zonelists_def build_zonelists_in_node_order_def ZONELIST_FALLBACK_def ZONELIST_NOFALLBACK_def)
  moreover have "node_zonelists ?m n = node_zonelists m n" if "n \<noteq> of_int nid" for n
    using that by (simp add: build_thisnode_zonelists_def build_zonelists_in_node_order_def)
  ultimately show ?thesis using ys(5) by (intro exI [of _ ?m] exI [of _ nl]) blast
qed

lemma node_word_inj: "0 \<le> i \<Longrightarrow> i < 8 \<Longrightarrow> 0 \<le> j \<Longrightarrow> j < 8 \<Longrightarrow> (of_int i :: u64) = of_int j \<longleftrightarrow> i = j"
  by (simp add: word_of_int_eq_iff take_bit_int_eq_self)

lemma build_nodes_result:
  assumes on: "distinct online" "\<And>n. n \<in> set online \<Longrightarrow> 0 \<le> n \<and> n < 8" "length online \<le> 8"
  shows "set nids \<subseteq> set online \<Longrightarrow> distinct nids \<Longrightarrow> nr_online_nodes m = length online \<Longrightarrow> loads_ok (int (length online)) node_load \<Longrightarrow>
    \<exists>m' nl. build_nodes s online nids (m, node_load) = Inr (m', nl) \<and> m' = m\<lparr>node_zonelists := node_zonelists m'\<rparr> \<and>
      (\<forall>nid \<in> set nids. zonelist_of s online (node_zones m) nid (node_zonelists m' (of_int nid))) \<and>
      (\<forall>n. n \<notin> of_int ` set nids \<longrightarrow> node_zonelists m' n = node_zonelists m n)"
proof (induction nids arbitrary: m node_load)
  case Nil
  then show ?case by simp
next
  case (Cons nid nids)
  have nid: "nid \<in> set online" using Cons.prems(1) by simp
  have pos: "\<And>n. n \<in> set online \<Longrightarrow> 0 \<le> n" using on(2) by simp
  obtain m1 nl1 where m1: "build_zonelists s online nid (m, node_load) = Inr (m1, nl1)" "loads_ok (int (length online)) nl1"
    "m1 = m\<lparr>node_zonelists := node_zonelists m1\<rparr>" "zonelist_of s online (node_zones m) nid (node_zonelists m1 (of_int nid))"
    "\<And>n. n \<noteq> of_int nid \<Longrightarrow> node_zonelists m1 n = node_zonelists m n"
    using build_zonelists_result [OF on(1) pos Cons.prems(3) on(3) nid Cons.prems(4), of s] by blast
  have same: "node_zones m1 = node_zones m" "nr_online_nodes m1 = length online"
    using Cons.prems(3) by (subst m1(3), simp)+
  obtain m' nl where m': "build_nodes s online nids (m1, nl1) = Inr (m', nl)" "m' = m1\<lparr>node_zonelists := node_zonelists m'\<rparr>"
    "\<forall>nid \<in> set nids. zonelist_of s online (node_zones m1) nid (node_zonelists m' (of_int nid))"
    "\<forall>n. n \<notin> of_int ` set nids \<longrightarrow> node_zonelists m' n = node_zonelists m1 n"
    using Cons.IH [OF _ _ same(2) m1(2)] Cons.prems(1,2) by auto
  have "(of_int nid :: u64) \<notin> of_int ` set nids"
    using Cons.prems(1,2) on(2) node_word_inj [of nid] by auto
  then have "node_zonelists m' (of_int nid) = node_zonelists m1 (of_int nid)" using m'(4) by blast
  moreover have "m' = m\<lparr>node_zonelists := node_zonelists m'\<rparr>" by (subst m'(2), subst m1(3), simp)
  ultimately show ?case using m1(1,4,5) m'(1,3,4) same(1) by auto
qed

section \<open>The initial page descriptors\<close>

lemma init_single_page_boot:
  assumes "0 \<le> nid" "nid < 8" "valid q"
  shows "boot_page valid (zone_at nid 1) q (init_single_page 1 nid)"
proof -
  have "of_int nid < (8 :: u64)" using assms(1,2) by (simp add: word_less_def uint_word_of_int_eq take_bit_int_eq_self)
  then have n: "(of_int nid :: u64) AND NODES_MASK = of_int nid" unfolding field_masks by (auto intro: less_mask_eq)
  have z: "(1 :: u64) AND ZONES_MASK = 1" unfolding field_masks by (auto intro: less_mask_eq)
  have "page_zone (init_single_page 1 nid) = zone_at nid 1"
    by (simp add: init_single_page_def init_page_count_def set_page_count_def page_mapcount_reset_def page_zone_def zone_at_def)
      (simp add: page_to_nid_def page_zonenum_def n z
        page_zonenum_links [of 1 "of_int nid" zeroed_page, unfolded page_zonenum_def]
        page_to_nid_links [of 1 "of_int nid" zeroed_page, unfolded page_to_nid_def])
  moreover have "pg_flags (init_single_page 1 nid) AND PAGE_FLAGS_CHECK_AT_PREP = 0"
    using page_flags_links [of 1 "of_int nid" zeroed_page]
    by (simp add: init_single_page_def init_page_count_def set_page_count_def page_mapcount_reset_def zeroed_page_def)
  then have "pg_flags (init_single_page 1 nid) AND PAGE_FLAGS_CHECK_AT_PREP AND NOT (push_bit PG_reserved 1) = 0"
    by (simp add: and.assoc [symmetric] del: push_bit_of_1)
  moreover have "pg_type (init_single_page 1 nid) = - 1" "pg_mapping (init_single_page 1 nid) = 0"
    "pg_head (init_single_page 1 nid) = None" "pg_count (init_single_page 1 nid) = 1"
    by (simp_all add: init_single_page_def init_page_count_def set_page_count_def page_mapcount_reset_def
        set_page_links_def set_page_node_def set_page_zone_def zeroed_page_def)
  ultimately show ?thesis using assms(3) by (simp only: boot_page_def simp_thms)
qed

lemma memmap_init_zone_eq:
  "memmap_init_zone sz nid zone start pages =
     (\<lambda>q. if unat start \<le> q \<and> q < unat (start + sz) then init_single_page zone nid else pages q)"
  unfolding memmap_init_zone_def using fold_update [of "[unat start ..< unat (start + sz)]" "\<lambda>_. init_single_page zone nid" pages]
  by (auto simp: fun_eq_iff)

text \<open>With freshly initialised descriptors and empty lists the allocator is well-formed.\<close>

definition zone_fresh :: "zone \<Rightarrow> bool" where
  "zone_fresh z \<longleftrightarrow> initialized z \<and> zone_free_area z = replicate MAX_ORDER \<lparr>free_list = [], nr_free = 0\<rparr>"

lemma fresh_blocks: "zone_fresh z \<Longrightarrow> blocks (zone_free_area z) = {}"
  by (auto simp: zone_fresh_def blocks_def)

lemma boot_map_buddy_ok:
  assumes b: "boot_map valid Z pages" and f: "zone_fresh z"
  shows "buddy_ok valid zp pages (zone_free_area z)"
proof -
  have nb: "\<not> PageBuddy (pages q)" if "valid q" for q
    using boot_rangeD(2) [OF b [unfolded boot_map_def], of q] that
    by (simp add: boot_page_def PageBuddy_def PageType_def PAGE_TYPE_BASE_def PG_buddy_def)
  have "zones_aligned valid pages" using b unfolding boot_map_def boot_range_def zones_aligned_def by simp
  moreover have "lists_ok (zone_free_area z)" using f by (simp add: lists_ok_def zone_fresh_def)
  ultimately show ?thesis unfolding buddy_ok_def linked_def idle_def
    using nb by (auto simp: fresh_blocks [OF f] apart_def free_frames_def)
qed

lemma fresh_machine:
  assumes b: "boot_map valid Z (mem_map m)"
    and z: "\<And>zp. zp \<in> Z \<Longrightarrow> zone_fresh (node_zones m zp)" "\<And>zp cpu. zp \<in> Z \<Longrightarrow> zone_pageset (node_zones m zp) cpu = setup_pageset 0"
  shows "mm_ok valid Z m" "held Z m = {}"
proof -
  have "pcp_lists (setup_pageset 0) = []" by (simp add: setup_pageset_def pageset_set_batch_def pageset_update_def pageset_init_def Let_def)
  then have p: "pcp_pages (node_zones m zp) = {}" if "zp \<in> Z" for zp using z(2) [OF that] by (simp add: pcp_pages_def)
  have l: "pcp_lists (zone_pageset (node_zones m zp) c) = []" if "zp \<in> Z" for zp c using p [OF that] by (auto simp: pcp_pages_def)
  show "mm_ok valid Z m"
    unfolding mm_ok_def zone_ok_def
    using boot_map_buddy_ok [OF b z(1)] p l z(1) by (auto simp: zone_fresh_def z(2) setup_pageset_ok)
  show "held Z m = {}" using p fresh_blocks [OF z(1)] by (simp add: held_def avail_def free_frames_def)
qed

section \<open>One node\<close>

lemma zones_list: "[0 ..< MAX_NR_ZONES] = [0, 1, 2]"
  by (simp add: MAX_NR_ZONES_def upt_rec)

lemma zone_at_iff [simp]: "zone_at nid i = zone_at nid j \<longleftrightarrow> (of_nat i :: u64) = of_nat j"
  by (simp add: zone_at_def)

lemma fst_zone_at [simp]: "fst (zone_at nid j) = of_int nid"
  by (simp add: zone_at_def)

lemma zone_ranges_eq:
  "zone_ranges start ((\<lambda>_. 0)(1 := mx)) 0 = (start, start)"
  "zone_ranges start ((\<lambda>_. 0)(1 := mx)) 1 = (start, max mx start)"
  "zone_ranges start ((\<lambda>_. 0)(1 := mx)) 2 = (0, 0)"
  by (simp_all add: zone_ranges_def zones_list Let_def max_def)

text \<open>Only \<open>ZONE_NORMAL\<close> of a node has pages; it spans the node.\<close>

lemma spanned_zones:
  assumes "start \<le> s" "s < e" "e \<le> mx"
  defines "arch \<equiv> zone_ranges start ((\<lambda>_. 0)(1 := mx))"
  shows "fst (zone_spanned_pages_in_node arch 0 s e) = 0" "zone_spanned_pages_in_node arch 1 s e = (e - s, s)"
    "fst (zone_spanned_pages_in_node arch 2 s e) = 0"
proof -
  have le: "start \<le> e" "start \<le> mx" "s \<le> mx" "\<not> mx < s" using assms(1-3) by auto
  then have "max mx start = mx" "min mx e = e" "max start s = s" using assms(1,3) by (auto simp: max_def min_def)
  then show "zone_spanned_pages_in_node arch 1 s e = (e - s, s)"
    unfolding arch_def zone_spanned_pages_in_node_def zone_ranges_eq using assms(2) le by (auto simp: Let_def not_less)
  show "fst (zone_spanned_pages_in_node arch 0 s e) = 0"
    unfolding arch_def zone_spanned_pages_in_node_def zone_ranges_eq using assms(1) le by (auto simp: Let_def min_def max_def)
  show "fst (zone_spanned_pages_in_node arch 2 s e) = 0"
    unfolding arch_def zone_spanned_pages_in_node_def zone_ranges_eq by (auto simp: Let_def min_def max_def not_less)
qed

definition node_init :: "u64 \<Rightarrow> u64 \<Rightarrow> int \<Rightarrow> mm \<Rightarrow> mm \<Rightarrow> bool" where
  "node_init s e nid m m' \<longleftrightarrow>
     mem_map m' = (\<lambda>q. if unat s \<le> q \<and> q < unat e then init_single_page 1 nid else mem_map m q) \<and>
     (s < e \<longrightarrow> zone_fresh (node_zones m' (zone_at nid 1)) \<and> zone_node (node_zones m' (zone_at nid 1)) = of_int nid) \<and>
     (\<forall>zp. fst zp \<noteq> of_int nid \<longrightarrow> node_zones m' zp = node_zones m zp) \<and>
     nr_online_nodes m' = nr_online_nodes m \<and> page_data m' = page_data m"

lemma init_zone_simps [simp]:
  "node_zones (init_zone nid j m) zp =
     (if zp = zone_at nid j then
        let z = node_zones m zp; z1 = zone_init_internals nid (present_pages z) z
        in if spanned_pages z = 0 then z1 else init_currently_empty_zone (zone_start_pfn z) z1
      else node_zones m zp)"
  "mem_map (init_zone nid j m) =
     (let z = node_zones m (zone_at nid j)
      in if spanned_pages z = 0 then mem_map m
         else memmap_init_zone (of_nat (spanned_pages z)) nid j (of_nat (zone_start_pfn z)) (mem_map m))"
  "nr_online_nodes (init_zone nid j m) = nr_online_nodes m" "page_data (init_zone nid j m) = page_data m"
  by (simp_all add: init_zone_def Let_def)

lemma init_internals_simps [simp]:
  "spanned_pages (zone_init_internals nid n z) = spanned_pages z" "zone_node (zone_init_internals nid n z) = of_int nid"
  "zone_start_pfn (zone_init_internals nid n z) = zone_start_pfn z"
  "zone_node (init_currently_empty_zone n z) = zone_node z" "zone_fresh (init_currently_empty_zone n z)"
  by (simp_all add: zone_init_internals_def init_currently_empty_zone_def zone_init_free_lists_def zone_fresh_def)

lemma free_area_init_core_spans:
  assumes sp: "spanned_pages (node_zones m (zone_at nid 0)) = 0" "spanned_pages (node_zones m (zone_at nid 2)) = 0"
    "spanned_pages (node_zones m (zone_at nid 1)) = unat (e - s)" "s < e \<longrightarrow> zone_start_pfn (node_zones m (zone_at nid 1)) = unat s"
    and le: "s \<le> e"
  shows "node_init s e nid m (free_area_init_core nid m)"
proof -
  let ?m = "free_area_init_core nid m"
  have f: "?m = init_zone nid 2 (init_zone nid 1 (init_zone nid 0 m))"
    by (simp add: free_area_init_core_def zones_list)
  have "mem_map ?m = (if s < e then memmap_init_zone (e - s) nid 1 s (mem_map m) else mem_map m)"
    unfolding f using sp le by (auto simp: Let_def unat_eq_zero)
  then have "mem_map ?m = (\<lambda>q. if unat s \<le> q \<and> q < unat e then init_single_page 1 nid else mem_map m q)"
    using le by (auto simp: memmap_init_zone_eq not_less word_less_nat_alt word_le_nat_alt fun_eq_iff)
  moreover have "zone_fresh (node_zones ?m (zone_at nid 1)) \<and> zone_node (node_zones ?m (zone_at nid 1)) = of_int nid" if "s < e"
    unfolding f using sp that by (auto simp: Let_def unat_eq_zero)
  moreover have "node_zones ?m zp = node_zones m zp" if "fst zp \<noteq> of_int nid" for zp
    unfolding f using that by (auto simp: Let_def)
  moreover have "nr_online_nodes ?m = nr_online_nodes m \<and> page_data ?m = page_data m" by (simp add: f)
  ultimately show ?thesis unfolding node_init_def by blast
qed

lemma node_totals_zones:
  "fst (calculate_node_totalpages mb arch nid s e zones pgdat) zp =
     (if zp = zone_at nid 0 then size_zone mb arch nid s e 0 (zones zp)
      else if zp = zone_at nid 1 then size_zone mb arch nid s e 1 (zones zp)
      else if zp = zone_at nid 2 then size_zone mb arch nid s e 2 (zones zp) else zones zp)"
  by (auto simp: calculate_node_totalpages_def zones_list Let_def)

lemma size_zone_simps:
  "spanned_pages (size_zone mb arch nid s e i z) = unat (fst (zone_spanned_pages_in_node arch i s e))"
  "fst (zone_spanned_pages_in_node arch i s e) \<noteq> 0 \<Longrightarrow>
     zone_start_pfn (size_zone mb arch nid s e i z) = unat (snd (zone_spanned_pages_in_node arch i s e))"
  by (cases "zone_spanned_pages_in_node arch i s e"; simp add: size_zone_def Let_def)+

lemma node_init_cong:
  "node_init s e nid m0 m' \<Longrightarrow> mem_map m0 = mem_map m \<Longrightarrow> (\<And>zp. fst zp \<noteq> of_int nid \<Longrightarrow> node_zones m0 zp = node_zones m zp) \<Longrightarrow>
   nr_online_nodes m0 = nr_online_nodes m \<Longrightarrow> page_data m0 = page_data m \<Longrightarrow> node_init s e nid m m'"
  unfolding node_init_def by (simp cong: if_cong)

lemma free_area_init_node_result:
  assumes r: "get_pfn_range_for_nid mb nid = (s, e)" and se: "s < e \<or> s = 0 \<and> e = 0"
    and lim: "s < e \<Longrightarrow> start \<le> s \<and> e \<le> mx"
  defines "arch \<equiv> zone_ranges start ((\<lambda>_. 0)(1 := mx))"
  shows "node_init s e nid m (fst (free_area_init_node mb arch nid st (m, nodes)))"
proof -
  let ?c = "calculate_node_totalpages mb arch nid s e (node_zones m) ((nodes nid)\<lparr>node_start_pfn := st\<rparr>)"
  let ?m = "m\<lparr>node_zones := fst ?c\<rparr>"
  have eq: "fst (free_area_init_node mb arch nid st (m, nodes)) = free_area_init_core nid ?m"
    using r by (simp add: free_area_init_node_def case_prod_beta)
  have sp: "fst (zone_spanned_pages_in_node arch 0 s e) = 0" "fst (zone_spanned_pages_in_node arch 2 s e) = 0"
    "fst (zone_spanned_pages_in_node arch 1 s e) = e - s" "s < e \<longrightarrow> snd (zone_spanned_pages_in_node arch 1 s e) = s"
    using se spanned_zones [of start s e mx] lim unfolding arch_def
    by (auto simp: zone_spanned_pages_in_node_def [of _ _ 0 0])
  have "node_init s e nid ?m (free_area_init_core nid ?m)"
  proof (rule free_area_init_core_spans)
    show "s < e \<longrightarrow> zone_start_pfn (node_zones ?m (zone_at nid 1)) = unat s"
      using sp(3,4) by (auto simp: node_totals_zones size_zone_simps)
  qed (use sp(1-3) se in \<open>auto simp: node_totals_zones size_zone_simps\<close>)
  then show ?thesis unfolding eq by (rule node_init_cong) (auto simp: node_totals_zones)
qed

section \<open>All nodes\<close>

definition node_span :: "memblock \<Rightarrow> int \<Rightarrow> nat set" where
  "node_span mb nid = (case get_pfn_range_for_nid mb nid of (s, e) \<Rightarrow> {unat s ..< unat e})"

lemma node_span_empty: "get_pfn_range_for_nid mb nid = (s, e) \<Longrightarrow> node_span mb nid \<noteq> {} \<longleftrightarrow> s < e"
  by (auto simp: node_span_def word_less_nat_alt)

lemma get_pfn_range_order:
  assumes "get_pfn_range_for_nid mb nid = (s, e)"
  shows "s < e \<or> s = 0 \<and> e = 0"
proof (cases "for_each_mem_pfn_range mb nid")
  case Nil
  then show ?thesis using get_pfn_range_bounds(2) [OF assms] by simp
next
  case (Cons x xs)
  then have x: "x \<in> set (for_each_mem_pfn_range mb nid)" by simp
  then have lt: "fst x < fst (snd x)" by (auto simp: for_each_mem_pfn_range_eq pfn_range_def pfn_wanted_def)
  have "s \<le> fst x" "fst (snd x) \<le> e" using get_pfn_range_bounds(1) [OF assms x] by auto
  then have "s < e" using lt by (meson order_le_less_trans order_less_le_trans)
  then show ?thesis ..
qed

definition nodes_init :: "memblock \<Rightarrow> int set \<Rightarrow> mm \<Rightarrow> mm \<Rightarrow> bool" where
  "nodes_init mb ns m m' \<longleftrightarrow>
     (\<forall>nid \<in> ns. node_span mb nid \<noteq> {} \<longrightarrow>
        zone_fresh (node_zones m' (zone_at nid 1)) \<and> zone_node (node_zones m' (zone_at nid 1)) = of_int nid) \<and>
     (\<forall>zp. fst zp \<notin> of_int ` ns \<longrightarrow> node_zones m' zp = node_zones m zp) \<and>
     (\<forall>q. (\<exists>nid \<in> ns. q \<in> node_span mb nid \<and> mem_map m' q = init_single_page 1 nid) \<or>
          (\<forall>nid \<in> ns. q \<notin> node_span mb nid) \<and> mem_map m' q = mem_map m q) \<and>
     nr_online_nodes m' = nr_online_nodes m \<and> page_data m' = page_data m"

lemma nodes_init_other: "nodes_init mb ns m m' \<Longrightarrow> fst zp \<notin> of_int ` ns \<Longrightarrow> node_zones m' zp = node_zones m zp"
  unfolding nodes_init_def by blast

lemma node_init_other: "node_init s e nid m m' \<Longrightarrow> fst zp \<noteq> of_int nid \<Longrightarrow> node_zones m' zp = node_zones m zp"
  unfolding node_init_def by blast

lemma init_nodes_result:
  assumes lim: "\<And>nid s e. nid \<in> set nids \<Longrightarrow> get_pfn_range_for_nid mb nid = (s, e) \<Longrightarrow> s < e \<Longrightarrow> start \<le> s \<and> e \<le> mx"
    and ns: "distinct nids" "\<And>n. n \<in> set nids \<Longrightarrow> 0 \<le> n \<and> n < 8"
  defines "arch \<equiv> zone_ranges start ((\<lambda>_. 0)(1 := mx))"
  shows "nodes_init mb (set nids) m (fst (fold (\<lambda>nid. free_area_init_node mb arch nid (f nid)) nids (m, nodes)))"
  using lim ns
proof (induction nids arbitrary: m nodes)
  case Nil
  then show ?case by (simp add: nodes_init_def)
next
  case (Cons nid nids)
  obtain s e where r: "get_pfn_range_for_nid mb nid = (s, e)" by (cases "get_pfn_range_for_nid mb nid")
  obtain m1 nodes1 where m1: "free_area_init_node mb arch nid (f nid) (m, nodes) = (m1, nodes1)" by (meson surj_pair)
  have "node_init s e nid m (fst (free_area_init_node mb arch nid (f nid) (m, nodes)))"
    unfolding arch_def by (rule free_area_init_node_result [OF r get_pfn_range_order [OF r]]) (use Cons.prems(1) [OF _ r] in auto)
  then have n1: "node_init s e nid m m1" by (simp add: m1)
  define m' where "m' = fst (fold (\<lambda>nid. free_area_init_node mb arch nid (f nid)) nids (m1, nodes1))"
  have n2: "nodes_init mb (set nids) m1 m'" unfolding m'_def by (rule Cons.IH) (use Cons.prems in auto)
  have ne: "(of_int nid :: u64) \<notin> of_int ` set nids"
    using Cons.prems(2,3) node_word_inj [of nid] by auto
  have sp: "q \<in> node_span mb nid \<longleftrightarrow> unat s \<le> q \<and> q < unat e" for q by (simp add: node_span_def r)
  have z: "node_zones m' (zone_at nid 1) = node_zones m1 (zone_at nid 1)" by (rule nodes_init_other [OF n2]) (simp add: ne)
  have "nodes_init mb (insert nid (set nids)) m m'"
    unfolding nodes_init_def
  proof (intro conjI allI ballI impI)
    fix n assume n: "n \<in> insert nid (set nids)" "node_span mb n \<noteq> {}"
    show "zone_fresh (node_zones m' (zone_at n 1))" "zone_node (node_zones m' (zone_at n 1)) = of_int n"
      using n z n1 n2 node_span_empty [OF r] by (auto simp: nodes_init_def node_init_def)
  next
    fix zp :: zone_ptr assume "fst zp \<notin> of_int ` insert nid (set nids)"
    then show "node_zones m' zp = node_zones m zp" using nodes_init_other [OF n2, of zp] node_init_other [OF n1, of zp] by auto
  next
    fix q
    have "mem_map m1 q = (if q \<in> node_span mb nid then init_single_page 1 nid else mem_map m q)"
      using n1 by (simp add: node_init_def sp)
    then show "(\<exists>n \<in> insert nid (set nids). q \<in> node_span mb n \<and> mem_map m' q = init_single_page 1 n) \<or>
        (\<forall>n \<in> insert nid (set nids). q \<notin> node_span mb n) \<and> mem_map m' q = mem_map m q"
      using n2 unfolding nodes_init_def by (cases "q \<in> node_span mb nid") (metis insert_iff)+
  qed (use n1 n2 in \<open>simp_all add: nodes_init_def node_init_def\<close>)
  then show ?case by (simp add: m1 m'_def)
qed

section \<open>Memory and nodes\<close>

text \<open>Memory consists of whole pages.\<close>

definition memory_aligned :: "memblock \<Rightarrow> bool" where
  "memory_aligned mb \<longleftrightarrow>
     (\<forall>r \<in> set (mt_regions (mb_memory mb)). 4096 dvd unat (rgn_base r) \<and> 4096 dvd unat (rgn_end r))"

lemma aligned_low: "4096 dvd unat (a :: u64) \<Longrightarrow> unat a + 4095 < 2 ^ 64"
proof -
  assume "4096 dvd unat a"
  then obtain k where k: "unat a = 4096 * k" by (auto elim: dvdE)
  have "unat a < 2 ^ LENGTH(64)" by (rule unsigned_less)
  then have "k < 2 ^ 52" using k by simp
  then show ?thesis using k by simp
qed

lemma aligned_next: "4096 dvd b \<Longrightarrow> q * 4096 < b \<Longrightarrow> (q + 1) * 4096 \<le> b" for b q :: nat
proof (elim dvdE)
  fix k assume "q * 4096 < b" "b = 4096 * k"
  then have "q < k" by simp
  then have "(q + 1) * 4096 \<le> k * 4096" by (intro mult_le_mono1) simp
  then show "(q + 1) * 4096 \<le> b" using \<open>b = 4096 * k\<close> by (simp add: mult.commute)
qed

lemma valid_in_region:
  assumes ok: "mt_ok (mb_memory mb)" and al: "memory_aligned mb" and v: "pfn_valid mb q"
  obtains r where "r \<in> set (mt_regions (mb_memory mb))" "pfn_wanted (rgn_nid r) r"
    "q \<in> {unat (PFN_UP (rgn_base r)) ..< unat (PFN_DOWN (rgn_end r))}"
proof -
  let ?a = "push_bit PAGE_SHIFT (of_nat q) :: phys_addr_t"
  have a: "unat (drop_bit PAGE_SHIFT ?a) = q" "attr_of (mb_memory mb) ?a \<noteq> None"
    using v is_map_memory_attr [OF ok] by (auto simp: pfn_valid_def Let_def)
  have "unat ?a div 4096 = q" using a(1) by (simp add: PAGE_SHIFT_def drop_bit_eq_div unat_div)
  moreover have "unat ?a mod 4096 = 0"
  proof -
    have "?a = of_nat (q * 4096)" by (simp add: PAGE_SHIFT_def push_bit_eq_mult)
    then have "unat ?a = (q * 4096) mod 2 ^ 64" by (simp only: unat_of_nat) simp
    then show ?thesis by (simp add: mod_mod_cancel)
  qed
  ultimately have ua: "unat ?a = q * 4096" using div_mult_mod_eq [of "unat ?a" 4096] by simp
  obtain r where r: "r \<in> set (mt_regions (mb_memory mb))" "?a \<in> rgn_range r"
    using a(2) attr_at_iff [of "mt_regions (mb_memory mb)" ?a] by (auto simp: attr_of_def)
  have al: "4096 dvd unat (rgn_base r)" "4096 dvd unat (rgn_end r)" using al r(1) by (auto simp: memory_aligned_def)
  have "unat (rgn_base r) \<le> q * 4096" "q * 4096 < unat (rgn_end r)"
    using r(2) ua by (auto simp: rgn_range_def word_le_nat_alt word_less_nat_alt)
  then have "q \<in> range_frames (rgn_base r, rgn_end r, 0)" using aligned_next [OF al(2)] by (simp add: range_frames_def)
  then have q: "q \<in> {unat (PFN_UP (rgn_base r)) ..< unat (PFN_DOWN (rgn_end r))}"
    using pfn_range_frames [OF aligned_low [OF al(1)]] by blast
  then have "pfn_wanted (rgn_nid r) r" by (simp add: pfn_wanted_def word_less_nat_alt)
  then show thesis using that r(1) q by blast
qed

lemma region_in_span:
  assumes "r \<in> set (mt_regions (mb_memory mb))" "pfn_wanted (rgn_nid r) r"
  shows "{unat (PFN_UP (rgn_base r)) ..< unat (PFN_DOWN (rgn_end r))} \<subseteq> node_span mb (rgn_nid r)"
proof -
  obtain s e where g: "get_pfn_range_for_nid mb (rgn_nid r) = (s, e)" by (cases "get_pfn_range_for_nid mb (rgn_nid r)")
  have "pfn_range r \<in> set (for_each_mem_pfn_range mb (rgn_nid r))" using assms by (auto simp: for_each_mem_pfn_range_eq)
  from get_pfn_range_bounds(1) [OF g this] show ?thesis
    by (auto simp: node_span_def g pfn_range_def word_le_nat_alt)
qed

lemma fold_min_le_start: "fold (\<lambda>r m. min m (fst r)) xs m0 \<le> m0" for m0 :: u64
proof (induction xs arbitrary: m0)
  case (Cons x xs)
  show ?case using order_trans [OF Cons.IH [of "min m0 (fst x)"] min.cobounded1] by simp
qed simp

lemma fold_min_le: "x \<in> set xs \<Longrightarrow> fold (\<lambda>r m. min m (fst r)) xs m0 \<le> fst x" for m0 :: u64
proof (induction xs arbitrary: m0)
  case (Cons y xs)
  then show ?case using order_trans [OF fold_min_le_start [of xs "min m0 (fst y)"] min.cobounded2] by auto
qed simp

lemma node_limits:
  assumes g: "get_pfn_range_for_nid mb nid = (s, e)" and lt: "s < e" and ok: "mt_sorted (mb_memory mb)"
  shows "find_min_pfn_with_active_regions mb \<le> s" "e \<le> PFN_DOWN (memblock_end_of_DRAM mb)"
proof -
  let ?xs = "for_each_mem_pfn_range mb nid"
  have "?xs \<noteq> []" using get_pfn_range_bounds(2) [OF g] lt by auto
  then have se: "s \<in> fst ` set ?xs" "e \<in> (fst \<circ> snd) ` set ?xs" using get_pfn_range_bounds(3) [OF g] by auto
  have "set ?xs \<subseteq> set (for_each_mem_pfn_range mb MAX_NUMNODES)" by (auto simp: for_each_mem_pfn_range_eq pfn_wanted_def)
  then obtain x where x: "x \<in> set (for_each_mem_pfn_range mb MAX_NUMNODES)" "s = fst x" using se(1) by auto
  then show "find_min_pfn_with_active_regions mb \<le> s"
    using fold_min_le [OF x(1), of "- 1"] by (simp add: find_min_pfn_with_active_regions_def find_min_pfn_for_node_def Let_def)
  obtain r where r: "r \<in> set (mt_regions (mb_memory mb))" "e = PFN_DOWN (rgn_end r)"
    using se(2) by (auto simp: for_each_mem_pfn_range_eq pfn_range_def)
  have "unat (rgn_end r) \<le> unat (memblock_end_of_DRAM mb)" using end_of_DRAM_max [OF ok r(1)] by (simp add: word_le_nat_alt)
  then show "e \<le> PFN_DOWN (memblock_end_of_DRAM mb)" unfolding r(2) word_le_nat_alt unat_PFN_DOWN by (rule div_le_mono)
qed

section \<open>Walking the memory alone\<close>

lemma next_mem_range_loop_alone:
  "next_mem_range_loop nid flags ta None a b = Some (out, a', b') \<Longrightarrow> a < a' \<and> a' \<le> mt_cnt ta \<and> b' = b"
proof (induction nid flags ta "None :: memblock_type option" a b rule: next_mem_range_loop.induct)
  case (1 nid flags ta a b)
  show ?case using 1(3) 1(1)
    by (subst (asm) next_mem_range_loop.simps) (force simp: Let_def split: if_splits)
qed

lemma mem_range_iter_alone:
  assumes "mt_cnt ta < 2 ^ 31"
  shows "i \<le> mt_cnt ta \<Longrightarrow> mt_cnt ta - i < n \<Longrightarrow>
    \<exists>xs. mem_range_iter n (\<lambda>idx. next_mem_range idx nid flags ta None) (pack_idx (int i) 0) = Inr xs"
proof (induction n arbitrary: i)
  case (Suc n)
  have p: "fwd_a (pack_idx (int i) 0) = i" "fwd_b (pack_idx (int i) 0) = 0"
    using fwd_pack [of i 0] Suc.prems(1) assms by simp_all
  show ?case
  proof (cases "next_mem_range_loop (eff_nid nid) flags ta None i 0")
    case None
    then show ?thesis by (simp add: next_mem_range_alt p)
  next
    case (Some x)
    obtain out a' b' where x: "x = (out, a', b')" by (cases x)
    have a: "i < a'" "a' \<le> mt_cnt ta" "b' = 0" using next_mem_range_loop_alone [OF Some [unfolded x]] by auto
    obtain xs where "mem_range_iter n (\<lambda>idx. next_mem_range idx nid flags ta None) (pack_idx (int a') 0) = Inr xs"
      using Suc.IH [OF a(2)] a(1,2) Suc.prems by fastforce
    then show ?thesis using Some x a(3) by (simp add: next_mem_range_alt p)
  qed
qed simp

lemma for_each_mem_range_alone:
  assumes "mt_cnt ta < 2 ^ 31" shows "\<exists>xs. for_each_mem_range ta None nid flags = Inr xs"
proof -
  have "pack_idx (int 0) 0 = 0" by (simp add: pack_idx_def)
  then show ?thesis using mem_range_iter_alone [OF assms, of 0 "iter_fuel ta None" nid flags]
    by (simp add: for_each_mem_range_def iter_fuel_def)
qed

section \<open>The machine at the end of the set-up\<close>

text \<open>
  The nodes that firmware describes: every memory region belongs to an online node, nodes do
  not interleave, and no naturally aligned block of the largest order lies in two of them.
\<close>

definition nodes_ok :: "memblock \<Rightarrow> int list \<Rightarrow> bool" where
  "nodes_ok mb online \<longleftrightarrow>
     distinct online \<and> length online \<le> 8 \<and> (\<forall>n \<in> set online. 0 \<le> n \<and> n < 8) \<and>
     (\<forall>r \<in> set (mt_regions (mb_memory mb)). pfn_wanted (rgn_nid r) r \<longrightarrow> rgn_nid r \<in> set online) \<and>
     (\<forall>n \<in> set online. \<forall>n' \<in> set online. n \<noteq> n' \<longrightarrow>
        (\<forall>p \<in> node_span mb n. \<forall>q \<in> node_span mb n'. p div 2 ^ (MAX_ORDER - 1) \<noteq> q div 2 ^ (MAX_ORDER - 1)))"

definition boot_zones :: "memblock \<Rightarrow> int list \<Rightarrow> zone_ptr set" where
  "boot_zones mb online = {zone_at n 1 | n. n \<in> set online \<and> node_span mb n \<noteq> {}}"

lemma nodes_okD:
  assumes "nodes_ok mb online" "n \<in> set online" "n' \<in> set online" "p \<in> node_span mb n" "q \<in> node_span mb n'"
    "p div 2 ^ (MAX_ORDER - 1) = q div 2 ^ (MAX_ORDER - 1)"
  shows "n = n'"
  using assms unfolding nodes_ok_def by blast

lemma valid_page_node:
  assumes ok: "mt_ok (mb_memory mb)" "memory_aligned mb" "nodes_ok mb online" and v: "pfn_valid mb q"
  obtains n where "n \<in> set online" "q \<in> node_span mb n"
proof -
  obtain r where r: "r \<in> set (mt_regions (mb_memory mb))" "pfn_wanted (rgn_nid r) r"
    "q \<in> {unat (PFN_UP (rgn_base r)) ..< unat (PFN_DOWN (rgn_end r))}"
    by (rule valid_in_region [OF ok(1,2) v])
  have "q \<in> node_span mb (rgn_nid r)" using region_in_span [OF r(1,2)] r(3) by (rule subsetD)
  moreover have "rgn_nid r \<in> set online" using ok(3) r(1,2) by (simp add: nodes_ok_def)
  ultimately show thesis using that by simp
qed

lemma boot_map_nodes:
  assumes ok: "mt_ok (mb_memory mb)" "memory_aligned mb" "nodes_ok mb online" and i: "nodes_init mb (set online) m m'"
  shows "boot_map (pfn_valid mb) (boot_zones mb online) (mem_map m')"
proof -
  have on: "\<And>n. n \<in> set online \<Longrightarrow> 0 \<le> n \<and> n < 8" using ok(3) by (auto simp: nodes_ok_def)
  have pg: "\<exists>n \<in> set online. q \<in> node_span mb n \<and> mem_map m' q = init_single_page 1 n" if v: "pfn_valid mb q" for q
  proof -
    obtain n where n: "n \<in> set online" "q \<in> node_span mb n" by (rule valid_page_node [OF ok v])
    then show ?thesis using i unfolding nodes_init_def by blast
  qed
  have bp: "boot_page (pfn_valid mb) (zone_at n 1) q (init_single_page 1 n)" if "n \<in> set online" "pfn_valid mb q" for n q
    by (rule init_single_page_boot) (use on that in auto)
  then have pz: "page_zone (init_single_page 1 n) = zone_at n 1" if "n \<in> set online" "pfn_valid mb q" for n q
    using that by (auto simp: boot_page_def)
  show ?thesis
    unfolding boot_map_def boot_range_def
  proof (intro conjI ballI impI; (simp only: mem_Collect_eq)?)
    fix q assume v: "pfn_valid mb q"
    then obtain n where n: "n \<in> set online" "q \<in> node_span mb n" "mem_map m' q = init_single_page 1 n" using pg by blast
    then show "page_zone (mem_map m' q) \<in> boot_zones mb online" using pz [OF n(1) v] by (auto simp: boot_zones_def)
    show "boot_page (pfn_valid mb) (page_zone (mem_map m' q)) q (mem_map m' q)"
      unfolding n(3) pz [OF n(1) v] by (rule bp [OF n(1) v])
  next
    fix p q assume v: "pfn_valid mb p" "pfn_valid mb q" and e: "p div 2 ^ (MAX_ORDER - 1) = q div 2 ^ (MAX_ORDER - 1)"
    obtain n where n: "n \<in> set online" "p \<in> node_span mb n" "mem_map m' p = init_single_page 1 n" using pg v(1) by blast
    obtain n' where n': "n' \<in> set online" "q \<in> node_span mb n'" "mem_map m' q = init_single_page 1 n'" using pg v(2) by blast
    have "n = n'" by (rule nodes_okD [OF ok(3) n(1) n'(1) n(2) n'(2) e])
    then show "page_zone (mem_map m' p) = page_zone (mem_map m' q)" using n(3) n'(3) by simp
  qed
qed

lemma zone_sizes_init_result:
  assumes ok: "mt_ok (mb_memory mb)" "mt_cnt (mb_memory mb) < 2 ^ 31" "nodes_ok mb online"
  obtains m0 m' nodes' where "zone_sizes_init mb online (PFN_DOWN (memblock_end_of_DRAM mb)) (m, nodes) = Inr (m', nodes')"
    "nodes_init mb (set online) m0 m'" "nr_online_nodes m' = nr_online_nodes m"
proof -
  let ?mx = "PFN_DOWN (memblock_end_of_DRAM mb)"
  obtain pages where z: "zero_resv_unavail mb ?mx (mem_map m) = Inr pages"
  proof -
    obtain xs where xs: "for_each_mem_range (mb_memory mb) None NUMA_NO_NODE MEMBLOCK_NONE = Inr xs"
      using for_each_mem_range_alone [OF ok(2)] by blast
    obtain ps c nx where "zero_gaps (pfn_valid mb) xs 0 (mem_map m) 0 = (ps, c, nx)" by (rule prod_cases3)
    then show thesis using that xs by (simp add: zero_resv_unavail_def)
  qed
  let ?arch = "zone_ranges (find_min_pfn_with_active_regions mb) ((\<lambda>_. 0)(1 := ?mx))"
  let ?r = "fold (\<lambda>nid. free_area_init_node mb ?arch nid (find_min_pfn_for_node mb nid)) online (m\<lparr>mem_map := pages\<rparr>, nodes)"
  have on: "distinct online" "\<And>n. n \<in> set online \<Longrightarrow> 0 \<le> n \<and> n < 8" using ok(3) by (auto simp: nodes_ok_def)
  have "nodes_init mb (set online) (m\<lparr>mem_map := pages\<rparr>) (fst ?r)"
    by (rule init_nodes_result [OF _ on]) (use node_limits mt_ok_sorted [OF ok(1)] in auto)
  moreover then have "nr_online_nodes (fst ?r) = nr_online_nodes m" by (simp add: nodes_init_def)
  moreover have "zone_sizes_init mb online ?mx (m, nodes) = Inr (fst ?r, snd ?r)"
    using z by (simp add: zone_sizes_init_def free_area_init_nodes_def Let_def)
  ultimately show thesis using that by blast
qed

text \<open>
  After the zones are sized and the zonelists are built the allocator is well-formed and
  empty, and all page descriptors are ready for their release.
\<close>

lemma boot_machine_result:
  assumes ok: "mt_ok (mb_memory mb)" "mt_cnt (mb_memory mb) < 2 ^ 31" "memory_aligned mb" "nodes_ok mb online"
    and nr: "nr_online_nodes m = length online"
  obtains m1 nodes1 m2 where "zone_sizes_init mb online (PFN_DOWN (memblock_end_of_DRAM mb)) (m, nodes) = Inr (m1, nodes1)"
    "build_all_zonelists s online m1 = Inr m2" "mm_ok (pfn_valid mb) (boot_zones mb online) m2"
    "boot_map (pfn_valid mb) (boot_zones mb online) (mem_map m2)" "held (boot_zones mb online) m2 = {}"
    "\<forall>nid \<in> set online. zonelist_of s online (node_zones m1) nid (node_zonelists m2 (of_int nid))"
proof -
  obtain m0 m1 nodes1 where m1: "zone_sizes_init mb online (PFN_DOWN (memblock_end_of_DRAM mb)) (m, nodes) = Inr (m1, nodes1)"
    "nodes_init mb (set online) m0 m1" "nr_online_nodes m1 = nr_online_nodes m"
    by (rule zone_sizes_init_result [OF ok(1,2,4)])
  have on: "distinct online" "\<And>n. n \<in> set online \<Longrightarrow> 0 \<le> n \<and> n < 8" "length online \<le> 8" using ok(4) by (auto simp: nodes_ok_def)
  have nr1: "nr_online_nodes m1 = length online" using m1(3) nr by simp
  have l: "loads_ok (int (length online)) (\<lambda>_. 0)" by (simp add: loads_ok_def)
  have "\<exists>m' nl. build_nodes s online online (m1, \<lambda>_. 0) = Inr (m', nl) \<and> m' = m1\<lparr>node_zonelists := node_zonelists m'\<rparr> \<and>
      (\<forall>nid \<in> set online. zonelist_of s online (node_zones m1) nid (node_zonelists m' (of_int nid))) \<and>
      (\<forall>n. n \<notin> of_int ` set online \<longrightarrow> node_zonelists m' n = node_zonelists m1 n)"
    by (rule build_nodes_result [OF on(1) _ on(3) subset_refl on(1) nr1 l]) (rule on(2))
  then obtain m' nl where m': "build_nodes s online online (m1, \<lambda>_. 0) = Inr (m', nl)" "m' = m1\<lparr>node_zonelists := node_zonelists m'\<rparr>"
    "\<forall>nid \<in> set online. zonelist_of s online (node_zones m1) nid (node_zonelists m' (of_int nid))"
    by (elim exE conjE) (rule that)
  let ?m2 = "m'\<lparr>node_zones := (\<lambda>zp. (node_zones m' zp)\<lparr>zone_pageset := (\<lambda>cpu. setup_pageset 0)\<rparr>)\<rparr>"
  have same: "mem_map ?m2 = mem_map m1" "node_zones m' = node_zones m1" by (subst m'(2), simp)+
  have b: "boot_map (pfn_valid mb) (boot_zones mb online) (mem_map ?m2)"
    unfolding same(1) by (rule boot_map_nodes [OF ok(1,3,4) m1(2)])
  have f: "zone_fresh (node_zones ?m2 zp)" if "zp \<in> boot_zones mb online" for zp
    using that m1(2) same(2) by (auto simp: boot_zones_def nodes_init_def zone_fresh_def)
  have ps: "zone_pageset (node_zones ?m2 zp) cpu = setup_pageset 0" for zp cpu by simp
  have "build_all_zonelists s online m1 = Inr ?m2" using m'(1) by (simp add: build_all_zonelists_def)
  moreover have "\<forall>nid \<in> set online. zonelist_of s online (node_zones m1) nid (node_zonelists ?m2 (of_int nid))" using m'(3) by simp
  ultimately show thesis using that [OF m1(1) _ fresh_machine(1) [OF b f ps] b fresh_machine(2) [OF b f ps]] by simp
qed

section \<open>Present pages\<close>

definition node_frames :: "memblock \<Rightarrow> int \<Rightarrow> nat set" where
  "node_frames mb nid =
     (\<Union>r \<in> {r \<in> set (mt_regions (mb_memory mb)). rgn_nid r = nid}. range_frames (rgn_base r, rgn_end r, nid))"

lemma absent_inside:
  assumes "\<And>x. x \<in> set xs \<Longrightarrow> lo \<le> fst x \<and> fst x \<le> fst (snd x) \<and> fst (snd x) \<le> hi"
  shows "fold (\<lambda>(s, e, _) n. n - (clamp e lo hi - clamp s lo hi)) xs n0 = n0 - (\<Sum>x \<leftarrow> xs. fst (snd x) - fst x)"
  using assms
proof (induction xs arbitrary: n0)
  case (Cons x xs)
  obtain s e n where x: "x = (s, e, n)" by (cases x)
  have "lo \<le> s" "s \<le> e" "e \<le> hi" using Cons.prems [of x] x by auto
  then have "clamp e lo hi = e" "clamp s lo hi = s" by (auto simp: clamp_def max_def min_def)
  then show ?case using Cons x by (simp add: algebra_simps)
qed simp

text \<open>Disjoint ascending ranges: the sum of the lengths is the number of frames and does not wrap.\<close>

lemma ascending_sum:
  assumes "sorted_wrt (\<lambda>x y. fst (snd x) \<le> fst y) xs" "\<And>x. x \<in> set xs \<Longrightarrow> a \<le> fst x \<and> fst x \<le> fst (snd x) \<and> fst (snd x) \<le> b"
    "a \<le> (b :: u64)"
  shows "unat (\<Sum>x \<leftarrow> xs. fst (snd x) - fst x) = card (\<Union>x \<in> set xs. {unat (fst x) ..< unat (fst (snd x))}) \<and>
    unat (\<Sum>x \<leftarrow> xs. fst (snd x) - fst x) \<le> unat b - unat a"
  using assms
proof (induction xs arbitrary: a)
  case (Cons x xs)
  let ?s = "fst x" and ?e = "fst (snd x)" and ?S = "\<Sum>x \<leftarrow> xs. fst (snd x) - fst x"
    and ?F = "\<Union>x \<in> set xs. {unat (fst x) ..< unat (fst (snd x))}"
  have x: "a \<le> ?s" "?s \<le> ?e" "?e \<le> b" using Cons.prems(2) [of x] by auto
  have nx: "\<And>y. y \<in> set xs \<Longrightarrow> ?e \<le> fst y \<and> fst y \<le> fst (snd y) \<and> fst (snd y) \<le> b" using Cons.prems(1,2) by auto
  have IH: "unat ?S = card ?F" "unat ?S \<le> unat b - unat ?e" using Cons.IH [OF _ nx x(3)] Cons.prems(1) by auto
  have d: "unat (?e - ?s) = unat ?e - unat ?s" using x(2) by (simp add: unat_sub word_le_nat_alt)
  have le: "unat a \<le> unat ?s" "unat ?s \<le> unat ?e" "unat ?e \<le> unat b" using x by (auto simp: word_le_nat_alt)
  have "unat (?e - ?s) + unat ?S \<le> unat b" using d IH(2) le by linarith
  then have sum: "unat ((?e - ?s) + ?S) = unat (?e - ?s) + unat ?S" by (rule unat_add_no_wrap)
  have "{unat ?s ..< unat ?e} \<inter> ?F = {}" using nx by (fastforce simp: word_le_nat_alt)
  then have "card ({unat ?s ..< unat ?e} \<union> ?F) = (unat ?e - unat ?s) + card ?F" by (subst card_Un_disjoint) auto
  then show ?case using sum d IH le by simp
qed simp

lemma aligned_ranges_sorted:
  assumes ok: "mt_ok (mb_memory mb)" and al: "memory_aligned mb"
  shows "sorted_wrt (\<lambda>x y. fst (snd x) \<le> fst y) (for_each_mem_pfn_range mb nid)"
proof -
  have "sorted_wrt (\<lambda>r r'. rgn_end r \<le> rgn_base r') (mt_regions (mb_memory mb))"
    using mt_ok_sorted [OF ok] by (simp add: mt_sorted_def)
  then have "sorted_wrt (\<lambda>r r'. PFN_DOWN (rgn_end r) \<le> PFN_UP (rgn_base r')) (mt_regions (mb_memory mb))"
  proof (rule sorted_wrt_mono_rel [rotated])
    fix r r' assume r: "r \<in> set (mt_regions (mb_memory mb))" "r' \<in> set (mt_regions (mb_memory mb))" and le: "rgn_end r \<le> rgn_base r'"
    have "4096 dvd unat (rgn_base r')" using al r(2) by (auto simp: memory_aligned_def)
    then have "unat (PFN_UP (rgn_base r')) = (unat (rgn_base r') + 4095) div 4096" by (intro unat_PFN_UP aligned_low)
    moreover have "unat (rgn_end r) div 4096 \<le> (unat (rgn_base r') + 4095) div 4096"
      using le by (intro div_le_mono) (simp add: word_le_nat_alt)
    ultimately show "PFN_DOWN (rgn_end r) \<le> PFN_UP (rgn_base r')" by (simp add: word_le_nat_alt unat_PFN_DOWN)
  qed
  then show ?thesis by (simp add: for_each_mem_pfn_range_eq sorted_wrt_map pfn_range_def sorted_wrt_filter)
qed

lemma node_frames_ranges:
  assumes al: "memory_aligned mb" and nid: "nid < 8"
  shows "(\<Union>x \<in> set (for_each_mem_pfn_range mb nid). {unat (fst x) ..< unat (fst (snd x))}) = node_frames mb nid"
proof -
  let ?R = "mt_regions (mb_memory mb)"
  have eq: "{unat (PFN_UP (rgn_base r)) ..< unat (PFN_DOWN (rgn_end r))} = range_frames (rgn_base r, rgn_end r, nid)"
    if "r \<in> set ?R" for r
    using al that by (intro pfn_range_frames aligned_low) (auto simp: memory_aligned_def)
  have "(\<Union>x \<in> set (for_each_mem_pfn_range mb nid). {unat (fst x) ..< unat (fst (snd x))}) =
      (\<Union>r \<in> {r \<in> set ?R. pfn_wanted nid r}. {unat (PFN_UP (rgn_base r)) ..< unat (PFN_DOWN (rgn_end r))})"
    by (simp add: for_each_mem_pfn_range_eq pfn_range_def)
  also have "\<dots> = (\<Union>r \<in> {r \<in> set ?R. rgn_nid r = nid}. {unat (PFN_UP (rgn_base r)) ..< unat (PFN_DOWN (rgn_end r))})"
    using nid by (fastforce simp: pfn_wanted_def MAX_NUMNODES_def word_less_nat_alt)
  also have "\<dots> = node_frames mb nid" unfolding node_frames_def using eq by (intro SUP_cong) auto
  finally show ?thesis .
qed

lemma present_pages_exact:
  assumes ok: "mt_ok (mb_memory mb)" "memory_aligned mb" and nid: "nid < 8"
    and g: "get_pfn_range_for_nid mb nid = (s, e)" and lt: "s < e" and lim: "start \<le> s" "e \<le> mx"
  shows "present_pages (size_zone mb (zone_ranges start ((\<lambda>_. 0)(1 := mx))) nid s e 1 z) = card (node_frames mb nid)"
proof -
  let ?arch = "zone_ranges start ((\<lambda>_. 0)(1 := mx))" and ?xs = "for_each_mem_pfn_range mb nid"
  let ?S = "\<Sum>x \<leftarrow> ?xs. fst (snd x) - fst x"
  have in_range: "s \<le> fst x \<and> fst x \<le> fst (snd x) \<and> fst (snd x) \<le> e" if "x \<in> set ?xs" for x
  proof -
    have "fst x < fst (snd x)" using that by (auto simp: for_each_mem_pfn_range_eq pfn_range_def pfn_wanted_def)
    then show ?thesis using get_pfn_range_bounds(1) [OF g that] by simp
  qed
  have "clamp s start (max mx start) = s" "clamp e start (max mx start) = e" "\<not> (s = 0 \<and> e = 0)"
    using lim lt by (auto simp: clamp_def max_def min_def)
  then have "zone_absent_pages_in_node mb ?arch nid 1 s e = (e - s) - ?S"
    unfolding zone_absent_pages_in_node_def zone_ranges_eq absent_pages_in_range_def
    using absent_inside [of ?xs s e "e - s", OF in_range] by auto
  moreover have "zone_spanned_pages_in_node ?arch 1 s e = (e - s, s)" by (rule spanned_zones(2) [OF lim(1) lt lim(2)])
  ultimately have "present_pages (size_zone mb ?arch nid s e 1 z) = unat ?S" by (simp add: size_zone_def Let_def)
  also have "\<dots> = card (\<Union>x \<in> set ?xs. {unat (fst x) ..< unat (fst (snd x))})"
    using ascending_sum [OF aligned_ranges_sorted [OF ok] in_range] lt by simp
  finally show ?thesis by (simp only: node_frames_ranges [OF ok(2) nid])
qed

end
