(* ===== verification/Memblock_Properties.thy ===== *)
theory Memblock_Properties
  imports Memblock_Api
begin

unbundle bit_operations_syntax

text \<open>
  The properties of the boot-time allocator, over the definitions of the other
  \<open>Memblock\<close> theories, each with an instance at a concrete state.
\<close>

section \<open>Concrete states\<close>

definition plain :: "phys_addr_t \<Rightarrow> phys_addr_t \<Rightarrow> memblock_region" where
  "plain base sz = \<lparr>rgn_base = base, rgn_size = sz, rgn_flags = 0, rgn_nid = MAX_NUMNODES\<rparr>"

text \<open>Two banks of memory and two reservations in the static arrays.\<close>

definition small_state :: memblock where
  "small_state =
     \<lparr>mb_bottom_up = False, mb_current_limit = MEMBLOCK_ALLOC_ANYWHERE,
      mb_memory = \<lparr>mt_name = ''memory'', mt_max = 128, mt_total_size = 0x30000,
                   mt_regions = [plain 0x10000 0x20000, plain 0x80000 0x10000],
                   mt_array = Memory_init_regions\<rparr>,
      mb_reserved = \<lparr>mt_name = ''reserved'', mt_max = 128, mt_total_size = 0x3000,
                     mt_regions = [plain 0x10000 0x1000, plain 0x1e000 0x2000],
                     mt_array = Reserved_init_regions\<rparr>,
      mb_can_resize = True, mb_has_mirror = False, mb_kernel_end = 0x11000\<rparr>"

text \<open>
  Both arrays full: the memory array was allocated from memblock before, the reserved array
  is the static one (with \<open>INIT_MEMBLOCK_REGIONS\<close> set to 4).
\<close>

definition full_state :: memblock where
  "full_state =
     \<lparr>mb_bottom_up = False, mb_current_limit = MEMBLOCK_ALLOC_ANYWHERE,
      mb_memory = \<lparr>mt_name = ''memory'', mt_max = 4, mt_total_size = 0x130000,
                   mt_regions = [plain 0x100000 0x100000, plain 0x300000 0x10000,
                                 plain 0x400000 0x10000, plain 0x500000 0x10000],
                   mt_array = At_phys 0x1ff000\<rparr>,
      mb_reserved = \<lparr>mt_name = ''reserved'', mt_max = 4, mt_total_size = 0x31000,
                     mt_regions = [plain 0x1ff000 0x1000, plain 0x300000 0x10000,
                                   plain 0x400000 0x10000, plain 0x500000 0x10000],
                     mt_array = Reserved_init_regions\<rparr>,
      mb_can_resize = True, mb_has_mirror = False, mb_kernel_end = 0\<rparr>"

lemma small_types: "types_ok small_state" "cnt_small small_state"
  by (simp_all add: types_ok_def cnt_small_def mt_ok_def small_state_def mt_cnt_def plain_def)

lemma full_types: "types_ok full_state" "cnt_small full_state"
  by (simp_all add: types_ok_def cnt_small_def mt_ok_def full_state_def mt_cnt_def plain_def)

lemma static_blocks: "array_block (mb_reserved small_state) = {}" "array_block (mb_reserved full_state) = {}"
  by (simp_all add: small_state_def full_state_def array_block_def)

lemma static_limits:
  "mb_current_limit small_state \<noteq> 0" "mb_current_limit full_state \<noteq> 0"
  "mt_max (mb_reserved small_state) = 128" "mt_max (mb_reserved full_state) = 4"
  "mt_max (mb_memory small_state) = 128"
  by (simp_all add: small_state_def full_state_def MEMBLOCK_ALLOC_ANYWHERE_def PHYS_ADDR_MAX_def)

lemma small_boot: "boot_ok small_state"
  using small_types by (simp add: boot_ok_def cnt_small_def storage_reserved_def static_blocks static_limits)

lemma full_boot: "boot_ok full_state"
  using full_types by (simp add: boot_ok_def cnt_small_def storage_reserved_def static_blocks static_limits)

lemma full_apart: "area_apart full_state 0x120000 0x2000"
  by (simp add: area_apart_def static_blocks static_limits)

section \<open>Reservations\<close>

text \<open>
  C6. \<open>memblock_reserve\<close> never stops the machine, whether or not the reserved array has to
  be doubled on the way. It reports \<open>-ENOMEM\<close> or success; on success every address of the
  range is reserved. In both cases the array invariant holds again, the storage of the array
  is reserved, no other part of the state changes, and every address that was reserved keeps
  its attributes, except the storage the array has left.
\<close>

theorem memblock_reserve_total:
  assumes "boot_ok st" and "sz = memblock_cap_size base sz0" and "area_apart st base sz"
  shows "\<exists>st' r. memblock_reserve st base sz0 = Inr (st', r) \<and> reservations_kept st st' \<and>
    (r = - ENOMEM \<or> r = 0 \<and> (\<forall>x. base \<le> x \<and> x < base + sz \<longrightarrow> attr_of (mb_reserved st') x \<noteq> None))"
  using assms by (rule reserve_result)

theorem memblock_reserve_total_witness:
  "boot_ok full_state \<and> mt_cnt (mb_reserved full_state) = mt_max (mb_reserved full_state) \<and>
   (\<exists>st' r. memblock_reserve full_state 0x120000 0x2000 = Inr (st', r) \<and> reservations_kept full_state st' \<and>
    (r = - ENOMEM \<or>
     r = 0 \<and> (\<forall>x. 0x120000 \<le> x \<and> x < 0x120000 + 0x2000 \<longrightarrow> attr_of (mb_reserved st') x \<noteq> None)))"
proof -
  have "0x2000 = memblock_cap_size 0x120000 0x2000" by code_simp
  from memblock_reserve_total [OF full_boot this full_apart] show ?thesis
    using full_boot by (simp add: full_state_def mt_cnt_def)
qed

text \<open>
  C11. \<open>memblock_free\<close> likewise always returns. On success exactly the addresses of the range
  stop being reserved, up to the storage of the reserved array itself, which may have moved
  to make room for the two splits.
\<close>

theorem memblock_free_total:
  assumes "boot_ok st" and "sz = memblock_cap_size base sz0"
  shows "\<exists>st' r. memblock_free st base sz0 = Inr (st', r) \<and>
    (r = - ENOMEM \<and> res_kept st st' \<or>
     r = 0 \<and> (\<exists>st1. res_kept st st1 \<and> mb_memory st' = mb_memory st \<and> mt_ok (mb_reserved st') \<and>
        (\<forall>x. attr_of (mb_reserved st') x =
           (if base \<le> x \<and> x < base + sz then None else attr_of (mb_reserved st1) x))))"
proof -
  have b: "types_ok st" "mt_cnt (mb_memory st) < 2 ^ 31" "mt_max (mb_reserved st) < 2 ^ 29"
    using assms(1) by (simp_all add: boot_ok_def)
  obtain st' r where r: "memblock_free st base sz0 = Inr (st', r)"
    "r = - ENOMEM \<and> res_kept st st' \<or>
     r = 0 \<and> (\<exists>st1 t. res_kept st st1 \<and> st' = st1\<lparr>mb_reserved := t\<rparr> \<and> removed (mb_reserved st1) t base sz)"
    using rg.remove_range_reserved [of st sz base sz0 1] b assms(2)
    unfolding memblock_free_def memblock_remove_range_def dbl_depth_def
    by (auto simp: numeral_2_eq_2 simp del: memblock_double_array.simps)
  have "mb_memory st' = mb_memory st \<and> mt_ok (mb_reserved st') \<and>
      (\<forall>x. attr_of (mb_reserved st') x = (if base \<le> x \<and> x < base + sz then None else attr_of (mb_reserved st1) x))"
    if "res_kept st st1" "st' = st1\<lparr>mb_reserved := t\<rparr>" "removed (mb_reserved st1) t base sz" for st1 t
    using that by (auto simp: removed_def res_kept_def)
  with r show ?thesis by blast
qed

theorem memblock_free_total_witness:
  "boot_ok full_state \<and>
   (\<exists>st' r. memblock_free full_state 0x304000 0x1000 = Inr (st', r) \<and>
    (r = - ENOMEM \<and> res_kept full_state st' \<or>
     r = 0 \<and> (\<exists>st1. res_kept full_state st1 \<and> mb_memory st' = mb_memory full_state \<and> mt_ok (mb_reserved st') \<and>
        (\<forall>x. attr_of (mb_reserved st') x =
           (if 0x304000 \<le> x \<and> x < 0x304000 + 0x1000 then None else attr_of (mb_reserved st1) x)))))"
proof -
  have "0x1000 = memblock_cap_size 0x304000 0x1000" by code_simp
  from memblock_free_total [OF full_boot this] show ?thesis using full_boot by simp
qed

text \<open>
  C7. An allocation hands out memory that nobody has: if \<open>memblock_alloc_range_nid\<close> returns a
  block, the block is aligned, lies inside the requested window, consists of memory of the
  requested node and kind that was not reserved, and is reserved afterwards. It never stops
  the machine, and every earlier reservation outside the storage of the reserved array stays.
\<close>

theorem memblock_alloc_range_nid_safe:
  assumes "boot_ok st" and "sz \<noteq> 0" and "align = 2 ^ k" and "k < 64"
  shows "\<exists>st' c. memblock_alloc_range_nid st sz align start e nid flags = Inr (st', c) \<and>
    reservations_kept st st' \<and> (c \<noteq> 0 \<longrightarrow> allocated st st' nid flags start e sz align c)"
proof -
  have "(2 :: u64) ^ k \<noteq> 0" using assms(4) by simp
  then show ?thesis
    using find_and_reserve_result [OF assms(1,2,4), of start e nid flags] assms(3)
    by (simp add: memblock_alloc_range_nid_def)
qed

theorem memblock_alloc_range_nid_safe_witness:
  "boot_ok small_state \<and>
   (\<exists>st' c. memblock_alloc_range_nid small_state 0x3000 0x1000 0 0 NUMA_NO_NODE 0 = Inr (st', c) \<and>
    reservations_kept small_state st' \<and>
    (c \<noteq> 0 \<longrightarrow> allocated small_state st' NUMA_NO_NODE 0 0 0 0x3000 0x1000 c))"
proof -
  have "(0x1000 :: u64) = 2 ^ 12" by simp
  from memblock_alloc_range_nid_safe [OF small_boot _ this, of "0x3000" 0 0 NUMA_NO_NODE 0] show ?thesis
    using small_boot by simp
qed

section \<open>Growth of the arrays\<close>

text \<open>
  C12. Doubling the reserved array either fails and changes nothing or succeeds: the capacity
  doubles, the new storage is free memory that is clear of the area being added and is
  reserved afterwards, the old storage is released, and all other reservations keep their
  attributes. It needs no further doubling and cannot stop the machine.
\<close>

theorem memblock_double_array_reserved:
  assumes "types_ok st" and "cnt_small st" and "mt_max (mb_reserved st) < 2 ^ 31"
  shows "\<exists>st' r. memblock_double_array (Suc n) st RESERVED a s = Inr (st', r) \<and>
    (r = - 1 \<and> st' = st \<or>
     r = 0 \<and> (\<exists>c. res_grown st st' c \<and> usable st c (array_bytes (2 * mt_max (mb_reserved st))) \<and>
        (a \<noteq> 0 \<and> mb_current_limit st \<noteq> 0 \<longrightarrow> clear_of c (array_bytes (2 * mt_max (mb_reserved st))) a s)))"
  using assms by (rule double_reserved)

theorem memblock_double_array_reserved_witness:
  "types_ok full_state \<and>
   (\<exists>st' r. memblock_double_array (Suc 0) full_state RESERVED 0x120000 0x2000 = Inr (st', r) \<and>
    (r = - 1 \<and> st' = full_state \<or>
     r = 0 \<and> (\<exists>c. res_grown full_state st' c \<and> usable full_state c (array_bytes (2 * mt_max (mb_reserved full_state))) \<and>
        (0x120000 \<noteq> (0 :: phys_addr_t) \<and> mb_current_limit full_state \<noteq> 0 \<longrightarrow>
         clear_of c (array_bytes (2 * mt_max (mb_reserved full_state))) 0x120000 0x2000))))"
proof -
  have "mt_max (mb_reserved full_state) < 2 ^ 31" by (simp add: static_limits)
  from memblock_double_array_reserved [OF full_types this, of 0 "0x120000" "0x2000"] show ?thesis
    using full_types by (simp only: simp_thms)
qed


section \<open>The contracts of the range operations\<close>

text \<open>
  C8. \<open>memblock_add_range\<close> on an array with room: addresses of the range without attributes
  get the new ones, existing regions are not affected, the array invariant (sorted, disjoint,
  non-empty regions, correct total size) is kept, and a minimal array stays minimal.
\<close>

theorem memblock_add_range_contract:
  assumes "mt_ok (get_type w st)" and "sz = memblock_cap_size base sz0"
    and "room_needed (get_type w st) base sz nid flags \<le> mt_max (get_type w st)"
  shows "\<exists>t'. memblock_add_range st w base sz0 nid flags = Inr (put_type w t' st, 0) \<and>
           added (get_type w st) t' base sz nid flags"
  using add_range_fits [OF assms] by (simp add: memblock_add_range_def)

theorem memblock_add_range_contract_witness:
  "\<exists>t'. memblock_add_range small_state MEMORY 0x20000 0x70000 3 0 = Inr (put_type MEMORY t' small_state, 0) \<and>
           added (get_type MEMORY small_state) t' 0x20000 0x70000 3 0"
proof -
  have "mt_ok (get_type MEMORY small_state)" using small_types by (simp add: types_ok_def)
  moreover have "0x70000 = memblock_cap_size 0x20000 0x70000" by code_simp
  moreover have "room_needed (get_type MEMORY small_state) 0x20000 0x70000 3 0 \<le> mt_max (get_type MEMORY small_state)"
    by (simp add: room_needed_def live_def dummy_only_def small_state_def plain_def min_def)
  ultimately show ?thesis by (rule memblock_add_range_contract)
qed

text \<open>
  C9. \<open>memblock_remove_range\<close> on an array with room for two splits removes exactly the
  addresses of the range and keeps the invariant.
\<close>

theorem memblock_remove_range_contract:
  assumes "mt_ok (get_type w st)" and "sz = memblock_cap_size base sz0"
    and "mt_cnt (get_type w st) + 2 \<le> mt_max (get_type w st)"
  shows "\<exists>t'. memblock_remove_range st w base sz0 = Inr (put_type w t' st, 0) \<and>
           removed (get_type w st) t' base sz"
  using remove_range_fits [OF assms] by (simp add: memblock_remove_range_def)

theorem memblock_remove_range_contract_witness:
  "\<exists>t'. memblock_remove_range small_state MEMORY 0x18000 0x70000 = Inr (put_type MEMORY t' small_state, 0) \<and>
           removed (get_type MEMORY small_state) t' 0x18000 0x70000"
proof -
  have "mt_ok (get_type MEMORY small_state)" using small_types by (simp add: types_ok_def)
  moreover have "0x70000 = memblock_cap_size 0x18000 0x70000" by code_simp
  moreover have "mt_cnt (get_type MEMORY small_state) + 2 \<le> mt_max (get_type MEMORY small_state)"
    by (simp add: small_state_def mt_cnt_def)
  ultimately show ?thesis by (rule memblock_remove_range_contract)
qed

text \<open>
  C13. \<open>memblock_setclr_flag\<close> sets or clears the flag exactly for the memory of the range,
  keeps node ids and all other memory, and leaves the array minimal.
\<close>

theorem memblock_setclr_flag_contract:
  assumes "mt_ok (mb_memory st)" and "sz = memblock_cap_size base sz0" and "sz \<noteq> 0"
    and "mt_cnt (mb_memory st) + 2 \<le> mt_max (mb_memory st)"
  shows "\<exists>t'. memblock_setclr_flag st base sz0 set_it flag = Inr (st\<lparr>mb_memory := t'\<rparr>, 0) \<and>
    reattributed (mb_memory st) t' base sz
      (map_prod (\<lambda>f. if set_it then f OR flag else f AND NOT flag) (\<lambda>n. n))"
  using assms by (rule setclr_flag_fits)

theorem memblock_setclr_flag_contract_witness:
  "\<exists>t'. memblock_setclr_flag small_state 0x18000 0x4000 True MEMBLOCK_NOMAP = Inr (small_state\<lparr>mb_memory := t'\<rparr>, 0) \<and>
    reattributed (mb_memory small_state) t' 0x18000 0x4000
      (map_prod (\<lambda>f. if True then f OR MEMBLOCK_NOMAP else f AND NOT MEMBLOCK_NOMAP) (\<lambda>n. n))"
proof -
  have "mt_ok (mb_memory small_state)" using small_types by (simp add: types_ok_def)
  moreover have "0x4000 = memblock_cap_size 0x18000 0x4000" by code_simp
  moreover have "mt_cnt (mb_memory small_state) + 2 \<le> mt_max (mb_memory small_state)"
    by (simp add: small_state_def mt_cnt_def)
  ultimately show ?thesis by (intro memblock_setclr_flag_contract) simp_all
qed

text \<open>
  C14. \<open>memblock_set_node\<close> sets the node id exactly for the range, keeps the flags and all
  other regions, and leaves the array minimal.
\<close>

theorem memblock_set_node_contract:
  assumes "mt_ok (get_type w st)" and "sz = memblock_cap_size base sz0" and "sz \<noteq> 0"
    and "mt_cnt (get_type w st) + 2 \<le> mt_max (get_type w st)"
  shows "\<exists>t'. memblock_set_node st base sz0 w nid = Inr (put_type w t' st, 0) \<and>
    reattributed (get_type w st) t' base sz (map_prod (\<lambda>f. f) (\<lambda>n. nid))"
  using assms by (rule set_node_fits)

theorem memblock_set_node_contract_witness:
  "\<exists>t'. memblock_set_node small_state 0x80000 0x8000 MEMORY 1 = Inr (put_type MEMORY t' small_state, 0) \<and>
    reattributed (get_type MEMORY small_state) t' 0x80000 0x8000 (map_prod (\<lambda>f. f) (\<lambda>n. 1))"
proof -
  have "mt_ok (get_type MEMORY small_state)" using small_types by (simp add: types_ok_def)
  moreover have "0x8000 = memblock_cap_size 0x80000 0x8000" by code_simp
  moreover have "mt_cnt (get_type MEMORY small_state) + 2 \<le> mt_max (get_type MEMORY small_state)"
    by (simp add: small_state_def mt_cnt_def)
  ultimately show ?thesis by (intro memblock_set_node_contract) simp_all
qed

section \<open>Iteration and search\<close>

lemma small_arrays: "arrays_ok (mb_memory small_state) (mb_reserved small_state)"
  using small_types by (rule types_ok_arrays)

text \<open>
  C10. \<open>for_each_free_mem_range\<close> and its reverse terminate and visit, in ascending or descending order and without
  overlap, exactly the memory of the requested node and kind that is not reserved.
\<close>

theorem for_each_mem_range_visits_free_memory:
  assumes "arrays_ok memory reserved"
  shows "(\<exists>xs. for_each_mem_range memory (Some reserved) nid flags = Inr xs \<and>
           ranges_of xs = free_mem_area nid flags memory reserved \<and> ranges_sorted (<) xs) \<and>
    (\<exists>xs. for_each_mem_range_rev memory (Some reserved) nid flags = Inr xs \<and>
           ranges_of xs = free_mem_area nid flags memory reserved \<and> ranges_sorted (>) xs)"
  using for_each_mem_range_exact [OF assms] for_each_mem_range_rev_exact [OF assms] by blast

theorem for_each_mem_range_visits_free_memory_witness:
  "arrays_ok (mb_memory small_state) (mb_reserved small_state) \<and>
   (\<exists>xs. for_each_mem_range (mb_memory small_state) (Some (mb_reserved small_state)) NUMA_NO_NODE 0 = Inr xs \<and>
           ranges_of xs = free_mem_area NUMA_NO_NODE 0 (mb_memory small_state) (mb_reserved small_state) \<and>
           ranges_sorted (<) xs)"
  using for_each_mem_range_visits_free_memory [OF small_arrays, of NUMA_NO_NODE 0] small_arrays by simp

text \<open>
  C15. The binary search of \<open>memblock_search\<close> finds the region that contains the address
  exactly when there is one, and that region carries the attributes of the address.
\<close>

theorem memblock_search_correct:
  assumes "mt_ok t"
  shows "case memblock_search t addr of
      None \<Rightarrow> attr_of t addr = None
    | Some i \<Rightarrow> i < mt_cnt t \<and> addr \<in> rgn_range (mt_regions t ! i) \<and>
        attr_of t addr = Some (rgn_flags (mt_regions t ! i), rgn_nid (mt_regions t ! i))"
  using search_none [OF assms] search_some [OF assms] by (auto split: option.split)

theorem memblock_search_correct_witness:
  "mt_ok (mb_memory small_state) \<and>
   (case memblock_search (mb_memory small_state) 0x85000 of
      None \<Rightarrow> attr_of (mb_memory small_state) 0x85000 = None
    | Some i \<Rightarrow> i < mt_cnt (mb_memory small_state) \<and> 0x85000 \<in> rgn_range (mt_regions (mb_memory small_state) ! i) \<and>
        attr_of (mb_memory small_state) 0x85000 =
          Some (rgn_flags (mt_regions (mb_memory small_state) ! i), rgn_nid (mt_regions (mb_memory small_state) ! i)))"
proof -
  have "mt_ok (mb_memory small_state)" using small_types by (simp add: types_ok_def)
  with memblock_search_correct [OF this, of "0x85000"] show ?thesis by simp
qed

text \<open>
  C16. \<open>memblock_is_region_reserved\<close> answers whether the range meets a reserved address, and
  \<open>memblock_is_region_memory\<close> whether it lies inside one memory region.
\<close>

theorem memblock_region_queries_correct:
  assumes "types_ok st" and "sz = memblock_cap_size base sz0" and "sz \<noteq> 0"
  shows "(memblock_is_region_reserved st base sz0 \<longleftrightarrow>
      (\<exists>x. base \<le> x \<and> x < base + sz \<and> attr_of (mb_reserved st) x \<noteq> None)) \<and>
    (memblock_is_region_memory st base sz0 \<longleftrightarrow>
      (\<exists>r \<in> set (mt_regions (mb_memory st)). \<forall>x. base \<le> x \<and> x < base + sz \<longrightarrow> x \<in> rgn_range r))"
  using is_region_reserved_overlap [OF _ assms(2,3)] is_region_memory_inside [OF _ assms(2,3)] assms(1)
  by (simp add: types_ok_def)

theorem memblock_region_queries_correct_witness:
  "(memblock_is_region_reserved small_state 0x1d000 0x1800 \<longleftrightarrow>
      (\<exists>x. 0x1d000 \<le> x \<and> x < 0x1d000 + 0x1800 \<and> attr_of (mb_reserved small_state) x \<noteq> None)) \<and>
    (memblock_is_region_memory small_state 0x1d000 0x1800 \<longleftrightarrow>
      (\<exists>r \<in> set (mt_regions (mb_memory small_state)).
         \<forall>x. 0x1d000 \<le> x \<and> x < 0x1d000 + 0x1800 \<longrightarrow> x \<in> rgn_range r))"
proof -
  have "0x1800 = memblock_cap_size 0x1d000 0x1800" by code_simp
  from memblock_region_queries_correct [OF small_types(1) this] show ?thesis by simp
qed

end
