(* ===== verification/Page_Alloc_Properties.thy ===== *)
theory Page_Alloc_Properties
  imports Handover
begin

unbundle bit_operations_syntax

text \<open>
  The properties of the page allocator, over the definitions of \<open>Pages\<close>, \<open>Buddy\<close>,
  \<open>Page_Alloc\<close> and \<open>Handover\<close>, each with an instance on a machine of eight pages.
\<close>

section \<open>A small machine\<close>

text \<open>Eight pages of zone \<open>ZONE_NORMAL\<close> of node 0, all in one free block of order 3.\<close>

definition tiny_page :: page where
  "tiny_page =
     \<lparr>pg_flags = push_bit 59 1, pg_mapping = 0, pg_private = 0, pg_head = None, pg_compound_order = 0,
      pg_compound_mapcount = 0, pg_type = - 1, pg_count = 0\<rparr>"

definition tiny_map :: pagemap where
  "tiny_map = (\<lambda>_. tiny_page)(0 := tiny_page\<lparr>pg_type := NOT PG_buddy, pg_private := 3\<rparr>)"

definition tiny_lists :: "free_area list" where
  "tiny_lists = (replicate MAX_ORDER \<lparr>free_list = [], nr_free = 0\<rparr>)[3 := \<lparr>free_list = [0], nr_free = 1\<rparr>]"

definition tiny_zone :: zone where
  "tiny_zone =
     \<lparr>zone_node = 0, zone_start_pfn = 0, managed_pages = 8, spanned_pages = 8, present_pages = 8,
      initialized = True, zone_free_area = tiny_lists,
      zone_pageset = (\<lambda>_. \<lparr>pcp_count = 0, pcp_high = 6, pcp_batch = 1, pcp_lists = []\<rparr>)\<rparr>"

definition tiny :: mm where
  "tiny =
     \<lparr>mem_map = tiny_map, node_zones = (\<lambda>_. tiny_zone),
      node_zonelists = (\<lambda>_ _. [((0, 1), 1)]), nr_online_nodes = 1, page_data = (\<lambda>_ _. 0)\<rparr>"

definition tiny_valid :: "nat \<Rightarrow> bool" where
  "tiny_valid q \<longleftrightarrow> q < 8"

definition normal_zone :: zone_ptr where
  "normal_zone = (0, 1)"

lemma tiny_page_zone: "page_zone (tiny_page\<lparr>pg_type := t, pg_private := n\<rparr>) = normal_zone" "page_zone tiny_page = normal_zone"
  by (simp_all add: page_zone_def page_to_nid_def page_zonenum_def tiny_page_def normal_zone_def field_shifts field_masks
    ZONES_MASK_def NODES_MASK_def ZONES_WIDTH_def NODES_WIDTH_def mask_eq_exp_minus_1)

lemma tiny_frames: "frames (0, 3) = {..< 8}"
  by (auto simp: frames_def)

lemma tiny_blocks: "blocks tiny_lists = {(0, 3)}"
  by (auto simp: blocks_def tiny_lists_def MAX_ORDER_def nth_list_update split: if_splits)

lemma tiny_free_page: "free_page normal_zone (tiny_map q)"
  by (simp add: free_page_def tiny_map_def tiny_page_zone PAGE_FLAGS_CHECK_AT_PREP_def)
    (simp add: tiny_page_def NR_PAGEFLAGS_def)

lemma tiny_buddy: "PageBuddy (tiny_map q) \<longleftrightarrow> q = 0"
  by (simp add: tiny_map_def tiny_page_def PageBuddy_def PageType_def PG_buddy_def PAGE_TYPE_BASE_def)

lemma tiny_buddy_ok: "buddy_ok tiny_valid normal_zone tiny_map tiny_lists"
  unfolding buddy_ok_def
proof (intro conjI)
  show "lists_ok tiny_lists" by (simp add: lists_ok_def tiny_lists_def nth_list_update MAX_ORDER_def)
  have "page_order (tiny_map 0) = 3" by (simp add: page_order_def tiny_map_def)
  then show "linked tiny_valid normal_zone tiny_map tiny_lists"
    using tiny_free_page unfolding linked_def tiny_blocks tiny_buddy by (auto simp: tiny_valid_def free_page_def)
  show "idle tiny_valid tiny_map" using tiny_free_page unfolding idle_def by (simp add: free_page_def)
  show "zones_aligned tiny_valid tiny_map" using tiny_free_page unfolding zones_aligned_def by (simp add: free_page_def)
  show "apart (blocks tiny_lists)" by (simp add: apart_def tiny_blocks)
  show "\<forall>(p, k) \<in> blocks tiny_lists. 2 ^ k dvd p" by (simp add: tiny_blocks)
  show "\<forall>q \<in> free_frames tiny_lists. tiny_valid q \<and> free_page normal_zone (tiny_map q)"
    using tiny_free_page by (simp add: free_frames_def tiny_blocks tiny_frames tiny_valid_def)
qed

lemma tiny_ok: "mm_ok tiny_valid {normal_zone} tiny"
  using tiny_buddy_ok
  by (simp add: mm_ok_def zone_ok_def tiny_def tiny_zone_def pcp_ok_def pcp_pages_def)

lemma tiny_held: "held {normal_zone} tiny = {..< 8}"
  by (simp add: held_def avail_def tiny_def tiny_zone_def pcp_pages_def free_frames_def tiny_blocks tiny_frames)

lemma tiny_zonelist: "fst ` set (node_zonelists tiny nid i) \<subseteq> {normal_zone}" "nr_online_nodes tiny \<le> 1"
  by (simp_all add: tiny_def normal_zone_def)

lemma tiny_not_empty: "k \<le> 3 \<Longrightarrow> \<not> zone_empty cpu (node_zones tiny zp) k"
  by (auto simp: zone_empty_def tiny_def tiny_zone_def tiny_blocks)

lemma tiny_eligible: "((0, 1), 1) \<in> set (node_zonelists tiny nid i)" "eligible (node_zones tiny) (gfp_zone GFP_ZERO) None ((0, 1), 1)"
  by (simp_all add: tiny_def eligible_def zref_in_nodemask_def gfp_zone_def GFP_ZERO_def GFP_DMA_def GFP_MOVABLE_def ZONE_NORMAL_def)

lemma tiny_alloc:
  "\<exists>m' p. alloc_pages_nodemask 1 0 tiny GFP_ZERO 1 0 None = Inr (m', Some p) \<and>
     alloc_outcome tiny_valid {normal_zone} tiny 1 GFP_ZERO m' normal_zone p"
  using alloc_pages_nodemask_result [OF tiny_ok _ refl tiny_zonelist(1) disjI1 [OF tiny_zonelist(2)],
      where k = 1 and nid = 0 and gfp_mask = GFP_ZERO and rounds = 0 and cpu = 0 and nodes = None]
    tiny_not_empty [of 1 0 "(0, 1)"] tiny_eligible(1) [of 0 "gfp_zonelist GFP_ZERO"] tiny_eligible(2)
    tiny_zonelist(1) [of 0 "gfp_zonelist GFP_ZERO"]
  by (auto simp: MAX_ORDER_def)

section \<open>Allocation and release\<close>

text \<open>
  C3. \<open>__alloc_pages_nodemask\<close> on a well-formed machine whose zonelist stays on one node: it
  returns a naturally aligned block that the allocator held and that no longer belongs to it,
  set up as a fresh reference-counted (compound) page and zeroed on request, while the
  descriptors and contents of all pages in use are untouched and the allocator stays
  well-formed; or it stops in \<open>BUG\<close>, and then no zone that may serve the request has a block
  that is large enough.
\<close>

theorem alloc_pages_nodemask_correct:
  assumes "mm_ok valid Z m" "order < MAX_ORDER"
    and "fst ` set (node_zonelists m nid (gfp_zonelist gfp_mask)) \<subseteq> Z"
    and "nr_online_nodes m \<le> 1 \<or>
      (\<exists>n. \<forall>e \<in> set (node_zonelists m nid (gfp_zonelist gfp_mask)). zone_node (node_zones m (fst e)) = n)"
  shows "(\<exists>m' p. \<exists>zp \<in> Z. alloc_pages_nodemask (Suc rounds) cpu m gfp_mask order nid nodemask = Inr (m', Some p) \<and>
            alloc_outcome valid Z m order gfp_mask m' zp p) \<or>
    alloc_pages_nodemask (Suc rounds) cpu m gfp_mask order nid nodemask = Inl Bug \<and>
      (\<forall>e \<in> set (node_zonelists m nid (gfp_zonelist gfp_mask)).
         eligible (node_zones m) (gfp_zone gfp_mask) nodemask e \<longrightarrow> zone_empty cpu (node_zones m (fst e)) order)"
  using alloc_pages_nodemask_result [OF assms(1,2) refl assms(3,4), of rounds cpu nodemask] assms(3) by blast

theorem alloc_pages_nodemask_correct_witness:
  "\<exists>m' p. alloc_pages_nodemask 1 0 tiny GFP_ZERO 1 0 None = Inr (m', Some p) \<and>
     alloc_outcome tiny_valid {normal_zone} tiny 1 GFP_ZERO m' normal_zone p"
  using alloc_pages_nodemask_correct [OF tiny_ok _ tiny_zonelist(1) disjI1 [OF tiny_zonelist(2)],
      where order = 1 and nid = 0 and gfp_mask = GFP_ZERO and rounds = 0 and cpu = 0 and nodemask = None]
    tiny_not_empty [of 1 0 "(0, 1)"] tiny_eligible(1) [of 0 "gfp_zonelist GFP_ZERO"] tiny_eligible(2)
  by (auto simp: MAX_ORDER_def)

text \<open>
  C4. \<open>__free_pages\<close> on the last reference of an allocated block: it returns, the allocator
  holds the frames of the block in addition to those it held, stays well-formed, and the
  descriptors of the pages still in use and the contents of all pages are untouched.
\<close>

theorem free_pages_correct:
  assumes "mm_ok valid Z m" "zp \<in> Z" "in_use valid zp (mem_map m) (p, order)"
  shows "\<exists>m'. free_pages valid cpu m p order = Inr m' \<and> mm_ok valid Z m' \<and>
    held Z m' = held Z m \<union> frames (p, order) \<and> page_data m' = page_data m \<and>
    (\<forall>q. q \<notin> held Z m' \<longrightarrow> mem_map m' q = mem_map m q)"
  using free_pages_result [OF assms] unfolding free_outcome_def by blast

theorem free_pages_correct_witness:
  "\<exists>m1 p m2. alloc_pages_nodemask 1 0 tiny GFP_ZERO 1 0 None = Inr (m1, Some p) \<and>
     free_pages tiny_valid 3 m1 p 1 = Inr m2 \<and> mm_ok tiny_valid {normal_zone} m2 \<and>
     held {normal_zone} m2 = held {normal_zone} m1 \<union> frames (p, 1)"
proof -
  obtain m1 p where a: "alloc_pages_nodemask 1 0 tiny GFP_ZERO 1 0 None = Inr (m1, Some p)"
    "alloc_outcome tiny_valid {normal_zone} tiny 1 GFP_ZERO m1 normal_zone p"
    using tiny_alloc by blast
  then have "mm_ok tiny_valid {normal_zone} m1" "in_use tiny_valid normal_zone (mem_map m1) (p, 1)"
    by (simp_all add: alloc_outcome_def)
  from free_pages_correct [OF this(1) _ this(2), of 3] a(1) show ?thesis by auto
qed

text \<open>
  C5. Freeing what was just allocated, on the same or another CPU, gives back a machine
  that holds the same frames and is well-formed; no page in use has changed.
\<close>

theorem alloc_free_roundtrip:
  assumes "mm_ok valid Z m" "order < MAX_ORDER"
    and "fst ` set (node_zonelists m nid (gfp_zonelist gfp_mask)) \<subseteq> Z"
    and "nr_online_nodes m \<le> 1 \<or>
      (\<exists>n. \<forall>e \<in> set (node_zonelists m nid (gfp_zonelist gfp_mask)). zone_node (node_zones m (fst e)) = n)"
    and "alloc_pages_nodemask (Suc rounds) cpu m gfp_mask order nid nodemask = Inr (m1, Some p)"
  shows "\<exists>m2. free_pages valid cpu' m1 p order = Inr m2 \<and> mm_ok valid Z m2 \<and> held Z m2 = held Z m \<and>
    (\<forall>q. q \<notin> held Z m \<longrightarrow> mem_map m2 q = mem_map m q \<and> page_data m2 q = page_data m q)"
proof -
  obtain zp where zp: "zp \<in> Z" and o: "alloc_outcome valid Z m order gfp_mask m1 zp p"
    using alloc_pages_nodemask_result [OF assms(1,2) refl assms(3,4), of rounds cpu nodemask] assms(3,5) by auto
  then obtain m2 where m2: "free_pages valid cpu' m1 p order = Inr m2" "free_outcome valid Z m1 p order m2"
    using free_pages_result [of valid Z m1 zp p order cpu'] by (auto simp: alloc_outcome_def)
  have sub: "frames (p, order) \<subseteq> held Z m" using o zp by (auto simp: alloc_outcome_def held_def)
  then have h: "held Z m2 = held Z m" using o m2(2) by (auto simp: alloc_outcome_def free_outcome_def)
  have "mem_map m2 q = mem_map m q \<and> page_data m2 q = page_data m q" if "q \<notin> held Z m" for q
  proof -
    have "q \<notin> frames (p, order)" "q \<notin> held Z m2" using that sub h by auto
    then show ?thesis using o m2(2) that by (simp add: alloc_outcome_def free_outcome_def)
  qed
  then show ?thesis using m2 h by (auto simp: free_outcome_def)
qed

theorem alloc_free_roundtrip_witness:
  "\<exists>m1 p m2. alloc_pages_nodemask 1 0 tiny GFP_ZERO 1 0 None = Inr (m1, Some p) \<and>
     free_pages tiny_valid 3 m1 p 1 = Inr m2 \<and> held {normal_zone} m2 = {..< 8}"
proof -
  obtain m1 p where a: "alloc_pages_nodemask (Suc 0) 0 tiny GFP_ZERO 1 0 None = Inr (m1, Some p)"
    using tiny_alloc by auto
  from alloc_free_roundtrip [OF tiny_ok _ tiny_zonelist(1) disjI1 [OF tiny_zonelist(2)] a, of 3]
  show ?thesis using a tiny_held by (auto simp: MAX_ORDER_def)
qed

text \<open>
  C20. Two allocations without a release in between never share a page.
\<close>

theorem alloc_twice_disjoint:
  assumes "mm_ok valid Z m" "order < MAX_ORDER" "order' < MAX_ORDER"
    and zl: "fst ` set (node_zonelists m nid (gfp_zonelist gfp_mask)) \<subseteq> Z"
      "fst ` set (node_zonelists m nid' (gfp_zonelist gfp_mask')) \<subseteq> Z" "nr_online_nodes m \<le> 1"
    and a: "alloc_pages_nodemask (Suc rounds) cpu m gfp_mask order nid nodemask = Inr (m1, Some p)"
      "alloc_pages_nodemask (Suc rounds) cpu' m1 gfp_mask' order' nid' nodemask' = Inr (m2, Some p')"
  shows "frames (p, order) \<inter> frames (p', order') = {}"
proof -
  obtain zp where o: "alloc_outcome valid Z m order gfp_mask m1 zp p"
    using alloc_pages_nodemask_result [OF assms(1,2) refl zl(1) disjI1 [OF zl(3)], of rounds cpu nodemask] a(1) by auto
  then have m1: "mm_ok valid Z m1" "fst ` set (node_zonelists m1 nid' (gfp_zonelist gfp_mask')) \<subseteq> Z" "nr_online_nodes m1 \<le> 1"
    using zl by (simp_all add: alloc_outcome_def)
  then obtain zp' where "zp' \<in> Z" "alloc_outcome valid Z m1 order' gfp_mask' m2 zp' p'"
    using alloc_pages_nodemask_result [OF m1(1) assms(3) refl m1(2) disjI1 [OF m1(3)], of rounds cpu' nodemask'] a(2)
    by auto
  then have "frames (p', order') \<subseteq> held Z m1" by (auto simp: alloc_outcome_def held_def)
  then show ?thesis using o by (auto simp: alloc_outcome_def)
qed

lemma case_result:
  "(case x of Inl e \<Rightarrow> False | Inr (m, page) \<Rightarrow> (case page of None \<Rightarrow> False | Some p \<Rightarrow> P m p)) \<Longrightarrow>
   \<exists>m p. x = Inr (m, Some p) \<and> P m p"
  by (auto split: sum.splits option.splits)

definition both_succeed :: bool where
  "both_succeed =
     (case alloc_pages_nodemask 1 0 tiny 0 1 0 None of
        Inr (m1, Some p) \<Rightarrow>
          (case alloc_pages_nodemask 1 0 m1 0 0 0 None of Inr (m2, Some p') \<Rightarrow> p = 0 \<and> p' = 2 | _ \<Rightarrow> False)
      | _ \<Rightarrow> False)"

lemma tiny_both_succeed: "both_succeed"
  by code_simp

theorem alloc_twice_disjoint_witness:
  "\<exists>m1 m2. alloc_pages_nodemask 1 0 tiny 0 1 0 None = Inr (m1, Some 0) \<and>
     alloc_pages_nodemask 1 0 m1 0 0 0 None = Inr (m2, Some 2) \<and> frames (0, 1) \<inter> frames (2, 0) = {}"
proof -
  obtain m1 m2 where a: "alloc_pages_nodemask (Suc 0) 0 tiny 0 1 0 None = Inr (m1, Some 0)"
    "alloc_pages_nodemask (Suc 0) 0 m1 0 0 0 None = Inr (m2, Some 2)"
    using tiny_both_succeed unfolding both_succeed_def
    by (elim case_result [THEN exE] case_result [THEN exE] exE conjE) (simp only: One_nat_def)
  from alloc_twice_disjoint [OF tiny_ok _ _ tiny_zonelist(1) tiny_zonelist(1) tiny_zonelist(2) a]
  show ?thesis using a by (auto simp: MAX_ORDER_def)
qed

section \<open>The buddy lists\<close>

text \<open>
  C18. \<open>__rmqueue_smallest\<close> keeps the buddy lists well-formed and fully merged. It returns a
  naturally aligned block of free frames that it takes off the lists, splitting a larger one
  if need be; when it returns \<open>NULL\<close> nothing has changed and no block is large enough.
\<close>

theorem rmqueue_smallest_correct:
  assumes "buddy_ok valid z pages fa"
  shows "\<exists>pages' fa' page. rmqueue_smallest pages fa order = Inr (pages', fa', page) \<and>
    (case page of
       None \<Rightarrow> pages' = pages \<and> fa' = fa \<and> (\<forall>(p, k) \<in> blocks fa. k < order)
     | Some p \<Rightarrow> buddy_ok valid z pages' fa' \<and> raw_block valid z pages' (p, order) \<and>
         frames (p, order) \<subseteq> free_frames fa \<and> free_frames fa' = free_frames fa - frames (p, order) \<and>
         (merged (blocks fa) \<longrightarrow> merged (blocks fa')) \<and> (\<forall>q. q \<notin> free_frames fa \<longrightarrow> pages' q = pages q))"
  using rmqueue_smallest_loop_result [OF assms order_refl, of order]
  unfolding rmqueue_smallest_def smallest_outcome_def taken_def by (auto split: option.splits)

theorem rmqueue_smallest_correct_witness:
  "\<exists>pages' fa' p. rmqueue_smallest tiny_map tiny_lists 2 = Inr (pages', fa', Some p) \<and>
     buddy_ok tiny_valid normal_zone pages' fa' \<and> free_frames fa' = {..< 8} - frames (p, 2)"
proof -
  have "free_frames tiny_lists = {..< 8}" by (simp add: free_frames_def tiny_blocks tiny_frames)
  then show ?thesis using rmqueue_smallest_correct [OF tiny_buddy_ok, of 2]
    by (auto simp: tiny_blocks split: option.splits)
qed

text \<open>
  C19. \<open>__free_one_page\<close> on a block outside the free memory adds exactly its frames to the
  free memory, merges it with its buddies as far as possible and keeps the lists well-formed:
  if no two free buddies were left unmerged before, none are afterwards.
\<close>

theorem free_one_page_core_correct:
  assumes "buddy_ok valid z pages fa" "raw_block valid z pages (p, order)" "order < MAX_ORDER"
    "frames (p, order) \<inter> free_frames fa = {}"
  shows "\<exists>pages' fa'. free_one_page_core valid pages fa p order = Inr (pages', fa') \<and> buddy_ok valid z pages' fa' \<and>
    free_frames fa' = free_frames fa \<union> frames (p, order) \<and> (merged (blocks fa) \<longrightarrow> merged (blocks fa')) \<and>
    (\<forall>q. q \<notin> free_frames fa' \<longrightarrow> pages' q = pages q)"
  using free_one_page_result [OF assms] unfolding released_def by blast

theorem free_one_page_core_correct_witness:
  "\<exists>pages fa p pages' fa'. rmqueue_smallest tiny_map tiny_lists 1 = Inr (pages, fa, Some p) \<and>
     free_one_page_core tiny_valid pages fa p 1 = Inr (pages', fa') \<and> buddy_ok tiny_valid normal_zone pages' fa' \<and>
     free_frames fa' = {..< 8} \<and> merged (blocks fa')"
proof -
  have ff: "free_frames tiny_lists = {..< 8}" by (simp add: free_frames_def tiny_blocks tiny_frames)
  have mg: "merged (blocks tiny_lists)" by (simp add: merged_def tiny_blocks find_buddy_pfn_def)
  obtain pages fa p where t: "rmqueue_smallest tiny_map tiny_lists 1 = Inr (pages, fa, Some p)"
    "taken tiny_valid normal_zone tiny_map tiny_lists 1 pages fa p"
    using rmqueue_smallest_loop_result [OF tiny_buddy_ok order_refl, of 1]
    unfolding rmqueue_smallest_def smallest_outcome_def by (auto simp: tiny_blocks split: option.splits)
  then have "buddy_ok tiny_valid normal_zone pages fa" "raw_block tiny_valid normal_zone pages (p, 1)"
    "frames (p, 1) \<inter> free_frames fa = {}" by (auto simp: taken_def)
  from free_one_page_core_correct [OF this(1,2) _ this(3)] show ?thesis
    using t ff mg by (auto simp: MAX_ORDER_def taken_def)
qed

section \<open>Descriptors and reference counts\<close>

text \<open>
  The node and the zone that \<open>set_page_links\<close> packs into the flags word are read back by
  \<open>page_to_nid\<close> and \<open>page_zonenum\<close>, and the page flags proper are not disturbed.
\<close>

theorem page_links_roundtrip:
  assumes "zone < 4" "node < 8"
  shows "page_zone (set_page_links zone node p) = (node, zone) \<and>
    pg_flags (set_page_links zone node p) AND PAGE_FLAGS_CHECK_AT_PREP = pg_flags p AND PAGE_FLAGS_CHECK_AT_PREP"
proof -
  have "zone AND ZONES_MASK = zone" "node AND NODES_MASK = node"
    using assms unfolding field_masks by (auto intro: less_mask_eq)
  then show ?thesis by (simp add: page_zone_def page_zonenum_links page_to_nid_links page_flags_links)
qed

theorem page_links_roundtrip_witness:
  "page_zone (set_page_links 1 5 tiny_page) = (5, 1)"
  using page_links_roundtrip [of 1 5 tiny_page] by simp

primrec free_times :: "(nat \<Rightarrow> bool) \<Rightarrow> nat \<Rightarrow> nat \<Rightarrow> nat \<Rightarrow> nat \<Rightarrow> mm \<Rightarrow> mm res" where
  "free_times valid cpu p order 0 m = Inr m"
| "free_times valid cpu p order (Suc n) m = and_then (free_pages valid cpu m p order) (free_times valid cpu p order n)"

definition with_count :: "nat \<Rightarrow> int \<Rightarrow> mm \<Rightarrow> mm" where
  "with_count p c m = m\<lparr>mem_map := (mem_map m)(p := (mem_map m p)\<lparr>pg_count := c\<rparr>)\<rparr>"

lemma free_pages_drop:
  "free_pages valid cpu (with_count p (int (Suc c) + 1) m) p order = Inr (with_count p (int c + 1) m)"
  by (simp add: free_pages_def put_page_testzero_def with_count_def Let_def add.commute)

lemma free_times_drop:
  "free_times valid cpu p order (c + n) (with_count p (int c + 1) m) = free_times valid cpu p order n (with_count p 1 m)"
  by (induction c) (simp_all add: free_pages_drop del: of_nat_Suc)

text \<open>
  C21. A block with \<open>c + 1\<close> references, of which \<open>c\<close> have been dropped by \<open>__free_pages\<close>, is in
  use as before; dropping the last one releases it; one call more stops in \<open>BUG\<close>.
\<close>

theorem free_pages_references:
  assumes "mm_ok valid Z m" "zp \<in> Z" "in_use valid zp (mem_map m) (p, order)"
  shows "\<exists>m'. free_times valid cpu p order c (with_count p (int c + 1) m) = Inr m \<and>
    free_times valid cpu p order (c + 1) (with_count p (int c + 1) m) = Inr m' \<and>
    held Z m' = held Z m \<union> frames (p, order) \<and>
    free_times valid cpu p order (c + 2) (with_count p (int c + 1) m) = Inl Bug"
proof -
  obtain m' where m': "free_pages valid cpu m p order = Inr m'" "free_outcome valid Z m p order m'"
    using free_pages_result [OF assms] by blast
  have "pg_count (mem_map m p) = 1" using assms(3) by (simp add: in_use_def used_head_def)
  then have "(mem_map m p)\<lparr>pg_count := 1\<rparr> = mem_map m p" by (intro page.equality) simp_all
  then have one: "with_count p 1 m = m" by (simp add: with_count_def)
  have "p \<in> held Z m'" "mm_ok valid Z m'" using m'(2) frames_head by (auto simp: free_outcome_def)
  then have "pg_count (mem_map m' p) = 0"
    using avail_free_page(2) [of valid _ "mem_map m'" _ p] by (auto simp: held_def mm_ok_def free_page_def)
  then have "free_pages valid cpu m' p order = Inl Bug" by (simp add: free_pages_def put_page_testzero_def)
  then have "free_times valid cpu p order (c + 2) (with_count p (int c + 1) m) = Inl Bug"
    unfolding free_times_drop one using m'(1) by (simp add: numeral_2_eq_2)
  moreover have "free_times valid cpu p order (c + 1) (with_count p (int c + 1) m) = Inr m'"
    unfolding free_times_drop one using m'(1) by simp
  moreover have "free_times valid cpu p order c (with_count p (int c + 1) m) = Inr m"
    using free_times_drop [of valid cpu p order c 0 m] one by simp
  ultimately show ?thesis using m'(2) unfolding free_outcome_def by blast
qed

theorem free_pages_references_witness:
  "\<exists>m p m'. alloc_pages_nodemask 1 0 tiny GFP_ZERO 1 0 None = Inr (m, Some p) \<and>
     free_times tiny_valid 0 p 1 2 (with_count p 3 m) = Inr m \<and>
     free_times tiny_valid 0 p 1 3 (with_count p 3 m) = Inr m' \<and>
     free_times tiny_valid 0 p 1 4 (with_count p 3 m) = Inl Bug"
proof -
  obtain m p where a: "alloc_pages_nodemask 1 0 tiny GFP_ZERO 1 0 None = Inr (m, Some p)"
    "alloc_outcome tiny_valid {normal_zone} tiny 1 GFP_ZERO m normal_zone p"
    using tiny_alloc by blast
  then have "mm_ok tiny_valid {normal_zone} m" "in_use tiny_valid normal_zone (mem_map m) (p, 1)"
    by (simp_all add: alloc_outcome_def)
  from free_pages_references [OF this(1) _ this(2), of 0 2] a(1) show ?thesis by (auto simp del: free_times.simps)
qed

section \<open>Zones of other nodes\<close>

lemma scan_retry:
  assumes ok: "mm_ok valid Z m" "zp \<in> Z" and e: "avail (node_zones m zp) = {}"
    and n: "nr_online_nodes m > 1"
    and nx: "next_zones_zonelist (node_zones m) zs high_zoneidx nodes = (zp', idx') # zs'"
    and d: "zone_node (node_zones m zp') \<noteq> zone_node (node_zones m zp)"
  shows "scan_zones cpu gfp_mask order high_zoneidx nodes zp ((zp, idx) # zs) m = Inr (m, Retry)"
proof -
  obtain out where out: "rmqueue cpu (mem_map m) (node_zones m zp) order = Inr out"
    "rmqueue_outcome valid zp cpu (mem_map m) (node_zones m zp) order out"
    using rmqueue_result [of valid zp "mem_map m" "node_zones m zp" cpu order] ok by (auto simp: mm_ok_def)
  obtain pages' z' page where o: "out = (pages', z', page)" by (cases out)
  have "page = None"
  proof (cases page)
    case (Some p)
    then have "frames (p, order) \<subseteq> {}" using out(2) e o by (simp add: rmqueue_outcome_def zone_taken_def)
    then show ?thesis using frames_head [of p order] by blast
  qed
  then have "out = (mem_map m, node_zones m zp, None)" using out(2) o by (simp add: rmqueue_outcome_def)
  moreover have "zp' \<noteq> zp" using d by auto
  ultimately show ?thesis using out(1) n d nx by simp
qed

text \<open>
  C22. With more than one node online, a request whose preferred zone has no free page
  and whose next zone lies on another node never returns, whatever that zone holds: \<open>get_page_from_freelist\<close> jumps back
  to its start without having changed anything, however often it is repeated.
\<close>

theorem alloc_pages_remote_hangs:
  assumes "mm_ok valid Z m" "zp \<in> Z" "avail (node_zones m zp) = {}"
    and "nr_online_nodes m > 1" "order < MAX_ORDER"
    and "next_zones_zonelist (node_zones m) (node_zonelists m nid (gfp_zonelist gfp_mask)) (gfp_zone gfp_mask) nodemask = (zp, idx) # zs"
    and "next_zones_zonelist (node_zones m) zs (gfp_zone gfp_mask) nodemask = (zp', idx') # zs'"
    and "zone_node (node_zones m zp') \<noteq> zone_node (node_zones m zp)"
  shows "\<forall>rounds. alloc_pages_nodemask rounds cpu m gfp_mask order nid nodemask = Inl Hang"
proof
  fix rounds
  have "get_page_from_freelist rounds cpu gfp_mask order (gfp_zone gfp_mask) nodemask ((zp, idx) # zs) m = Inl Hang"
    using scan_retry [OF assms(1-4,7,8)] by (induction rounds) (simp_all del: scan_zones.simps)
  then show "alloc_pages_nodemask rounds cpu m gfp_mask order nid nodemask = Inl Hang"
    using assms(5,6) by (simp add: alloc_pages_nodemask_def Let_def)
qed

text \<open>Node 0 has no free page, node 1 has eight.\<close>

definition remote_page :: page where
  "remote_page = tiny_page\<lparr>pg_flags := push_bit 61 1 OR push_bit 59 1\<rparr>"

definition remote :: mm where
  "remote =
     \<lparr>mem_map = (\<lambda>_. remote_page)(0 := remote_page\<lparr>pg_type := NOT PG_buddy, pg_private := 3\<rparr>),
      node_zones = (\<lambda>_. tiny_zone\<lparr>zone_node := 1\<rparr>)
        ((0, 1) := tiny_zone\<lparr>zone_free_area := replicate MAX_ORDER \<lparr>free_list = [], nr_free = 0\<rparr>\<rparr>),
      node_zonelists = (\<lambda>_ _. [((0, 1), 1), ((1, 1), 1)]), nr_online_nodes = 2, page_data = (\<lambda>_ _. 0)\<rparr>"

lemma remote_page_zone:
  "page_zone (remote_page\<lparr>pg_type := t, pg_private := n\<rparr>) = (1, 1)" "page_zone remote_page = (1, 1)"
  by (simp_all add: page_zone_def page_to_nid_def page_zonenum_def remote_page_def tiny_page_def field_shifts field_masks
    ZONES_MASK_def NODES_MASK_def ZONES_WIDTH_def NODES_WIDTH_def mask_eq_exp_minus_1)

lemma remote_ok: "mm_ok tiny_valid {(0, 1)} remote" "avail (node_zones remote (0, 1)) = {}"
proof -
  let ?fa = "replicate MAX_ORDER \<lparr>free_list = [], nr_free = 0\<rparr> :: free_area list"
  have b: "blocks ?fa = {}" by (auto simp: blocks_def)
  have z: "page_zone (mem_map remote q) = (1, 1)" for q by (simp add: remote_def remote_page_zone)
  have "buddy_ok tiny_valid (0, 1) (mem_map remote) ?fa"
    unfolding buddy_ok_def lists_ok_def linked_def zones_aligned_def idle_def
    using z by (simp add: b apart_def free_frames_def) (simp add: remote_def remote_page_def tiny_page_def)
  then show "mm_ok tiny_valid {(0, 1)} remote"
    by (simp add: mm_ok_def zone_ok_def pcp_ok_def pcp_pages_def) (simp add: remote_def tiny_zone_def pcp_ok_def pcp_pages_def)
  show "avail (node_zones remote (0, 1)) = {}"
    by (simp add: avail_def remote_def pcp_pages_def tiny_zone_def free_frames_def b)
qed

theorem alloc_pages_remote_hangs_witness:
  "\<forall>rounds. alloc_pages_nodemask rounds 0 remote 0 0 0 None = Inl Hang"
  by (rule alloc_pages_remote_hangs [OF remote_ok(1) _ remote_ok(2), where idx = 1 and zs = "[((1, 1), 1)]" and
        zp' = "(1, 1)" and idx' = 1 and zs' = "[]"])
    (simp_all add: remote_def MAX_ORDER_def zref_in_nodemask_def gfp_zone_def ZONE_NORMAL_def tiny_zone_def)






end
