(* ===== verification/Page_Init_Properties.thy ===== *)
theory Page_Init_Properties
  imports Page_Init Memblock_Properties Page_Alloc_Properties
begin

unbundle bit_operations_syntax

text \<open>
  The properties of the set-up of nodes, zones and zonelists, over the definitions of \<open>Numa\<close>
  and \<open>Page_Init\<close>, each with an instance on a small machine.
\<close>

section \<open>A machine with one node\<close>

definition on_node :: "phys_addr_t \<Rightarrow> phys_addr_t \<Rightarrow> memblock_region" where
  "on_node base sz = (plain base sz)\<lparr>rgn_nid := 0\<rparr>"

definition node_state :: memblock where
  "node_state = small_state\<lparr>mb_memory := (mb_memory small_state)\<lparr>mt_regions := [on_node 0x10000 0x20000, on_node 0x80000 0x10000]\<rparr>\<rparr>"

definition no_numa :: numa where
  "no_numa =
     \<lparr>numa_memblock = node_state, numa_nodes_parsed = {0}, node_online_mask = {0}, numa_distance_cnt = 0, numa_distance = None,
      node_data = Map.empty, cpu_to_node_map = (\<lambda>_. 0), node_to_cpumask_map = (\<lambda>_. {})\<rparr>"

lemma node_state_ok: "types_ok node_state" "mt_cnt (mb_memory node_state) = 2" "mt_cnt (mb_reserved node_state) = 2"
  "mt_max (mb_memory node_state) = 128"
  by (simp_all add: types_ok_def mt_ok_def node_state_def small_state_def on_node_def plain_def mt_cnt_def)

lemma node_state_aligned: "memory_aligned node_state"
  by (simp add: memory_aligned_def node_state_def on_node_def plain_def)

lemma node_state_nodes: "nodes_ok node_state [0]"
  by (simp add: nodes_ok_def node_state_def on_node_def plain_def)

lemma node_state_range: "get_pfn_range_for_nid node_state 0 = (0x10, 0x90)"
  by (simp add: get_pfn_range_for_nid_def for_each_mem_pfn_range_eq node_state_def on_node_def plain_def pfn_range_def
      pfn_wanted_def PFN_UP_def PFN_DOWN_def PAGE_SIZE_def PAGE_SHIFT_def drop_bit_eq_div)

section \<open>Zones\<close>


text \<open>
  C25. The size of a zone: on page-aligned memory, \<open>calculate_node_totalpages\<close> records in
  \<open>ZONE_NORMAL\<close> of a node exactly as many present pages as the node has page frames, holes
  excluded; the unsigned arithmetic does not wrap.
\<close>

theorem zone_present_pages_exact:
  assumes "mt_ok (mb_memory mb)" "memory_aligned mb" "nid < 8" "get_pfn_range_for_nid mb nid = (s, e)" "s < e"
  shows "present_pages (fst (calculate_node_totalpages mb
      (zone_ranges (find_min_pfn_with_active_regions mb) ((\<lambda>_. 0)(1 := PFN_DOWN (memblock_end_of_DRAM mb))))
      nid s e zones pgdat) (zone_at nid 1)) = card (node_frames mb nid)"
  unfolding node_totals_zones
  using present_pages_exact [OF assms node_limits [OF assms(4,5) mt_ok_sorted [OF assms(1)]]] by simp

theorem zone_present_pages_exact_witness:
  "present_pages (fst (calculate_node_totalpages node_state
      (zone_ranges (find_min_pfn_with_active_regions node_state) ((\<lambda>_. 0)(1 := PFN_DOWN (memblock_end_of_DRAM node_state))))
      0 0x10 0x90 (\<lambda>_. tiny_zone) \<lparr>node_start_pfn = 0, node_spanned_pages = 0, node_present_pages = 0\<rparr>) (zone_at 0 1)) =
    card (node_frames node_state 0)"
  by (rule zone_present_pages_exact [OF _ node_state_aligned _ node_state_range])
    (use node_state_ok(1) in \<open>simp_all add: types_ok_def\<close>)

section \<open>Zonelists\<close>

text \<open>
  C26. \<open>build_all_zonelists\<close> terminates. The fallback list of every online node starts with the
  managed zones of that node, highest zone first, followed by those of each other online
  node exactly once, in the order of increasing distance with the penalties applied; the
  other list holds the zones of the node alone.
\<close>

theorem build_all_zonelists_correct:
  assumes "distinct online" "\<forall>n \<in> set online. 0 \<le> n \<and> n < 8" "length online \<le> 8" "nr_online_nodes m = length online"
  shows "\<exists>m'. build_all_zonelists s online m = Inr m' \<and> mem_map m' = mem_map m \<and>
    (\<forall>nid \<in> set online.
       (\<exists>ys. distinct (nid # ys) \<and> set (nid # ys) = set online \<and> sorted (map (base_score s nid) ys) \<and>
          node_zonelists m' (of_int nid) ZONELIST_FALLBACK = concat (map (build_zonerefs_node (node_zones m)) (nid # ys))) \<and>
       node_zonelists m' (of_int nid) ZONELIST_NOFALLBACK = build_zonerefs_node (node_zones m) nid)"
proof -
  have l: "loads_ok (int (length online)) (\<lambda>_. 0)" by (simp add: loads_ok_def)
  have "\<exists>m' nl. build_nodes s online online (m, \<lambda>_. 0) = Inr (m', nl) \<and> m' = m\<lparr>node_zonelists := node_zonelists m'\<rparr> \<and>
      (\<forall>nid \<in> set online. zonelist_of s online (node_zones m) nid (node_zonelists m' (of_int nid))) \<and>
      (\<forall>n. n \<notin> of_int ` set online \<longrightarrow> node_zonelists m' n = node_zonelists m n)"
    by (rule build_nodes_result [OF assms(1) _ assms(3) subset_refl assms(1,4) l]) (use assms(2) in blast)
  then obtain m' nl where m': "build_nodes s online online (m, \<lambda>_. 0) = Inr (m', nl)" "m' = m\<lparr>node_zonelists := node_zonelists m'\<rparr>"
    "\<forall>nid \<in> set online. zonelist_of s online (node_zones m) nid (node_zonelists m' (of_int nid))"
    by (elim exE conjE) (rule that)
  have mm: "mem_map m' = mem_map m" by (subst m'(2), simp)
  show ?thesis using m'(1,3) mm unfolding build_all_zonelists_def zonelist_of_def by simp
qed

theorem build_all_zonelists_correct_witness:
  "\<exists>m' ys. build_all_zonelists no_numa [0, 1] remote = Inr m' \<and> distinct (0 # ys) \<and> set (0 # ys) = {0, 1} \<and>
     node_zonelists m' 0 ZONELIST_FALLBACK = concat (map (build_zonerefs_node (node_zones remote)) (0 # ys))"
  using build_all_zonelists_correct [of "[0, 1]" remote no_numa] by (auto simp: remote_def)

section \<open>Distances\<close>

text \<open>
  C27. The distance table: an accepted \<open>numa_set_distance\<close> is read back by \<open>node_distance\<close>, all
  other distances stay as they were, and a node remains at the local distance from itself.
\<close>

theorem numa_set_distance_lookup:
  assumes "distance_ok s" "0 \<le> i" "0 \<le> j"
  shows "node_distance (numa_set_distance from to distance s) i j =
      (if distance_accepted s from to distance \<and> i = from \<and> j = to then distance else node_distance s i j) \<and>
    distance_ok (numa_set_distance from to distance s)"
  using set_distance_lookup [OF assms] set_distance_ok [OF assms(1)] by blast

definition two_nodes :: numa where
  "two_nodes = no_numa\<lparr>numa_distance_cnt := 2, numa_distance := Some (0x1000, default_distances 2)\<rparr>"

theorem numa_set_distance_lookup_witness:
  "node_distance (numa_set_distance 0 1 15 two_nodes) 0 1 = 15 \<and> node_distance (numa_set_distance 0 1 15 two_nodes) 1 0 = 20 \<and>
   node_distance (numa_set_distance 0 1 300 two_nodes) 0 1 = 20"
proof -
  have t: "default_distances 2 = [10, 20, 20, 10]" by (simp add: default_distances_def upt_rec)
  have n: "node_distance two_nodes n n = LOCAL_DISTANCE" if "0 \<le> n" for n
  proof (cases "n < 2")
    case True
    then have "n = 0 \<or> n = 1" using that by auto
    then show ?thesis by (auto simp: node_distance_def two_nodes_def t LOCAL_DISTANCE_def)
  next
    case False
    then show ?thesis by (simp add: node_distance_def two_nodes_def)
  qed
  have ok: "distance_ok two_nodes" using n by (simp add: distance_ok_def) (simp add: two_nodes_def t)
  have d: "node_distance two_nodes 0 1 = 20" "node_distance two_nodes 1 0 = 20"
    by (simp_all add: node_distance_def two_nodes_def t)
  have a: "distance_accepted two_nodes 0 1 15" "\<not> distance_accepted two_nodes 0 1 300"
    by (simp_all add: distance_accepted_def two_nodes_def)
  show ?thesis
    using numa_set_distance_lookup [OF ok, of 0 1 0 1 15] numa_set_distance_lookup [OF ok, of 1 0 0 1 15]
      numa_set_distance_lookup [OF ok, of 0 1 0 1 300] a d by simp
qed

end
