(* ===== verification/Bits.thy ===== *)
theory Bits
  imports Kernel_Prelude
begin

unbundle bit_operations_syntax

text \<open>
  Bit operations on words and on arrays of words (\<open>include/linux/bitops.h\<close>,
  \<open>include/asm-generic/bitops\<close>, \<open>arch/arm64/lib/bitops.S\<close>, \<open>lib/hweight.c\<close>) and the bit
  searches of \<open>lib/find_bit.c\<close>. A bitmap is the list of its \<open>unsigned long\<close>s; bit numbers
  are natural numbers, since a bitmap in memory has too few bits for them to wrap. An access
  outside the array has no meaning in C; the lemmas assume that the bits asked for are inside.
\<close>

section \<open>Words\<close>

type_synonym bitmap = "u64 list"

definition BITS_PER_LONG :: nat where "BITS_PER_LONG = 64"

definition BITS_TO_LONGS :: "nat \<Rightarrow> nat" where
  "BITS_TO_LONGS nr = (nr + BITS_PER_LONG - 1) div BITS_PER_LONG"

definition BIT_WORD :: "nat \<Rightarrow> nat" where "BIT_WORD nr = nr div BITS_PER_LONG"

definition BIT_MASK :: "nat \<Rightarrow> u64" where "BIT_MASK nr = push_bit (nr mod BITS_PER_LONG) 1"

definition BITMAP_FIRST_WORD_MASK :: "nat \<Rightarrow> u64" where
  "BITMAP_FIRST_WORD_MASK start = push_bit (start AND (BITS_PER_LONG - 1)) (NOT 0)"

definition BITMAP_LAST_WORD_MASK :: "nat \<Rightarrow> u64" where
  "BITMAP_LAST_WORD_MASK nbits = drop_bit (nat (- int nbits AND int (BITS_PER_LONG - 1))) (NOT 0)"

text \<open>
  \<open>__ffs\<close> and \<open>__fls\<close>: the number of the lowest and of the highest bit that is set. The
  builtins they call have no result for zero; here it is 64.
\<close>

definition ffs_word :: "u64 \<Rightarrow> nat" where
  "ffs_word word = (case find (bit word) [0 ..< 64] of None \<Rightarrow> 64 | Some n \<Rightarrow> n)"

definition fls_word :: "u64 \<Rightarrow> nat" where
  "fls_word word = (case find (bit word) (rev [0 ..< 64]) of None \<Rightarrow> 64 | Some n \<Rightarrow> n)"

definition ffz_word :: "u64 \<Rightarrow> nat" where
  "ffz_word word = ffs_word (NOT word)"

definition sw_hweight64 :: "u64 \<Rightarrow> nat" where
  "sw_hweight64 w =
     (let w1 = w - (drop_bit 1 w AND 0x5555555555555555);
          w2 = (w1 AND 0x3333333333333333) + (drop_bit 2 w1 AND 0x3333333333333333);
          w3 = (w2 + drop_bit 4 w2) AND 0x0f0f0f0f0f0f0f0f
      in unat (drop_bit 56 (w3 * 0x0101010101010101)))"

definition hweight_long :: "u64 \<Rightarrow> nat" where
  "hweight_long w = sw_hweight64 w"

section \<open>Single bits of an array\<close>

definition test_bit :: "nat \<Rightarrow> bitmap \<Rightarrow> bool" where
  "test_bit nr addr \<longleftrightarrow> 1 AND drop_bit (nr AND (BITS_PER_LONG - 1)) (addr ! BIT_WORD nr) \<noteq> 0"

definition set_bit_at :: "nat \<Rightarrow> bitmap \<Rightarrow> bitmap" where
  "set_bit_at nr addr = addr[BIT_WORD nr := addr ! BIT_WORD nr OR BIT_MASK nr]"

definition clear_bit_at :: "nat \<Rightarrow> bitmap \<Rightarrow> bitmap" where
  "clear_bit_at nr addr = addr[BIT_WORD nr := addr ! BIT_WORD nr AND NOT (BIT_MASK nr)]"

definition change_bit_at :: "nat \<Rightarrow> bitmap \<Rightarrow> bitmap" where
  "change_bit_at nr addr = addr[BIT_WORD nr := addr ! BIT_WORD nr XOR BIT_MASK nr]"

definition test_and_set_bit :: "nat \<Rightarrow> bitmap \<Rightarrow> bitmap \<times> bool" where
  "test_and_set_bit nr addr = (set_bit_at nr addr, addr ! BIT_WORD nr AND BIT_MASK nr \<noteq> 0)"

definition test_and_clear_bit :: "nat \<Rightarrow> bitmap \<Rightarrow> bitmap \<times> bool" where
  "test_and_clear_bit nr addr = (clear_bit_at nr addr, addr ! BIT_WORD nr AND BIT_MASK nr \<noteq> 0)"

definition test_and_change_bit :: "nat \<Rightarrow> bitmap \<Rightarrow> bitmap \<times> bool" where
  "test_and_change_bit nr addr = (change_bit_at nr addr, addr ! BIT_WORD nr AND BIT_MASK nr \<noteq> 0)"

section \<open>Searches\<close>

definition search_word :: "bitmap \<Rightarrow> bitmap option \<Rightarrow> u64 \<Rightarrow> nat \<Rightarrow> u64" where
  "search_word addr1 addr2 invert k =
     (let tmp = addr1 ! k;
          tmp1 = (case addr2 of None \<Rightarrow> tmp | Some a2 \<Rightarrow> tmp AND a2 ! k)
      in tmp1 XOR invert)"

function find_next_loop :: "(nat \<Rightarrow> u64) \<Rightarrow> nat \<Rightarrow> nat \<Rightarrow> u64 \<Rightarrow> nat" where
  "find_next_loop get nbits start tmp =
     (if tmp = 0 then
        let start' = start + BITS_PER_LONG in
        if start' \<ge> nbits then nbits
        else find_next_loop get nbits start' (get (start' div BITS_PER_LONG))
      else min (start + ffs_word tmp) nbits)"
  by pat_completeness auto
termination
  by (relation "measure (\<lambda>(get, nbits, start, tmp). nbits - start)") (auto simp: BITS_PER_LONG_def)

declare find_next_loop.simps [simp del]

definition find_next_bit_core :: "bitmap \<Rightarrow> bitmap option \<Rightarrow> nat \<Rightarrow> nat \<Rightarrow> u64 \<Rightarrow> nat" where
  "find_next_bit_core addr1 addr2 nbits start invert =
     (if start \<ge> nbits then nbits
      else
        let get = search_word addr1 addr2 invert;
            tmp = get (start div BITS_PER_LONG) AND BITMAP_FIRST_WORD_MASK start
        in find_next_loop get nbits (start div BITS_PER_LONG * BITS_PER_LONG) tmp)"

definition find_next_bit :: "bitmap \<Rightarrow> nat \<Rightarrow> nat \<Rightarrow> nat" where
  "find_next_bit addr sz offset = find_next_bit_core addr None sz offset 0"

definition find_next_zero_bit :: "bitmap \<Rightarrow> nat \<Rightarrow> nat \<Rightarrow> nat" where
  "find_next_zero_bit addr sz offset = find_next_bit_core addr None sz offset (NOT 0)"

definition find_next_and_bit :: "bitmap \<Rightarrow> bitmap \<Rightarrow> nat \<Rightarrow> nat \<Rightarrow> nat" where
  "find_next_and_bit addr1 addr2 sz offset = find_next_bit_core addr1 (Some addr2) sz offset 0"

function find_first_bit_from :: "bitmap \<Rightarrow> nat \<Rightarrow> nat \<Rightarrow> nat" where
  "find_first_bit_from addr sz idx =
     (if idx * BITS_PER_LONG < sz then
        if addr ! idx \<noteq> 0 then min (idx * BITS_PER_LONG + ffs_word (addr ! idx)) sz
        else find_first_bit_from addr sz (idx + 1)
      else sz)"
  by pat_completeness auto
termination
  by (relation "measure (\<lambda>(addr, sz, idx). sz - idx * BITS_PER_LONG)") (auto simp: BITS_PER_LONG_def)

declare find_first_bit_from.simps [simp del]

definition find_first_bit :: "bitmap \<Rightarrow> nat \<Rightarrow> nat" where
  "find_first_bit addr sz = find_first_bit_from addr sz 0"

function find_first_zero_bit_from :: "bitmap \<Rightarrow> nat \<Rightarrow> nat \<Rightarrow> nat" where
  "find_first_zero_bit_from addr sz idx =
     (if idx * BITS_PER_LONG < sz then
        if addr ! idx \<noteq> NOT 0 then min (idx * BITS_PER_LONG + ffz_word (addr ! idx)) sz
        else find_first_zero_bit_from addr sz (idx + 1)
      else sz)"
  by pat_completeness auto
termination
  by (relation "measure (\<lambda>(addr, sz, idx). sz - idx * BITS_PER_LONG)") (auto simp: BITS_PER_LONG_def)

declare find_first_zero_bit_from.simps [simp del]

definition find_first_zero_bit :: "bitmap \<Rightarrow> nat \<Rightarrow> nat" where
  "find_first_zero_bit addr sz = find_first_zero_bit_from addr sz 0"

fun find_last_loop :: "bitmap \<Rightarrow> nat \<Rightarrow> u64 \<Rightarrow> nat \<Rightarrow> nat" where
  "find_last_loop addr sz val idx =
     (let val' = val AND addr ! idx in
      if val' \<noteq> 0 then idx * BITS_PER_LONG + fls_word val'
      else case idx of 0 \<Rightarrow> sz | Suc idx' \<Rightarrow> find_last_loop addr sz (NOT 0) idx')"

declare find_last_loop.simps [simp del]

definition find_last_bit :: "bitmap \<Rightarrow> nat \<Rightarrow> nat" where
  "find_last_bit addr sz =
     (if sz \<noteq> 0 then find_last_loop addr sz (BITMAP_LAST_WORD_MASK sz) ((sz - 1) div BITS_PER_LONG) else sz)"

section \<open>Reference definitions\<close>

text \<open>The bits of an array as a set, and a search that looks at one bit after the other.\<close>

definition next_where :: "(nat \<Rightarrow> bool) \<Rightarrow> nat \<Rightarrow> nat \<Rightarrow> nat" where
  "next_where P sz offset = (case find P [offset ..< sz] of None \<Rightarrow> sz | Some i \<Rightarrow> i)"

definition last_where :: "(nat \<Rightarrow> bool) \<Rightarrow> nat \<Rightarrow> nat" where
  "last_where P sz = (case find P (rev [0 ..< sz]) of None \<Rightarrow> sz | Some i \<Rightarrow> i)"

lemma find_append: "find P (xs @ ys) = (case find P xs of None \<Rightarrow> find P ys | Some x \<Rightarrow> Some x)"
  by (induction xs) auto

lemma next_where_cases:
  assumes "offset \<le> sz"
  shows "offset \<le> next_where P sz offset \<and> next_where P sz offset \<le> sz \<and>
    (\<forall>j. offset \<le> j \<and> j < next_where P sz offset \<longrightarrow> \<not> P j) \<and> (next_where P sz offset < sz \<longrightarrow> P (next_where P sz offset))"
proof (cases "find P [offset ..< sz]")
  case None
  then have "\<not> P j" if "offset \<le> j" "j < sz" for j using that by (auto simp: find_None_iff)
  then show ?thesis using assms None by (auto simp: next_where_def)
next
  case (Some i)
  then obtain k where k: "k < sz - offset" "P (offset + k)" "\<forall>j < k. \<not> P (offset + j)" "i = offset + k"
    by (auto simp: find_Some_iff)
  have "\<not> P j" if "offset \<le> j" "j < i" for j using k(3,4) that by (auto dest!: spec [of _ "j - offset"])
  then show ?thesis using Some k by (auto simp: next_where_def)
qed

lemma next_where_eqI:
  assumes "offset \<le> i" "i \<le> sz" "\<And>j. offset \<le> j \<Longrightarrow> j < i \<Longrightarrow> \<not> P j" "i < sz \<Longrightarrow> P i"
  shows "next_where P sz offset = i"
proof -
  have "offset \<le> sz" using assms(1,2) by simp
  from next_where_cases [OF this, of P] show ?thesis using assms by (metis linorder_neqE_nat order_less_le_trans)
qed

lemma next_where_past: "sz \<le> offset \<Longrightarrow> next_where P sz offset = sz"
  by (simp add: next_where_def)

lemma next_where_le: "next_where P sz offset \<le> sz"
  using next_where_cases [of offset sz P] next_where_past [of sz offset P] by (cases "offset \<le> sz") auto

lemma next_where_ge: "offset \<le> sz \<Longrightarrow> offset \<le> next_where P sz offset"
  using next_where_cases [of offset sz P] by blast

lemma next_where_hit: "next_where P sz offset < sz \<Longrightarrow> offset \<le> next_where P sz offset \<and> P (next_where P sz offset)"
  using next_where_cases [of offset sz P] next_where_past [of sz offset P] by (cases "offset \<le> sz") auto

lemma next_where_skip: "offset \<le> j \<Longrightarrow> j < next_where P sz offset \<Longrightarrow> \<not> P j"
  using next_where_cases [of offset sz P] next_where_past [of sz offset P] by (cases "offset \<le> sz") auto

lemma next_where_cong:
  assumes "\<And>i. offset \<le> i \<Longrightarrow> i < sz \<Longrightarrow> P i \<longleftrightarrow> Q i"
  shows "next_where P sz offset = next_where Q sz offset"
proof -
  have "find P [offset ..< sz] = find Q [offset ..< sz]" using assms by (intro find_cong) auto
  then show ?thesis by (simp add: next_where_def)
qed

section \<open>Bits of words\<close>

lemma and_63: "n AND 63 = n mod (64 :: nat)" "int n AND 63 = int (n mod 64)"
proof -
  have m: "(63 :: nat) = mask 6" "(63 :: int) = mask 6" by (simp_all add: mask_eq_exp_minus_1)
  show "n AND 63 = n mod 64" unfolding m(1) take_bit_eq_mask [symmetric] by (simp add: take_bit_eq_mod)
  show "int n AND 63 = int (n mod 64)" unfolding m(2) take_bit_eq_mask [symmetric] by (simp add: take_bit_eq_mod of_nat_mod)
qed

lemma test_bit_iff: "test_bit nr addr \<longleftrightarrow> bit (addr ! (nr div 64)) (nr mod 64)"
proof -
  have "1 AND w = of_bool (bit w 0)" for w :: u64 by (rule bit_word_eqI) (auto simp: bit_simps)
  then show ?thesis by (simp add: test_bit_def BITS_PER_LONG_def BIT_WORD_def and_63 bit_simps)
qed

lemma bit_first_word_mask: "bit (BITMAP_FIRST_WORD_MASK start) n \<longleftrightarrow> start mod 64 \<le> n \<and> n < 64"
  by (auto simp: BITMAP_FIRST_WORD_MASK_def BITS_PER_LONG_def and_63 bit_simps)

lemma last_word_shift: "- int n AND 63 = int ((64 - n mod 64) mod 64)"
proof -
  have m: "(63 :: int) = mask 6" by (simp add: mask_eq_exp_minus_1)
  have "- int n AND 63 = (- int n) mod 64" unfolding m take_bit_eq_mask [symmetric] by (simp add: take_bit_eq_mod)
  also have "\<dots> = int ((64 - n mod 64) mod 64)"
    by (simp add: zmod_zminus1_eq_if of_nat_mod of_nat_diff)
  finally show ?thesis .
qed

lemma bit_last_word_mask: "bit (BITMAP_LAST_WORD_MASK nbits) n \<longleftrightarrow> n < (if nbits mod 64 = 0 then 64 else nbits mod 64)"
proof -
  have drop: "bit (drop_bit k (NOT 0 :: u64)) n \<longleftrightarrow> n + k < 64" for k
    by (auto simp: bit_mask_iff possible_bit_def)
  have "bit (BITMAP_LAST_WORD_MASK nbits) n \<longleftrightarrow> n + (64 - nbits mod 64) mod 64 < 64"
    using drop [of "(64 - nbits mod 64) mod 64"] by (simp add: BITMAP_LAST_WORD_MASK_def BITS_PER_LONG_def last_word_shift)
  then show ?thesis by auto
qed

lemma bit_last_word_mask':
  assumes "nbits \<noteq> 0"
  shows "bit (BITMAP_LAST_WORD_MASK nbits) n \<longleftrightarrow> n \<le> (nbits - 1) mod 64"
proof -
  obtain m where "nbits = Suc m" using assms by (cases nbits) auto
  then show ?thesis unfolding bit_last_word_mask by (auto simp: mod_Suc)
qed

lemma bit_BIT_MASK: "bit (BIT_MASK nr) n \<longleftrightarrow> n = nr mod 64"
  by (auto simp: BIT_MASK_def BITS_PER_LONG_def bit_simps)

lemma ffs_word_next: "ffs_word w = next_where (bit w) 64 0"
  by (simp add: ffs_word_def next_where_def)

lemma ffs_word_props:
  assumes "w \<noteq> 0"
  shows "ffs_word w < 64" "bit w (ffs_word w)" "j < ffs_word w \<Longrightarrow> \<not> bit w j"
proof -
  obtain n where n: "bit w n" using assms bit_eqI by (metis bit_0_eq bot_apply bot_bool_def)
  then have n': "n < 64" using bit_imp_le_length by fastforce
  show 1: "ffs_word w < 64" using next_where_skip [of 0 n "bit w" 64] n n' unfolding ffs_word_next by force
  show "bit w (ffs_word w)" using next_where_hit [of "bit w" 64 0] 1 unfolding ffs_word_next by blast
  show "\<not> bit w j" if "j < ffs_word w" using next_where_skip [of 0 j "bit w" 64] that unfolding ffs_word_next by blast
qed

section \<open>The searches agree with the reference\<close>

lemma find_next_loop_result:
  assumes "64 dvd start" "start < nbits"
  shows "find_next_loop get nbits start tmp =
    next_where (\<lambda>i. bit (if i div 64 = start div 64 then tmp else get (i div 64)) (i mod 64)) nbits start"
  using assms
proof (induction get nbits start tmp rule: find_next_loop.induct)
  case (1 get nbits start tmp)
  let ?P = "\<lambda>i. bit (if i div 64 = start div 64 then tmp else get (i div 64)) (i mod 64)"
  obtain q where q: "start = 64 * q" using 1(2) by (elim dvdE)
  have here: "i div 64 = start div 64" if "start \<le> i" "i < start + 64" for i
    using that unfolding q by (simp add: div_nat_eqI)
  have far: "i div 64 \<noteq> start div 64" if "start + 64 \<le> i" for i
    using div_le_mono [OF that, of 64] unfolding q by simp
  show ?case
  proof (cases "tmp = 0")
    case zero: True
    have none: "\<not> ?P i" if "start \<le> i" "i < start + 64" for i using here [OF that] zero by simp
    show ?thesis
    proof (cases "start + 64 \<ge> nbits")
      case True
      then have "next_where ?P nbits start = nbits" using none 1(3) by (intro next_where_eqI) auto
      then show ?thesis using zero True by (subst find_next_loop.simps) (simp add: BITS_PER_LONG_def)
    next
      case False
      let ?n = "next_where ?P nbits (start + 64)"
      have "find_next_loop get nbits start tmp = find_next_loop get nbits (start + 64) (get ((start + 64) div 64))"
        using zero False by (subst find_next_loop.simps) (simp add: BITS_PER_LONG_def Let_def)
      also have "\<dots> = next_where (\<lambda>i. bit (get (i div 64)) (i mod 64)) nbits (start + 64)"
      proof -
        have "(if i div 64 = (start + 64) div 64 then get ((start + 64) div 64) else get (i div 64)) = get (i div 64)" for i by simp
        then show ?thesis using 1(1) [OF zero refl, unfolded BITS_PER_LONG_def] False 1(2) by (simp only: dvd_add_triv_right_iff not_le simp_thms)
      qed
      also have "\<dots> = ?n" by (rule next_where_cong) (simp add: far)
      also have "\<dots> = next_where ?P nbits start"
      proof (rule next_where_eqI [symmetric])
        have "start + 64 \<le> ?n" using False by (intro next_where_ge) simp
        then show "start \<le> ?n" by simp
        show "?n \<le> nbits" by (rule next_where_le)
        show "?P ?n" if "?n < nbits" using next_where_hit [OF that] by (rule conjunct2)
        show "\<not> ?P j" if "start \<le> j" "j < ?n" for j
          using none [OF that(1)] next_where_skip [OF _ that(2)] not_le by blast
      qed
      finally show ?thesis .
    qed
  next
    case False
    note f = ffs_word_props [OF this]
    have m: "(start + n) mod 64 = n" if "n < 64" for n using that unfolding q by simp
    have "next_where ?P nbits start = min (start + ffs_word tmp) nbits"
    proof (rule next_where_eqI)
      show "\<not> ?P j" if "start \<le> j" "j < min (start + ffs_word tmp) nbits" for j
      proof -
        have "j - start < ffs_word tmp" using that by (simp add: less_diff_conv2)
        then show ?thesis using that f(1) f(3) [of "j - start"] here [of j] m [of "j - start"] by simp
      qed
      show "?P (min (start + ffs_word tmp) nbits)" if "min (start + ffs_word tmp) nbits < nbits"
        using that f(1,2) here [of "start + ffs_word tmp"] m [OF f(1)] by (simp add: min_def split: if_splits)
    qed (use 1(3) in simp_all)
    then show ?thesis using False by (simp add: find_next_loop.simps [of get nbits start tmp])
  qed
qed

lemma find_next_loop_plain:
  assumes "64 dvd start" "start < nbits"
  shows "find_next_loop get nbits start (get (start div 64)) = next_where (\<lambda>i. bit (get (i div 64)) (i mod 64)) nbits start"
proof -
  have "(if i div 64 = start div 64 then get (start div 64) else get (i div 64)) = get (i div 64)" for i by simp
  then show ?thesis using find_next_loop_result [OF assms, of get "get (start div 64)"] by (simp only:)
qed

lemma find_next_core_result:
  "find_next_bit_core addr1 addr2 nbits start invert =
     next_where (\<lambda>i. bit (search_word addr1 addr2 invert (i div 64)) (i mod 64)) nbits start"
proof (cases "start < nbits")
  case True
  let ?g = "search_word addr1 addr2 invert" and ?s = "start div 64 * 64"
  let ?P = "\<lambda>i. bit (?g (i div 64)) (i mod 64)"
  let ?Q = "\<lambda>i. bit (if i div 64 = start div 64 then ?g (start div 64) AND BITMAP_FIRST_WORD_MASK start else ?g (i div 64)) (i mod 64)"
  have s: "?s \<le> start" by simp
  have q: "?Q i \<longleftrightarrow> ?P i \<and> start \<le> i" if "?s \<le> i" for i
  proof (cases "i div 64 = start div 64")
    case True
    then have "start mod 64 \<le> i mod 64 \<longleftrightarrow> start \<le> i" using div_mult_mod_eq [of i 64] div_mult_mod_eq [of start 64] by linarith
    then show ?thesis using True by (simp add: bit_simps bit_first_word_mask)
  next
    case False
    have "start \<le> i" using False that s div_le_mono [of i start 64] div_le_mono [OF that, of 64] by (cases "i \<le> start") auto
    then show ?thesis using False by simp
  qed
  have "find_next_bit_core addr1 addr2 nbits start invert = next_where ?Q nbits ?s"
    using True s find_next_loop_result [of ?s nbits ?g "?g (start div 64) AND BITMAP_FIRST_WORD_MASK start"]
    by (simp add: find_next_bit_core_def Let_def BITS_PER_LONG_def)
  also have "\<dots> = next_where ?P nbits start"
  proof (rule next_where_eqI)
    have c: "start \<le> next_where ?P nbits start" using True by (intro next_where_ge) simp
    show "?s \<le> next_where ?P nbits start" using s c by (rule order_trans)
    show "next_where ?P nbits start \<le> nbits" by (rule next_where_le)
    show "\<not> ?Q j" if "?s \<le> j" "j < next_where ?P nbits start" for j
      using q [OF that(1)] next_where_skip [OF _ that(2)] by blast
    show "?Q (next_where ?P nbits start)" if "next_where ?P nbits start < nbits"
      using q [OF order_trans [OF s c]] next_where_hit [OF that] by blast
  qed
  finally show ?thesis .
qed (simp add: find_next_bit_core_def next_where_past)

lemma find_next_bit_eq: "find_next_bit addr sz offset = next_where (\<lambda>i. test_bit i addr) sz offset"
  unfolding find_next_bit_def find_next_core_result test_bit_iff by (simp add: search_word_def)

lemma find_next_zero_bit_eq: "find_next_zero_bit addr sz offset = next_where (\<lambda>i. \<not> test_bit i addr) sz offset"
  unfolding find_next_zero_bit_def find_next_core_result test_bit_iff
  by (rule next_where_cong) (simp add: search_word_def bit_simps)

lemma find_next_and_bit_eq:
  "find_next_and_bit addr1 addr2 sz offset = next_where (\<lambda>i. test_bit i addr1 \<and> test_bit i addr2) sz offset"
  unfolding find_next_and_bit_def find_next_core_result test_bit_iff
  by (rule next_where_cong) (simp add: search_word_def bit_simps)

text \<open>Both searches from the start look for the first word that is not \<open>skip\<close>.\<close>

lemma first_word_search:
  assumes f: "\<And>idx. f idx = (if idx * 64 < sz then if get idx \<noteq> (0 :: u64) then min (idx * 64 + ffs_word (get idx)) sz else f (idx + 1) else sz)"
  shows "f 0 = next_where (\<lambda>i. bit (get (i div 64)) (i mod 64)) sz 0"
proof -
  let ?P = "\<lambda>i. bit (get (i div 64)) (i mod 64)"
  have "f idx = next_where ?P sz (idx * 64)" for idx
  proof (induction "sz - idx * 64" arbitrary: idx rule: less_induct)
    case less
    show ?case
    proof (cases "idx * 64 < sz")
      case True
      have "find_next_loop get sz (idx * 64) (get idx) = next_where ?P sz (idx * 64)"
        using find_next_loop_plain [of "idx * 64" sz get] True by simp
      moreover have "f (idx + 1) = next_where ?P sz ((idx + 1) * 64)" using less [of "idx + 1"] True by simp
      moreover have "next_where ?P sz ((idx + 1) * 64) = find_next_loop get sz ((idx + 1) * 64) (get (idx + 1))" if "(idx + 1) * 64 < sz"
        using find_next_loop_plain [of "(idx + 1) * 64" sz get] that by simp
      moreover have "next_where ?P sz ((idx + 1) * 64) = sz" if "\<not> (idx + 1) * 64 < sz" using that by (simp add: next_where_past)
      ultimately show ?thesis using True
        by (subst f, subst (asm) find_next_loop.simps) (auto simp: BITS_PER_LONG_def Let_def add.commute split: if_splits)
    next
      case False
      then show ?thesis by (subst f) (simp add: next_where_past)
    qed
  qed
  from this [of 0] show ?thesis by simp
qed

lemma find_first_bit_eq: "find_first_bit addr sz = next_where (\<lambda>i. test_bit i addr) sz 0"
  unfolding find_first_bit_def test_bit_iff
  by (rule first_word_search [of "find_first_bit_from addr sz" sz "\<lambda>k. addr ! k"])
    (subst find_first_bit_from.simps, simp add: BITS_PER_LONG_def)

lemma find_first_zero_bit_eq: "find_first_zero_bit addr sz = next_where (\<lambda>i. \<not> test_bit i addr) sz 0"
proof -
  have n: "NOT w \<noteq> 0 \<longleftrightarrow> w \<noteq> NOT 0" for w :: u64 by (metis bit.double_compl)
  have "find_first_zero_bit_from addr sz 0 = next_where (\<lambda>i. bit (NOT (addr ! (i div 64))) (i mod 64)) sz 0"
    by (rule first_word_search [of "find_first_zero_bit_from addr sz" sz "\<lambda>k. NOT (addr ! k)"])
      (subst find_first_zero_bit_from.simps, simp only: BITS_PER_LONG_def ffz_word_def n)
  also have "\<dots> = next_where (\<lambda>i. \<not> test_bit i addr) sz 0"
    by (rule next_where_cong) (simp add: test_bit_iff bit_not_iff possible_bit_def)
  finally show ?thesis by (simp add: find_first_zero_bit_def)
qed

text \<open>The search from the end.\<close>

definition last_below :: "(nat \<Rightarrow> bool) \<Rightarrow> nat \<Rightarrow> nat \<Rightarrow> nat" where
  "last_below P sz n = (case find P (rev [0 ..< n]) of None \<Rightarrow> sz | Some i \<Rightarrow> i)"

lemma last_where_below: "last_where P sz = last_below P sz sz"
  by (simp add: last_where_def last_below_def)

lemma last_below_Suc: "last_below P sz (Suc n) = (if P n then n else last_below P sz n)"
  by (simp add: last_below_def)

lemma last_below_skip: "(\<And>j. m \<le> j \<Longrightarrow> j < n \<Longrightarrow> \<not> P j) \<Longrightarrow> m \<le> n \<Longrightarrow> last_below P sz n = last_below P sz m"
proof (induction "n - m" arbitrary: n)
  case (Suc k)
  then obtain n' where n': "n = Suc n'" "m \<le> n'" "k = n' - m" by (cases n) auto
  have "last_below P sz n' = last_below P sz m" using Suc.hyps(1) [OF n'(3)] Suc.prems(1) n' by simp
  then show ?case using Suc.prems(1) [of n'] n' by (simp add: last_below_Suc)
qed simp

lemma last_below_hit: "i < n \<Longrightarrow> P i \<Longrightarrow> (\<And>j. i < j \<Longrightarrow> j < n \<Longrightarrow> \<not> P j) \<Longrightarrow> last_below P sz n = i"
  using last_below_skip [of "Suc i" n P sz] by (simp add: last_below_Suc Suc_le_eq)

lemma last_below_cong: "(\<And>i. i < n \<Longrightarrow> P i \<longleftrightarrow> Q i) \<Longrightarrow> last_below P sz n = last_below Q sz n"
  by (induction n) (auto simp: last_below_Suc last_below_def [of _ _ 0])

lemma fls_word_props:
  assumes "w \<noteq> 0"
  shows "fls_word w < 64" "bit w (fls_word w)" "fls_word w < j \<Longrightarrow> \<not> bit w j"
proof -
  obtain n where n: "bit w n" using assms bit_eqI by (metis bit_0_eq bot_apply bot_bool_def)
  define m where "m = Max {n. bit w n}"
  have fin: "finite {n. bit w n}" by (rule finite_subset [of _ "{..< 64}"]) (auto dest: bit_imp_le_length)
  have m: "bit w m" unfolding m_def using Max_in [OF fin] n by blast
  have above: "\<not> bit w j" if "m < j" for j
  proof
    assume "bit w j"
    then have "j \<le> m" unfolding m_def by (intro Max_ge fin) simp
    then show False using that by simp
  qed
  have l: "m < 64" using bit_imp_le_length [OF m] by simp
  have "fls_word w = last_below (bit w) 64 64" by (simp add: fls_word_def last_below_def)
  also have "\<dots> = m" by (rule last_below_hit [of m 64 "bit w"]) (use l m above in auto)
  finally show "fls_word w < 64" "bit w (fls_word w)" "fls_word w < j \<Longrightarrow> \<not> bit w j" using l m above by simp_all
qed

lemma find_last_loop_result:
  "find_last_loop addr sz val idx =
     last_below (\<lambda>i. bit (addr ! (i div 64)) (i mod 64) \<and> (i div 64 = idx \<longrightarrow> bit val (i mod 64))) sz (64 * idx + 64)"
proof (induction idx arbitrary: val)
  case (0 val)
  show ?case
  proof (cases "val AND addr ! 0 = 0")
    case True
    then have "\<not> (bit val n \<and> bit (addr ! 0) n)" for n by (metis bit_0_eq bit_and_iff bot_apply bot_bool_def)
    then have "last_below (\<lambda>i. bit (addr ! (i div 64)) (i mod 64) \<and> (i div 64 = 0 \<longrightarrow> bit val (i mod 64))) sz 64 = last_below (\<lambda>_. False) sz 64"
      by (intro last_below_cong) auto
    also have "\<dots> = sz" by (simp add: last_below_def find_None_iff [THEN iffD2])
    finally show ?thesis using True by (simp add: find_last_loop.simps [of addr sz val 0])
  next
    case False
    note f = fls_word_props [OF this]
    have "last_below (\<lambda>i. bit (addr ! (i div 64)) (i mod 64) \<and> (i div 64 = 0 \<longrightarrow> bit val (i mod 64))) sz 64 = fls_word (val AND addr ! 0)"
      using f by (intro last_below_hit) (auto simp: bit_and_iff)
    then show ?thesis using False by (simp add: find_last_loop.simps [of addr sz val 0])
  qed
next
  case (Suc idx val)
  let ?P = "\<lambda>i. bit (addr ! (i div 64)) (i mod 64) \<and> (i div 64 = Suc idx \<longrightarrow> bit val (i mod 64))"
  have top: "i div 64 = Suc idx" "i mod 64 = i - 64 * Suc idx" if "64 * idx + 64 \<le> i" "i < 64 * Suc idx + 64" for i
  proof -
    show d: "i div 64 = Suc idx" using that by (simp add: div_nat_eqI)
    show "i mod 64 = i - 64 * Suc idx" using div_mult_mod_eq [of i 64] unfolding d by linarith
  qed
  show ?case
  proof (cases "val AND addr ! Suc idx = 0")
    case True
    then have none: "\<not> (bit val n \<and> bit (addr ! Suc idx) n)" for n by (metis bit_0_eq bit_and_iff bot_apply bot_bool_def)
    have "last_below ?P sz (64 * Suc idx + 64) = last_below ?P sz (64 * idx + 64)"
      using none top by (intro last_below_skip) auto
    also have "\<dots> = last_below (\<lambda>i. bit (addr ! (i div 64)) (i mod 64) \<and> (i div 64 = idx \<longrightarrow> bit (NOT 0 :: u64) (i mod 64))) sz (64 * idx + 64)"
    proof (rule last_below_cong)
      fix i assume "i < 64 * idx + 64"
      then have "i div 64 < Suc idx" by (simp add: less_mult_imp_div_less)
      then show "?P i \<longleftrightarrow> bit (addr ! (i div 64)) (i mod 64) \<and> (i div 64 = idx \<longrightarrow> bit (NOT 0 :: u64) (i mod 64))"
        by (simp add: bit_minus_1_iff possible_bit_def)
    qed
    finally show ?thesis using True Suc [of "NOT 0"] by (subst find_last_loop.simps) simp
  next
    case False
    note f = fls_word_props [OF this]
    have "last_below ?P sz (64 * Suc idx + 64) = 64 * Suc idx + fls_word (val AND addr ! Suc idx)"
    proof (rule last_below_hit)
      show "64 * Suc idx + fls_word (val AND addr ! Suc idx) < 64 * Suc idx + 64" using f(1) by simp
      then show "?P (64 * Suc idx + fls_word (val AND addr ! Suc idx))"
        using f(2) top [of "64 * Suc idx + fls_word (val AND addr ! Suc idx)"] by (simp add: bit_and_iff)
      show "\<not> ?P j" if "64 * Suc idx + fls_word (val AND addr ! Suc idx) < j" "j < 64 * Suc idx + 64" for j
        using f(3) [of "j - 64 * Suc idx"] top [of j] that by (auto simp: bit_and_iff less_diff_conv)
    qed
    then show ?thesis using False by (subst find_last_loop.simps) (simp add: BITS_PER_LONG_def)
  qed
qed

lemma find_last_bit_eq: "find_last_bit addr sz = last_where (\<lambda>i. test_bit i addr) sz"
proof (cases "sz = 0")
  case False
  let ?i = "(sz - 1) div 64"
  have l: "sz \<le> 64 * ?i + 64" "64 * ?i < sz" using False by auto
  let ?P = "\<lambda>i. bit (addr ! (i div 64)) (i mod 64) \<and> (i div 64 = ?i \<longrightarrow> bit (BITMAP_LAST_WORD_MASK sz) (i mod 64))"
  have p: "?P i \<longleftrightarrow> test_bit i addr \<and> i < sz" if "i < 64 * ?i + 64" for i
  proof -
    have "i div 64 = ?i \<Longrightarrow> bit (BITMAP_LAST_WORD_MASK sz) (i mod 64) \<longleftrightarrow> i < sz"
      unfolding bit_last_word_mask' [OF False] using False div_mult_mod_eq [of i 64] div_mult_mod_eq [of "sz - 1" 64] by linarith
    moreover have "i < sz" if "i div 64 \<noteq> ?i" using that \<open>i < 64 * ?i + 64\<close> l by auto
    ultimately show ?thesis by (auto simp: test_bit_iff)
  qed
  have "find_last_bit addr sz = last_below ?P sz (64 * ?i + 64)"
    using False by (simp add: find_last_bit_def BITS_PER_LONG_def find_last_loop_result)
  also have "\<dots> = last_below ?P sz sz" using p l by (intro last_below_skip) auto
  also have "\<dots> = last_below (\<lambda>i. test_bit i addr) sz sz" using p l by (intro last_below_cong) auto
  finally show ?thesis by (simp add: last_where_below)
qed (simp add: find_last_bit_def last_where_def)

end
