(* ===== verification/Hweight.thy ===== *)
theory Hweight
  imports Bits
begin

unbundle bit_operations_syntax

text \<open>
  The parallel bit count \<open>__sw_hweight64\<close> of \<open>lib/hweight.c\<close> counts the bits that are set. Each
  of its first three steps works on the bytes of the word independently, so it is enough to
  look at the 256 bytes; the multiplication adds the eight counts in the top byte.
\<close>

section \<open>Bytes of a number\<close>

lemma small_byte_bits: "y < 2 ^ k \<Longrightarrow> bit (y :: nat) n \<Longrightarrow> n < k"
  using bit_take_bit_iff [of k y n] take_bit_nat_eq_self [of y k] by simp

lemma concat_or: "y < 2 ^ k \<Longrightarrow> 2 ^ k * x + y = push_bit k x OR (y :: nat)"
proof -
  assume "y < 2 ^ k"
  from small_byte_bits [OF this] have "push_bit k x AND y = 0" by (intro bit_eqI) (auto simp: bit_simps dest: leD)
  then show ?thesis by (simp add: disjunctive_add_eq_or push_bit_eq_mult mult.commute)
qed

lemma and_concat:
  assumes "b < 2 ^ k" "d < 2 ^ k"
  shows "(2 ^ k * a + b) AND (2 ^ k * c + d) = 2 ^ k * (a AND c) + (b AND (d :: nat))"
proof -
  have "b AND d = take_bit k (b AND d)" using assms by (simp add: take_bit_nat_eq_self)
  then have l: "b AND d < 2 ^ k" using take_bit_nat_less_exp [of k "b AND d"] by (rule ssubst)
  show ?thesis unfolding concat_or [OF assms(1)] concat_or [OF assms(2)] concat_or [OF l]
    by (rule bit_eqI) (auto simp: bit_simps dest: small_byte_bits [OF assms(1)] small_byte_bits [OF assms(2)])
qed

lemma and_low: "b < 2 ^ k \<Longrightarrow> d < 2 ^ k \<Longrightarrow> (2 ^ k * a + b) AND d = b AND (d :: nat)"
  using and_concat [of b k d a 0] by simp

lemma and_le_nat: "x AND y \<le> (x :: nat)"
proof -
  have "int (x AND y) \<le> int x" unfolding of_nat_and_eq by (rule AND_upper1) simp
  then show ?thesis by simp
qed

text \<open>A byte repeated \<open>k\<close> times, and a function applied to each of \<open>k\<close> bytes.\<close>

primrec rep :: "nat \<Rightarrow> nat \<Rightarrow> nat" where
  "rep b 0 = 0"
| "rep b (Suc k) = 256 * rep b k + b"

primrec map_bytes :: "(nat \<Rightarrow> nat) \<Rightarrow> nat \<Rightarrow> nat \<Rightarrow> nat" where
  "map_bytes f 0 n = 0"
| "map_bytes f (Suc k) n = 256 * map_bytes f k (n div 256) + f (n mod 256)"

definition hw1 :: "nat \<Rightarrow> nat \<Rightarrow> nat" where "hw1 m n = n - (n div 2 AND m)"
definition hw2 :: "nat \<Rightarrow> nat \<Rightarrow> nat" where "hw2 m n = (n AND m) + (n div 4 AND m)"
definition hw3 :: "nat \<Rightarrow> nat \<Rightarrow> nat" where "hw3 m n = (n + n div 16) AND m"

definition byte_weight :: "nat \<Rightarrow> nat" where
  "byte_weight r = hw3 0xf (hw2 0x33 (hw1 0x55 r))"

lemma byte_table:
  "list_all (\<lambda>r. let r1 = r - (r div 2 AND 0x55); r2 = (r1 AND 0x33) + (r1 div 4 AND 0x33) in
     r1 < 256 \<and> r div 2 AND 0x55 \<le> r \<and> r2 \<le> 0x44 \<and> r2 mod 16 \<le> 4 \<and>
     (r2 + r2 div 16) AND 0xf = int (length (filter (bit r) [0 ..< 8]))) [0 .. 255]"
  by code_simp

lemma byte_facts:
  assumes "r < 256"
  shows "hw1 0x55 r < 256" "r div 2 AND 0x55 \<le> r" "hw2 0x33 (hw1 0x55 r) \<le> 0x44" "hw2 0x33 (hw1 0x55 r) mod 16 \<le> 4"
    "byte_weight r = length (filter (bit r) [0 ..< 8])"
proof -
  have "int r \<in> set [0 .. 255]" using assms by simp
  then have t: "let r1 = int r - (int r div 2 AND 0x55); r2 = (r1 AND 0x33) + (r1 div 4 AND 0x33) in
     r1 < 256 \<and> int r div 2 AND 0x55 \<le> int r \<and> r2 \<le> 0x44 \<and> r2 mod 16 \<le> 4 \<and>
     (r2 + r2 div 16) AND 0xf = int (length (filter (bit (int r)) [0 ..< 8]))"
    using byte_table unfolding list_all_iff by (rule bspec [rotated])
  have a: "int (r div 2 AND 0x55) = int r div 2 AND 0x55" by (simp add: of_nat_and_eq zdiv_int)
  show l: "r div 2 AND 0x55 \<le> r" using t a unfolding Let_def by (metis of_nat_le_iff)
  have s1: "int (hw1 0x55 r) = int r - (int r div 2 AND 0x55)" using l a by (simp add: hw1_def of_nat_diff)
  have s2: "int (hw2 0x33 n) = (int n AND 0x33) + (int n div 4 AND 0x33)" for n by (simp add: hw2_def of_nat_and_eq zdiv_int)
  have s3: "int (hw3 0xf n) = (int n + int n div 16) AND 0xf" for n by (simp add: hw3_def of_nat_and_eq zdiv_int)
  have b: "bit (int r) = bit r" by (rule ext) (simp add: bit_simps)
  have t': "int (hw1 0x55 r) < 256" "int (hw2 0x33 (hw1 0x55 r)) \<le> 0x44" "int (hw2 0x33 (hw1 0x55 r)) mod 16 \<le> 4"
    "int (byte_weight r) = int (length (filter (bit r) [0 ..< 8]))"
    using t unfolding Let_def byte_weight_def s3 s2 s1 b by blast+
  show "hw1 0x55 r < 256" "hw2 0x33 (hw1 0x55 r) \<le> 0x44" "byte_weight r = length (filter (bit r) [0 ..< 8])"
    using t'(1,2,4) by linarith+
  show "hw2 0x33 (hw1 0x55 r) mod 16 \<le> 4" using t'(3) by presburger
qed

lemma byte_shift:
  assumes "c * d = (256 :: nat)" "b < 256"
  shows "(256 * a + b) div c = 2 ^ 8 * (a div c) + (d * (a mod c) + b div c)" "d * (a mod c) + b div c < 2 ^ 8"
proof -
  have c: "0 < c" using assms(1) by (cases c) auto
  have "256 * a + b = b + c * (d * a)" using assms(1) by (metis add.commute mult.assoc)
  then have "(256 * a + b) div c = d * a + b div c" using c div_mult_self2 [of c b "d * a"] by (simp only: add.commute)
  also have "d * a = d * (c * (a div c) + a mod c)" by simp
  also have "\<dots> = c * d * (a div c) + d * (a mod c)" by (simp only: distrib_left ac_simps)
  finally show "(256 * a + b) div c = 2 ^ 8 * (a div c) + (d * (a mod c) + b div c)" using assms(1) by simp
  have "b div c < d" using assms c by (simp add: less_mult_imp_div_less mult.commute)
  moreover have "d * (a mod c + 1) \<le> d * c" using c by (intro mult_le_mono) (simp_all add: Suc_leI)
  ultimately show "d * (a mod c) + b div c < 2 ^ 8" using assms(1) by (simp add: mult.commute)
qed

lemma hw1_bytes: "hw1 (rep 0x55 k) n = map_bytes (hw1 0x55) k n" if "n < 256 ^ k"
  using that
proof (induction k arbitrary: n)
  case (Suc k)
  define q r where qr: "q = n div 256" "r = n mod 256"
  have n: "n = 256 * q + r" and r: "r < 256" by (simp_all add: qr)
  have q: "q < 256 ^ k" using Suc.prems unfolding qr by (simp add: less_mult_imp_div_less mult.commute)
  have "n div 2 = 2 ^ 8 * (q div 2) + (2 ^ 7 * (q mod 2) + r div 2)" "2 ^ 7 * (q mod 2) + r div 2 < 2 ^ 8"
    using byte_shift [of 2 "2 ^ 7" r q] r unfolding n by simp_all
  then have "n div 2 AND rep 0x55 (Suc k) = 256 * (q div 2 AND rep 0x55 k) + ((2 ^ 7 * (q mod 2) + r div 2) AND 0x55)"
    using and_concat [of "2 ^ 7 * (q mod 2) + r div 2" 8 85 "q div 2" "rep 0x55 k"] by simp
  also have "(2 ^ 7 * (q mod 2) + r div 2) AND 0x55 = r div 2 AND 0x55" using r by (intro and_low) auto
  finally have a: "n div 2 AND rep 0x55 (Suc k) = 256 * (q div 2 AND rep 0x55 k) + (r div 2 AND 0x55)" .
  have le: "r div 2 AND 0x55 \<le> r" "q div 2 AND rep 0x55 k \<le> q"
    using byte_facts(2) [OF r] and_le_nat [of "q div 2" "rep 0x55 k"] by simp_all
  have "hw1 (rep 0x55 (Suc k)) n = 256 * hw1 (rep 0x55 k) q + hw1 0x55 r"
    unfolding hw1_def a using n le by (simp add: diff_mult_distrib2)
  then show ?case using Suc.IH [OF q] by (simp add: qr)
qed (simp add: hw1_def)

lemma hw2_bytes: "hw2 (rep 0x33 k) (map_bytes f k n) = map_bytes (\<lambda>r. hw2 0x33 (f r)) k n" if f: "\<And>r. r < 256 \<Longrightarrow> f r < 256"
proof (induction k arbitrary: n)
  case (Suc k)
  define a b where ab: "a = map_bytes f k (n div 256)" "b = f (n mod 256)"
  have b: "b < 256" unfolding ab by (rule f) simp
  have n: "map_bytes f (Suc k) n = 256 * a + b" by (simp add: ab)
  have "(256 * a + b) div 4 = 2 ^ 8 * (a div 4) + (2 ^ 6 * (a mod 4) + b div 4)" "2 ^ 6 * (a mod 4) + b div 4 < 2 ^ 8"
    using byte_shift [of 4 "2 ^ 6" b a] b by simp_all
  then have "(256 * a + b) div 4 AND rep 0x33 (Suc k) = 256 * (a div 4 AND rep 0x33 k) + ((2 ^ 6 * (a mod 4) + b div 4) AND 0x33)"
    using and_concat [of "2 ^ 6 * (a mod 4) + b div 4" 8 51 "a div 4" "rep 0x33 k"] by simp
  also have "(2 ^ 6 * (a mod 4) + b div 4) AND 0x33 = b div 4 AND 0x33" using b by (intro and_low) auto
  finally have 1: "(256 * a + b) div 4 AND rep 0x33 (Suc k) = 256 * (a div 4 AND rep 0x33 k) + (b div 4 AND 0x33)" .
  have 2: "(256 * a + b) AND rep 0x33 (Suc k) = 256 * (a AND rep 0x33 k) + (b AND 0x33)"
    using and_concat [of b 8 51 a "rep 0x33 k"] b by simp
  have "hw2 (rep 0x33 (Suc k)) (map_bytes f (Suc k) n) = 256 * hw2 (rep 0x33 k) a + hw2 0x33 b"
    unfolding n hw2_def 1 2 by (simp add: add_mult_distrib2)
  then show ?case using Suc.IH [of "n div 256"] by (simp add: ab)
qed (simp add: hw2_def)

lemma hw3_bytes:
  "hw3 (rep 0xf k) (map_bytes f k n) = map_bytes (\<lambda>r. hw3 0xf (f r)) k n"
  if f: "\<And>r. r < 256 \<Longrightarrow> f r \<le> 0x44" "\<And>r. r < 256 \<Longrightarrow> f r mod 16 \<le> 4"
proof (induction k arbitrary: n)
  case (Suc k)
  define a b where ab: "a = map_bytes f k (n div 256)" "b = f (n mod 256)"
  have b: "b \<le> 0x44" unfolding ab by (rule f) simp
  have n: "map_bytes f (Suc k) n = 256 * a + b" by (simp add: ab)
  have a: "a mod 16 \<le> 4" unfolding ab by (cases k) (simp_all add: f(2) mod_simps, simp add: f(2) mod_add_left_eq [symmetric] mod_mult_left_eq [symmetric])
  have "256 * a + b + (256 * a + b) div 16 = 2 ^ 8 * (a + a div 16) + (2 ^ 4 * (a mod 16) + (b + b div 16))"
    using byte_shift(1) [of 16 "2 ^ 4" b a] b by simp
  moreover have "2 ^ 4 * (a mod 16) + (b + b div 16) < 2 ^ 8" using a b div_le_mono [OF b, of 16] by simp
  ultimately have "(256 * a + b + (256 * a + b) div 16) AND rep 0xf (Suc k) =
      256 * ((a + a div 16) AND rep 0xf k) + ((2 ^ 4 * (a mod 16) + (b + b div 16)) AND 0xf)"
    using and_concat [of "2 ^ 4 * (a mod 16) + (b + b div 16)" 8 15 "a + a div 16" "rep 0xf k"] by (simp only: rep.simps) simp
  also have "(2 ^ 4 * (a mod 16) + (b + b div 16)) AND 0xf = (b + b div 16) AND 0xf"
  proof -
    have f: "(15 :: nat) = mask 4" by (simp add: mask_eq_exp_minus_1)
    have m: "x AND 15 = x mod 16" for x :: nat unfolding f take_bit_eq_mask [symmetric] by (simp add: take_bit_eq_mod)
    show ?thesis unfolding m by simp
  qed
  finally show ?case using Suc.IH [of "n div 256"] unfolding n hw3_def by (simp add: ab)
qed (simp add: hw3_def)

lemma top_byte: "(2 ^ 64 * h + (2 ^ 56 * s + l)) mod 2 ^ 64 div 2 ^ 56 = s" if "l < 2 ^ 56" "s < 2 ^ 8" for h s l :: nat
proof -
  have "(2 ^ 64 * h + (2 ^ 56 * s + l)) mod 2 ^ 64 = (2 ^ 56 * s + l) mod 2 ^ 64" by (rule mod_mult_self4)
  also have "\<dots> = 2 ^ 56 * s + l" using that by simp
  finally show ?thesis using that(1) by simp
qed

lemma byte_sum:
  fixes x0 x1 x2 x3 x4 x5 x6 x7 :: nat
  assumes "x0 \<le> 8" "x1 \<le> 8" "x2 \<le> 8" "x3 \<le> 8" "x4 \<le> 8" "x5 \<le> 8" "x6 \<le> 8" "x7 \<le> 8"
    "v = 1 * x0 + 256 * x1 + 65536 * x2 + 16777216 * x3 + 4294967296 * x4 + 1099511627776 * x5 + 281474976710656 * x6 + 72057594037927936 * x7"
  shows "v * 0x0101010101010101 mod 2 ^ 64 div 2 ^ 56 = x0 + x1 + x2 + x3 + x4 + x5 + x6 + x7"
proof -
  let ?H = "1 * (x1 + x2 + x3 + x4 + x5 + x6 + x7) + 256 * (x2 + x3 + x4 + x5 + x6 + x7) + 65536 * (x3 + x4 + x5 + x6 + x7) + 16777216 * (x4 + x5 + x6 + x7) + 4294967296 * (x5 + x6 + x7) + 1099511627776 * (x6 + x7) + 281474976710656 * (x7)"
  let ?L = "1 * (x0) + 256 * (x0 + x1) + 65536 * (x0 + x1 + x2) + 16777216 * (x0 + x1 + x2 + x3) + 4294967296 * (x0 + x1 + x2 + x3 + x4) + 1099511627776 * (x0 + x1 + x2 + x3 + x4 + x5) + 281474976710656 * (x0 + x1 + x2 + x3 + x4 + x5 + x6)"
  let ?S = "x0 + x1 + x2 + x3 + x4 + x5 + x6 + x7"
  have "v * 0x0101010101010101 = 2 ^ 64 * ?H + (2 ^ 56 * ?S + ?L)" unfolding assms(9) by (simp add: algebra_simps)
  moreover have "?L < 2 ^ 56" "?S < 2 ^ 8" using assms(1-8) by simp_all
  ultimately show ?thesis using top_byte [of ?L ?S ?H] by (simp only:)
qed

lemma bytes_filter: "length (filter (bit n) [0 ..< 8 * k]) = (\<Sum>j < k. length (filter (bit (n div 256 ^ j mod 256)) [0 ..< 8]))" for n :: nat
proof (induction k)
  case (Suc k)
  have b: "bit (n div 256 ^ k mod 256) i \<longleftrightarrow> bit n (8 * k + i)" if "i < 8" for i
  proof -
    have "n div 256 ^ k mod 256 = take_bit 8 (drop_bit (8 * k) n)" by (simp add: take_bit_eq_mod drop_bit_eq_div power_mult)
    then show ?thesis using that by (simp add: bit_simps)
  qed
  have "[0 ..< 8 * Suc k] = [0 ..< 8 * k] @ map (\<lambda>i. 8 * k + i) [0 ..< 8]"
    using upt_add_eq_append [of 0 "8 * k" 8] map_add_upt [of "8 * k" 8] by (simp add: add.commute)
  then have "length (filter (bit n) [0 ..< 8 * Suc k]) =
      length (filter (bit n) [0 ..< 8 * k]) + length (filter (\<lambda>i. bit n (8 * k + i)) [0 ..< 8])"
    by (simp add: filter_map o_def)
  also have "filter (\<lambda>i. bit n (8 * k + i)) [0 ..< 8] = filter (bit (n div 256 ^ k mod 256)) [0 ..< 8]"
    using b by (intro filter_cong) auto
  finally show ?case using Suc by simp
qed simp

lemma eight: "8 = Suc (Suc (Suc (Suc (Suc (Suc (Suc (Suc 0)))))))" by simp

lemma rep_8: "rep b 8 = 0x0101010101010101 * b"
  unfolding eight rep.simps by simp

lemma sum_8: "(\<Sum>j < 8. g j) = g 0 + g 1 + g 2 + g 3 + g 4 + g 5 + g 6 + g 7" for g :: "nat \<Rightarrow> nat"
  by (simp add: eval_nat_numeral)

lemma map_bytes_sum: "map_bytes f k n = (\<Sum>j < k. 256 ^ j * f (n div 256 ^ j mod 256))"
proof (induction k arbitrary: n)
  case (Suc k)
  have "(\<Sum>j < Suc k. 256 ^ j * f (n div 256 ^ j mod 256)) =
      f (n mod 256) + 256 * (\<Sum>j < k. 256 ^ j * f (n div 256 div 256 ^ j mod 256))"
    by (subst sum.lessThan_Suc_shift) (simp add: sum_distrib_left mult.assoc div_mult2_eq)
  then show ?case by (simp only: map_bytes.simps Suc add.commute)
qed simp

lemma map_bytes_8:
  assumes "\<And>r. r < 256 \<Longrightarrow> f r \<le> 8"
  shows "map_bytes f 8 n * 0x0101010101010101 mod 2 ^ 64 div 2 ^ 56 = (\<Sum>j < 8. f (n div 256 ^ j mod 256))"
proof -
  define x where "x j = f (n div 256 ^ j mod 256)" for j
  have l: "x j \<le> 8" for j unfolding x_def by (rule assms) simp
  have "map_bytes f 8 n = (\<Sum>j < 8. 256 ^ j * x j)" unfolding map_bytes_sum x_def ..
  also have "\<dots> = 1 * x 0 + 256 * x 1 + 65536 * x 2 + 16777216 * x 3 + 4294967296 * x 4 + 1099511627776 * x 5 + 281474976710656 * x 6 + 72057594037927936 * x 7" unfolding sum_8 by simp
  finally have "map_bytes f 8 n * 0x0101010101010101 mod 2 ^ 64 div 2 ^ 56 = x 0 + x 1 + x 2 + x 3 + x 4 + x 5 + x 6 + x 7"
    by (rule byte_sum [OF l l l l l l l l])
  then show ?thesis unfolding sum_8 x_def .
qed

lemma map_bytes_le: "(\<And>r. r < 256 \<Longrightarrow> f r \<le> c) \<Longrightarrow> map_bytes f k n \<le> rep c k"
  by (induction k arbitrary: n) (simp_all add: add_mono)

lemma unat_and: "unat (x AND y) = unat x AND unat (y :: u64)"
  by (simp add: unsigned_and_eq)

lemma hweight64_correct: "sw_hweight64 w = length (filter (bit w) [0 ..< 64])"
proof -
  let ?n = "unat w"
  have "unat w < 2 ^ LENGTH(64)" by (rule unsigned_less)
  then have n: "?n < 256 ^ 8" by simp
  have rep: "rep 0x55 8 = 0x5555555555555555" "rep 0x33 8 = 0x3333333333333333" "rep 0xf 8 = 0x0f0f0f0f0f0f0f0f"
    unfolding rep_8 by simp_all
  have d: "unat (drop_bit k x) = unat x div 2 ^ k" for k and x :: u64 unfolding unat_drop_bit_eq by (rule drop_bit_eq_div)
  define w1 where "w1 = w - (drop_bit 1 w AND 0x5555555555555555)"
  have "unat (drop_bit 1 w AND 0x5555555555555555) = ?n div 2 AND rep 0x55 8" unfolding unat_and d rep by simp
  then have w1: "unat w1 = hw1 (rep 0x55 8) ?n"
    unfolding w1_def hw1_def using and_le_nat [of "?n div 2" "rep 0x55 8"] by (subst unat_sub) (simp_all add: word_le_nat_alt)
  define w2 where "w2 = (w1 AND 0x3333333333333333) + (drop_bit 2 w1 AND 0x3333333333333333)"
  have a2: "unat (w1 AND 0x3333333333333333) = unat w1 AND rep 0x33 8"
    "unat (drop_bit 2 w1 AND 0x3333333333333333) = unat w1 div 4 AND rep 0x33 8" unfolding unat_and d rep by simp_all
  have le: "x AND y \<le> y" for x y :: nat using and_le_nat [of y x] by (simp only: and.commute)
  have "unat w1 AND rep 0x33 8 \<le> 0x3333333333333333" "unat w1 div 4 AND rep 0x33 8 \<le> 0x3333333333333333" unfolding rep by (rule le)+
  then have "(unat w1 AND rep 0x33 8) + (unat w1 div 4 AND rep 0x33 8) < 2 ^ 64" by simp
  then have w2: "unat w2 = hw2 (rep 0x33 8) (unat w1)"
    unfolding w2_def hw2_def by (subst unat_add_lem [THEN iffD1]) (simp_all only: a2 len_of_numeral_defs, simp)
  define w3 where "w3 = (w2 + drop_bit 4 w2) AND 0x0f0f0f0f0f0f0f0f"
  define f where "f r = hw2 0x33 (hw1 0x55 r)" for r
  have f: "f r \<le> 0x44" "f r mod 16 \<le> 4" "hw1 0x55 r < 256" if "r < 256" for r using byte_facts [OF that] by (simp_all add: f_def)
  have m2: "unat w2 = map_bytes f 8 ?n"
    unfolding w2 w1 f_def using hw1_bytes [of ?n 8] hw2_bytes [of "hw1 0x55" 8 ?n] f(3) n by simp
  have "map_bytes f 8 ?n \<le> rep 0x44 8" by (rule map_bytes_le) (rule f(1))
  then have small: "unat w2 \<le> 0x4444444444444444" unfolding m2 [symmetric] rep_8 by simp
  then have "unat w2 + unat w2 div 16 < 2 ^ 64" using div_le_dividend [of "unat w2" 16] by simp
  then have "unat (w2 + drop_bit 4 w2) = unat w2 + unat w2 div 16"
    by (subst unat_add_lem [THEN iffD1]) (simp_all only: d len_of_numeral_defs, simp_all)
  then have "unat w3 = hw3 (rep 0xf 8) (unat w2)" unfolding w3_def hw3_def unat_and rep by simp
  also have "\<dots> = map_bytes byte_weight 8 ?n"
    unfolding m2 byte_weight_def using hw3_bytes [of f 8 ?n] f(1,2) by (simp add: f_def)
  finally have m3: "unat w3 = map_bytes byte_weight 8 ?n" .
  have w: "byte_weight r = length (filter (bit r) [0 ..< 8])" "byte_weight r \<le> 8" if "r < 256" for r
    using byte_facts(5) [OF that] length_filter_le [of "bit r" "[0 ..< 8]"] by simp_all
  have "sw_hweight64 w = unat (drop_bit 56 (w3 * 0x0101010101010101))"
    unfolding sw_hweight64_def w3_def w2_def w1_def Let_def ..
  also have "\<dots> = unat w3 * 0x0101010101010101 mod 2 ^ 64 div 2 ^ 56" unfolding d by (simp add: unat_word_ariths)
  also have "\<dots> = (\<Sum>j < 8. byte_weight (?n div 256 ^ j mod 256))" unfolding m3 by (rule map_bytes_8) (rule w(2))
  also have "\<dots> = length (filter (bit ?n) [0 ..< 64])" using bytes_filter [of ?n 8] by (simp add: w(1))
  also have "filter (bit ?n) [0 ..< 64] = filter (bit w) [0 ..< 64]" by (rule filter_cong) (simp_all add: bit_simps)
  finally show ?thesis .
qed

end
