(* ===== verification/Bitmap.thy ===== *)
theory Bitmap
  imports Hweight
begin

unbundle bit_operations_syntax

text \<open>
  Operations on whole bitmaps (\<open>lib/bitmap.c\<close>, \<open>include/linux/bitmap.h\<close>). The out-of-line loops
  \<open>__bitmap_*\<close> carry the suffix \<open>_loop\<close>; the inline functions choose between them and a single
  word by what the compiler knows, so a flag \<open>const\<close> tells whether the size is a constant.
  Destination and sources are different arrays, or the same array where the code reads
  each word before it writes it.
\<close>

section \<open>Loops over words\<close>

definition store_words :: "nat \<Rightarrow> (nat \<Rightarrow> u64) \<Rightarrow> bitmap \<Rightarrow> bitmap" where
  "store_words lim f dst = fold (\<lambda>k d. d[k := f k]) [0 ..< lim] dst"

definition bitmap_equal_loop :: "bitmap \<Rightarrow> bitmap \<Rightarrow> nat \<Rightarrow> bool" where
  "bitmap_equal_loop bitmap1 bitmap2 bits =
     (let lim = bits div BITS_PER_LONG in
      list_all (\<lambda>k. bitmap1 ! k = bitmap2 ! k) [0 ..< lim] \<and>
      (bits mod BITS_PER_LONG \<noteq> 0 \<longrightarrow> (bitmap1 ! lim XOR bitmap2 ! lim) AND BITMAP_LAST_WORD_MASK bits = 0))"

definition bitmap_complement_loop :: "bitmap \<Rightarrow> bitmap \<Rightarrow> nat \<Rightarrow> bitmap" where
  "bitmap_complement_loop dst src bits = store_words (BITS_TO_LONGS bits) (\<lambda>k. NOT (src ! k)) dst"

definition shift_right_word :: "bitmap \<Rightarrow> nat \<Rightarrow> nat \<Rightarrow> nat \<Rightarrow> u64" where
  "shift_right_word src shift nbits k =
     (let lim = BITS_TO_LONGS nbits;
          off = shift div BITS_PER_LONG;
          rem = shift mod BITS_PER_LONG;
          mask = BITMAP_LAST_WORD_MASK nbits;
          word = (\<lambda>j. if j = lim - 1 then src ! j AND mask else src ! j);
          upper = (if rem = 0 \<or> off + k + 1 \<ge> lim then 0 else push_bit (BITS_PER_LONG - rem) (word (off + k + 1)));
          lower = drop_bit rem (word (off + k))
      in lower OR upper)"

definition bitmap_shift_right_loop :: "bitmap \<Rightarrow> bitmap \<Rightarrow> nat \<Rightarrow> nat \<Rightarrow> bitmap" where
  "bitmap_shift_right_loop dst src shift nbits =
     (let lim = BITS_TO_LONGS nbits;
          off = shift div BITS_PER_LONG
      in fold (\<lambda>k d. d[k := 0]) [lim - off ..< lim] (store_words (lim - off) (shift_right_word src shift nbits) dst))"

definition shift_left_word :: "bitmap \<Rightarrow> nat \<Rightarrow> nat \<Rightarrow> u64" where
  "shift_left_word src shift k =
     (let rem = shift mod BITS_PER_LONG;
          lower = (if rem \<noteq> 0 \<and> k > 0 then drop_bit (BITS_PER_LONG - rem) (src ! (k - 1)) else 0);
          upper = push_bit rem (src ! k)
      in lower OR upper)"

definition bitmap_shift_left_loop :: "bitmap \<Rightarrow> bitmap \<Rightarrow> nat \<Rightarrow> nat \<Rightarrow> bitmap" where
  "bitmap_shift_left_loop dst src shift nbits =
     (let lim = BITS_TO_LONGS nbits;
          off = shift div BITS_PER_LONG
      in fold (\<lambda>k d. d[k := 0]) [0 ..< off]
           (fold (\<lambda>k d. d[k + off := shift_left_word src shift k]) (rev [0 ..< lim - off]) dst))"

definition bitmap_and_loop :: "bitmap \<Rightarrow> bitmap \<Rightarrow> bitmap \<Rightarrow> nat \<Rightarrow> bitmap \<times> bool" where
  "bitmap_and_loop dst bitmap1 bitmap2 bits =
     (let lim = bits div BITS_PER_LONG;
          dst1 = store_words lim (\<lambda>k. bitmap1 ! k AND bitmap2 ! k) dst;
          result = fold (\<lambda>k r. r OR (bitmap1 ! k AND bitmap2 ! k)) [0 ..< lim] 0
      in if bits mod BITS_PER_LONG \<noteq> 0
         then let w = bitmap1 ! lim AND bitmap2 ! lim AND BITMAP_LAST_WORD_MASK bits in (dst1[lim := w], result OR w \<noteq> 0)
         else (dst1, result \<noteq> 0))"

definition bitmap_or_loop :: "bitmap \<Rightarrow> bitmap \<Rightarrow> bitmap \<Rightarrow> nat \<Rightarrow> bitmap" where
  "bitmap_or_loop dst bitmap1 bitmap2 bits = store_words (BITS_TO_LONGS bits) (\<lambda>k. bitmap1 ! k OR bitmap2 ! k) dst"

definition bitmap_xor_loop :: "bitmap \<Rightarrow> bitmap \<Rightarrow> bitmap \<Rightarrow> nat \<Rightarrow> bitmap" where
  "bitmap_xor_loop dst bitmap1 bitmap2 bits = store_words (BITS_TO_LONGS bits) (\<lambda>k. bitmap1 ! k XOR bitmap2 ! k) dst"

definition bitmap_andnot_loop :: "bitmap \<Rightarrow> bitmap \<Rightarrow> bitmap \<Rightarrow> nat \<Rightarrow> bitmap \<times> bool" where
  "bitmap_andnot_loop dst bitmap1 bitmap2 bits =
     (let lim = bits div BITS_PER_LONG;
          dst1 = store_words lim (\<lambda>k. bitmap1 ! k AND NOT (bitmap2 ! k)) dst;
          result = fold (\<lambda>k r. r OR (bitmap1 ! k AND NOT (bitmap2 ! k))) [0 ..< lim] 0
      in if bits mod BITS_PER_LONG \<noteq> 0
         then let w = bitmap1 ! lim AND NOT (bitmap2 ! lim) AND BITMAP_LAST_WORD_MASK bits in (dst1[lim := w], result OR w \<noteq> 0)
         else (dst1, result \<noteq> 0))"

definition bitmap_intersects_loop :: "bitmap \<Rightarrow> bitmap \<Rightarrow> nat \<Rightarrow> bool" where
  "bitmap_intersects_loop bitmap1 bitmap2 bits =
     (let lim = bits div BITS_PER_LONG in
      list_ex (\<lambda>k. bitmap1 ! k AND bitmap2 ! k \<noteq> 0) [0 ..< lim] \<or>
      (bits mod BITS_PER_LONG \<noteq> 0 \<and> bitmap1 ! lim AND bitmap2 ! lim AND BITMAP_LAST_WORD_MASK bits \<noteq> 0))"

definition bitmap_subset_loop :: "bitmap \<Rightarrow> bitmap \<Rightarrow> nat \<Rightarrow> bool" where
  "bitmap_subset_loop bitmap1 bitmap2 bits =
     (let lim = bits div BITS_PER_LONG in
      \<not> (list_ex (\<lambda>k. bitmap1 ! k AND NOT (bitmap2 ! k) \<noteq> 0) [0 ..< lim] \<or>
         (bits mod BITS_PER_LONG \<noteq> 0 \<and> bitmap1 ! lim AND NOT (bitmap2 ! lim) AND BITMAP_LAST_WORD_MASK bits \<noteq> 0)))"

definition bitmap_weight_loop :: "bitmap \<Rightarrow> nat \<Rightarrow> nat" where
  "bitmap_weight_loop bitmap bits =
     (let lim = bits div BITS_PER_LONG;
          w = fold (\<lambda>k w. w + hweight_long (bitmap ! k)) [0 ..< lim] 0
      in if bits mod BITS_PER_LONG \<noteq> 0 then w + hweight_long (bitmap ! lim AND BITMAP_LAST_WORD_MASK bits) else w)"

section \<open>Ranges of bits\<close>

text \<open>
  \<open>__bitmap_set\<close> and \<open>__bitmap_clear\<close> differ in what they do to a word with a mask. The first round
  of their loop, with the mask of the first word, is taken apart from the others.
\<close>

function range_words :: "(u64 \<Rightarrow> u64 \<Rightarrow> u64) \<Rightarrow> bitmap \<Rightarrow> nat \<Rightarrow> nat \<Rightarrow> bitmap \<times> nat \<times> nat" where
  "range_words op bm p len =
     (if len \<ge> BITS_PER_LONG then range_words op (bm[p := op (bm ! p) (NOT 0)]) (p + 1) (len - BITS_PER_LONG)
      else (bm, p, len))"
  by pat_completeness auto
termination
  by (relation "measure (\<lambda>(op, bm, p, len). len)") (auto simp: BITS_PER_LONG_def)

declare range_words.simps [simp del]

definition range_op :: "(u64 \<Rightarrow> u64 \<Rightarrow> u64) \<Rightarrow> bitmap \<Rightarrow> nat \<Rightarrow> nat \<Rightarrow> bitmap" where
  "range_op op bm start len =
     (let p = BIT_WORD start;
          sz = start + len;
          bits_to_set = BITS_PER_LONG - start mod BITS_PER_LONG;
          mask_to_set = BITMAP_FIRST_WORD_MASK start;
          last = (\<lambda>(bm', p', len', mask'). if len' \<noteq> 0 then bm'[p' := op (bm' ! p') (mask' AND BITMAP_LAST_WORD_MASK sz)] else bm')
      in if len \<ge> bits_to_set
         then case range_words op (bm[p := op (bm ! p) mask_to_set]) (p + 1) (len - bits_to_set) of
                (bm', p', len') \<Rightarrow> last (bm', p', len', NOT 0)
         else last (bm, p, len, mask_to_set))"

definition bitmap_set_loop :: "bitmap \<Rightarrow> nat \<Rightarrow> nat \<Rightarrow> bitmap" where
  "bitmap_set_loop bm start len = range_op (\<lambda>w m. w OR m) bm start len"

definition bitmap_clear_loop :: "bitmap \<Rightarrow> nat \<Rightarrow> nat \<Rightarrow> bitmap" where
  "bitmap_clear_loop bm start len = range_op (\<lambda>w m. w AND NOT m) bm start len"

definition set_byte :: "8 word \<Rightarrow> nat \<Rightarrow> bitmap \<Rightarrow> bitmap" where
  "set_byte c j bm =
     bm[j div 8 := (bm ! (j div 8) AND NOT (push_bit (8 * (j mod 8)) 0xff)) OR push_bit (8 * (j mod 8)) (ucast c)]"

definition memset_bytes :: "8 word \<Rightarrow> nat \<Rightarrow> nat \<Rightarrow> bitmap \<Rightarrow> bitmap" where
  "memset_bytes c offset n bm = fold (set_byte c) [offset ..< offset + n] bm"

text \<open>\<open>known\<close> tells for which of \<open>start\<close> and \<open>nbits\<close> the compiler knows the value.\<close>

definition bitmap_set :: "bool \<times> bool \<Rightarrow> bitmap \<Rightarrow> nat \<Rightarrow> nat \<Rightarrow> bitmap" where
  "bitmap_set known bm start nbits =
     (if snd known \<and> nbits = 1 then set_bit_at start bm
      else if fst known \<and> start mod 8 = 0 \<and> snd known \<and> nbits mod 8 = 0 then memset_bytes 0xff (start div 8) (nbits div 8) bm
      else bitmap_set_loop bm start nbits)"

definition bitmap_clear :: "bool \<times> bool \<Rightarrow> bitmap \<Rightarrow> nat \<Rightarrow> nat \<Rightarrow> bitmap" where
  "bitmap_clear known bm start nbits =
     (if snd known \<and> nbits = 1 then clear_bit_at start bm
      else if fst known \<and> start mod 8 = 0 \<and> snd known \<and> nbits mod 8 = 0 then memset_bytes 0 (start div 8) (nbits div 8) bm
      else bitmap_clear_loop bm start nbits)"

section \<open>The inline functions\<close>

definition small_const_nbits :: "bool \<Rightarrow> nat \<Rightarrow> bool" where
  "small_const_nbits const nbits \<longleftrightarrow> const \<and> nbits \<le> BITS_PER_LONG \<and> nbits > 0"

definition bitmap_zero :: "bitmap \<Rightarrow> nat \<Rightarrow> bitmap" where
  "bitmap_zero dst nbits = store_words (BITS_TO_LONGS nbits) (\<lambda>_. 0) dst"

definition bitmap_fill :: "bitmap \<Rightarrow> nat \<Rightarrow> bitmap" where
  "bitmap_fill dst nbits = store_words (BITS_TO_LONGS nbits) (\<lambda>_. NOT 0) dst"

definition bitmap_copy :: "bitmap \<Rightarrow> bitmap \<Rightarrow> nat \<Rightarrow> bitmap" where
  "bitmap_copy dst src nbits = store_words (BITS_TO_LONGS nbits) (\<lambda>k. src ! k) dst"

definition bitmap_copy_clear_tail :: "bitmap \<Rightarrow> bitmap \<Rightarrow> nat \<Rightarrow> bitmap" where
  "bitmap_copy_clear_tail dst src nbits =
     (let dst1 = bitmap_copy dst src nbits;
          k = nbits div BITS_PER_LONG
      in if nbits mod BITS_PER_LONG \<noteq> 0 then dst1[k := dst1 ! k AND BITMAP_LAST_WORD_MASK nbits] else dst1)"

definition bitmap_and :: "bool \<Rightarrow> bitmap \<Rightarrow> bitmap \<Rightarrow> bitmap \<Rightarrow> nat \<Rightarrow> bitmap \<times> bool" where
  "bitmap_and const dst src1 src2 nbits =
     (if small_const_nbits const nbits
      then let w = src1 ! 0 AND src2 ! 0 AND BITMAP_LAST_WORD_MASK nbits in (dst[0 := w], w \<noteq> 0)
      else bitmap_and_loop dst src1 src2 nbits)"

definition bitmap_or :: "bool \<Rightarrow> bitmap \<Rightarrow> bitmap \<Rightarrow> bitmap \<Rightarrow> nat \<Rightarrow> bitmap" where
  "bitmap_or const dst src1 src2 nbits =
     (if small_const_nbits const nbits then dst[0 := src1 ! 0 OR src2 ! 0] else bitmap_or_loop dst src1 src2 nbits)"

definition bitmap_xor :: "bool \<Rightarrow> bitmap \<Rightarrow> bitmap \<Rightarrow> bitmap \<Rightarrow> nat \<Rightarrow> bitmap" where
  "bitmap_xor const dst src1 src2 nbits =
     (if small_const_nbits const nbits then dst[0 := src1 ! 0 XOR src2 ! 0] else bitmap_xor_loop dst src1 src2 nbits)"

definition bitmap_andnot :: "bool \<Rightarrow> bitmap \<Rightarrow> bitmap \<Rightarrow> bitmap \<Rightarrow> nat \<Rightarrow> bitmap \<times> bool" where
  "bitmap_andnot const dst src1 src2 nbits =
     (if small_const_nbits const nbits
      then let w = src1 ! 0 AND NOT (src2 ! 0) AND BITMAP_LAST_WORD_MASK nbits in (dst[0 := w], w \<noteq> 0)
      else bitmap_andnot_loop dst src1 src2 nbits)"

definition bitmap_complement :: "bool \<Rightarrow> bitmap \<Rightarrow> bitmap \<Rightarrow> nat \<Rightarrow> bitmap" where
  "bitmap_complement const dst src nbits =
     (if small_const_nbits const nbits then dst[0 := NOT (src ! 0)] else bitmap_complement_loop dst src nbits)"

definition byte_at :: "bitmap \<Rightarrow> nat \<Rightarrow> 8 word" where
  "byte_at bm j = ucast (drop_bit (8 * (j mod 8)) (bm ! (j div 8)))"

definition bitmap_equal :: "bool \<Rightarrow> bitmap \<Rightarrow> bitmap \<Rightarrow> nat \<Rightarrow> bool" where
  "bitmap_equal const src1 src2 nbits =
     (if small_const_nbits const nbits then (src1 ! 0 XOR src2 ! 0) AND BITMAP_LAST_WORD_MASK nbits = 0
      else if const \<and> nbits mod 8 = 0 then list_all (\<lambda>j. byte_at src1 j = byte_at src2 j) [0 ..< nbits div 8]
      else bitmap_equal_loop src1 src2 nbits)"

definition bitmap_intersects :: "bool \<Rightarrow> bitmap \<Rightarrow> bitmap \<Rightarrow> nat \<Rightarrow> bool" where
  "bitmap_intersects const src1 src2 nbits =
     (if small_const_nbits const nbits then src1 ! 0 AND src2 ! 0 AND BITMAP_LAST_WORD_MASK nbits \<noteq> 0
      else bitmap_intersects_loop src1 src2 nbits)"

definition bitmap_subset :: "bool \<Rightarrow> bitmap \<Rightarrow> bitmap \<Rightarrow> nat \<Rightarrow> bool" where
  "bitmap_subset const src1 src2 nbits =
     (if small_const_nbits const nbits then src1 ! 0 AND NOT (src2 ! 0) AND BITMAP_LAST_WORD_MASK nbits = 0
      else bitmap_subset_loop src1 src2 nbits)"

definition bitmap_empty :: "bool \<Rightarrow> bitmap \<Rightarrow> nat \<Rightarrow> bool" where
  "bitmap_empty const src nbits =
     (if small_const_nbits const nbits then src ! 0 AND BITMAP_LAST_WORD_MASK nbits = 0 else find_first_bit src nbits = nbits)"

definition bitmap_full :: "bool \<Rightarrow> bitmap \<Rightarrow> nat \<Rightarrow> bool" where
  "bitmap_full const src nbits =
     (if small_const_nbits const nbits then NOT (src ! 0) AND BITMAP_LAST_WORD_MASK nbits = 0
      else find_first_zero_bit src nbits = nbits)"

definition bitmap_weight :: "bool \<Rightarrow> bitmap \<Rightarrow> nat \<Rightarrow> nat" where
  "bitmap_weight const src nbits =
     (if small_const_nbits const nbits then hweight_long (src ! 0 AND BITMAP_LAST_WORD_MASK nbits)
      else bitmap_weight_loop src nbits)"

definition bitmap_shift_right :: "bool \<Rightarrow> bitmap \<Rightarrow> bitmap \<Rightarrow> nat \<Rightarrow> nat \<Rightarrow> bitmap" where
  "bitmap_shift_right const dst src shift nbits =
     (if small_const_nbits const nbits then dst[0 := drop_bit shift (src ! 0 AND BITMAP_LAST_WORD_MASK nbits)]
      else bitmap_shift_right_loop dst src shift nbits)"

definition bitmap_shift_left :: "bool \<Rightarrow> bitmap \<Rightarrow> bitmap \<Rightarrow> nat \<Rightarrow> nat \<Rightarrow> bitmap" where
  "bitmap_shift_left const dst src shift nbits =
     (if small_const_nbits const nbits then dst[0 := push_bit shift (src ! 0) AND BITMAP_LAST_WORD_MASK nbits]
      else bitmap_shift_left_loop dst src shift nbits)"

section \<open>The set of bits\<close>

definition bits :: "nat \<Rightarrow> bitmap \<Rightarrow> nat set" where
  "bits n bm = {i. i < n \<and> test_bit i bm}"

lemma bits_iff: "i \<in> bits n bm \<longleftrightarrow> i < n \<and> bit (bm ! (i div 64)) (i mod 64)"
  by (simp add: bits_def test_bit_iff)

lemma word_zero_iff: "w = 0 \<longleftrightarrow> (\<forall>n < 64. \<not> bit w n)" for w :: u64
proof
  assume "\<forall>n < 64. \<not> bit w n"
  then show "w = 0" by (intro bit_word_eqI) simp
qed simp

lemma BITS_TO_LONGS_le: "n \<le> 64 * m \<Longrightarrow> BITS_TO_LONGS n \<le> m"
  by (simp add: BITS_TO_LONGS_def BITS_PER_LONG_def div_le_mono [of "n + 63" "64 * m + 63" 64, simplified])

lemma word_index: "i < n \<Longrightarrow> i div 64 < BITS_TO_LONGS n"
  by (simp add: BITS_TO_LONGS_def BITS_PER_LONG_def less_Suc_eq_le div_le_mono [of "i + 64" "n + 63" 64, simplified] Suc_le_eq [symmetric])

lemma in_range: "i < n \<Longrightarrow> n \<le> 64 * length bm \<Longrightarrow> i div 64 < length bm"
  by (simp add: less_mult_imp_div_less)

lemma length_store_words [simp]: "length (store_words lim f dst) = length dst"
  unfolding store_words_def by (induction lim) auto

lemma store_words_nth: "k < length dst \<Longrightarrow> store_words lim f dst ! k = (if k < lim then f k else dst ! k)"
proof (induction lim)
  case (Suc lim)
  have "store_words (Suc lim) f dst = (store_words lim f dst)[lim := f lim]" by (simp add: store_words_def)
  then show ?case using Suc by (auto simp: nth_list_update less_Suc_eq)
qed (simp add: store_words_def)

text \<open>Words up to the last one, which is masked, against the bits one by one.\<close>

lemma words_zero_iff:
  "(\<forall>k < n div 64. W k = 0) \<and> (n mod 64 \<noteq> 0 \<longrightarrow> W (n div 64) AND BITMAP_LAST_WORD_MASK n = 0) \<longleftrightarrow>
     (\<forall>i < n. \<not> bit (W (i div 64)) (i mod 64))"
proof
  assume l: "(\<forall>k < n div 64. W k = 0) \<and> (n mod 64 \<noteq> 0 \<longrightarrow> W (n div 64) AND BITMAP_LAST_WORD_MASK n = 0)"
  show "\<forall>i < n. \<not> bit (W (i div 64)) (i mod 64)"
  proof (intro allI impI)
    fix i assume i: "i < n"
    show "\<not> bit (W (i div 64)) (i mod 64)"
    proof (cases "i div 64 < n div 64")
      case False
      then have e: "i div 64 = n div 64" using i div_le_mono [of i n 64] by simp
      then have m: "i mod 64 < n mod 64" using i div_mult_mod_eq [of i 64] div_mult_mod_eq [of n 64] by linarith
      then have "\<not> bit (W (n div 64) AND BITMAP_LAST_WORD_MASK n) (i mod 64)" using l by auto
      then show ?thesis using m e by (simp add: bit_and_iff bit_last_word_mask)
    qed (use l in simp)
  qed
next
  assume r: "\<forall>i < n. \<not> bit (W (i div 64)) (i mod 64)"
  have w: "\<not> bit (W k) m" if "64 * k + m < n" "m < 64" for k m using r [rule_format, OF that(1)] that(2) by simp
  have "W k = 0" if "k < n div 64" for k
  proof -
    have "64 * (k + 1) \<le> n" using that div_times_less_eq_dividend [of n 64] by (simp add: Suc_le_eq [symmetric])
    then show ?thesis using w [of k] by (simp add: word_zero_iff)
  qed
  moreover have "W (n div 64) AND BITMAP_LAST_WORD_MASK n = 0" if "n mod 64 \<noteq> 0"
  proof -
    have "\<not> bit (W (n div 64)) m" if "m < n mod 64" for m
      using that w [of "n div 64" m] mod_less_divisor [of 64 n] div_mult_mod_eq [of n 64] by linarith
    then show ?thesis using that by (auto simp: word_zero_iff bit_and_iff bit_last_word_mask)
  qed
  ultimately show "(\<forall>k < n div 64. W k = 0) \<and> (n mod 64 \<noteq> 0 \<longrightarrow> W (n div 64) AND BITMAP_LAST_WORD_MASK n = 0)" by blast
qed

lemma small_mask:
  assumes "small_const_nbits const n"
  shows "bit (BITMAP_LAST_WORD_MASK n) i \<longleftrightarrow> i < n"
  using assms unfolding small_const_nbits_def BITS_PER_LONG_def bit_last_word_mask by (cases "n = 64") auto

lemma small_word_iff:
  assumes "small_const_nbits const n"
  shows "w AND BITMAP_LAST_WORD_MASK n = 0 \<longleftrightarrow> (\<forall>i < n. \<not> bit w i)"
proof -
  have "n \<le> 64" using assms by (simp add: small_const_nbits_def BITS_PER_LONG_def)
  then show ?thesis unfolding word_zero_iff bit_and_iff small_mask [OF assms] by (meson less_le_trans)
qed

lemma small_word2_iff:
  assumes "small_const_nbits const n"
  shows "v AND w AND BITMAP_LAST_WORD_MASK n = 0 \<longleftrightarrow> (\<forall>i < n. \<not> (bit v i \<and> bit w i))"
  using small_word_iff [OF assms, of "v AND w"] by (simp add: and.assoc bit_and_iff)

lemma small_bits:
  assumes "small_const_nbits const n"
  shows "bits n bm = {i. i < n \<and> bit (bm ! 0) i}"
proof -
  have "n \<le> 64" using assms by (simp add: small_const_nbits_def BITS_PER_LONG_def)
  then show ?thesis by (auto simp: bits_iff)
qed

section \<open>Comparisons\<close>

lemma equal_loop_iff: "bitmap_equal_loop a b n \<longleftrightarrow> bits n a = bits n b"
proof -
  have x: "v XOR w = 0 \<longleftrightarrow> v = w" for v w :: u64
    by (auto simp: word_zero_iff bit_xor_iff intro: bit_word_eqI)
  have "bitmap_equal_loop a b n \<longleftrightarrow>
      (\<forall>k < n div 64. a ! k XOR b ! k = 0) \<and> (n mod 64 \<noteq> 0 \<longrightarrow> (a ! (n div 64) XOR b ! (n div 64)) AND BITMAP_LAST_WORD_MASK n = 0)"
    by (simp add: bitmap_equal_loop_def Let_def list_all_iff BITS_PER_LONG_def Ball_def x)
  also have "\<dots> \<longleftrightarrow> bits n a = bits n b" using words_zero_iff [of n "\<lambda>k. a ! k XOR b ! k"] by (auto simp: set_eq_iff bits_iff bit_xor_iff)
  finally show ?thesis .
qed

lemma intersects_loop_iff: "bitmap_intersects_loop a b n \<longleftrightarrow> bits n a \<inter> bits n b \<noteq> {}"
proof -
  have "\<not> bitmap_intersects_loop a b n \<longleftrightarrow>
      (\<forall>k < n div 64. a ! k AND b ! k = 0) \<and> (n mod 64 \<noteq> 0 \<longrightarrow> (a ! (n div 64) AND b ! (n div 64)) AND BITMAP_LAST_WORD_MASK n = 0)"
    by (auto simp: bitmap_intersects_loop_def Let_def list_ex_iff BITS_PER_LONG_def and.assoc)
  also have "\<dots> \<longleftrightarrow> bits n a \<inter> bits n b = {}" using words_zero_iff [of n "\<lambda>k. a ! k AND b ! k"] by (auto simp: set_eq_iff bits_iff bit_and_iff)
  finally show ?thesis by blast
qed

lemma subset_loop_iff: "bitmap_subset_loop a b n \<longleftrightarrow> bits n a \<subseteq> bits n b"
proof -
  have "bitmap_subset_loop a b n \<longleftrightarrow>
      (\<forall>k < n div 64. a ! k AND NOT (b ! k) = 0) \<and>
      (n mod 64 \<noteq> 0 \<longrightarrow> (a ! (n div 64) AND NOT (b ! (n div 64))) AND BITMAP_LAST_WORD_MASK n = 0)"
    by (auto simp: bitmap_subset_loop_def Let_def list_ex_iff BITS_PER_LONG_def and.assoc)
  also have "\<dots> \<longleftrightarrow> bits n a \<subseteq> bits n b"
    using words_zero_iff [of n "\<lambda>k. a ! k AND NOT (b ! k)"] by (auto simp: subset_iff bits_iff bit_and_iff bit_not_iff possible_bit_def)
  finally show ?thesis .
qed

lemma byte_bit: "byte_at bm j = byte_at bm' j \<longleftrightarrow> (\<forall>i. i div 8 = j \<longrightarrow> (test_bit i bm \<longleftrightarrow> test_bit i bm'))"
proof -
  have b: "bit (byte_at bm j) m \<longleftrightarrow> test_bit (8 * j + m) bm" if "m < 8" for bm m
  proof -
    have "(8 * j + m) div 64 = j div 8" using that by (simp add: div_mult2_eq [of _ 8 8, simplified])
    moreover have "(8 * j + m) mod 64 = 8 * (j mod 8) + m" using that mod_mult2_eq [of "8 * j + m" 8 8] by simp
    ultimately show ?thesis using that by (simp add: byte_at_def test_bit_iff bit_simps add.commute)
  qed
  have "byte_at bm j = byte_at bm' j \<longleftrightarrow> (\<forall>m < 8. bit (byte_at bm j) m \<longleftrightarrow> bit (byte_at bm' j) m)"
    by (auto intro: bit_word_eqI)
  also have "\<dots> \<longleftrightarrow> (\<forall>m < 8. test_bit (8 * j + m) bm \<longleftrightarrow> test_bit (8 * j + m) bm')" by (simp add: b)
  also have "\<dots> \<longleftrightarrow> (\<forall>i. i div 8 = j \<longrightarrow> (test_bit i bm \<longleftrightarrow> test_bit i bm'))"
  proof
    assume l: "\<forall>m < 8. test_bit (8 * j + m) bm \<longleftrightarrow> test_bit (8 * j + m) bm'"
    show "\<forall>i. i div 8 = j \<longrightarrow> (test_bit i bm \<longleftrightarrow> test_bit i bm')"
      using l [rule_format, of "i mod 8" for i] mult_div_mod_eq [of 8 i for i] by (metis mod_less_divisor zero_less_numeral)
  qed simp
  finally show ?thesis .
qed

lemma equal_bits: "bits n a = bits n b \<longleftrightarrow> (\<forall>i < n. test_bit i a \<longleftrightarrow> test_bit i b)"
  by (auto simp: bits_def)

lemma bitmap_equal_iff: "bitmap_equal const a b n \<longleftrightarrow> bits n a = bits n b"
proof (cases "small_const_nbits const n")
  case True
  then show ?thesis
    unfolding bitmap_equal_def small_word_iff [OF True] small_bits [OF True] by (auto simp: bit_xor_iff)
next
  case False
  have "list_all (\<lambda>j. byte_at a j = byte_at b j) [0 ..< n div 8] \<longleftrightarrow> bits n a = bits n b" if "n mod 8 = 0"
  proof -
    have "i div 8 < n div 8 \<longleftrightarrow> i < n" for i using that by (auto simp: div_less_iff_less_mult)
    then show ?thesis by (auto simp: list_all_iff byte_bit equal_bits)
  qed
  then show ?thesis using False equal_loop_iff by (simp add: bitmap_equal_def)
qed

lemma bitmap_intersects_iff: "bitmap_intersects const a b n \<longleftrightarrow> bits n a \<inter> bits n b \<noteq> {}"
proof (cases "small_const_nbits const n")
  case True
  then show ?thesis unfolding bitmap_intersects_def small_word2_iff [OF True] small_bits [OF True] by auto
qed (simp add: bitmap_intersects_def intersects_loop_iff)

lemma bitmap_subset_iff: "bitmap_subset const a b n \<longleftrightarrow> bits n a \<subseteq> bits n b"
proof (cases "small_const_nbits const n")
  case True
  then have "n \<le> 64" by (simp add: small_const_nbits_def BITS_PER_LONG_def)
  then have "i < n \<Longrightarrow> bit (NOT w) i \<longleftrightarrow> \<not> bit w i" for i and w :: u64 by (simp add: bit_not_iff possible_bit_def)
  then show ?thesis using True unfolding bitmap_subset_def small_word2_iff [OF True] small_bits [OF True] by auto
qed (simp add: bitmap_subset_def subset_loop_iff)

lemma next_where_none: "next_where P n 0 = n \<longleftrightarrow> (\<forall>i < n. \<not> P i)"
proof
  assume "next_where P n 0 = n"
  then show "\<forall>i < n. \<not> P i" using next_where_skip [of 0 _ P n] by simp
next
  assume "\<forall>i < n. \<not> P i"
  then show "next_where P n 0 = n" by (intro next_where_eqI) simp_all
qed

lemma bitmap_empty_iff: "bitmap_empty const a n \<longleftrightarrow> bits n a = {}"
proof (cases "small_const_nbits const n")
  case True
  then show ?thesis unfolding bitmap_empty_def small_word_iff [OF True] small_bits [OF True] by auto
next
  case False
  have "next_where (\<lambda>i. test_bit i a) n 0 = n \<longleftrightarrow> (\<forall>i < n. \<not> test_bit i a)"
    by (rule next_where_none)
  then show ?thesis using False by (auto simp: bitmap_empty_def find_first_bit_eq bits_def)
qed

lemma bitmap_full_iff: "bitmap_full const a n \<longleftrightarrow> bits n a = {..< n}"
proof (cases "small_const_nbits const n")
  case True
  then have "n \<le> 64" by (simp add: small_const_nbits_def BITS_PER_LONG_def)
  then have "i < n \<Longrightarrow> bit (NOT w) i \<longleftrightarrow> \<not> bit w i" for i and w :: u64 by (simp add: bit_not_iff possible_bit_def)
  then show ?thesis using True unfolding bitmap_full_def small_word_iff [OF True] small_bits [OF True] by auto
next
  case False
  have "next_where (\<lambda>i. \<not> test_bit i a) n 0 = n \<longleftrightarrow> (\<forall>i < n. test_bit i a)"
    using next_where_none [of "\<lambda>i. \<not> test_bit i a" n] by simp
  then show ?thesis using False by (auto simp: bitmap_full_def find_first_zero_bit_eq bits_def)
qed

section \<open>Set operations\<close>

lemma bits_store:
  assumes "n \<le> 64 * length dst"
  shows "bits n (store_words (BITS_TO_LONGS n) W dst) = {i. i < n \<and> bit (W (i div 64)) (i mod 64)}"
  using word_index [of _ n] in_range [OF _ assms] by (auto simp: bits_iff store_words_nth)

lemma bits_store_masked:
  assumes "n \<le> 64 * length dst"
  shows "bits n (let d = store_words (n div 64) W dst in
      if n mod 64 \<noteq> 0 then d[n div 64 := W (n div 64) AND BITMAP_LAST_WORD_MASK n] else d) =
    {i. i < n \<and> bit (W (i div 64)) (i mod 64)}" (is "bits n ?d = ?B")
proof -
  have "bit (?d ! (i div 64)) (i mod 64) \<longleftrightarrow> bit (W (i div 64)) (i mod 64)" if i: "i < n" for i
  proof (cases "i div 64 < n div 64")
    case True
    then show ?thesis using in_range [OF i assms] by (simp add: Let_def store_words_nth)
  next
    case False
    then have e: "i div 64 = n div 64" using i div_le_mono [of i n 64] by simp
    then have m: "i mod 64 < n mod 64" using i div_mult_mod_eq [of i 64] div_mult_mod_eq [of n 64] by linarith
    then show ?thesis using in_range [OF i assms] e by (simp add: Let_def bit_and_iff bit_last_word_mask)
  qed
  then show ?thesis by (auto simp: bits_iff)
qed

lemma fold_or_zero: "fold (\<lambda>k r. r OR W k) [0 ..< m] r = (0 :: u64) \<longleftrightarrow> r = 0 \<and> (\<forall>k < m. W k = 0)"
  by (induction m) (auto simp: less_Suc_eq or_eq_0_iff)

lemma masked_result:
  "n mod 64 \<noteq> 0 \<Longrightarrow> fold (\<lambda>k r. r OR W k) [0 ..< n div 64] 0 OR (W (n div 64) AND BITMAP_LAST_WORD_MASK n) = 0 \<longleftrightarrow>
     (\<forall>i < n. \<not> bit (W (i div 64)) (i mod 64))"
  "n mod 64 = 0 \<Longrightarrow> fold (\<lambda>k r. r OR W k) [0 ..< n div 64] 0 = 0 \<longleftrightarrow> (\<forall>i < n. \<not> bit (W (i div 64)) (i mod 64))"
  unfolding words_zero_iff [of n W, symmetric] by (auto simp: or_eq_0_iff fold_or_zero)

lemma and_loop_bits:
  assumes "n \<le> 64 * length dst"
  shows "bits n (fst (bitmap_and_loop dst a b n)) = bits n a \<inter> bits n b"
    "snd (bitmap_and_loop dst a b n) \<longleftrightarrow> bits n a \<inter> bits n b \<noteq> {}"
proof -
  let ?W = "\<lambda>k. a ! k AND b ! k"
  have f: "fst (bitmap_and_loop dst a b n) = (let d = store_words (n div 64) ?W dst in
      if n mod 64 \<noteq> 0 then d[n div 64 := ?W (n div 64) AND BITMAP_LAST_WORD_MASK n] else d)"
    by (simp add: bitmap_and_loop_def Let_def BITS_PER_LONG_def and.assoc)
  show "bits n (fst (bitmap_and_loop dst a b n)) = bits n a \<inter> bits n b"
    using bits_store_masked [OF assms, of ?W] unfolding f by (auto simp: bits_iff bit_and_iff set_eq_iff)
  have "\<not> snd (bitmap_and_loop dst a b n) \<longleftrightarrow> (\<forall>i < n. \<not> bit (?W (i div 64)) (i mod 64))"
    using masked_result [of n ?W] by (simp add: bitmap_and_loop_def Let_def BITS_PER_LONG_def and.assoc)
  then show "snd (bitmap_and_loop dst a b n) \<longleftrightarrow> bits n a \<inter> bits n b \<noteq> {}" by (auto simp: bits_iff bit_and_iff)
qed

lemma andnot_loop_bits:
  assumes "n \<le> 64 * length dst"
  shows "bits n (fst (bitmap_andnot_loop dst a b n)) = bits n a - bits n b"
    "snd (bitmap_andnot_loop dst a b n) \<longleftrightarrow> bits n a - bits n b \<noteq> {}"
proof -
  let ?W = "\<lambda>k. a ! k AND NOT (b ! k)"
  have f: "fst (bitmap_andnot_loop dst a b n) = (let d = store_words (n div 64) ?W dst in
      if n mod 64 \<noteq> 0 then d[n div 64 := ?W (n div 64) AND BITMAP_LAST_WORD_MASK n] else d)"
    by (simp add: bitmap_andnot_loop_def Let_def BITS_PER_LONG_def and.assoc)
  show "bits n (fst (bitmap_andnot_loop dst a b n)) = bits n a - bits n b"
    using bits_store_masked [OF assms, of ?W] unfolding f by (auto simp: bits_iff bit_and_iff bit_not_iff possible_bit_def set_eq_iff)
  have "\<not> snd (bitmap_andnot_loop dst a b n) \<longleftrightarrow> (\<forall>i < n. \<not> bit (?W (i div 64)) (i mod 64))"
    using masked_result [of n ?W] by (simp add: bitmap_andnot_loop_def Let_def BITS_PER_LONG_def and.assoc)
  then show "snd (bitmap_andnot_loop dst a b n) \<longleftrightarrow> bits n a - bits n b \<noteq> {}"
    by (auto simp: bits_iff bit_and_iff bit_not_iff possible_bit_def)
qed

text \<open>The one-word cases: the first word of the destination is replaced.\<close>

lemma small_store:
  assumes "small_const_nbits const n" "n \<le> 64 * length dst"
  shows "dst[0 := w] ! 0 = w"
  using assms by (cases dst) (auto simp: small_const_nbits_def)

lemma small_not: "small_const_nbits const n \<Longrightarrow> i < n \<Longrightarrow> bit (NOT w :: u64) i \<longleftrightarrow> \<not> bit w i"
  by (auto simp: small_const_nbits_def BITS_PER_LONG_def bit_not_iff possible_bit_def)

lemma bitmap_and_bits:
  assumes "n \<le> 64 * length dst"
  shows "bits n (fst (bitmap_and const dst a b n)) = bits n a \<inter> bits n b"
    "snd (bitmap_and const dst a b n) \<longleftrightarrow> bits n a \<inter> bits n b \<noteq> {}"
proof (atomize (full), cases "small_const_nbits const n")
  case True
  show "bits n (fst (bitmap_and const dst a b n)) = bits n a \<inter> bits n b \<and>
      (snd (bitmap_and const dst a b n) \<longleftrightarrow> bits n a \<inter> bits n b \<noteq> {})"
    using True unfolding bitmap_and_def
    by (auto simp: Let_def small_store [OF True assms] small_bits [OF True] small_word2_iff [OF True] bit_and_iff small_mask [OF True])
qed (simp add: bitmap_and_def and_loop_bits [OF assms])

lemma bitmap_andnot_bits:
  assumes "n \<le> 64 * length dst"
  shows "bits n (fst (bitmap_andnot const dst a b n)) = bits n a - bits n b"
    "snd (bitmap_andnot const dst a b n) \<longleftrightarrow> bits n a - bits n b \<noteq> {}"
proof (atomize (full), cases "small_const_nbits const n")
  case True
  show "bits n (fst (bitmap_andnot const dst a b n)) = bits n a - bits n b \<and>
      (snd (bitmap_andnot const dst a b n) \<longleftrightarrow> bits n a - bits n b \<noteq> {})"
    using True unfolding bitmap_andnot_def
    by (auto simp: Let_def small_store [OF True assms] small_bits [OF True] small_word2_iff [OF True] bit_and_iff
        small_mask [OF True] small_not [OF True])
qed (simp add: bitmap_andnot_def andnot_loop_bits [OF assms])

lemma bitmap_or_bits:
  assumes "n \<le> 64 * length dst"
  shows "bits n (bitmap_or const dst a b n) = bits n a \<union> bits n b"
proof (cases "small_const_nbits const n")
  case True
  then show ?thesis
    unfolding bitmap_or_def by (auto simp: small_store [OF True assms] small_bits [OF True] bit_or_iff)
qed (auto simp: bitmap_or_def bitmap_or_loop_def bits_store [OF assms] bits_iff bit_or_iff)

lemma bitmap_xor_bits:
  assumes "n \<le> 64 * length dst"
  shows "bits n (bitmap_xor const dst a b n) = (bits n a - bits n b) \<union> (bits n b - bits n a)"
proof (cases "small_const_nbits const n")
  case True
  then show ?thesis
    unfolding bitmap_xor_def by (auto simp: small_store [OF True assms] small_bits [OF True] bit_xor_iff)
qed (auto simp: bitmap_xor_def bitmap_xor_loop_def bits_store [OF assms] bits_iff bit_xor_iff)

lemma bitmap_complement_bits:
  assumes "n \<le> 64 * length dst"
  shows "bits n (bitmap_complement const dst a n) = {..< n} - bits n a"
proof (cases "small_const_nbits const n")
  case True
  then show ?thesis
    unfolding bitmap_complement_def by (auto simp: small_store [OF True assms] small_bits [OF True] small_not [OF True])
qed (auto simp: bitmap_complement_def bitmap_complement_loop_def bits_store [OF assms] bits_iff bit_not_iff possible_bit_def)

lemma bitmap_zero_bits: "n \<le> 64 * length dst \<Longrightarrow> bits n (bitmap_zero dst n) = {}"
  by (simp add: bitmap_zero_def bits_store)

lemma bitmap_fill_bits: "n \<le> 64 * length dst \<Longrightarrow> bits n (bitmap_fill dst n) = {..< n}"
  by (auto simp: bitmap_fill_def bits_store bit_minus_1_iff possible_bit_def)

lemma bitmap_copy_bits: "n \<le> 64 * length dst \<Longrightarrow> bits n (bitmap_copy dst a n) = bits n a"
  by (simp add: bitmap_copy_def bits_store bits_iff [abs_def] set_eq_iff)

end
