(* ===== verification/Bitmap_Ranges.thy ===== *)
theory Bitmap_Ranges
  imports Bitmap
begin

unbundle bit_operations_syntax

text \<open>
  What the operations on ranges of bits do to the set of bits: setting and clearing, shifts,
  the number of bits, and the allocation of regions.
\<close>

section \<open>Ranges\<close>

definition range_mask :: "nat \<Rightarrow> nat \<Rightarrow> nat \<Rightarrow> u64" where
  "range_mask start len k = mask (start + len - 64 * k) AND NOT (mask (start - 64 * k))"

lemma bit_range_mask: "bit (range_mask start len k) m \<longleftrightarrow> m < 64 \<and> start \<le> 64 * k + m \<and> 64 * k + m < start + len"
  by (auto simp: range_mask_def bit_and_iff bit_not_iff bit_mask_iff possible_bit_def)

lemma range_words_result:
  assumes "p + len div 64 \<le> length bm"
  shows "range_words op bm p len =
    (map (\<lambda>k. if p \<le> k \<and> k < p + len div 64 then op (bm ! k) (NOT 0) else bm ! k) [0 ..< length bm], p + len div 64, len mod 64)"
  using assms
proof (induction op bm p len rule: range_words.induct)
  case (1 op bm p len)
  show ?case
  proof (cases "len \<ge> 64")
    case True
    let ?bm = "bm[p := op (bm ! p) (NOT 0)]"
    have l: "len div 64 = Suc ((len - 64) div 64)" "len mod 64 = (len - 64) mod 64"
      using True by (simp_all add: le_div_geq le_mod_geq)
    have "range_words op bm p len = range_words op ?bm (p + 1) (len - 64)"
      using True by (subst range_words.simps) (simp add: BITS_PER_LONG_def)
    also have "\<dots> = (map (\<lambda>k. if p + 1 \<le> k \<and> k < p + 1 + (len - 64) div 64 then op (?bm ! k) (NOT 0) else ?bm ! k) [0 ..< length bm],
        p + 1 + (len - 64) div 64, (len - 64) mod 64)"
      using 1(1) True 1(2) l by (simp add: BITS_PER_LONG_def)
    also have "\<dots> = (map (\<lambda>k. if p \<le> k \<and> k < p + len div 64 then op (bm ! k) (NOT 0) else bm ! k) [0 ..< length bm], p + len div 64, len mod 64)"
      using l by (auto simp: nth_list_update) (metis not_less_eq_eq le_antisym)
    finally show ?thesis .
  next
    case False
    then show ?thesis by (subst range_words.simps) (auto simp: BITS_PER_LONG_def intro!: nth_equalityI)
  qed
qed

lemma word_le_iff: "r < 64 \<Longrightarrow> n < 64 \<Longrightarrow> 64 * p + r \<le> 64 * k + n \<longleftrightarrow> p < k \<or> p = k \<and> r \<le> n" for p k r n :: nat
  by (cases p k rule: linorder_cases) auto

lemma last_mask_mod: "n mod 64 = r \<Longrightarrow> r \<noteq> 0 \<Longrightarrow> bit (BITMAP_LAST_WORD_MASK n) m \<longleftrightarrow> m < r"
  by (simp add: bit_last_word_mask)

lemma range_op_nth:
  assumes z: "\<And>w. op w 0 = w" and "start + len \<le> 64 * length bm" and k: "k < length bm"
  shows "range_op op bm start len ! k = op (bm ! k) (range_mask start len k)"
proof -
  define p r b where d: "p = start div 64" "r = start mod 64" "b = 64 - r"
  have start: "start = 64 * p + r" "r < 64" by (simp_all add: d)
  have fm: "bit (BITMAP_FIRST_WORD_MASK start) n \<longleftrightarrow> r \<le> n \<and> n < 64" for n unfolding bit_first_word_mask d(2) ..
  have from_start: "start \<le> 64 * k + n \<longleftrightarrow> p < k \<or> p = k \<and> r \<le> n" if "n < 64" for n
    unfolding start(1) using start(2) that by (rule word_le_iff)
  show ?thesis
  proof (cases "len \<ge> b")
    case True
    define q r' where q: "q = (len - b) div 64" "r' = (len - b) mod 64"
    have len: "len = b + 64 * q + r'" "r' < 64" using True by (simp_all add: q)
    have size: "start + len = 64 * (p + 1 + q) + r'" using start len d(3) by simp
    have pl: "p + 1 + q \<le> length bm" using assms(2) size len(2) by simp
    let ?m = "\<lambda>k. if k = p then BITMAP_FIRST_WORD_MASK start else if p + 1 \<le> k \<and> k < p + 1 + q then NOT 0
        else if k = p + 1 + q \<and> r' \<noteq> 0 then NOT 0 AND BITMAP_LAST_WORD_MASK (start + len) else 0"
    have "range_op op bm start len ! k = op (bm ! k) (?m k)"
      using True pl k z unfolding range_op_def Let_def BITS_PER_LONG_def BIT_WORD_def d [symmetric]
      by (auto simp: range_words_result q [symmetric] nth_list_update)
    also have "?m k = range_mask start len k"
    proof -
      have "(start + len) mod 64 = r'" unfolding size using len(2) by (simp only: mod_mult_self4 mod_less)
      then have "bit (BITMAP_LAST_WORD_MASK (start + len)) n \<longleftrightarrow> n < r'" if "r' \<noteq> 0" for n
        using that by (rule last_mask_mod)
      note lm = this
      have to_end: "64 * k + n < start + len \<longleftrightarrow> k < p + 1 + q \<or> k = p + 1 + q \<and> n < r'" if "n < 64" for n
        unfolding size not_le [symmetric] using word_le_iff [OF len(2) that, of "p + 1 + q" k] by auto
      show ?thesis
      proof (rule bit_word_eqI)
        fix n assume "n < LENGTH(64)"
        then have n: "n < 64" by simp
        show "bit (?m k) n \<longleftrightarrow> bit (range_mask start len k) n"
          unfolding bit_range_mask from_start [OF n] to_end [OF n] using n
          by (cases k p rule: linorder_cases) (auto simp: fm lm bit_and_iff bit_minus_1_iff possible_bit_def)
      qed
    qed
    finally show ?thesis .
  next
    case False
    have size: "start + len = 64 * p + (r + len)" "r + len < 64" using start False d(3) by simp_all
    let ?m = "if k = p \<and> len \<noteq> 0 then BITMAP_FIRST_WORD_MASK start AND BITMAP_LAST_WORD_MASK (start + len) else 0"
    have "range_op op bm start len ! k = op (bm ! k) ?m"
      using False k z unfolding range_op_def Let_def BITS_PER_LONG_def BIT_WORD_def d [symmetric] by (auto simp: nth_list_update)
    also have "?m = range_mask start len k"
    proof -
      have "(start + len) mod 64 = r + len" unfolding size(1) using size(2) by (simp only: mod_mult_self4 mod_less)
      then have "bit (BITMAP_LAST_WORD_MASK (start + len)) n \<longleftrightarrow> n < r + len" if "len \<noteq> 0" for n
        using that by (intro last_mask_mod) simp_all
      note lm = this
      have to_end: "64 * k + n < start + len \<longleftrightarrow> k < p \<or> k = p \<and> n < r + len" if "n < 64" for n
        unfolding size(1) not_le [symmetric] using word_le_iff [OF size(2) that, of p k] by auto
      show ?thesis
      proof (rule bit_word_eqI)
        fix n assume "n < LENGTH(64)"
        then have n: "n < 64" by simp
        show "bit ?m n \<longleftrightarrow> bit (range_mask start len k) n"
          unfolding bit_range_mask from_start [OF n] to_end [OF n] using n
          by (cases k p rule: linorder_cases) (auto simp: fm lm bit_and_iff)
      qed
    qed
    finally show ?thesis .
  qed
qed

lemma words_fit:
  fixes p r len n :: nat
  assumes "r < 64" "64 - r \<le> len" "64 * p + r + len \<le> 64 * n"
  shows "p + 1 + (len - (64 - r)) div 64 \<le> n"
proof -
  have "64 * (p + 1) + (len - (64 - r)) \<le> 64 * n" using assms by simp
  then have "(64 * (p + 1) + (len - (64 - r))) div 64 \<le> 64 * n div 64" by (rule div_le_mono)
  then show ?thesis by simp
qed

lemma length_range_op [simp]:
  assumes "start + len \<le> 64 * length bm"
  shows "length (range_op op bm start len) = length bm"
proof (cases "64 - start mod 64 \<le> len")
  case True
  have "start div 64 + 1 + (len - (64 - start mod 64)) div 64 \<le> length bm" using True assms by (intro words_fit) simp_all
  then show ?thesis using True
    by (simp add: range_op_def Let_def BITS_PER_LONG_def BIT_WORD_def range_words_result del: mod_less_divisor)
qed (simp add: range_op_def Let_def BITS_PER_LONG_def BIT_WORD_def)

lemma set_loop_bits:
  assumes "start + len \<le> 64 * length bm" "n \<le> 64 * length bm"
  shows "bits n (bitmap_set_loop bm start len) = bits n bm \<union> {i. i < n \<and> start \<le> i \<and> i < start + len}"
proof -
  have "bit (bitmap_set_loop bm start len ! (i div 64)) (i mod 64) \<longleftrightarrow> bit (bm ! (i div 64)) (i mod 64) \<or> start \<le> i \<and> i < start + len"
    if "i < n" for i
    using range_op_nth [of "\<lambda>w m. w OR m", OF _ assms(1) in_range [OF that assms(2)]]
    by (simp add: bitmap_set_loop_def bit_or_iff bit_range_mask)
  then show ?thesis by (auto simp: bits_iff)
qed

lemma clear_loop_bits:
  assumes "start + len \<le> 64 * length bm" "n \<le> 64 * length bm"
  shows "bits n (bitmap_clear_loop bm start len) = bits n bm - {start ..< start + len}"
proof -
  have "bit (bitmap_clear_loop bm start len ! (i div 64)) (i mod 64) \<longleftrightarrow> bit (bm ! (i div 64)) (i mod 64) \<and> \<not> (start \<le> i \<and> i < start + len)"
    if "i < n" for i
    using range_op_nth [of "\<lambda>w m. w AND NOT m", OF _ assms(1) in_range [OF that assms(2)]]
    by (simp add: bitmap_clear_loop_def bit_and_iff bit_not_iff bit_range_mask possible_bit_def)
  then show ?thesis by (auto simp: bits_iff)
qed

text \<open>The same by single bits and by bytes.\<close>

lemma bits_update: "k < length bm \<Longrightarrow> bits n (bm[k := w]) = {i. i < n \<and> (if i div 64 = k then bit w (i mod 64) else i \<in> bits n bm)}"
  by (auto simp: bits_iff nth_list_update)

lemma set_bit_bits: "nr < 64 * length bm \<Longrightarrow> bits n (set_bit_at nr bm) = bits n bm \<union> {i. i < n \<and> i = nr}"
  using div_mult_mod_eq [of nr 64]
  by (auto simp: set_bit_at_def BIT_WORD_def BITS_PER_LONG_def bits_update less_mult_imp_div_less bits_iff bit_or_iff bit_BIT_MASK)
     (metis div_mult_mod_eq)+

lemma clear_bit_bits: "nr < 64 * length bm \<Longrightarrow> bits n (clear_bit_at nr bm) = bits n bm - {nr}"
  using div_mult_mod_eq [of nr 64]
  by (auto simp: clear_bit_at_def BIT_WORD_def BITS_PER_LONG_def bits_update less_mult_imp_div_less bits_iff bit_and_iff bit_not_iff bit_BIT_MASK possible_bit_def)
     (metis div_mult_mod_eq)+

lemma set_byte_bits:
  assumes "8 * j + 8 \<le> 64 * length bm" "c = 0xff \<or> c = 0"
  shows "bits n (set_byte c j bm) = (if c = 0xff then bits n bm \<union> {i. i < n \<and> i div 8 = j} else bits n bm - {i. i div 8 = j})"
proof -
  have k: "j div 8 < length bm" using assms(1) by (simp add: less_mult_imp_div_less)
  have idx: "i div 64 = j div 8 \<and> (i mod 64) div 8 = j mod 8 \<longleftrightarrow> i div 8 = j" for i
  proof -
    have "i div 64 = i div 8 div 8" using div_mult2_eq [of i 8 8] by simp
    moreover have "i mod 64 div 8 = i div 8 mod 8" using mod_mult2_eq [of i 8 8] by simp
    ultimately show ?thesis by (metis div_mult_mod_eq)
  qed
  have ff: "bit (push_bit (8 * s) 0xff :: u64) m \<longleftrightarrow> m div 8 = s" if "m < 64" "s < 8" for m s
  proof -
    have "(0xff :: u64) = mask 8" by (simp add: mask_eq_exp_minus_1)
    then have "bit (0xff :: u64) n \<longleftrightarrow> n < 8" for n by (simp only: bit_mask_iff possible_bit_def) auto
    then have "bit (push_bit (8 * s) 0xff :: u64) m \<longleftrightarrow> 8 * s \<le> m \<and> possible_bit TYPE(u64) m \<and> m - 8 * s < 8"
      by (simp only: bit_push_bit_iff)
    also have "\<dots> \<longleftrightarrow> 8 * s \<le> m \<and> m < 8 * s + 8" using that(1) by (auto simp: possible_bit_def)
    also have "\<dots> \<longleftrightarrow> m div 8 = s" by (auto simp: div_nat_eqI)
    finally show ?thesis .
  qed
  have c: "(ucast c :: u64) = (if c = 0xff then 0xff else 0)" using assms(2) by auto
  have "bit (set_byte c j bm ! (i div 64)) (i mod 64) \<longleftrightarrow> (if i div 8 = j then c = 0xff else bit (bm ! (i div 64)) (i mod 64))" for i
  proof (cases "i div 64 = j div 8")
    case True
    have m: "i mod 64 < 64" "j mod 8 < 8" by simp_all
    show ?thesis
    proof (cases "c = 0xff")
      case c': True
      then show ?thesis using True k idx [of i] ff [OF m] by (simp add: set_byte_def c bit_or_iff bit_and_iff bit_not_iff possible_bit_def)
    next
      case False
      then show ?thesis using True k idx [of i] ff [OF m] by (simp add: set_byte_def c bit_or_iff bit_and_iff bit_not_iff possible_bit_def)
    qed
  next
    case False
    then show ?thesis using idx [of i] by (auto simp: set_byte_def)
  qed
  then show ?thesis using assms(2) by (auto simp: bits_iff split: if_splits)
qed

lemma length_set_byte [simp]: "length (set_byte c j bm) = length bm"
  by (simp add: set_byte_def)

lemma memset_bits:
  assumes "8 * (offset + m) \<le> 64 * length bm" "c = 0xff \<or> c = 0"
  shows "bits n (memset_bytes c offset m bm) =
    (if c = 0xff then bits n bm \<union> {i. i < n \<and> 8 * offset \<le> i \<and> i < 8 * (offset + m)} else bits n bm - {8 * offset ..< 8 * (offset + m)})"
proof -
  have "length (memset_bytes c offset m bm) = length bm \<and> ?thesis" using assms(1)
  proof (induction m)
    case (Suc m)
    let ?b = "memset_bytes c offset m bm"
    have st: "memset_bytes c offset (Suc m) bm = set_byte c (offset + m) ?b" by (simp add: memset_bytes_def)
    have d: "i div 8 = offset + m \<longleftrightarrow> 8 * (offset + m) \<le> i \<and> i < 8 * (offset + m) + 8" for i by (auto simp: div_nat_eqI)
    show ?case using Suc set_byte_bits [of "offset + m" ?b c n] assms(2) unfolding st d by auto
  qed (auto simp: memset_bytes_def)
  then show ?thesis by blast
qed

lemma bitmap_set_bits:
  assumes "start + len \<le> 64 * length bm" "n \<le> 64 * length bm"
  shows "bits n (bitmap_set known bm start len) = bits n bm \<union> {i. i < n \<and> start \<le> i \<and> i < start + len}"
proof -
  have "8 * (start div 8) = start" "8 * (start div 8 + len div 8) = start + len" if "start mod 8 = 0" "len mod 8 = 0"
    using that by auto
  then show ?thesis using assms set_loop_bits [OF assms] set_bit_bits [of start bm n] memset_bits [of "start div 8" "len div 8" bm "0xff" n]
    by (auto simp: bitmap_set_def)
qed

lemma bitmap_clear_bits:
  assumes "start + len \<le> 64 * length bm" "n \<le> 64 * length bm"
  shows "bits n (bitmap_clear known bm start len) = bits n bm - {start ..< start + len}"
proof -
  have "8 * (start div 8) = start" "8 * (start div 8 + len div 8) = start + len" if "start mod 8 = 0" "len mod 8 = 0"
    using that by auto
  then show ?thesis using assms clear_loop_bits [OF assms] clear_bit_bits [of start bm n] memset_bits [of "start div 8" "len div 8" bm 0 n]
    by (auto simp: bitmap_clear_def)
qed

section \<open>The number of bits\<close>

lemma upt_block: "[0 ..< b * Suc k] = [0 ..< b * k] @ map (\<lambda>m. b * k + m) [0 ..< b]"
  using upt_add_eq_append [of 0 "b * k" b] map_add_upt [of "b * k" b] by (simp add: add.commute)

lemma filter_blocks:
  "length (filter P [0 ..< b * k]) = (\<Sum>j < k. length (filter (\<lambda>m. P (b * j + m)) [0 ..< b]))"
proof (induction k)
  case (Suc k)
  then show ?case unfolding upt_block by (simp add: filter_map o_def)
qed simp

lemma card_filter: "card {i. i < n \<and> P i} = length (filter P [0 ..< n])"
proof -
  have "{i. i < n \<and> P i} = set (filter P [0 ..< n])" by auto
  also have "card \<dots> = length (filter P [0 ..< n])" by (rule distinct_card) simp
  finally show ?thesis .
qed

lemma hweight_card: "hweight_long w = card {m. m < 64 \<and> bit w m}"
  by (simp add: hweight_long_def hweight64_correct card_filter)

lemma fold_sum: "fold (\<lambda>k w. w + f k) [0 ..< m] s = s + (\<Sum>k < m. f k)" for s :: nat
  by (induction m) simp_all

lemma weight_loop_card: "bitmap_weight_loop bm n = card (bits n bm)"
proof -
  let ?P = "\<lambda>i. bit (bm ! (i div 64)) (i mod 64)" and ?q = "n div 64" and ?r = "n mod 64"
  have "[0 ..< n] = [0 ..< 64 * ?q] @ map (\<lambda>m. 64 * ?q + m) [0 ..< ?r]"
    using upt_add_eq_append [of 0 "64 * ?q" ?r] map_add_upt [of "64 * ?q" ?r] by (simp add: add.commute)
  then have "card (bits n bm) = length (filter ?P [0 ..< 64 * ?q]) + length (filter (\<lambda>m. ?P (64 * ?q + m)) [0 ..< ?r])"
    by (simp add: bits_def test_bit_iff card_filter filter_map o_def)
  also have "length (filter ?P [0 ..< 64 * ?q]) = (\<Sum>k < ?q. length (filter (\<lambda>m. bit (bm ! k) m) [0 ..< 64]))"
    unfolding filter_blocks by (intro sum.cong refl arg_cong [of _ _ length] filter_cong) simp_all
  also have "\<dots> = (\<Sum>k < ?q. hweight_long (bm ! k))" by (simp add: hweight_long_def hweight64_correct)
  also have "filter (\<lambda>m. ?P (64 * ?q + m)) [0 ..< ?r] = filter (bit (bm ! ?q)) [0 ..< ?r]"
  proof (rule filter_cong [OF refl])
    fix m assume "m \<in> set [0 ..< ?r]"
    then have "m < 64" using mod_less_divisor [of 64 n] by (simp only: set_upt atLeastLessThan_iff) linarith
    then have "(64 * ?q + m) div 64 = ?q" "(64 * ?q + m) mod 64 = m" by simp_all
    then show "?P (64 * ?q + m) \<longleftrightarrow> bit (bm ! ?q) m" by (simp only:)
  qed
  finally have c: "card (bits n bm) = (\<Sum>k < ?q. hweight_long (bm ! k)) + card {m. m < ?r \<and> bit (bm ! ?q) m}"
    by (simp add: card_filter)
  have "hweight_long (bm ! ?q AND BITMAP_LAST_WORD_MASK n) = card {m. m < ?r \<and> bit (bm ! ?q) m}" if "?r \<noteq> 0"
  proof -
    have "m < ?r \<Longrightarrow> m < 64" for m by (rule less_trans [OF _ mod_less_divisor]) simp_all
    then show ?thesis using that unfolding hweight_card by (intro arg_cong [of _ _ card]) (auto simp: bit_and_iff bit_last_word_mask)
  qed
  then show ?thesis using c by (simp add: bitmap_weight_loop_def Let_def BITS_PER_LONG_def fold_sum)
qed

lemma bitmap_weight_card: "bitmap_weight const bm n = card (bits n bm)"
proof (cases "small_const_nbits const n")
  case True
  then have "n \<le> 64" by (simp add: small_const_nbits_def BITS_PER_LONG_def)
  then show ?thesis using True unfolding bitmap_weight_def hweight_card small_bits [OF True]
    by (auto simp: bit_and_iff small_mask [OF True] intro: arg_cong [of _ _ card])
qed (simp add: bitmap_weight_def weight_loop_card)

section \<open>Shifts\<close>

lemma fold_zero_nth:
  "k < length d \<Longrightarrow> fold (\<lambda>k d. d[k := 0]) [a ..< b] d ! k = (if a \<le> k \<and> k < b then 0 else d ! k :: u64)"
  "length (fold (\<lambda>k d. d[k := 0 :: u64]) [a ..< b] d) = length d"
  by (induction b) (auto simp: nth_list_update less_Suc_eq)

lemma last_word_bound:
  fixes n j s :: nat
  assumes "n \<noteq> 0" "j = (n - 1) div 64" "s < 64"
  shows "64 * j + s < n \<longleftrightarrow> s \<le> (n - 1) mod 64"
proof -
  have "64 * j + s < n \<longleftrightarrow> 64 * j + s \<le> n - 1" using assms(1) by linarith
  also have "n - 1 = 64 * j + (n - 1) mod 64" unfolding assms(2) by simp
  finally show ?thesis by simp
qed

lemma BITS_TO_LONGS_last: "n \<noteq> 0 \<Longrightarrow> BITS_TO_LONGS n = Suc ((n - 1) div 64)"
proof -
  assume "n \<noteq> 0"
  then have "n + 63 = (n - 1) + 64" by simp
  then show ?thesis unfolding BITS_TO_LONGS_def BITS_PER_LONG_def by simp
qed

lemma masked_word:
  assumes "s < 64" "j < BITS_TO_LONGS n"
  shows "bit (if j = BITS_TO_LONGS n - 1 then src ! j AND BITMAP_LAST_WORD_MASK n else src ! j) s \<longleftrightarrow> 64 * j + s \<in> bits n src"
proof -
  have n: "n \<noteq> 0" using assms(2) by (auto simp: BITS_TO_LONGS_def BITS_PER_LONG_def)
  note lim = BITS_TO_LONGS_last [OF n]
  have js: "(64 * j + s) div 64 = j" "(64 * j + s) mod 64 = s" using assms(1) by simp_all
  show ?thesis
  proof (cases "j = (n - 1) div 64")
    case True
    then show ?thesis using last_word_bound [OF n True assms(1)] unfolding bits_iff js lim
      by (auto simp: bit_and_iff bit_last_word_mask' [OF n])
  next
    case False
    then have "j < (n - 1) div 64" using assms(2) lim by simp
    then have "64 * j + s < n" using assms(1) div_times_less_eq_dividend [of "n - 1" 64] by linarith
    then show ?thesis using False unfolding bits_iff js lim by simp
  qed
qed

lemma bit_shift_right_word:
  assumes "m < 64" "shift div 64 + k < BITS_TO_LONGS n"
  shows "bit (shift_right_word src shift n k) m \<longleftrightarrow> shift + (64 * k + m) \<in> bits n src"
proof -
  define off rem where d: "off = shift div 64" "rem = shift mod 64"
  have shift: "shift = 64 * off + rem" "rem < 64" by (simp_all add: d)
  let ?w = "\<lambda>j. if j = BITS_TO_LONGS n - 1 then src ! j AND BITMAP_LAST_WORD_MASK n else src ! j"
  let ?u = "if rem = 0 \<or> off + k + 1 \<ge> BITS_TO_LONGS n then 0 else push_bit (64 - rem) (?w (off + k + 1))"
  have e: "shift_right_word src shift n k = drop_bit rem (?w (off + k)) OR ?u"
    by (simp add: shift_right_word_def Let_def BITS_PER_LONG_def d)
  have lo: "bit (drop_bit rem (?w (off + k))) m \<longleftrightarrow> rem + m < 64 \<and> shift + (64 * k + m) \<in> bits n src"
  proof (cases "rem + m < 64")
    case True
    have idx: "64 * (off + k) + (rem + m) = shift + (64 * k + m)" unfolding shift(1) by simp
    show ?thesis using masked_word [OF True, of "off + k" n src, unfolded idx] assms(2) True unfolding d(1) [symmetric] bit_drop_bit_eq o_def by simp
  next
    case False
    then have "\<not> bit v (rem + m)" for v :: u64 by (auto dest: bit_imp_le_length)
    then show ?thesis using False unfolding bit_drop_bit_eq o_def by simp
  qed
  have hi: "bit ?u m \<longleftrightarrow> 64 \<le> rem + m \<and> shift + (64 * k + m) \<in> bits n src"
  proof (cases "64 \<le> rem + m")
    case True
    have idx: "64 * (off + k + 1) + (rem + m - 64) = shift + (64 * k + m)" using True unfolding shift(1) by simp
    show ?thesis
    proof (cases "off + k + 1 \<ge> BITS_TO_LONGS n")
      case lim: True
      have "n \<le> 64 * BITS_TO_LONGS n" unfolding BITS_TO_LONGS_def BITS_PER_LONG_def
        using div_mult_mod_eq [of "n + 63" 64] mod_less_divisor [of 64 "n + 63"] by simp
      then have "\<not> shift + (64 * k + m) < n" using mult_le_mono2 [OF lim, of 64] unfolding idx [symmetric] by simp
      then show ?thesis using lim by (simp add: bits_iff)
    next
      case False
      have m: "m - (64 - rem) = rem + m - 64" "64 - rem \<le> m" "rem \<noteq> 0" "rem + m - 64 < 64" using True assms(1) shift(2) by auto
      have "bit ?u m \<longleftrightarrow> bit (?w (off + k + 1)) (rem + m - 64)"
        using False m assms(1) by (simp add: bit_push_bit_iff possible_bit_def del: if_split)
      also have "\<dots> \<longleftrightarrow> shift + (64 * k + m) \<in> bits n src"
        using masked_word [OF m(4), of "off + k + 1" n src] False unfolding idx by simp
      finally show ?thesis using True by simp
    qed
  next
    case False
    then show ?thesis by (auto simp: bit_push_bit_iff)
  qed
  show ?thesis unfolding e bit_or_iff lo hi by auto
qed

lemma shift_right_bits:
  assumes "n \<le> 64 * length dst"
  shows "bits n (bitmap_shift_right_loop dst src shift n) = {i. i < n \<and> shift + i \<in> bits n src}"
proof -
  let ?lim = "BITS_TO_LONGS n" and ?off = "shift div 64"
  have "bit (bitmap_shift_right_loop dst src shift n ! (i div 64)) (i mod 64) \<longleftrightarrow> shift + i \<in> bits n src" if i: "i < n" for i
  proof -
    have l: "i div 64 < length dst" by (rule in_range [OF i assms])
    have nth: "bitmap_shift_right_loop dst src shift n ! (i div 64) =
        (if i div 64 < ?lim - ?off then shift_right_word src shift n (i div 64) else 0)"
      using l word_index [OF i] by (simp add: bitmap_shift_right_loop_def Let_def BITS_PER_LONG_def fold_zero_nth store_words_nth)
    show ?thesis
    proof (cases "i div 64 < ?lim - ?off")
      case True
      then show ?thesis using bit_shift_right_word [of "i mod 64" shift "i div 64" n src] unfolding nth by simp
    next
      case False
      have "n \<le> 64 * ?lim" unfolding BITS_TO_LONGS_def BITS_PER_LONG_def
        using div_mult_mod_eq [of "n + 63" 64] mod_less_divisor [of 64 "n + 63"] by simp
      moreover have "64 * ?lim \<le> 64 * (?off + i div 64)" using False by simp
      moreover have "64 * ?off \<le> shift" "64 * (i div 64) \<le> i" by simp_all
      ultimately have "\<not> shift + i < n" unfolding distrib_left by linarith
      then show ?thesis using False unfolding nth by (simp add: bits_iff)
    qed
  qed
  then show ?thesis by (auto simp: bits_iff [of _ n "bitmap_shift_right_loop dst src shift n"])
qed

lemma bit_shift_left_word:
  assumes "m < 64" "n \<le> 64 * length src" "64 * (shift div 64 + k) + m < n"
  shows "bit (shift_left_word src shift k) m \<longleftrightarrow>
    shift \<le> 64 * (shift div 64 + k) + m \<and> 64 * (shift div 64 + k) + m - shift \<in> bits n src"
proof -
  define off rem where d: "off = shift div 64" "rem = shift mod 64"
  have shift: "shift = 64 * off + rem" "rem < 64" by (simp_all add: d)
  let ?lo = "if rem \<noteq> 0 \<and> k > 0 then drop_bit (64 - rem) (src ! (k - 1)) else 0"
  have e: "shift_left_word src shift k = ?lo OR push_bit rem (src ! k)" by (simp add: shift_left_word_def Let_def BITS_PER_LONG_def d)
  have n: "64 * (off + k) + m < n" using assms(3) by (simp add: d)
  have sub: "64 * (off + k) + m - shift = 64 * k + m - rem" "shift \<le> 64 * (off + k) + m \<longleftrightarrow> rem \<le> 64 * k + m" unfolding shift(1) by auto
  have up: "bit (push_bit rem (src ! k)) m \<longleftrightarrow> rem \<le> m \<and> bit (src ! k) (m - rem)"
    using assms(1) by (simp add: bit_push_bit_iff possible_bit_def)
  have lo: "bit ?lo m \<longleftrightarrow> m < rem \<and> 0 < k \<and> bit (src ! (k - 1)) (64 + m - rem)"
  proof (cases "m < rem")
    case False
    then have "\<not> bit v (64 - rem + m)" for v :: u64 using shift(2) by (auto dest: bit_imp_le_length)
    then show ?thesis using False by (simp add: bit_drop_bit_eq)
  qed (use shift(2) in \<open>auto simp: bit_drop_bit_eq\<close>)
  show ?thesis
  proof (cases "rem \<le> m")
    case True
    have i: "64 * k + m - rem = 64 * k + (m - rem)" "m - rem < 64" using True assms(1) by auto
    have "64 * k + (m - rem) < n" using n True unfolding distrib_left by linarith
    then have "64 * k + (m - rem) \<in> bits n src \<longleftrightarrow> bit (src ! k) (m - rem)" unfolding bits_iff using i(2) by simp
    then show ?thesis using True unfolding e bit_or_iff lo up d(1) [symmetric] sub i(1) by auto
  next
    case False
    show ?thesis
    proof (cases k)
      case 0
      then show ?thesis using False unfolding e bit_or_iff lo up d(1) [symmetric] sub by simp
    next
      case (Suc k')
      have i: "64 * k + m - rem = 64 * k' + (64 + m - rem)" "64 + m - rem < 64" using Suc False shift(2) by auto
      have "64 * k' + (64 + m - rem) < n" using n Suc False unfolding distrib_left by simp
      then have "64 * k' + (64 + m - rem) \<in> bits n src \<longleftrightarrow> bit (src ! k') (64 + m - rem)" unfolding bits_iff using i(2) by simp
      moreover have "rem \<le> 64 * k + m" using Suc shift(2) by simp
      ultimately show ?thesis using False Suc unfolding e bit_or_iff lo up d(1) [symmetric] sub i(1) by auto
    qed
  qed
qed

lemma fold_down_nth:
  "j < length d \<Longrightarrow> fold (\<lambda>k d. d[k + off := f k]) (rev [0 ..< m]) d ! j = (if off \<le> j \<and> j < off + m then f (j - off) else d ! j)"
proof (induction m arbitrary: d)
  case (Suc m)
  then show ?case using Suc(1) [of "d[m + off := f m]"] by (cases "j = m + off") auto
qed auto

lemma length_fold_down: "length (fold (\<lambda>k d. d[k + off := f k]) xs d) = length d"
  by (induction xs arbitrary: d) simp_all

lemma shift_left_bits:
  assumes "n \<le> 64 * length dst" "n \<le> 64 * length src"
  shows "bits n (bitmap_shift_left_loop dst src shift n) = {i. i < n \<and> shift \<le> i \<and> i - shift \<in> bits n src}"
proof -
  let ?lim = "BITS_TO_LONGS n" and ?off = "shift div 64"
  have "bit (bitmap_shift_left_loop dst src shift n ! (i div 64)) (i mod 64) \<longleftrightarrow> shift \<le> i \<and> i - shift \<in> bits n src" if i: "i < n" for i
  proof -
    have l: "i div 64 < length dst" by (rule in_range [OF i assms(1)])
    have nth: "bitmap_shift_left_loop dst src shift n ! (i div 64) =
        (if i div 64 < ?off then 0 else shift_left_word src shift (i div 64 - ?off))"
      using l word_index [OF i] by (simp add: bitmap_shift_left_loop_def Let_def BITS_PER_LONG_def fold_zero_nth fold_down_nth length_fold_down)
    show ?thesis
    proof (cases "i div 64 < ?off")
      case True
      have "\<not> shift \<le> i"
      proof
        assume "shift \<le> i"
        then have "shift div 64 \<le> i div 64" by (rule div_le_mono)
        then show False using True by simp
      qed
      then show ?thesis using True unfolding nth by simp
    next
      case False
      then have "?off + (i div 64 - ?off) = i div 64" by simp
      then have e: "64 * (?off + (i div 64 - ?off)) + i mod 64 = i" by simp
      show ?thesis using bit_shift_left_word [of "i mod 64" n src shift "i div 64 - ?off", unfolded e] i assms(2) False unfolding nth by simp
    qed
  qed
  then show ?thesis by (auto simp: bits_iff [of _ n "bitmap_shift_left_loop dst src shift n"])
qed

lemma bitmap_shift_right_bits:
  assumes "n \<le> 64 * length dst"
  shows "bits n (bitmap_shift_right const dst src shift n) = {i. i < n \<and> shift + i \<in> bits n src}"
proof (cases "small_const_nbits const n")
  case True
  then show ?thesis unfolding bitmap_shift_right_def small_bits [OF True] small_store [OF True assms]
    by (auto simp: small_store [OF True assms] bit_drop_bit_eq bit_and_iff small_mask [OF True])
qed (simp add: bitmap_shift_right_def shift_right_bits [OF assms])

lemma bitmap_shift_left_bits:
  assumes "n \<le> 64 * length dst" "n \<le> 64 * length src"
  shows "bits n (bitmap_shift_left const dst src shift n) = {i. i < n \<and> shift \<le> i \<and> i - shift \<in> bits n src}"
proof (cases "small_const_nbits const n")
  case True
  then have "n \<le> 64" by (simp add: small_const_nbits_def BITS_PER_LONG_def)
  then show ?thesis using True unfolding bitmap_shift_left_def small_bits [OF True]
    by (auto simp: small_store [OF True assms(1)] bit_push_bit_iff bit_and_iff small_mask [OF True] possible_bit_def)
qed (simp add: bitmap_shift_left_def shift_left_bits [OF assms])

end
