(* ===== verification/Bitmap_Alloc.thy ===== *)
theory Bitmap_Alloc
  imports Bitmap_Ranges
begin

unbundle bit_operations_syntax

text \<open>
  Allocation in bitmaps and the translation of bit positions (\<open>lib/bitmap.c\<close>): free areas, aligned
  regions, ordinals of set bits, and bitmaps relative to other bitmaps.
\<close>

section \<open>Free areas\<close>

definition ALIGN_MASK :: "nat \<Rightarrow> nat \<Rightarrow> nat" where
  "ALIGN_MASK x msk = nat ((int x + int msk) AND NOT (int msk))"

lemma and_not_add: "(a AND NOT b) + (a AND b) = a" for a b :: int
proof -
  have "(a AND NOT b) + (a AND b) = (a AND NOT b) OR (a AND b)"
    by (rule disjunctive_add_eq_or) (simp add: bit_eq_iff bit_simps)
  also have "\<dots> = a" by (rule bit_eqI) (auto simp: bit_simps)
  finally show ?thesis .
qed

lemma ALIGN_MASK_ge: "x \<le> ALIGN_MASK x msk"
proof -
  have "(int x + int msk) AND int msk \<le> int msk" by (rule AND_upper2) simp
  then have "int x \<le> (int x + int msk) AND NOT (int msk)" using and_not_add [of "int x + int msk" "int msk"] by linarith
  then show ?thesis by (simp add: ALIGN_MASK_def)
qed

lemma zero_area_step:
  assumes "i = find_next_bit bm end index" "i < end" "end \<le> sz" "find_next_zero_bit bm sz start \<le> index"
  shows "start \<le> i" "i < sz"
proof -
  have "index \<le> i" using next_where_hit [of "\<lambda>i. test_bit i bm" "end" index] assms(1,2) by (simp add: find_next_bit_eq)
  moreover have "start \<le> find_next_zero_bit bm sz start \<or> sz = find_next_zero_bit bm sz start"
    unfolding find_next_zero_bit_eq using next_where_ge [of start sz] next_where_past [of sz start] nat_le_linear by metis
  ultimately show "start \<le> i" "i < sz" using assms(2-4) by auto
qed

function bitmap_find_next_zero_area_off :: "bitmap \<Rightarrow> nat \<Rightarrow> nat \<Rightarrow> nat \<Rightarrow> nat \<Rightarrow> nat \<Rightarrow> nat" where
  "bitmap_find_next_zero_area_off bm sz start nr align_mask align_offset =
     (let index0 = find_next_zero_bit bm sz start;
          index = ALIGN_MASK (index0 + align_offset) align_mask - align_offset;
          end = index + nr
      in if end > sz then end
         else
           let i = find_next_bit bm end index in
           if i < end then bitmap_find_next_zero_area_off bm sz (i + 1) nr align_mask align_offset
           else index)"
  by pat_completeness auto
termination
proof (relation "measure (\<lambda>(bm, sz, start, nr, align_mask, align_offset). sz - start)")
  fix bm sz start nr align_mask align_offset x xa xb i
  assume a: "x = find_next_zero_bit bm sz start" "xa = ALIGN_MASK (x + align_offset) align_mask - align_offset"
    "xb = xa + nr" "\<not> sz < xb" "i = find_next_bit bm xb xa" "i < xb"
  have "x \<le> xa" using a(2) ALIGN_MASK_ge [of "x + align_offset" align_mask] by linarith
  then have "start \<le> i" "i < sz" using zero_area_step [OF a(5,6), of sz start] a(1,4) by simp_all
  then show "((bm, sz, i + 1, nr, align_mask, align_offset), bm, sz, start, nr, align_mask, align_offset)
      \<in> measure (\<lambda>(bm, sz, start, nr, align_mask, align_offset). sz - start)" by simp
qed simp

declare bitmap_find_next_zero_area_off.simps [simp del]

definition bitmap_find_next_zero_area :: "bitmap \<Rightarrow> nat \<Rightarrow> nat \<Rightarrow> nat \<Rightarrow> nat \<Rightarrow> nat" where
  "bitmap_find_next_zero_area bm sz start nr align_mask = bitmap_find_next_zero_area_off bm sz start nr align_mask 0"

section \<open>Aligned regions\<close>

datatype region_op = REG_OP_ISFREE | REG_OP_ALLOC | REG_OP_RELEASE

definition reg_mask :: "nat \<Rightarrow> nat \<Rightarrow> u64" where
  "reg_mask pos order =
     (let nbits_reg = 2 ^ order;
          offset = pos - BIT_WORD pos * BITS_PER_LONG;
          nbitsinlong = min nbits_reg BITS_PER_LONG;
          msk = push_bit (nbitsinlong - 1) 1;
          msk1 = msk + (msk - 1)
      in push_bit offset msk1)"

definition reg_op :: "bitmap \<Rightarrow> nat \<Rightarrow> nat \<Rightarrow> region_op \<Rightarrow> bitmap \<times> nat" where
  "reg_op bitmap pos order op =
     (let index = BIT_WORD pos;
          nlongs_reg = BITS_TO_LONGS (2 ^ order);
          msk = reg_mask pos order
      in case op of
           REG_OP_ISFREE \<Rightarrow> (bitmap, if list_ex (\<lambda>i. bitmap ! (index + i) AND msk \<noteq> 0) [0 ..< nlongs_reg] then 0 else 1)
         | REG_OP_ALLOC \<Rightarrow> (fold (\<lambda>i b. b[index + i := b ! (index + i) OR msk]) [0 ..< nlongs_reg] bitmap, 0)
         | REG_OP_RELEASE \<Rightarrow> (fold (\<lambda>i b. b[index + i := b ! (index + i) AND NOT msk]) [0 ..< nlongs_reg] bitmap, 0))"

lemma region_end: "pos + 2 ^ order \<le> nbits \<Longrightarrow> nbits - (pos + 2 ^ order) < nbits - pos" for pos order nbits :: nat
proof -
  assume "pos + 2 ^ order \<le> nbits"
  moreover have "0 < (2::nat) ^ order" by simp
  ultimately show ?thesis by linarith
qed

function find_free_region_loop :: "bitmap \<Rightarrow> nat \<Rightarrow> nat \<Rightarrow> nat \<Rightarrow> bitmap \<times> int" where
  "find_free_region_loop bitmap nbits order pos =
     (let end = pos + 2 ^ order in
      if end \<le> nbits then
        if snd (reg_op bitmap pos order REG_OP_ISFREE) = 0 then find_free_region_loop bitmap nbits order end
        else (fst (reg_op bitmap pos order REG_OP_ALLOC), int pos)
      else (bitmap, - ENOMEM))"
  by pat_completeness auto
termination
  by (relation "measure (\<lambda>(bitmap, nbits, order, pos). nbits - pos)") (simp_all add: region_end)

declare find_free_region_loop.simps [simp del]

definition bitmap_find_free_region :: "bitmap \<Rightarrow> nat \<Rightarrow> nat \<Rightarrow> bitmap \<times> int" where
  "bitmap_find_free_region bitmap nbits order = find_free_region_loop bitmap nbits order 0"

definition bitmap_release_region :: "bitmap \<Rightarrow> nat \<Rightarrow> nat \<Rightarrow> bitmap" where
  "bitmap_release_region bitmap pos order = fst (reg_op bitmap pos order REG_OP_RELEASE)"

definition bitmap_allocate_region :: "bitmap \<Rightarrow> nat \<Rightarrow> nat \<Rightarrow> bitmap \<times> int" where
  "bitmap_allocate_region bitmap pos order =
     (if snd (reg_op bitmap pos order REG_OP_ISFREE) = 0 then (bitmap, - EBUSY)
      else case reg_op bitmap pos order REG_OP_ALLOC of (b, r) \<Rightarrow> (b, int r))"

section \<open>What the regions are\<close>

lemma reg_mask_eq: "reg_mask pos order = push_bit (pos mod 64) (mask (min (2 ^ order) 64))"
proof -
  define m where "m = min ((2::nat) ^ order) 64"
  have m: "m = Suc (m - 1)" by (simp add: m_def)
  have "push_bit (m - 1) (1 :: u64) + (push_bit (m - 1) 1 - 1) = 2 ^ Suc (m - 1) - 1" by (simp add: push_bit_eq_mult)
  also have "\<dots> = mask m" using m by (simp add: mask_eq_exp_minus_1)
  finally show ?thesis
    by (simp add: reg_mask_def Let_def BITS_PER_LONG_def BIT_WORD_def m_def minus_div_mult_eq_mod)
qed

lemma region_in_word:
  assumes "2 ^ order dvd pos" "order \<le> 6"
  shows "pos mod 64 + 2 ^ order \<le> (64 :: nat)"
proof -
  have d: "(2::nat) ^ order dvd 64" using le_imp_power_dvd [OF assms(2), of "2 :: nat"] by simp
  then obtain c where c: "(64::nat) = 2 ^ order * c" by blast
  have "2 ^ order dvd pos mod 64" using assms(1) d by (simp add: dvd_mod)
  then obtain q where q: "pos mod 64 = 2 ^ order * q" by blast
  have "2 ^ order * q < 2 ^ order * c" using q c by (metis mod_less_divisor zero_less_numeral)
  then have "Suc q \<le> c" by simp
  then have "2 ^ order * Suc q \<le> 2 ^ order * c" by (rule mult_le_mono2)
  then show ?thesis using q c by simp
qed

lemma region_split:
  assumes "\<not> order \<le> 6"
  obtains c where "(2::nat) ^ order = 64 * c" "1 \<le> c"
proof
  show "(2::nat) ^ order = 64 * 2 ^ (order - 6)" using assms power_add [of "2::nat" 6 "order - 6"] by simp
qed simp

lemma region_longs_small: "order \<le> 6 \<Longrightarrow> BITS_TO_LONGS (2 ^ order) = 1"
proof -
  assume "order \<le> 6"
  then have "(2::nat) ^ order \<le> 64" using power_increasing [of order 6 "2 :: nat"] by simp
  moreover have "1 \<le> (2::nat) ^ order" by simp
  ultimately have "(2 ^ order + 64 - 1) div 64 = (1 :: nat)" by (intro div_nat_eqI) auto
  then show ?thesis by (simp add: BITS_TO_LONGS_def BITS_PER_LONG_def)
qed

lemma region_longs_large: "2 ^ order = 64 * c \<Longrightarrow> BITS_TO_LONGS (2 ^ order) = c"
  by (simp add: BITS_TO_LONGS_def BITS_PER_LONG_def)

lemma reg_mask_bit:
  assumes al: "2 ^ order dvd pos" and k: "pos div 64 \<le> k" "k < pos div 64 + BITS_TO_LONGS (2 ^ order)" and j: "j < 64"
  shows "bit (reg_mask pos order) j \<longleftrightarrow> pos \<le> 64 * k + j \<and> 64 * k + j < pos + 2 ^ order"
proof (cases "order \<le> 6")
  case True
  have le: "(2::nat) ^ order \<le> 64" using power_increasing [OF True, of "2 :: nat"] by simp
  have "k = pos div 64" using k region_longs_small [OF True] by simp
  then have "64 * k + pos mod 64 = pos" by simp
  then show ?thesis using j le region_in_word [OF al True]
    by (auto simp: reg_mask_eq bit_push_bit_iff bit_mask_iff)
next
  case False
  then obtain c where c: "(2::nat) ^ order = 64 * c" "1 \<le> c" by (rule region_split)
  then have p: "pos mod 64 = 0" using al by (metis dvd_imp_mod_0 dvd_mult_left)
  then have p64: "64 * (pos div 64) = pos" by auto
  have "k + 1 \<le> pos div 64 + c" using k(2) region_longs_large [OF c(1)] by simp
  then have "64 * (k + 1) \<le> 64 * (pos div 64 + c)" by (rule mult_le_mono2)
  then have "64 * k + 64 \<le> pos + 64 * c" using p64 by (simp add: distrib_left)
  moreover have "64 * (pos div 64) \<le> 64 * k" using k(1) by (rule mult_le_mono2)
  ultimately have "pos \<le> 64 * k + j \<and> 64 * k + j < pos + 2 ^ order" using c j p64 by linarith
  then show ?thesis using j c p by (simp add: reg_mask_eq bit_mask_iff)
qed

lemma region_words:
  assumes "2 ^ order dvd pos" "pos \<le> i" "i < pos + 2 ^ order"
  shows "pos div 64 \<le> i div 64" "i div 64 < pos div 64 + BITS_TO_LONGS (2 ^ order)"
proof -
  show "pos div 64 \<le> i div 64" using assms by (simp add: div_le_mono)
  show "i div 64 < pos div 64 + BITS_TO_LONGS (2 ^ order)"
  proof (cases "order \<le> 6")
    case True
    have "i < 64 * (pos div 64) + 64" using region_in_word [OF assms(1) True] assms(3) mult_div_mod_eq [of 64 pos] by linarith
    then have "i div 64 < pos div 64 + 1" by (simp add: less_mult_imp_div_less)
    then show ?thesis using region_longs_small [OF True] by simp
  next
    case False
    then obtain c where c: "(2::nat) ^ order = 64 * c" "1 \<le> c" by (rule region_split)
    then have "64 dvd pos" using assms(1) by (metis dvd_mult_left)
    then have "i < (pos div 64 + c) * 64" using assms(3) c by (auto elim!: dvdE)
    then show ?thesis using region_longs_large [OF c(1)] by (simp add: less_mult_imp_div_less)
  qed
qed

lemma region_fits:
  assumes "2 ^ order dvd pos" "pos + 2 ^ order \<le> 64 * len"
  shows "pos div 64 + BITS_TO_LONGS (2 ^ order) \<le> len"
proof (cases "order \<le> 6")
  case True
  have "pos < len * 64" using assms(2) zero_less_power [of "2 :: nat" order] by linarith
  then have "pos div 64 < len" by (simp add: less_mult_imp_div_less)
  then show ?thesis using region_longs_small [OF True] by simp
next
  case False
  then obtain c where c: "(2::nat) ^ order = 64 * c" "1 \<le> c" by (rule region_split)
  then have "64 dvd pos" using assms(1) by (metis dvd_mult_left)
  then show ?thesis using assms(2) c region_longs_large [OF c(1)] by (auto elim!: dvdE)
qed

lemma fold_words_nth:
  "index + m \<le> length bm \<Longrightarrow>
     fold (\<lambda>i b. b[index + i := F (b ! (index + i))]) [0 ..< m] bm ! k = (if index \<le> k \<and> k < index + m then F (bm ! k) else bm ! k) \<and>
     length (fold (\<lambda>i b. b[index + i := F (b ! (index + i))]) [0 ..< m] bm) = length bm"
  by (induction m arbitrary: k) (auto simp: nth_list_update)

lemma region_word_bits:
  assumes "2 ^ order dvd pos" "i < 64 * length bm" "pos + 2 ^ order \<le> 64 * length bm"
  shows "pos div 64 \<le> i div 64 \<and> i div 64 < pos div 64 + BITS_TO_LONGS (2 ^ order) \<and> bit (reg_mask pos order) (i mod 64) \<longleftrightarrow>
    pos \<le> i \<and> i < pos + 2 ^ order"
proof -
  have "64 * (i div 64) + i mod 64 = i" by simp
  then show ?thesis using reg_mask_bit [OF assms(1), of "i div 64" "i mod 64"] region_words [OF assms(1), of i] by auto
qed

lemma region_alloc_bits:
  assumes "2 ^ order dvd pos" "pos + 2 ^ order \<le> 64 * length bm" "n \<le> 64 * length bm"
  shows "bits n (fst (reg_op bm pos order REG_OP_ALLOC)) = bits n bm \<union> {i. i < n \<and> pos \<le> i \<and> i < pos + 2 ^ order}"
    "length (fst (reg_op bm pos order REG_OP_ALLOC)) = length bm"
proof -
  have "test_bit i (fst (reg_op bm pos order REG_OP_ALLOC)) \<longleftrightarrow> test_bit i bm \<or> pos \<le> i \<and> i < pos + 2 ^ order" if "i < n" for i
    using that assms(3) region_word_bits [OF assms(1) _ assms(2), of i] fold_words_nth [OF region_fits [OF assms(1,2)], of "\<lambda>w. w OR reg_mask pos order"]
    by (auto simp: reg_op_def Let_def test_bit_iff BIT_WORD_def BITS_PER_LONG_def bit_or_iff)
  then show "bits n (fst (reg_op bm pos order REG_OP_ALLOC)) = bits n bm \<union> {i. i < n \<and> pos \<le> i \<and> i < pos + 2 ^ order}"
    by (auto simp: bits_def)
  show "length (fst (reg_op bm pos order REG_OP_ALLOC)) = length bm"
    using fold_words_nth [OF region_fits [OF assms(1,2)], of "\<lambda>w. w OR reg_mask pos order"] by (simp add: reg_op_def Let_def BIT_WORD_def BITS_PER_LONG_def)
qed

lemma region_release_bits:
  assumes "2 ^ order dvd pos" "pos + 2 ^ order \<le> 64 * length bm" "n \<le> 64 * length bm"
  shows "bits n (bitmap_release_region bm pos order) = bits n bm - {pos ..< pos + 2 ^ order}"
    "length (bitmap_release_region bm pos order) = length bm"
proof -
  have "test_bit i (bitmap_release_region bm pos order) \<longleftrightarrow> test_bit i bm \<and> \<not> (pos \<le> i \<and> i < pos + 2 ^ order)" if "i < n" for i
    using that assms(3) region_word_bits [OF assms(1) _ assms(2), of i] fold_words_nth [OF region_fits [OF assms(1,2)], of "\<lambda>w. w AND NOT (reg_mask pos order)"]
    by (auto simp: bitmap_release_region_def reg_op_def Let_def test_bit_iff BIT_WORD_def BITS_PER_LONG_def bit_and_iff bit_not_iff_eq)
  then show "bits n (bitmap_release_region bm pos order) = bits n bm - {pos ..< pos + 2 ^ order}"
    by (auto simp: bits_def)
  show "length (bitmap_release_region bm pos order) = length bm"
    using fold_words_nth [OF region_fits [OF assms(1,2)], of "\<lambda>w. w AND NOT (reg_mask pos order)"]
    by (simp add: bitmap_release_region_def reg_op_def Let_def BIT_WORD_def BITS_PER_LONG_def)
qed

lemma list_ex_range: "list_ex (\<lambda>i. P (a + i)) [0 ..< m] \<longleftrightarrow> (\<exists>k. a \<le> k \<and> k < a + m \<and> P k)"
proof
  assume "list_ex (\<lambda>i. P (a + i)) [0 ..< m]"
  then obtain i where "i < m" "P (a + i)" by (auto simp: list_ex_iff)
  then show "\<exists>k. a \<le> k \<and> k < a + m \<and> P k" by (intro exI [of _ "a + i"]) simp
next
  assume "\<exists>k. a \<le> k \<and> k < a + m \<and> P k"
  then obtain k where "a \<le> k" "k < a + m" "P k" by blast
  then show "list_ex (\<lambda>i. P (a + i)) [0 ..< m]" unfolding list_ex_iff by (intro bexI [of _ "k - a"]) auto
qed

lemma region_isfree_iff:
  assumes "2 ^ order dvd pos" "pos + 2 ^ order \<le> n" "n \<le> 64 * length bm"
  shows "snd (reg_op bm pos order REG_OP_ISFREE) = 0 \<longleftrightarrow> bits n bm \<inter> {pos ..< pos + 2 ^ order} \<noteq> {}"
proof -
  have le: "pos + 2 ^ order \<le> 64 * length bm" using assms(2,3) by simp
  have "snd (reg_op bm pos order REG_OP_ISFREE) = 0 \<longleftrightarrow>
      (\<exists>k. pos div 64 \<le> k \<and> k < pos div 64 + BITS_TO_LONGS (2 ^ order) \<and> bm ! k AND reg_mask pos order \<noteq> 0)"
    using list_ex_range [of "\<lambda>k. bm ! k AND reg_mask pos order \<noteq> 0" "pos div 64" "BITS_TO_LONGS (2 ^ order)"]
    by (simp add: reg_op_def Let_def BIT_WORD_def BITS_PER_LONG_def)
  also have "\<dots> \<longleftrightarrow> (\<exists>i. pos \<le> i \<and> i < pos + 2 ^ order \<and> bit (bm ! (i div 64)) (i mod 64))"
  proof (intro iffI; elim exE conjE)
    fix k assume k: "pos div 64 \<le> k" "k < pos div 64 + BITS_TO_LONGS (2 ^ order)" "bm ! k AND reg_mask pos order \<noteq> 0"
    then obtain j where "j < 64" "bit (bm ! k) j" "bit (reg_mask pos order) j" by (auto simp: word_zero_iff bit_and_iff)
    then show "\<exists>i. pos \<le> i \<and> i < pos + 2 ^ order \<and> bit (bm ! (i div 64)) (i mod 64)"
      using reg_mask_bit [OF assms(1) k(1,2), of j] by (intro exI [of _ "64 * k + j"]) simp
  next
    fix i assume i: "pos \<le> i" "i < pos + 2 ^ order" "bit (bm ! (i div 64)) (i mod 64)"
    then have "bit (bm ! (i div 64) AND reg_mask pos order) (i mod 64)"
      using region_word_bits [OF assms(1) _ le, of i] le by (simp add: bit_and_iff)
    then have "bm ! (i div 64) AND reg_mask pos order \<noteq> 0" by auto
    then show "\<exists>k. pos div 64 \<le> k \<and> k < pos div 64 + BITS_TO_LONGS (2 ^ order) \<and> bm ! k AND reg_mask pos order \<noteq> 0"
      using region_words [OF assms(1) i(1,2)] by blast
  qed
  also have "\<dots> \<longleftrightarrow> bits n bm \<inter> {pos ..< pos + 2 ^ order} \<noteq> {}"
    using assms(2) by (auto simp: bits_iff disjoint_iff) (meson less_le_trans)
  finally show ?thesis .
qed

section \<open>What the searches find\<close>

text \<open>A free aligned region of \<open>2 ^ order\<close> bits, and a free area of \<open>nr\<close> bits with its alignment.\<close>

definition free_region :: "nat set \<Rightarrow> nat \<Rightarrow> nat \<Rightarrow> nat \<Rightarrow> bool" where
  "free_region used n order pos \<longleftrightarrow> 2 ^ order dvd pos \<and> pos + 2 ^ order \<le> n \<and> used \<inter> {pos ..< pos + 2 ^ order} = {}"

definition zero_area :: "bitmap \<Rightarrow> nat \<Rightarrow> nat \<Rightarrow> nat \<Rightarrow> nat \<Rightarrow> bool" where
  "zero_area bm nr k off q \<longleftrightarrow> 2 ^ k dvd q + off \<and> (\<forall>i. q \<le> i \<and> i < q + nr \<longrightarrow> \<not> test_bit i bm)"

lemma aligned_step: "2 ^ order dvd pos \<Longrightarrow> 2 ^ order dvd q \<Longrightarrow> pos \<le> q \<Longrightarrow> q < pos + 2 ^ order \<Longrightarrow> q = pos" for pos q :: nat
proof -
  assume a: "2 ^ order dvd pos" "2 ^ order dvd q" "pos \<le> q" "q < pos + 2 ^ order"
  then have "2 ^ order dvd q - pos" "q - pos < 2 ^ order" by (simp_all add: dvd_diff_nat less_diff_conv2)
  then have "q - pos = 0" using nat_dvd_not_less by blast
  then show ?thesis using a(3) by simp
qed

lemma find_free_region_loop_result:
  assumes "2 ^ order dvd pos" "n \<le> 64 * length bm" "find_free_region_loop bm n order pos = (bm', r)"
  shows "r = - ENOMEM \<and> bm' = bm \<and> (\<forall>q \<ge> pos. \<not> free_region (bits n bm) n order q) \<or>
    (\<exists>p. r = int p \<and> pos \<le> p \<and> free_region (bits n bm) n order p \<and> (\<forall>q. pos \<le> q \<and> q < p \<longrightarrow> \<not> free_region (bits n bm) n order q) \<and>
         length bm' = length bm \<and> bits n bm' = bits n bm \<union> {p ..< p + 2 ^ order})"
  using assms
proof (induction bm n order pos rule: find_free_region_loop.induct)
  case (1 bm n order pos)
  let ?free = "free_region (bits n bm) n order"
  consider "\<not> pos + 2 ^ order \<le> n" | "pos + 2 ^ order \<le> n" "?free pos" | "pos + 2 ^ order \<le> n" "\<not> ?free pos" by blast
  then show ?case
  proof cases
    case 1
    then show ?thesis using "1.prems"(3) by (subst (asm) find_free_region_loop.simps) (auto simp: free_region_def)
  next
    case 2
    then have "snd (reg_op bm pos order REG_OP_ISFREE) \<noteq> 0"
      using region_isfree_iff [OF "1.prems"(1) 2(1) "1.prems"(2)] by (simp add: free_region_def)
    then have "r = int pos" "bm' = fst (reg_op bm pos order REG_OP_ALLOC)"
      using "1.prems"(3) 2(1) by (subst (asm) find_free_region_loop.simps; simp)+
    moreover have "{i. i < n \<and> pos \<le> i \<and> i < pos + 2 ^ order} = {pos ..< pos + 2 ^ order}" using 2(1) by auto
    ultimately show ?thesis using 2 region_alloc_bits [OF "1.prems"(1) _ "1.prems"(2)] "1.prems"(2) by auto
  next
    case 3
    then have isf: "snd (reg_op bm pos order REG_OP_ISFREE) = 0"
      using region_isfree_iff [OF "1.prems"(1) 3(1) "1.prems"(2)] "1.prems"(1) by (simp add: free_region_def)
    then have rec: "find_free_region_loop bm n order (pos + 2 ^ order) = (bm', r)"
      using "1.prems"(3) 3(1) by (subst (asm) find_free_region_loop.simps) simp
    have no: "pos + 2 ^ order \<le> q" if "pos \<le> q" "?free q" for q
      using that 3(2) aligned_step [OF "1.prems"(1), of q] by (cases "q < pos + 2 ^ order") (auto simp: free_region_def)
    have "2 ^ order dvd pos + 2 ^ order" using "1.prems"(1) by simp
    then show ?thesis using "1.IH" [OF refl 3(1) isf _ "1.prems"(2) rec] no by (meson add_leD1 leD)
  qed
qed

lemma bitmap_find_free_region_result:
  assumes "n \<le> 64 * length bm" "bitmap_find_free_region bm n order = (bm', r)"
  shows "r = - ENOMEM \<and> bm' = bm \<and> (\<forall>q. \<not> free_region (bits n bm) n order q) \<or>
    (\<exists>p. r = int p \<and> free_region (bits n bm) n order p \<and> (\<forall>q < p. \<not> free_region (bits n bm) n order q) \<and>
         length bm' = length bm \<and> bits n bm' = bits n bm \<union> {p ..< p + 2 ^ order})"
  using find_free_region_loop_result [of order 0 n bm bm' r] assms by (auto simp: bitmap_find_free_region_def)

lemma ALIGN_MASK_eq: "ALIGN_MASK x (2 ^ k - 1) = (x + (2 ^ k - 1)) div 2 ^ k * 2 ^ k"
proof -
  let ?a = "x + (2 ^ k - 1)"
  have "int ?a AND NOT (int (2 ^ k - 1)) = int ?a - int ?a mod 2 ^ k"
    using and_not_add [of "int ?a" "int (2 ^ k - 1)"] take_bit_eq_mask [of k "int ?a"]
    by (simp add: take_bit_eq_mod [symmetric] mask_eq_exp_minus_1 of_nat_diff algebra_simps)
  also have "\<dots> = int (?a div 2 ^ k * 2 ^ k)" by (simp add: minus_mod_eq_div_mult zdiv_int)
  finally show ?thesis by (simp only: ALIGN_MASK_def of_nat_add [symmetric] nat_int)
qed

lemma ALIGN_MASK_least:
  assumes "2 ^ k dvd q" "x \<le> q"
  shows "ALIGN_MASK x (2 ^ k - 1) \<le> q"
proof -
  obtain c where c: "q = 2 ^ k * c" using assms(1) by blast
  have "(c + 1) * 2 ^ k = q + 2 ^ k" using c by (simp add: algebra_simps)
  then have "x + (2 ^ k - 1) < (c + 1) * 2 ^ k" using assms(2) zero_less_power [of "2 :: nat" k] by linarith
  then have "(x + (2 ^ k - 1)) div 2 ^ k \<le> c" using less_mult_imp_div_less [of "x + (2 ^ k - 1)" "c + 1" "2 ^ k"] by simp
  then show ?thesis unfolding ALIGN_MASK_eq c by (simp add: mult.commute)
qed

lemma ALIGN_MASK_dvd: "2 ^ k dvd ALIGN_MASK x (2 ^ k - 1)"
  unfolding ALIGN_MASK_eq by (rule dvd_triv_right)

lemma zero_area_gap:
  assumes "x = find_next_zero_bit bm sz start" "start \<le> sz" "q + nr \<le> sz" "0 < nr"
    "start \<le> q" "q < ALIGN_MASK (x + off) (2 ^ k - 1) - off"
  shows "\<not> zero_area bm nr k off q"
proof (cases "q < x")
  case True
  then have "test_bit q bm" using next_where_skip [OF assms(5), of "\<lambda>i. \<not> test_bit i bm" sz] assms(1) by (simp add: find_next_zero_bit_eq)
  then show ?thesis using assms(4) by (auto simp: zero_area_def)
next
  case False
  then have "2 ^ k dvd q + off \<Longrightarrow> ALIGN_MASK (x + off) (2 ^ k - 1) \<le> q + off" by (intro ALIGN_MASK_least) simp_all
  then show ?thesis using assms(6) by (auto simp: zero_area_def)
qed

lemma bitmap_find_next_zero_area_off_result:
  assumes "start \<le> sz" "0 < nr" "r = bitmap_find_next_zero_area_off bm sz start nr (2 ^ k - 1) off"
  shows "(r \<le> sz \<longrightarrow> start \<le> r \<and> r + nr \<le> sz \<and> zero_area bm nr k off r) \<and>
    (\<forall>q. start \<le> q \<and> q < r \<and> q + nr \<le> sz \<longrightarrow> \<not> zero_area bm nr k off q)"
  using assms
proof (induction bm sz start nr "2 ^ k - 1 :: nat" off rule: bitmap_find_next_zero_area_off.induct)
  case (1 bm sz start nr off)
  define x where "x = find_next_zero_bit bm sz start"
  define index where "index = ALIGN_MASK (x + off) (2 ^ k - 1) - off"
  define i where "i = find_next_bit bm (index + nr) index"
  note unf = "1.prems"(3) [unfolded bitmap_find_next_zero_area_off.simps [of bm sz start] Let_def,
      folded x_def, folded index_def, folded i_def]
  have gap: "\<not> zero_area bm nr k off q" if "start \<le> q" "q < index" "q + nr \<le> sz" for q
    using zero_area_gap [OF x_def "1.prems"(1) that(3) "1.prems"(2) that(1)] that(2) by (simp add: index_def)
  have x: "start \<le> x" using next_where_ge [OF "1.prems"(1)] by (simp add: x_def find_next_zero_bit_eq)
  have al: "x + off \<le> ALIGN_MASK (x + off) (2 ^ k - 1)" by (rule ALIGN_MASK_ge)
  consider "sz < index + nr" | "index + nr \<le> sz" "i < index + nr" | "index + nr \<le> sz" "\<not> i < index + nr" by linarith
  then show ?case
  proof cases
    case 1
    then have "r = index + nr" using unf by simp
    then show ?thesis using 1 gap by (metis add_le_cancel_right leD not_le_imp_less le_trans)
  next
    case 2
    have hit: "index \<le> i" "test_bit i bm"
      using next_where_hit [of "\<lambda>i. test_bit i bm" "index + nr" index] 2(2) by (simp_all add: i_def find_next_bit_eq)
    have rec: "r = bitmap_find_next_zero_area_off bm sz (i + 1) nr (2 ^ k - 1) off" using unf 2 by simp
    have IH: "(r \<le> sz \<longrightarrow> i + 1 \<le> r \<and> r + nr \<le> sz \<and> zero_area bm nr k off r) \<and>
        (\<forall>q. i + 1 \<le> q \<and> q < r \<and> q + nr \<le> sz \<longrightarrow> \<not> zero_area bm nr k off q)"
      by (rule "1.hyps" [OF x_def index_def refl _ i_def _ _ "1.prems"(2) rec]) (use 2 in simp_all)
    have low: "\<not> zero_area bm nr k off q" if "start \<le> q" "q \<le> i" "q + nr \<le> sz" for q
      using gap [OF that(1) _ that(3)] hit 2(2) that(2) by (cases "q < index") (auto simp: zero_area_def)
    have st: "start \<le> i + 1" using x al hit(1) index_def by linarith
    have "\<not> zero_area bm nr k off q" if q: "start \<le> q \<and> q < r \<and> q + nr \<le> sz" for q
      using IH low q by (cases "q \<le> i") simp_all
    then show ?thesis using IH st le_trans by blast
  next
    case 3
    then have "r = index" using unf by simp
    moreover have "2 ^ k dvd index + off" using ALIGN_MASK_dvd [of k "x + off"] al by (simp add: index_def)
    moreover have "\<not> test_bit j bm" if "index \<le> j" "j < index + nr" for j
      using next_where_skip [OF that(1), of "\<lambda>i. test_bit i bm" "index + nr"] that 3(2) by (simp add: i_def find_next_bit_eq)
    ultimately show ?thesis using 3(1) gap x al by (auto simp: zero_area_def index_def)
  qed
qed

end
