(* ===== verification/Bitmap_Map.thy ===== *)
theory Bitmap_Map
  imports Bitmap_Alloc
begin

unbundle bit_operations_syntax

text \<open>
  Bit positions and the ordinals of set bits (\<open>lib/bitmap.c\<close>): the iteration over the set bits, the
  translation of bits by a pair of bitmaps, bitmaps relative to other bitmaps, folding, and the exchange
  with arrays of 32-bit words. The pointer comparisons \<open>dst == src\<close> are the flag \<open>same\<close>.
\<close>

section \<open>The operations\<close>

lemma next_bit_progress: "b < sz \<Longrightarrow> sz - find_next_bit bm sz (b + 1) < sz - b"
  using next_where_ge [of "b + 1" sz "\<lambda>i. test_bit i bm"] by (auto simp: find_next_bit_eq)

text \<open>The values of the loop variable of \<open>for_each_set_bit\<close>.\<close>

function set_bits_from :: "bitmap \<Rightarrow> nat \<Rightarrow> nat \<Rightarrow> nat list" where
  "set_bits_from bm sz b = (if b < sz then b # set_bits_from bm sz (find_next_bit bm sz (b + 1)) else [])"
  by pat_completeness auto
termination
  by (relation "measure (\<lambda>(bm, sz, b). sz - b)") (simp_all only: wf_measure in_measure prod.case next_bit_progress)

declare set_bits_from.simps [simp del]

definition for_each_set_bit :: "bitmap \<Rightarrow> nat \<Rightarrow> (nat \<Rightarrow> 's \<Rightarrow> 's) \<Rightarrow> 's \<Rightarrow> 's" where
  "for_each_set_bit bm sz body s = fold body (set_bits_from bm sz (find_first_bit bm sz)) s"

definition bitmap_pos_to_ord :: "bitmap \<Rightarrow> nat \<Rightarrow> nat \<Rightarrow> int" where
  "bitmap_pos_to_ord buf pos nbits =
     (if nbits \<le> pos \<or> \<not> test_bit pos buf then - 1 else int (bitmap_weight_loop buf pos))"

fun ord_to_pos_loop :: "bitmap \<Rightarrow> nat \<Rightarrow> nat \<Rightarrow> nat \<Rightarrow> nat" where
  "ord_to_pos_loop buf nbits 0 pos = pos"
| "ord_to_pos_loop buf nbits (Suc ord) pos =
     (if pos < nbits then ord_to_pos_loop buf nbits ord (find_next_bit buf nbits (pos + 1)) else pos)"

definition bitmap_ord_to_pos :: "bitmap \<Rightarrow> nat \<Rightarrow> nat \<Rightarrow> nat" where
  "bitmap_ord_to_pos buf ord nbits = ord_to_pos_loop buf nbits ord (find_first_bit buf nbits)"

definition bitmap_remap :: "bool \<Rightarrow> bool \<Rightarrow> bitmap \<Rightarrow> bitmap \<Rightarrow> bitmap \<Rightarrow> bitmap \<Rightarrow> nat \<Rightarrow> bitmap" where
  "bitmap_remap same const dst src old new nbits =
     (if same then dst
      else
        let w = bitmap_weight const new nbits in
        for_each_set_bit src nbits
          (\<lambda>oldbit d.
             let n = bitmap_pos_to_ord old oldbit nbits in
             if n < 0 \<or> w = 0 then set_bit_at oldbit d
             else set_bit_at (bitmap_ord_to_pos new (nat n mod w) nbits) d)
          (bitmap_zero dst nbits))"

definition bitmap_bitremap :: "bool \<Rightarrow> nat \<Rightarrow> bitmap \<Rightarrow> bitmap \<Rightarrow> nat \<Rightarrow> nat" where
  "bitmap_bitremap const oldbit old new nbits =
     (let w = bitmap_weight const new nbits;
          n = bitmap_pos_to_ord old oldbit nbits
      in if n < 0 \<or> w = 0 then oldbit else bitmap_ord_to_pos new (nat n mod w) nbits)"

definition bitmap_onto :: "bool \<Rightarrow> bitmap \<Rightarrow> bitmap \<Rightarrow> bitmap \<Rightarrow> nat \<Rightarrow> bitmap" where
  "bitmap_onto same dst orig relmap nbits =
     (if same then dst
      else fst (for_each_set_bit relmap nbits
                  (\<lambda>n (d, m). (if test_bit m orig then set_bit_at n d else d, m + 1))
                  (bitmap_zero dst nbits, 0)))"

definition bitmap_fold :: "bool \<Rightarrow> bitmap \<Rightarrow> bitmap \<Rightarrow> nat \<Rightarrow> nat \<Rightarrow> bitmap" where
  "bitmap_fold same dst orig sz nbits =
     (if same then dst
      else for_each_set_bit orig nbits (\<lambda>oldbit d. set_bit_at (oldbit mod sz) d) (bitmap_zero dst nbits))"

definition DIV_ROUND_UP :: "nat \<Rightarrow> nat \<Rightarrow> nat" where
  "DIV_ROUND_UP n d = (n + d - 1) div d"

function from_arr32_loop :: "u32 list \<Rightarrow> nat \<Rightarrow> nat \<Rightarrow> bitmap \<Rightarrow> bitmap" where
  "from_arr32_loop buf halfwords i bitmap =
     (if i < halfwords then
        let b1 = bitmap[i div 2 := ucast (buf ! i)] in
        if i + 1 < halfwords
        then from_arr32_loop buf halfwords (i + 2) (b1[(i + 1) div 2 := b1 ! ((i + 1) div 2) OR push_bit 32 (ucast (buf ! (i + 1)))])
        else b1
      else bitmap)"
  by pat_completeness auto
termination
  by (relation "measure (\<lambda>(buf, halfwords, i, bitmap). halfwords - i)") auto

declare from_arr32_loop.simps [simp del]

definition bitmap_from_arr32 :: "bitmap \<Rightarrow> u32 list \<Rightarrow> nat \<Rightarrow> bitmap" where
  "bitmap_from_arr32 bitmap buf nbits =
     (let halfwords = DIV_ROUND_UP nbits 32;
          b = from_arr32_loop buf halfwords 0 bitmap;
          k = (halfwords - 1) div 2
      in if nbits mod BITS_PER_LONG \<noteq> 0 then b[k := b ! k AND BITMAP_LAST_WORD_MASK nbits] else b)"

function to_arr32_loop :: "bitmap \<Rightarrow> nat \<Rightarrow> nat \<Rightarrow> u32 list \<Rightarrow> u32 list" where
  "to_arr32_loop bitmap halfwords i buf =
     (if i < halfwords then
        let b1 = buf[i := ucast (bitmap ! (i div 2) AND 0xFFFFFFFF)] in
        if i + 1 < halfwords
        then to_arr32_loop bitmap halfwords (i + 2) (b1[i + 1 := ucast (drop_bit 32 (bitmap ! ((i + 1) div 2)))])
        else b1
      else buf)"
  by pat_completeness auto
termination
  by (relation "measure (\<lambda>(bitmap, halfwords, i, buf). halfwords - i)") auto

declare to_arr32_loop.simps [simp del]

definition bitmap_to_arr32 :: "u32 list \<Rightarrow> bitmap \<Rightarrow> nat \<Rightarrow> u32 list" where
  "bitmap_to_arr32 buf bitmap nbits =
     (let halfwords = DIV_ROUND_UP nbits 32;
          b = to_arr32_loop bitmap halfwords 0 buf;
          k = halfwords - 1
      in if nbits mod BITS_PER_LONG \<noteq> 0
         then b[k := b ! k AND drop_bit (nat ((- int nbits) AND 31)) 0xFFFFFFFF] else b)"

section \<open>The positions of the set bits\<close>

definition set_bits :: "bitmap \<Rightarrow> nat \<Rightarrow> nat list" where
  "set_bits bm n = filter (\<lambda>i. test_bit i bm) [0 ..< n]"

lemma set_set_bits [simp]: "set (set_bits bm n) = bits n bm"
  by (auto simp: set_bits_def bits_def)

lemma length_set_bits: "length (set_bits bm n) = card (bits n bm)"
  by (simp add: set_bits_def bits_def card_filter)

lemma filter_next_where:
  "filter P [a ..< sz] = (if next_where P sz a < sz then next_where P sz a # filter P [next_where P sz a + 1 ..< sz] else [])"
proof (cases "a \<le> sz")
  case True
  let ?p = "next_where P sz a"
  have le: "a \<le> ?p" "?p \<le> sz" using next_where_ge [OF True] next_where_le by auto
  then have "[a ..< sz] = [a ..< ?p] @ [?p ..< sz]" by (metis upt_add_eq_append le_add_diff_inverse)
  moreover have "filter P [a ..< ?p] = []" using next_where_skip [of a _ P sz] by (auto simp: filter_empty_conv)
  ultimately show ?thesis using next_where_hit [of P sz a] by (simp add: upt_conv_Cons)
qed (simp add: next_where_past)

lemma set_bits_from_eq: "set_bits_from bm sz (find_next_bit bm sz b) = filter (\<lambda>i. test_bit i bm) [b ..< sz]"
proof (induction "sz - b" arbitrary: b rule: less_induct)
  case less
  let ?p = "find_next_bit bm sz b"
  show ?case
  proof (cases "?p < sz")
    case True
    then have "b \<le> ?p" using next_where_hit [of _ sz b] by (simp add: find_next_bit_eq)
    then show ?thesis using less [of "?p + 1"] True filter_next_where [of "\<lambda>i. test_bit i bm" b sz]
      by (subst set_bits_from.simps) (simp add: find_next_bit_eq)
  qed (use filter_next_where [of "\<lambda>i. test_bit i bm" b sz] in \<open>simp add: set_bits_from.simps find_next_bit_eq\<close>)
qed

lemma for_each_set_bit_eq: "for_each_set_bit bm sz body s = fold body (set_bits bm sz) s"
  using set_bits_from_eq [of bm sz 0] by (simp add: for_each_set_bit_def set_bits_def find_first_bit_eq find_next_bit_eq)

lemma ord_to_pos_loop_eq:
  "ord_to_pos_loop bm n ord (find_next_bit bm n b) =
     (let xs = filter (\<lambda>i. test_bit i bm) [b ..< n] in if ord < length xs then xs ! ord else n)"
proof (induction ord arbitrary: b)
  case 0
  then show ?case using filter_next_where [of "\<lambda>i. test_bit i bm" b n] next_where_le [of "\<lambda>i. test_bit i bm" n b]
    by (auto simp: find_next_bit_eq Let_def)
next
  case (Suc ord)
  show ?case using Suc [of "find_next_bit bm n b + 1"] filter_next_where [of "\<lambda>i. test_bit i bm" b n] next_where_le [of "\<lambda>i. test_bit i bm" n b]
    by (auto simp: find_next_bit_eq Let_def)
qed

lemma bitmap_ord_to_pos_eq: "bitmap_ord_to_pos bm ord n = (if ord < card (bits n bm) then set_bits bm n ! ord else n)"
  using ord_to_pos_loop_eq [of bm n ord 0]
  by (simp add: bitmap_ord_to_pos_def set_bits_def length_set_bits [symmetric] Let_def find_first_bit_eq find_next_bit_eq)

section \<open>Ordinals\<close>

lemma set_bits_at:
  assumes "pos \<in> bits n bm"
  shows "card (bits pos bm) < card (bits n bm)" "set_bits bm n ! card (bits pos bm) = pos"
proof -
  have "pos < n" "test_bit pos bm" using assms by (simp_all add: bits_def)
  then have "[0 ..< n] = [0 ..< pos] @ pos # [pos + 1 ..< n]" by (metis Suc_eq_plus1 less_imp_le_nat le_add_diff_inverse upt_add_eq_append zero_le upt_conv_Cons)
  then have "set_bits bm n = set_bits bm pos @ pos # filter (\<lambda>i. test_bit i bm) [pos + 1 ..< n]"
    using \<open>test_bit pos bm\<close> by (simp add: set_bits_def)
  then show "card (bits pos bm) < card (bits n bm)" "set_bits bm n ! card (bits pos bm) = pos"
    by (simp_all add: length_set_bits [symmetric] nth_append)
qed

lemma set_bits_ord:
  assumes "ord < card (bits n bm)"
  shows "set_bits bm n ! ord \<in> bits n bm" "card (bits (set_bits bm n ! ord) bm) = ord"
proof -
  show p: "set_bits bm n ! ord \<in> bits n bm" using nth_mem [of ord "set_bits bm n"] assms by (simp add: length_set_bits)
  have "distinct (set_bits bm n)" by (simp add: set_bits_def)
  then show "card (bits (set_bits bm n ! ord) bm) = ord"
    using set_bits_at [OF p] assms by (simp add: nth_eq_iff_index_eq length_set_bits)
qed

lemma pos_to_ord_eq: "bitmap_pos_to_ord bm pos n = (if pos \<in> bits n bm then int (card (bits pos bm)) else - 1)"
  by (auto simp: bitmap_pos_to_ord_def weight_loop_card bits_def)

lemma ord_of_pos: "pos \<in> bits n bm \<Longrightarrow> bitmap_ord_to_pos bm (nat (bitmap_pos_to_ord bm pos n)) n = pos"
  by (simp add: bitmap_ord_to_pos_eq pos_to_ord_eq set_bits_at)

lemma pos_of_ord: "ord < card (bits n bm) \<Longrightarrow> bitmap_pos_to_ord bm (bitmap_ord_to_pos bm ord n) n = int ord"
  by (simp add: bitmap_ord_to_pos_eq pos_to_ord_eq set_bits_ord)

section \<open>Translated bitmaps\<close>

lemma length_set_bit_at [simp]: "length (set_bit_at nr bm) = length bm"
  by (simp add: set_bit_at_def)

lemma fold_set_bits:
  "(\<And>b. b \<in> set xs \<Longrightarrow> f b < 64 * length d) \<Longrightarrow>
     bits n (fold (\<lambda>b d. set_bit_at (f b) d) xs d) = bits n d \<union> {i. i < n \<and> i \<in> f ` set xs}"
  by (induction xs arbitrary: d) (auto simp: set_bit_bits)

lemma length_bitmap_zero [simp]: "length (bitmap_zero dst n) = length dst"
  by (simp add: bitmap_zero_def)

lemma finite_bits [simp]: "finite (bits n bm)"
  by (simp add: bits_def)

lemma bitmap_bitremap_eq:
  "bitmap_bitremap const b old new n =
     (if b \<in> bits n old \<and> bits n new \<noteq> {} then set_bits new n ! (card (bits b old) mod card (bits n new)) else b)"
proof (cases "bits n new = {}")
  case False
  then have "0 < card (bits n new)" by (simp add: card_gt_0_iff)
  then show ?thesis using False
    by (simp add: bitmap_bitremap_def Let_def pos_to_ord_eq bitmap_ord_to_pos_eq bitmap_weight_card)
qed (simp add: bitmap_bitremap_def bitmap_weight_card)

lemma bitremap_lt:
  assumes "b < n"
  shows "bitmap_bitremap const b old new n < n"
proof (cases "bits n new = {}")
  case False
  then have "card (bits b old) mod card (bits n new) < card (bits n new)" by (simp add: card_gt_0_iff)
  then have "set_bits new n ! (card (bits b old) mod card (bits n new)) \<in> bits n new" by (rule set_bits_ord)
  then show ?thesis using assms by (auto simp: bitmap_bitremap_eq bits_def)
qed (use assms in \<open>simp add: bitmap_bitremap_eq\<close>)

lemma bitmap_remap_bits:
  assumes "n \<le> 64 * length dst"
  shows "bits n (bitmap_remap False const dst src old new n) = (\<lambda>b. bitmap_bitremap const b old new n) ` bits n src"
proof -
  have lt: "bitmap_bitremap const b old new n < n" if "b \<in> bits n src" for b using that by (intro bitremap_lt) (simp add: bits_def)
  have "bitmap_remap False const dst src old new n =
      fold (\<lambda>b d. set_bit_at (bitmap_bitremap const b old new n) d) (set_bits src n) (bitmap_zero dst n)"
    unfolding bitmap_remap_def for_each_set_bit_eq bitmap_bitremap_def Let_def if_False
    by (rule fold_cong) simp_all
  also have "bits n \<dots> = bits n (bitmap_zero dst n) \<union> {i. i < n \<and> i \<in> (\<lambda>b. bitmap_bitremap const b old new n) ` set (set_bits src n)}"
    by (rule fold_set_bits) (use less_le_trans [OF lt assms] in simp)
  finally show ?thesis using lt assms by (auto simp: bitmap_zero_bits)
qed

lemma bitmap_fold_bits:
  assumes "n \<le> 64 * length dst" "0 < sz"
  shows "bits n (bitmap_fold False dst orig sz n) = (\<lambda>b. b mod sz) ` bits n orig"
proof -
  have lt: "b mod sz < n" if "b \<in> bits n orig" for b using that by (auto simp: bits_def intro: le_less_trans [OF mod_less_eq_dividend])
  have "bits n (bitmap_fold False dst orig sz n) = bits n (bitmap_zero dst n) \<union> {i. i < n \<and> i \<in> (\<lambda>b. b mod sz) ` set (set_bits orig n)}"
    unfolding bitmap_fold_def for_each_set_bit_eq if_False
    by (rule fold_set_bits) (use lt assms in \<open>auto intro: less_le_trans\<close>)
  then show ?thesis using lt assms by (auto simp: bitmap_zero_bits)
qed

lemma onto_fold:
  assumes "\<And>b. b \<in> set xs \<Longrightarrow> b < 64 * length d"
  shows "bits n (fst (fold (\<lambda>b (d, m). (if test_bit m orig then set_bit_at b d else d, m + 1)) xs (d, m0))) =
    bits n d \<union> {i. i < n \<and> (\<exists>m < length xs. test_bit (m0 + m) orig \<and> i = xs ! m)}"
  using assms
proof (induction xs arbitrary: d m0)
  case (Cons x xs)
  let ?d = "if test_bit m0 orig then set_bit_at x d else d"
  have "bits n ?d = bits n d \<union> {i. i < n \<and> test_bit m0 orig \<and> i = x}" using Cons.prems by (auto simp: set_bit_bits)
  then show ?case using Cons.IH [of ?d "m0 + 1"] Cons.prems by (auto simp: less_Suc_eq_0_disj)
qed simp

lemma bitmap_onto_bits:
  assumes "n \<le> 64 * length dst"
  shows "bits n (bitmap_onto False dst orig relmap n) = {set_bits relmap n ! m | m. m < card (bits n relmap) \<and> test_bit m orig}"
proof -
  have lt: "set_bits relmap n ! m < n" if "m < card (bits n relmap)" for m using set_bits_ord(1) [OF that] by (simp add: bits_def)
  have "bits n (bitmap_onto False dst orig relmap n) =
      bits n (bitmap_zero dst n) \<union> {i. i < n \<and> (\<exists>m < length (set_bits relmap n). test_bit (0 + m) orig \<and> i = set_bits relmap n ! m)}"
    unfolding bitmap_onto_def for_each_set_bit_eq if_False
    by (rule onto_fold) (use assms in \<open>auto simp: bits_def intro: less_le_trans\<close>)
  then show ?thesis using lt assms by (auto simp: bitmap_zero_bits length_set_bits)
qed

section \<open>Arrays of 32-bit words\<close>

definition half_bit :: "u32 list \<Rightarrow> nat \<Rightarrow> bool" where
  "half_bit buf i \<longleftrightarrow> bit (buf ! (i div 32)) (i mod 32)"

lemma from_arr32_loop_nth:
  assumes "even i" "halfwords \<le> 2 * length bm"
  shows "length (from_arr32_loop buf halfwords i bm) = length bm \<and>
    (k < length bm \<longrightarrow> from_arr32_loop buf halfwords i bm ! k =
       (if i \<le> 2 * k \<and> 2 * k < halfwords
        then ucast (buf ! (2 * k)) OR (if 2 * k + 1 < halfwords then push_bit 32 (ucast (buf ! (2 * k + 1))) else 0)
        else bm ! k))"
  using assms
proof (induction buf halfwords i bm rule: from_arr32_loop.induct)
  case (1 buf halfwords i bm)
  obtain j where j: "i = 2 * j" using "1.prems"(1) by blast
  consider "\<not> i < halfwords" | "i < halfwords" "\<not> i + 1 < halfwords" | "i + 1 < halfwords" by linarith
  then show ?case
  proof cases
    case 1
    then have "from_arr32_loop buf halfwords i bm = bm" by (simp add: from_arr32_loop.simps [of buf halfwords i])
    then show ?thesis using 1 by auto
  next
    case 2
    then have "from_arr32_loop buf halfwords i bm = bm[j := ucast (buf ! i)]" unfolding from_arr32_loop.simps [of buf halfwords i] using j by simp
    moreover have "i \<le> 2 * k \<and> 2 * k < halfwords \<longleftrightarrow> k = j" "\<not> 2 * j + 1 < halfwords" using 2 j by auto
    ultimately show ?thesis using j by (simp add: nth_list_update)
  next
    case 3
    let ?b = "bm[j := ucast (buf ! i) OR push_bit 32 (ucast (buf ! (i + 1)))]"
    have i: "i < halfwords" "j < length bm" using j 3 "1.prems"(2) by auto
    then have eq: "from_arr32_loop buf halfwords i bm = from_arr32_loop buf halfwords (i + 2) ?b"
      unfolding from_arr32_loop.simps [of buf halfwords i] using 3 j by (simp add: Let_def)
    have "i \<le> 2 * k \<longleftrightarrow> k = j \<or> i + 2 \<le> 2 * k" using j by auto
    then show ?thesis unfolding eq using "1.IH" [OF i(1) refl 3] 3 i j "1.prems" by (simp add: nth_list_update)
  qed
qed

lemma to_arr32_loop_nth:
  assumes "even i" "halfwords \<le> length buf"
  shows "length (to_arr32_loop bm halfwords i buf) = length buf \<and>
    (k < length buf \<longrightarrow> to_arr32_loop bm halfwords i buf ! k =
       (if i \<le> k \<and> k < halfwords
        then if even k then ucast (bm ! (k div 2) AND 0xFFFFFFFF) else ucast (drop_bit 32 (bm ! (k div 2)))
        else buf ! k))"
  using assms
proof (induction bm halfwords i buf rule: to_arr32_loop.induct)
  case (1 bm halfwords i buf)
  let ?w = "\<lambda>k. if even k then ucast (bm ! (k div 2) AND 0xFFFFFFFF) else ucast (drop_bit 32 (bm ! (k div 2)))"
  consider "\<not> i < halfwords" | "i < halfwords" "\<not> i + 1 < halfwords" | "i + 1 < halfwords" by linarith
  then show ?case
  proof cases
    case 1
    then have "to_arr32_loop bm halfwords i buf = buf" by (simp add: to_arr32_loop.simps [of bm halfwords i])
    then show ?thesis using 1 by auto
  next
    case 2
    then have "to_arr32_loop bm halfwords i buf = buf[i := ?w i]" using "1.prems"(1) by (simp add: to_arr32_loop.simps [of bm halfwords i])
    moreover have "i \<le> k \<and> k < halfwords \<longleftrightarrow> k = i" using 2 by auto
    ultimately show ?thesis using "1.prems"(1) by (simp add: nth_list_update)
  next
    case 3
    have i: "i < halfwords" using 3 by simp
    then have eq: "to_arr32_loop bm halfwords i buf = to_arr32_loop bm halfwords (i + 2) (buf[i := ?w i, i + 1 := ?w (i + 1)])"
      using 3 "1.prems"(1) by (simp add: to_arr32_loop.simps [of bm halfwords i] Let_def)
    have "i \<le> k \<longleftrightarrow> k = i \<or> k = i + 1 \<or> i + 2 \<le> k" by auto
    then show ?thesis unfolding eq using "1.IH" [OF i(1) refl 3] 3 i "1.prems" by (auto simp: nth_list_update)
  qed
qed

lemma halfwords_div: "i < n \<Longrightarrow> i div 32 < DIV_ROUND_UP n 32"
  by (simp add: DIV_ROUND_UP_def less_eq_Suc_le div_le_mono flip: div_add_self2)

lemma DIV_ROUND_UP_le: "n \<le> 64 * m \<Longrightarrow> DIV_ROUND_UP n 32 \<le> 2 * m"
  by (simp add: DIV_ROUND_UP_def)

lemma half_index:
  fixes i :: nat
  shows "i div 32 = 2 * (i div 64) + (if i mod 64 < 32 then 0 else 1)" "i mod 32 = i mod 64 - (if i mod 64 < 32 then 0 else 32)"
proof -
  define q r where "q = i div 64" and "r = i mod 64"
  have i: "i = r + 32 * (2 * q)" and r: "r < 64" using div_mult_mod_eq [of i 64] by (simp_all add: q_def r_def)
  have rd: "r div 32 = (if r < 32 then 0 else 1)" using r by (auto intro: div_nat_eqI)
  have d: "i div 32 = r div 32 + 2 * q" unfolding i by simp
  show "i div 32 = 2 * (i div 64) + (if i mod 64 < 32 then 0 else 1)"
    unfolding q_def [symmetric] r_def [symmetric] using d rd by simp
  show "i mod 32 = i mod 64 - (if i mod 64 < 32 then 0 else 32)"
    unfolding r_def [symmetric] using d rd i minus_div_mult_eq_mod [of i 32] by (simp split: if_splits)
qed

lemma half_high: "\<not> j < 32 \<Longrightarrow> \<not> bit w j" for w :: u32
  using bit_imp_le_length [of w j] by auto

lemma bit_low_half: "bit (0xFFFFFFFF :: int) m \<longleftrightarrow> m < 32"
proof -
  have "(0xFFFFFFFF :: int) = mask 32" by (simp add: mask_eq_exp_minus_1)
  then show ?thesis by (simp only: bit_mask_iff) simp
qed

lemma from_arr32_loop_bit:
  assumes "i < n" "n \<le> 64 * length bm"
  shows "test_bit i (from_arr32_loop buf (DIV_ROUND_UP n 32) 0 bm) \<longleftrightarrow> half_bit buf i"
proof -
  let ?h = "DIV_ROUND_UP n 32"
  have "i div 64 < length bm" using in_range [OF assms] .
  moreover have "2 * (i div 64) + (if i mod 64 < 32 then 0 else 1) < ?h" using halfwords_div [OF assms(1)] by (simp only: half_index)
  moreover have "i mod 64 < 64" by simp
  ultimately show ?thesis using from_arr32_loop_nth [of 0 ?h bm buf "i div 64"] DIV_ROUND_UP_le [OF assms(2)]
    by (auto simp: test_bit_iff half_bit_def half_index bit_simps half_high)
qed

lemma to_arr32_loop_bit:
  assumes "i < n" "DIV_ROUND_UP n 32 \<le> length buf"
  shows "half_bit (to_arr32_loop bm (DIV_ROUND_UP n 32) 0 buf) i \<longleftrightarrow> test_bit i bm"
proof -
  have "i div 32 < DIV_ROUND_UP n 32" by (rule halfwords_div [OF assms(1)])
  then show ?thesis using to_arr32_loop_nth [of 0 "DIV_ROUND_UP n 32" buf bm "i div 32"] assms(2)
    by (auto simp: test_bit_iff half_bit_def bit_simps bit_low_half half_index)
qed

lemma last_half_shift: "nat ((- int n) AND 31) = (32 - n mod 32) mod 32"
proof -
  have "- int n AND 31 = - int n mod 32" using take_bit_eq_mod [of 5 "- int n"] take_bit_eq_mask [of 5 "- int n"] by (simp add: mask_eq_exp_minus_1)
  also have "\<dots> = int ((32 - n mod 32) mod 32)" by (simp add: zmod_zminus1_eq_if of_nat_diff zmod_int)
  finally show ?thesis by simp
qed

lemma same_div_mod: "i \<le> m \<Longrightarrow> i div d = m div d \<Longrightarrow> i mod d \<le> m mod d" for i m d :: nat
  by (metis add_le_cancel_left div_mult_mod_eq)

lemma last_half: "n \<noteq> 0 \<Longrightarrow> DIV_ROUND_UP n 32 = Suc ((n - 1) div 32)" "n \<noteq> 0 \<Longrightarrow> (32 - n mod 32) mod 32 = 31 - (n - 1) mod 32"
proof -
  assume n: "n \<noteq> 0"
  then have "n + 32 - 1 = (n - 1) + 32" by simp
  then show "DIV_ROUND_UP n 32 = Suc ((n - 1) div 32)" unfolding DIV_ROUND_UP_def by simp
  obtain m where m: "n = Suc m" using n by (cases n) auto
  have "m mod 32 < 32" by simp
  then show "(32 - n mod 32) mod 32 = 31 - (n - 1) mod 32" unfolding m by (auto simp: mod_Suc)
qed

lemma bitmap_to_arr32_bit:
  assumes "i < n" "DIV_ROUND_UP n 32 \<le> length buf"
  shows "half_bit (bitmap_to_arr32 buf bm n) i \<longleftrightarrow> test_bit i bm"
proof -
  have n: "n \<noteq> 0" "i \<le> n - 1" using assms(1) by simp_all
  let ?h = "DIV_ROUND_UP n 32" and ?b = "to_arr32_loop bm (DIV_ROUND_UP n 32) 0 buf"
  let ?m = "drop_bit (nat ((- int n) AND 31)) 0xFFFFFFFF :: u32"
  have "i mod 32 \<le> (n - 1) mod 32" if "i div 32 = (n - 1) div 32" using same_div_mod [OF n(2) that] .
  then have keep: "bit ?m (i mod 32)" if "i div 32 = ?h - 1"
    using that mod_less_divisor [of 32 "n - 1"] unfolding last_half_shift last_half(1) [OF n(1)] last_half(2) [OF n(1)]
    by (simp add: bit_drop_bit_eq bit_low_half) linarith
  have len: "?h - 1 < length ?b" using to_arr32_loop_nth [of 0 ?h buf bm] assms(2) last_half(1) [OF n(1)] by simp
  have "half_bit (?b[?h - 1 := ?b ! (?h - 1) AND ?m]) i \<longleftrightarrow> half_bit ?b i"
    using keep len by (cases "i div 32 = ?h - 1") (auto simp: half_bit_def bit_and_iff)
  then show ?thesis using to_arr32_loop_bit [OF assms, of bm] by (simp add: bitmap_to_arr32_def Let_def)
qed

lemma bitmap_from_arr32_bit:
  assumes "i < n" "n \<le> 64 * length bm"
  shows "test_bit i (bitmap_from_arr32 bm buf n) \<longleftrightarrow> half_bit buf i"
proof -
  have n: "n \<noteq> 0" "i \<le> n - 1" using assms(1) by simp_all
  let ?h = "DIV_ROUND_UP n 32" and ?b = "from_arr32_loop buf (DIV_ROUND_UP n 32) 0 bm"
  have k: "(?h - 1) div 2 = (n - 1) div 64" unfolding last_half(1) [OF n(1)] by (simp add: div_mult2_eq [of _ 32 2, simplified])
  have keep: "bit (BITMAP_LAST_WORD_MASK n) (i mod 64)" if "i div 64 = (n - 1) div 64"
    using same_div_mod [OF n(2) that] unfolding bit_last_word_mask' [OF n(1)] .
  have "length ?b = length bm" using from_arr32_loop_nth [of 0 ?h bm buf] DIV_ROUND_UP_le [OF assms(2)] by simp
  then have len: "i div 64 < length ?b" using in_range [OF assms] by simp
  have "test_bit i (?b[(n - 1) div 64 := ?b ! ((n - 1) div 64) AND BITMAP_LAST_WORD_MASK n]) \<longleftrightarrow> test_bit i ?b"
    using keep len by (cases "i div 64 = (n - 1) div 64") (auto simp: test_bit_iff bit_and_iff)
  then show ?thesis using from_arr32_loop_bit [OF assms, of buf] k by (simp add: bitmap_from_arr32_def Let_def)
qed

lemma arr32_round_trip:
  assumes "n \<le> 64 * length dst" "DIV_ROUND_UP n 32 \<le> length buf"
  shows "bits n (bitmap_from_arr32 dst (bitmap_to_arr32 buf bm n) n) = bits n bm"
  using bitmap_from_arr32_bit [OF _ assms(1)] bitmap_to_arr32_bit [OF _ assms(2)] by (auto simp: bits_def)

end
