(* ===== verification/Ctype.thy ===== *)
theory Ctype
  imports Kernel_Prelude
begin

unbundle bit_operations_syntax

text \<open>
  Character classes (\<open>include/linux/ctype.h\<close>, \<open>lib/ctype.c\<close>) and hexadecimal digits
  (\<open>lib/hexdump.c\<close>). A C character is its code, an \<open>unsigned char\<close> in the range of \<open>of_char\<close>; a C string is a
  character list, ended by the end of the list or by the first NUL in it.
\<close>

section \<open>The class table\<close>

definition CT_U :: nat where "CT_U = 0x01"
definition CT_L :: nat where "CT_L = 0x02"
definition CT_D :: nat where "CT_D = 0x04"
definition CT_C :: nat where "CT_C = 0x08"
definition CT_P :: nat where "CT_P = 0x10"
definition CT_S :: nat where "CT_S = 0x20"
definition CT_X :: nat where "CT_X = 0x40"
definition CT_SP :: nat where "CT_SP = 0x80"

definition ctype_table :: "nat list" where
  "ctype_table =
     replicate 8 CT_C @
     [CT_C, CT_C OR CT_S, CT_C OR CT_S, CT_C OR CT_S, CT_C OR CT_S, CT_C OR CT_S, CT_C, CT_C] @
     replicate 8 CT_C @
     replicate 8 CT_C @
     [CT_S OR CT_SP, CT_P, CT_P, CT_P, CT_P, CT_P, CT_P, CT_P] @
     replicate 8 CT_P @
     replicate 8 CT_D @
     [CT_D, CT_D, CT_P, CT_P, CT_P, CT_P, CT_P, CT_P] @
     [CT_P, CT_U OR CT_X, CT_U OR CT_X, CT_U OR CT_X, CT_U OR CT_X, CT_U OR CT_X, CT_U OR CT_X, CT_U] @
     replicate 8 CT_U @
     replicate 8 CT_U @
     [CT_U, CT_U, CT_U, CT_P, CT_P, CT_P, CT_P, CT_P] @
     [CT_P, CT_L OR CT_X, CT_L OR CT_X, CT_L OR CT_X, CT_L OR CT_X, CT_L OR CT_X, CT_L OR CT_X, CT_L] @
     replicate 8 CT_L @
     replicate 8 CT_L @
     [CT_L, CT_L, CT_L, CT_P, CT_P, CT_P, CT_P, CT_C] @
     replicate 16 0 @
     replicate 16 0 @
     [CT_S OR CT_SP, CT_P, CT_P, CT_P, CT_P, CT_P, CT_P, CT_P, CT_P, CT_P, CT_P, CT_P, CT_P, CT_P, CT_P, CT_P] @
     replicate 16 CT_P @
     replicate 16 CT_U @
     [CT_U, CT_U, CT_U, CT_U, CT_U, CT_U, CT_U, CT_P, CT_U, CT_U, CT_U, CT_U, CT_U, CT_U, CT_U, CT_L] @
     replicate 16 CT_L @
     [CT_L, CT_L, CT_L, CT_L, CT_L, CT_L, CT_L, CT_P, CT_L, CT_L, CT_L, CT_L, CT_L, CT_L, CT_L, CT_L]"

definition ismask :: "nat \<Rightarrow> nat" where "ismask x = ctype_table ! (x mod 256)"

definition isalnum :: "nat \<Rightarrow> bool" where "isalnum c \<longleftrightarrow> ismask c AND (CT_U OR CT_L OR CT_D) \<noteq> 0"
definition isalpha :: "nat \<Rightarrow> bool" where "isalpha c \<longleftrightarrow> ismask c AND (CT_U OR CT_L) \<noteq> 0"
definition iscntrl :: "nat \<Rightarrow> bool" where "iscntrl c \<longleftrightarrow> ismask c AND CT_C \<noteq> 0"
definition isdigit :: "nat \<Rightarrow> bool" where "isdigit c \<longleftrightarrow> 48 \<le> c \<and> c \<le> 57"
definition isgraph :: "nat \<Rightarrow> bool" where "isgraph c \<longleftrightarrow> ismask c AND (CT_P OR CT_U OR CT_L OR CT_D) \<noteq> 0"
definition islower :: "nat \<Rightarrow> bool" where "islower c \<longleftrightarrow> ismask c AND CT_L \<noteq> 0"
definition isprint :: "nat \<Rightarrow> bool" where "isprint c \<longleftrightarrow> ismask c AND (CT_P OR CT_U OR CT_L OR CT_D OR CT_SP) \<noteq> 0"
definition ispunct :: "nat \<Rightarrow> bool" where "ispunct c \<longleftrightarrow> ismask c AND CT_P \<noteq> 0"
definition isspace :: "nat \<Rightarrow> bool" where "isspace c \<longleftrightarrow> ismask c AND CT_S \<noteq> 0"
definition isupper :: "nat \<Rightarrow> bool" where "isupper c \<longleftrightarrow> ismask c AND CT_U \<noteq> 0"
definition isxdigit :: "nat \<Rightarrow> bool" where "isxdigit c \<longleftrightarrow> ismask c AND (CT_D OR CT_X) \<noteq> 0"
definition isodigit :: "nat \<Rightarrow> bool" where "isodigit c \<longleftrightarrow> 48 \<le> c \<and> c \<le> 55"

text \<open>\<open>c -= 'A' - 'a'\<close> and \<open>c -= 'a' - 'A'\<close> on an \<open>unsigned char\<close>.\<close>

definition tolower :: "nat \<Rightarrow> nat" where
  "tolower c = (if isupper c then (c + 32) mod 256 else c)"

definition toupper :: "nat \<Rightarrow> nat" where
  "toupper c = (if islower c then (c + 256 - 32) mod 256 else c)"

definition fast_tolower :: "nat \<Rightarrow> nat" where
  "fast_tolower c = c OR 0x20"

definition hex_to_bin :: "nat \<Rightarrow> int" where
  "hex_to_bin ch =
     (if 48 \<le> ch \<and> ch \<le> 57 then int ch - 48
      else
        let ch1 = tolower ch in
        if 97 \<le> ch1 \<and> ch1 \<le> 102 then int ch1 - 97 + 10 else - 1)"

text \<open>The character at an index of a C string, NUL at the end of the list.\<close>

definition char_at :: "string \<Rightarrow> nat \<Rightarrow> nat" where
  "char_at s i = (if i < length s then of_char (s ! i) else 0)"

section \<open>What the classes are\<close>

lemma replicate_rows:
  "replicate 8 x = [x, x, x, x, x, x, x, x]"
  "replicate 16 x = [x, x, x, x, x, x, x, x, x, x, x, x, x, x, x, x]"
  by (simp_all add: numeral_eq_Suc)

lemma ctype_table_eq:
  "ctype_table =
    [8, 8, 8, 8, 8, 8, 8, 8, 8, 40, 40, 40, 40, 40, 8, 8,
     8, 8, 8, 8, 8, 8, 8, 8, 8, 8, 8, 8, 8, 8, 8, 8,
     160, 16, 16, 16, 16, 16, 16, 16, 16, 16, 16, 16, 16, 16, 16, 16,
     4, 4, 4, 4, 4, 4, 4, 4, 4, 4, 16, 16, 16, 16, 16, 16,
     16, 65, 65, 65, 65, 65, 65, 1, 1, 1, 1, 1, 1, 1, 1, 1,
     1, 1, 1, 1, 1, 1, 1, 1, 1, 1, 1, 16, 16, 16, 16, 16,
     16, 66, 66, 66, 66, 66, 66, 2, 2, 2, 2, 2, 2, 2, 2, 2,
     2, 2, 2, 2, 2, 2, 2, 2, 2, 2, 2, 16, 16, 16, 16, 8,
     0, 0, 0, 0, 0, 0, 0, 0, 0, 0, 0, 0, 0, 0, 0, 0,
     0, 0, 0, 0, 0, 0, 0, 0, 0, 0, 0, 0, 0, 0, 0, 0,
     160, 16, 16, 16, 16, 16, 16, 16, 16, 16, 16, 16, 16, 16, 16, 16,
     16, 16, 16, 16, 16, 16, 16, 16, 16, 16, 16, 16, 16, 16, 16, 16,
     1, 1, 1, 1, 1, 1, 1, 1, 1, 1, 1, 1, 1, 1, 1, 1,
     1, 1, 1, 1, 1, 1, 1, 16, 1, 1, 1, 1, 1, 1, 1, 2,
     2, 2, 2, 2, 2, 2, 2, 2, 2, 2, 2, 2, 2, 2, 2, 2,
     2, 2, 2, 2, 2, 2, 2, 16, 2, 2, 2, 2, 2, 2, 2, 2]"
  by (simp add: ctype_table_def CT_U_def CT_L_def CT_D_def CT_C_def CT_P_def CT_S_def CT_X_def CT_SP_def replicate_rows)

lemma classes_table:
  "list_all (\<lambda>(c, m).
     (m AND 32 \<noteq> 0 \<longleftrightarrow> c = 9 \<or> c = 10 \<or> c = 11 \<or> c = 12 \<or> c = 13 \<or> c = 32 \<or> c = 160) \<and>
     (m AND 68 \<noteq> 0 \<longleftrightarrow> 48 \<le> c \<and> c \<le> 57 \<or> 65 \<le> c \<and> c \<le> 70 \<or> 97 \<le> c \<and> c \<le> 102) \<and>
     (m AND 1 \<noteq> 0 \<longleftrightarrow> 65 \<le> c \<and> c \<le> 90 \<or> 192 \<le> c \<and> c \<le> 222 \<and> c \<noteq> 215) \<and>
     (m AND 2 \<noteq> 0 \<longleftrightarrow> 97 \<le> c \<and> c \<le> 122 \<or> 223 \<le> c \<and> c \<le> 255 \<and> c \<noteq> 247) \<and>
     c OR 32 = (if c mod 64 < 32 then c + 32 else c)) (zip [0 .. 255 :: int] (map int ctype_table))"
  unfolding ctype_table_eq list.map of_nat_numeral of_nat_0 of_nat_1 by code_simp

lemma class_row:
  assumes "c < 256"
  shows "(int c, int (ctype_table ! c)) \<in> set (zip [0 .. 255 :: int] (map int ctype_table))"
proof -
  have len: "length ctype_table = 256" by (simp add: ctype_table_eq)
  then have "zip [0 .. 255 :: int] (map int ctype_table) ! c = (int c, int (ctype_table ! c))"
    using assms by (simp add: nth_upto)
  moreover have "c < length (zip [0 .. 255 :: int] (map int ctype_table))" using assms len by simp
  ultimately show ?thesis by (metis nth_mem)
qed

lemma of_char_lt [simp]: "of_char c < (256 :: nat)"
  using of_char_mod_256 [of c, where ?'a = nat] mod_less_divisor [of 256 "of_char c :: nat"] by simp

lemma class_facts:
  assumes "c < 256"
  shows "isspace c \<longleftrightarrow> c \<in> {9, 10, 11, 12, 13, 32, 160}"
    "isxdigit c \<longleftrightarrow> 48 \<le> c \<and> c \<le> 57 \<or> 65 \<le> c \<and> c \<le> 70 \<or> 97 \<le> c \<and> c \<le> 102"
    "isupper c \<longleftrightarrow> 65 \<le> c \<and> c \<le> 90 \<or> 192 \<le> c \<and> c \<le> 222 \<and> c \<noteq> 215"
    "islower c \<longleftrightarrow> 97 \<le> c \<and> c \<le> 122 \<or> 223 \<le> c \<and> c \<le> 255 \<and> c \<noteq> 247"
    "fast_tolower c = (if c mod 64 < 32 then c + 32 else c)"
proof -
  have m: "int (ismask c) = int (ctype_table ! c)" "(ismask c AND k \<noteq> 0) = (int (ismask c) AND int k \<noteq> 0)" for k
    using assms by (simp_all add: ismask_def flip: of_nat_and_eq)
  note * = class_row [OF assms, THEN classes_table [unfolded list_all_iff, THEN bspec], unfolded prod.case m(1) [symmetric]]
  show "isspace c \<longleftrightarrow> c \<in> {9, 10, 11, 12, 13, 32, 160}"
    unfolding isspace_def m(2) using * [THEN conjunct1] by (simp add: CT_S_def)
  show "isxdigit c \<longleftrightarrow> 48 \<le> c \<and> c \<le> 57 \<or> 65 \<le> c \<and> c \<le> 70 \<or> 97 \<le> c \<and> c \<le> 102"
    unfolding isxdigit_def m(2) using * [THEN conjunct2, THEN conjunct1] by (simp add: CT_D_def CT_X_def)
  show "isupper c \<longleftrightarrow> 65 \<le> c \<and> c \<le> 90 \<or> 192 \<le> c \<and> c \<le> 222 \<and> c \<noteq> 215"
    unfolding isupper_def m(2) using * [THEN conjunct2, THEN conjunct2, THEN conjunct1] by (simp add: CT_U_def)
  show "islower c \<longleftrightarrow> 97 \<le> c \<and> c \<le> 122 \<or> 223 \<le> c \<and> c \<le> 255 \<and> c \<noteq> 247"
    unfolding islower_def m(2) using * [THEN conjunct2, THEN conjunct2, THEN conjunct2, THEN conjunct1] by (simp add: CT_L_def)
  have "int (fast_tolower c) = (if int c mod 64 < 32 then int c + 32 else int c)"
    using * [THEN conjunct2, THEN conjunct2, THEN conjunct2, THEN conjunct2] by (simp add: fast_tolower_def of_nat_or_eq)
  also have "\<dots> = int (if c mod 64 < 32 then c + 32 else c)" using zmod_int [of c 64] by simp
  finally show "fast_tolower c = (if c mod 64 < 32 then c + 32 else c)" by (simp only: of_nat_eq_iff)
qed

section \<open>Numbers as digit strings\<close>

text \<open>The value of a list of digits, most significant first, and the decimal representation of a number.\<close>

definition digits_value :: "nat \<Rightarrow> nat list \<Rightarrow> nat" where
  "digits_value base ds = foldl (\<lambda>v d. v * base + d) 0 ds"

fun dec_digits :: "nat \<Rightarrow> nat list" where
  "dec_digits n = (if n < 10 then [n] else dec_digits (n div 10) @ [n mod 10])"

declare dec_digits.simps [simp del]

definition digit_char :: "nat \<Rightarrow> char" where
  "digit_char d = char_of (48 + d)"

definition dec_string :: "nat \<Rightarrow> string" where
  "dec_string n = map digit_char (dec_digits n)"

lemma digits_value_snoc [simp]: "digits_value base (ds @ [d]) = digits_value base ds * base + d"
  by (simp add: digits_value_def)

lemma dec_digits_value: "digits_value 10 (dec_digits n) = n"
  by (induction n rule: dec_digits.induct) (subst dec_digits.simps, simp add: digits_value_def)

lemma dec_digits_lt: "d \<in> set (dec_digits n) \<Longrightarrow> d < 10"
  by (induction n rule: dec_digits.induct) (subst (asm) dec_digits.simps, auto split: if_splits)

lemma dec_digits_nonempty [simp]: "dec_digits n \<noteq> []"
  by (subst dec_digits.simps) simp

lemma of_char_digit: "d < 10 \<Longrightarrow> of_char (digit_char d) = 48 + d"
  by (simp add: digit_char_def)

end
