(* ===== verification/Bitmap_Parse.thy ===== *)
theory Bitmap_Parse
  imports Bitmap_Map Ctype
begin

unbundle bit_operations_syntax

text \<open>
  Bitmaps from text (\<open>lib/bitmap.c\<close>): lists of ranges (\<open>__bitmap_parselist\<close>, \<open>bitmap_parselist\<close>,
  \<open>bitmap_parselist_user\<close>). A buffer of \<open>buflen\<close> bytes is a list of that length; an element
  \<open>None\<close> is a byte of a user buffer that \<open>__get_user\<close> cannot read. The numbers of a list are \<open>unsigned int\<close>
  variables, so they wrap.
\<close>

section \<open>Lists of ranges\<close>

record plist =
  pl_c :: nat
  pl_a :: u32
  pl_b :: u32
  pl_old_a :: u32
  pl_old_b :: u32
  pl_used_size :: u32
  pl_at_start :: bool
  pl_in_range :: bool
  pl_in_partial :: bool
  pl_totaldigits :: nat

text \<open>
  The inner loop reads one number or range; \<open>ndigits\<close> is the digit count at its start. Its body on one
  character: an error, or the new state and whether the loop is left.
\<close>

definition parselist_char :: "nat \<Rightarrow> char \<Rightarrow> plist \<Rightarrow> int + bool \<times> plist" where
  "parselist_char ndigits ch st0 =
     (let old_c = pl_c st0; c = of_char ch; st = st0\<lparr>pl_c := c\<rparr> in
      if isspace c then Inr (False, st)
      else if c = 0 \<or> c = of_char (CHR '','') then Inr (True, st)
      else if pl_totaldigits st \<noteq> ndigits \<and> isspace old_c then Inl (- EINVAL)
      else if c = of_char (CHR ''/'') then
        Inr (False, st\<lparr>pl_used_size := pl_a st, pl_at_start := True, pl_in_range := False, pl_a := 0, pl_b := 0\<rparr>)
      else if c = of_char (CHR '':'') then
        Inr (False, st\<lparr>pl_old_a := pl_a st, pl_old_b := pl_b st, pl_at_start := True, pl_in_range := False,
                        pl_in_partial := True, pl_a := 0, pl_b := 0\<rparr>)
      else if c = of_char (CHR ''-'') then
        if pl_at_start st \<or> pl_in_range st then Inl (- EINVAL)
        else Inr (False, st\<lparr>pl_b := 0, pl_in_range := True, pl_at_start := True\<rparr>)
      else if \<not> isdigit c then Inl (- EINVAL)
      else
        let b = pl_b st * 10 + (word_of_nat c - 48) in
        Inr (False, st\<lparr>pl_b := b, pl_a := (if pl_in_range st then pl_a st else b), pl_at_start := False,
                        pl_totaldigits := pl_totaldigits st + 1\<rparr>))"

fun parselist_item :: "nat \<Rightarrow> char option list \<Rightarrow> plist \<Rightarrow> int + char option list \<times> plist" where
  "parselist_item ndigits [] st = Inr ([], st)"
| "parselist_item ndigits (None # rest) st = Inl (- EFAULT)"
| "parselist_item ndigits (Some ch # rest) st =
     (case parselist_char ndigits ch st of
        Inl err \<Rightarrow> Inl err
      | Inr (stop, st1) \<Rightarrow> if stop then Inr (rest, st1) else parselist_item ndigits rest st1)"

text \<open>\<open>while (a <= b)\<close>: \<open>a\<close> wraps, so that the loop ends is a theorem, and no end is \<open>None\<close>.\<close>

partial_function (option) set_groups :: "u32 \<Rightarrow> u32 \<Rightarrow> u32 \<Rightarrow> u32 \<Rightarrow> bitmap \<Rightarrow> bitmap option" where
  "set_groups a b used_size group_size maskp =
     (if a \<le> b then
        let off = min (b - a + 1) used_size in
        set_groups (a + group_size) b used_size group_size (bitmap_set (False, False) maskp (unat a) (unat off))
      else Some maskp)"

declare set_groups.simps [code]

lemma parselist_item_length:
  "parselist_item ndigits buf st = Inr (rest, st') \<Longrightarrow> buf \<noteq> [] \<Longrightarrow> length rest < length buf"
proof (induction ndigits buf st rule: parselist_item.induct)
  case (3 ndigits ch rst st)
  obtain stop st1 where ch: "parselist_char ndigits ch st = Inr (stop, st1)"
    using "3.prems"(1) by (cases "parselist_char ndigits ch st") auto
  show ?case
  proof (cases "stop \<or> rst = []")
    case False
    then show ?thesis using "3.IH" [OF ch refl] "3.prems"(1) ch by simp
  qed (use "3.prems"(1) ch in \<open>auto split: if_splits\<close>)
qed auto

lemma parselist_item_rest: "parselist_item ndigits buf st = Inr (rest, st') \<Longrightarrow> rest \<noteq> [] \<Longrightarrow> length rest < length buf"
  using parselist_item_length [of ndigits buf st rest st'] by (cases buf) auto

text \<open>One round of the outer loop after an item has been read: what it does to the mask, and whether it stops.\<close>

definition parselist_set :: "nat \<Rightarrow> plist \<Rightarrow> bitmap \<Rightarrow> nat \<Rightarrow> (bitmap \<times> plist \<times> int) option" where
  "parselist_set ndigits st maskp nmaskbits =
     (if ndigits = pl_totaldigits st then Some (maskp, st, 0)
      else
        let partial = pl_in_partial st;
            group_size = (if partial then pl_a st else pl_b st - pl_a st + 1);
            a = (if partial then pl_old_a st else pl_a st);
            b = (if partial then pl_old_b st else pl_b st);
            used_size = (if partial then pl_used_size st else group_size);
            st = (if partial then st\<lparr>pl_old_a := 0, pl_old_b := 0\<rparr> else st\<lparr>pl_used_size := used_size\<rparr>)
        in if pl_at_start st \<and> pl_in_range st then Some (maskp, st, - EINVAL)
           else if \<not> a \<le> b \<or> group_size = 0 \<or> \<not> used_size \<le> group_size then Some (maskp, st, - EINVAL)
           else if nmaskbits \<le> unat b then Some (maskp, st, - ERANGE)
           else map_option (\<lambda>m. (m, st, 0)) (set_groups a b used_size group_size maskp))"

function parselist_loop :: "char option list \<Rightarrow> plist \<Rightarrow> bitmap \<Rightarrow> nat \<Rightarrow> (bitmap \<times> int) option" where
  "parselist_loop buf st maskp nmaskbits =
     (let ndigits = pl_totaldigits st;
          st0 = st\<lparr>pl_at_start := True, pl_in_range := False, pl_in_partial := False, pl_a := 0, pl_b := 0\<rparr>
      in case parselist_item ndigits buf st0 of
           Inl err \<Rightarrow> Some (maskp, err)
         | Inr (rest, st1) \<Rightarrow>
             (case parselist_set ndigits st1 maskp nmaskbits of
                None \<Rightarrow> None
              | Some (maskp1, st2, err) \<Rightarrow>
                  if err \<noteq> 0 then Some (maskp1, err)
                  else if rest \<noteq> [] \<and> pl_c st2 = of_char (CHR '','') then parselist_loop rest st2 maskp1 nmaskbits
                  else Some (maskp1, 0)))"
  by pat_completeness auto
termination
  by (relation "measure (\<lambda>(buf, st, maskp, nmaskbits). length buf)") (auto dest: parselist_item_rest)

declare parselist_loop.simps [simp del]

definition parselist_init :: plist where
  "parselist_init = \<lparr>pl_c = 0, pl_a = 0, pl_b = 0, pl_old_a = 0, pl_old_b = 0, pl_used_size = 0,
     pl_at_start = True, pl_in_range = False, pl_in_partial = False, pl_totaldigits = 0\<rparr>"

definition bitmap_parselist_buf :: "char option list \<Rightarrow> bitmap \<Rightarrow> nat \<Rightarrow> (bitmap \<times> int) option" where
  "bitmap_parselist_buf buf maskp nmaskbits = parselist_loop buf parselist_init (bitmap_zero maskp nmaskbits) nmaskbits"

text \<open>\<open>strchrnul(bp, '\\n')\<close> ends the buffer.\<close>

definition bitmap_parselist :: "string \<Rightarrow> bitmap \<Rightarrow> nat \<Rightarrow> (bitmap \<times> int) option" where
  "bitmap_parselist bp maskp nmaskbits = bitmap_parselist_buf (map Some (takeWhile (\<lambda>c. c \<noteq> CHR 10) bp)) maskp nmaskbits"

text \<open>\<open>ok\<close> is the result of \<open>access_ok\<close>.\<close>

definition bitmap_parselist_user :: "bool \<Rightarrow> char option list \<Rightarrow> bitmap \<Rightarrow> nat \<Rightarrow> (bitmap \<times> int) option" where
  "bitmap_parselist_user ok ubuf maskp nmaskbits =
     (if \<not> ok then Some (maskp, - EFAULT) else bitmap_parselist_buf ubuf maskp nmaskbits)"

section \<open>Setting the groups of a range\<close>

lemma u32_add_nowrap: "unat a + unat g < 2 ^ 32 \<Longrightarrow> unat (a + g) = unat a + unat g" for a g :: u32
  by (simp add: unat_word_ariths)

lemma u32_lt: "unat a < 2 ^ 32" for a :: u32
  using unsigned_less [of a] by simp

lemma u32_add_wrap:
  fixes a g :: u32
  assumes "\<not> unat a + unat g < 2 ^ 32"
  shows "unat (a + g) = unat a + unat g - 2 ^ 32"
proof -
  have "(unat a + unat g - 2 ^ 32) mod 2 ^ 32 = unat a + unat g - 2 ^ 32"
    using u32_lt [of a] u32_lt [of g] by (intro mod_less) linarith
  then show ?thesis using assms le_mod_geq [of "2 ^ 32" "unat a + unat g"] by (simp add: unat_word_ariths)
qed

lemma group_len:
  fixes a b u :: u32
  assumes "a \<le> b" "unat b < 2 ^ 31"
  shows "unat (b - a + 1) = unat b - unat a + 1" "unat (min (b - a + 1) u) = min (unat b - unat a + 1) (unat u)"
proof -
  have "unat (b - a) = unat b - unat a" using assms(1) by (simp add: unat_sub)
  then show "unat (b - a + 1) = unat b - unat a + 1" using assms(2) u32_add_nowrap [of "b - a" 1] by simp
  then show "unat (min (b - a + 1) u) = min (unat b - unat a + 1) (unat u)" by (auto simp: min_def word_le_nat_alt)
qed

text \<open>The mask after one group.\<close>

definition group_mask :: "u32 \<Rightarrow> u32 \<Rightarrow> u32 \<Rightarrow> bitmap \<Rightarrow> bitmap" where
  "group_mask a b u m = bitmap_set (False, False) m (unat a) (unat (min (b - a + 1) u))"

lemma set_groups_unfold: "a \<le> b \<Longrightarrow> set_groups a b u g m = set_groups (a + g) b u g (group_mask a b u m)"
  by (subst set_groups.simps) (simp add: group_mask_def Let_def)

lemma set_groups_end: "\<not> a \<le> b \<Longrightarrow> set_groups a b u g m = Some m"
  by (subst set_groups.simps) simp

lemma group_mask_bits:
  assumes "a \<le> b" "unat b < 2 ^ 31" "unat b < n" "n \<le> 64 * length m"
  shows "length (group_mask a b u m) = length m"
    "bits n (group_mask a b u m) = bits n m \<union> {i. unat a \<le> i \<and> i \<le> unat b \<and> i - unat a < unat u}"
proof -
  have le: "unat a \<le> unat b" using assms(1) by (simp add: word_le_nat_alt)
  then have fit: "unat a + unat (min (b - a + 1) u) \<le> 64 * length m" using assms group_len(2) [OF assms(1,2), of u] by simp
  then show "length (group_mask a b u m) = length m" by (simp add: group_mask_def bitmap_set_def bitmap_set_loop_def)
  show "bits n (group_mask a b u m) = bits n m \<union> {i. unat a \<le> i \<and> i \<le> unat b \<and> i - unat a < unat u}"
  proof -
    have "i < n \<and> unat a \<le> i \<and> i < unat a + min (unat b - unat a + 1) (unat u) \<longleftrightarrow>
        unat a \<le> i \<and> i \<le> unat b \<and> i - unat a < unat u" for i
      using le assms(3) by (cases "unat a \<le> i") (auto simp: less_diff_conv2)
    then show ?thesis unfolding group_mask_def bitmap_set_bits [OF fit assms(4)] group_len(2) [OF assms(1,2), symmetric] by simp
  qed
qed

lemma next_group:
  fixes a b g :: u32
  assumes "a \<le> b" "unat b < 2 ^ 31" "g \<noteq> 0" "a + g \<le> b"
  shows "(if g \<le> b then 2 ^ 32 - unat (a + g) else unat (a + g)) < (if g \<le> b then 2 ^ 32 - unat a else unat a)"
proof (cases "g \<le> b")
  case True
  have "unat a + unat g < 2 ^ 32" using True assms(1,2) by (simp add: word_le_nat_alt)
  moreover have "0 < unat g" using assms(3) by (simp add: unat_gt_0)
  ultimately show ?thesis using True u32_add_nowrap [of a g] by simp
next
  case False
  then have "\<not> unat a + unat g < 2 ^ 32" using assms(4) u32_add_nowrap [of a g] by (auto simp: word_le_nat_alt)
  then show ?thesis using False u32_add_wrap [of a g] u32_lt [of g] by simp
qed

lemma set_groups_returns:
  assumes "unat b < 2 ^ 31" "g \<noteq> 0" "unat b < n" "n \<le> 64 * length m"
  shows "\<exists>m'. set_groups a b u g m = Some m' \<and> length m' = length m \<and> bits n m \<subseteq> bits n m' \<and> bits n m' \<subseteq> bits n m \<union> {.. unat b}"
  using assms(4)
proof (induction "if g \<le> b then 2 ^ 32 - unat a else unat a" arbitrary: a m rule: less_induct)
  case less
  show ?case
  proof (cases "a \<le> b")
    case True
    note mask = group_mask_bits [OF True assms(1,3) less.prems, of u]
    show ?thesis
    proof (cases "a + g \<le> b")
      case nxt: True
      show ?thesis using less.hyps [OF next_group [OF True assms(1,2) nxt], of "group_mask a b u m"] less.prems mask
        by (auto simp: set_groups_unfold [OF True])
    qed (use mask in \<open>auto simp: set_groups_unfold [OF True] set_groups_end\<close>)
  qed (simp add: set_groups_end)
qed

lemma set_groups_bits:
  assumes "unat b < 2 ^ 31" "g \<noteq> 0" "unat b < n" "n \<le> 64 * length m" "unat b + unat g < 2 ^ 32" "u \<le> g"
  shows "\<exists>m'. set_groups a b u g m = Some m' \<and> length m' = length m \<and>
    bits n m' = bits n m \<union> {i. unat a \<le> i \<and> i \<le> unat b \<and> (i - unat a) mod unat g < unat u}"
  using assms(4)
proof (induction "2 ^ 32 - unat a" arbitrary: a m rule: less_induct)
  case less
  show ?case
  proof (cases "a \<le> b")
    case True
    note mask = group_mask_bits [OF True assms(1,3) less.prems, of u]
    have g: "0 < unat g" "unat u \<le> unat g" using assms(2,6) by (simp_all add: unat_gt_0 word_le_nat_alt)
    have ag: "unat (a + g) = unat a + unat g" using True assms(5) by (intro u32_add_nowrap) (simp add: word_le_nat_alt)
    have "2 ^ 32 - unat (a + g) < 2 ^ 32 - unat a" using ag g u32_lt [of a] by simp
    from less.hyps [OF this, of "group_mask a b u m"] less.prems mask obtain m' where
      m': "set_groups a b u g m = Some m'" "length m' = length m"
        "bits n m' = bits n (group_mask a b u m) \<union> {i. unat a + unat g \<le> i \<and> i \<le> unat b \<and> (i - (unat a + unat g)) mod unat g < unat u}"
      by (auto simp: set_groups_unfold [OF True] ag)
    have "(i - unat a) mod unat g < unat u \<longleftrightarrow> i - unat a < unat u \<or> unat a + unat g \<le> i \<and> (i - (unat a + unat g)) mod unat g < unat u"
      if "unat a \<le> i" for i
      using that g le_mod_geq [of "unat g" "i - unat a"] by (cases "unat a + unat g \<le> i") (auto simp: diff_diff_left)
    then show ?thesis using m' mask(2) by (intro exI [of _ m']) auto
  qed (auto simp: set_groups_end word_le_nat_alt)
qed

section \<open>Every list is parsed\<close>

lemma parselist_char_error: "parselist_char nd ch st = Inl e \<Longrightarrow> e = - EINVAL"
  by (auto simp: parselist_char_def Let_def split: if_splits)

lemma parselist_item_error: "parselist_item nd buf st = Inl e \<Longrightarrow> e = - EINVAL \<or> e = - EFAULT"
proof (induction nd buf st rule: parselist_item.induct)
  case (3 nd ch rst st)
  show ?case
  proof (cases "parselist_char nd ch st")
    case (Inl e')
    then show ?thesis using "3.prems" parselist_char_error by auto
  next
    case (Inr r)
    then obtain stop st1 where "parselist_char nd ch st = Inr (stop, st1)" by (cases r) auto
    then show ?thesis using "3.IH" "3.prems" by (cases stop) auto
  qed
qed auto

lemma parselist_set_returns:
  assumes "n < 2 ^ 31" "n \<le> N" "N \<le> 64 * length m"
  shows "\<exists>m' st' e. parselist_set nd st m n = Some (m', st', e) \<and> length m' = length m \<and> e \<in> {0, - EINVAL, - ERANGE} \<and>
    bits N m \<subseteq> bits N m' \<and> bits N m' \<subseteq> bits N m \<union> {..< n}"
proof (cases "parselist_set nd st m n")
  case None
  then obtain a b u g where "set_groups a b u g m = None" "unat b < n" "g \<noteq> 0"
    by (auto simp: parselist_set_def Let_def not_le split: if_splits)
  then show ?thesis using set_groups_returns [of b g N m a u] assms by auto
next
  case (Some r)
  obtain m' st' e where r: "r = (m', st', e)" by (cases r) auto
  consider "m' = m" "e \<in> {0, - EINVAL, - ERANGE}" | a b u g where "set_groups a b u g m = Some m'" "unat b < n" "g \<noteq> 0" "e = 0"
    using Some r by (auto simp: parselist_set_def Let_def not_le split: if_splits)
  then show ?thesis
  proof cases
    case 2
    then show ?thesis using set_groups_returns [of b g N m a u] assms Some r by fastforce
  qed (use Some r in auto)
qed

lemma parselist_loop_returns:
  assumes "n < 2 ^ 31" "n \<le> N" "N \<le> 64 * length m"
  shows "\<exists>m' r. parselist_loop buf st m n = Some (m', r) \<and> length m' = length m \<and> r \<in> {0, - EINVAL, - ERANGE, - EFAULT} \<and>
    bits N m \<subseteq> bits N m' \<and> bits N m' \<subseteq> bits N m \<union> {..< n}"
  using assms(3)
proof (induction "length buf" arbitrary: buf st m rule: less_induct)
  case less
  let ?nd = "pl_totaldigits st" and ?st0 = "st\<lparr>pl_at_start := True, pl_in_range := False, pl_in_partial := False, pl_a := 0, pl_b := 0\<rparr>"
  show ?case
  proof (cases "parselist_item ?nd buf ?st0")
    case (Inl e)
    then show ?thesis using parselist_item_error [OF Inl] by (subst parselist_loop.simps) auto
  next
    case (Inr p)
    obtain rest st1 where p: "parselist_item ?nd buf ?st0 = Inr (rest, st1)" using Inr by (cases p) auto
    obtain m1 st2 e where s: "parselist_set ?nd st1 m n = Some (m1, st2, e)" "length m1 = length m" "e \<in> {0, - EINVAL, - ERANGE}"
        "bits N m \<subseteq> bits N m1" "bits N m1 \<subseteq> bits N m \<union> {..< n}"
      using parselist_set_returns [OF assms(1,2) less.prems] by blast
    show ?thesis
    proof (cases "e = 0 \<and> rest \<noteq> [] \<and> pl_c st2 = of_char (CHR '','')")
      case True
      then have "parselist_loop buf st m n = parselist_loop rest st2 m1 n"
        by (subst parselist_loop.simps) (simp add: p s(1) Let_def)
      moreover have "length rest < length buf" using parselist_item_rest [OF p] True by blast
      ultimately show ?thesis using less.hyps [of rest m1 st2] less.prems s by (simp only:) blast
    next
      case False
      then have "parselist_loop buf st m n = Some (m1, e)"
        by (subst parselist_loop.simps) (auto simp: p s(1) Let_def)
      then show ?thesis using s by auto
    qed
  qed
qed

section \<open>The bits a list denotes\<close>

text \<open>
  The documented syntax: an item is a number or a range, with an optional \<open>used/group\<close> suffix; it denotes
  the bits of the range that are among the first \<open>used\<close> of their group.
\<close>

type_synonym range_item = "nat \<times> nat \<times> (nat \<times> nat) option"

fun item_text :: "range_item \<Rightarrow> string" where
  "item_text (a, b, p) =
     dec_string a @ (if b = a then [] else ''-'' @ dec_string b) @
     (case p of None \<Rightarrow> [] | Some (u, g) \<Rightarrow> '':'' @ dec_string u @ ''/'' @ dec_string g)"

fun item_bits :: "range_item \<Rightarrow> nat set" where
  "item_bits (a, b, p) = {i. a \<le> i \<and> i \<le> b \<and> (case p of None \<Rightarrow> True | Some (u, g) \<Rightarrow> (i - a) mod g < u)}"

fun item_ok :: "nat \<Rightarrow> range_item \<Rightarrow> bool" where
  "item_ok n (a, b, p) \<longleftrightarrow> a \<le> b \<and> b < n \<and> (case p of None \<Rightarrow> True | Some (u, g) \<Rightarrow> 0 < g \<and> u \<le> g \<and> b + g < 2 ^ 32)"

fun list_text :: "range_item list \<Rightarrow> string" where
  "list_text [] = []"
| "list_text [x] = item_text x"
| "list_text (x # xs) = item_text x @ '','' @ list_text xs"

lemma not_space_digit: "d < 10 \<Longrightarrow> \<not> isspace (48 + d)"
  by (simp add: class_facts)

lemma char_codes:
  "of_char (CHR '','') = (44 :: nat)" "of_char (CHR ''/'') = (47 :: nat)" "of_char (CHR '':'') = (58 :: nat)" "of_char (CHR ''-'') = (45 :: nat)"
  by simp_all

lemma parselist_digit:
  assumes "d < 10" "\<not> isspace (pl_c st)"
  shows "parselist_char nd (digit_char d) st =
    Inr (False, st\<lparr>pl_c := 48 + d, pl_b := pl_b st * 10 + word_of_nat d, pl_a := (if pl_in_range st then pl_a st else pl_b st * 10 + word_of_nat d),
                   pl_at_start := False, pl_totaldigits := pl_totaldigits st + 1\<rparr>)"
  using assms not_space_digit [OF assms(1)] by (simp add: parselist_char_def Let_def of_char_digit char_codes isdigit_def)

lemma parselist_digits:
  assumes "\<And>d. d \<in> set ds \<Longrightarrow> d < 10" "ds \<noteq> []" "\<not> isspace (pl_c st)" "v = foldl (\<lambda>b d. b * 10 + word_of_nat d) (pl_b st) ds"
  shows "\<exists>c. \<not> isspace c \<and>
    parselist_item nd (map Some (map digit_char ds) @ rest) st =
    parselist_item nd rest (st\<lparr>pl_c := c, pl_b := v, pl_a := (if pl_in_range st then pl_a st else v),
      pl_at_start := False, pl_totaldigits := pl_totaldigits st + length ds\<rparr>)"
  using assms
proof (induction ds arbitrary: st v)
  case (Cons d ds)
  let ?b = "pl_b st * 10 + word_of_nat d"
  let ?st = "st\<lparr>pl_c := 48 + d, pl_b := ?b, pl_a := (if pl_in_range st then pl_a st else ?b),
      pl_at_start := False, pl_totaldigits := pl_totaldigits st + 1\<rparr>"
  have d: "d < 10" "\<not> isspace (48 + d)" using Cons.prems(1) not_space_digit [of d] by simp_all
  have step: "parselist_item nd (map Some (map digit_char (d # ds)) @ rest) st = parselist_item nd (map Some (map digit_char ds) @ rest) ?st"
    using parselist_digit [OF d(1) Cons.prems(3), of nd] by simp
  show ?case
  proof (cases "ds = []")
    case True
    then show ?thesis unfolding step using Cons.prems(4) d by (intro exI [of _ "48 + d"]) simp
  next
    case False
    show ?thesis unfolding step using Cons.IH [of ?st v] Cons.prems(1,4) d False by (cases "pl_in_range st") simp_all
  qed
qed simp

lemma foldl_word: "foldl (\<lambda>b d. b * 10 + word_of_nat d) (word_of_nat v) ds = (word_of_nat (foldl (\<lambda>v d. v * 10 + d) v ds) :: u32)"
proof (induction ds arbitrary: v)
  case (Cons d ds)
  have "word_of_nat v * 10 + word_of_nat d = (word_of_nat (v * 10 + d) :: u32)" by simp
  then show ?case by (simp only: foldl.simps Cons.IH)
qed simp

text \<open>A decimal number, read with \<open>b\<close> and \<open>at_start\<close> as at the beginning of a number.\<close>

lemma parselist_number:
  assumes "\<not> isspace (pl_c st)" "pl_b st = 0"
  obtains c k where "\<not> isspace c" "0 < k"
    "parselist_item nd (map Some (dec_string x) @ rest) st =
     parselist_item nd rest (st\<lparr>pl_c := c, pl_b := word_of_nat x, pl_a := (if pl_in_range st then pl_a st else word_of_nat x),
       pl_at_start := False, pl_totaldigits := pl_totaldigits st + k\<rparr>)"
proof -
  have "word_of_nat x = foldl (\<lambda>b d. b * 10 + word_of_nat d) (pl_b st) (dec_digits x)"
    using foldl_word [of 0 "dec_digits x"] dec_digits_value [of x] assms(2) by (simp add: digits_value_def)
  from parselist_digits [OF dec_digits_lt dec_digits_nonempty assms(1) this] that [of _ "length (dec_digits x)"]
  show ?thesis unfolding dec_string_def by (metis dec_digits_nonempty length_greater_0_conv)
qed

lemma parselist_symbols:
  assumes "\<not> isspace (pl_c st)"
  shows "\<not> pl_at_start st \<Longrightarrow> \<not> pl_in_range st \<Longrightarrow> parselist_item nd (Some (CHR ''-'') # rest) st =
      parselist_item nd rest (st\<lparr>pl_c := 45, pl_b := 0, pl_in_range := True, pl_at_start := True\<rparr>)"
    "parselist_item nd (Some (CHR '':'') # rest) st =
      parselist_item nd rest (st\<lparr>pl_c := 58, pl_old_a := pl_a st, pl_old_b := pl_b st, pl_at_start := True, pl_in_range := False,
        pl_in_partial := True, pl_a := 0, pl_b := 0\<rparr>)"
    "parselist_item nd (Some (CHR ''/'') # rest) st =
      parselist_item nd rest (st\<lparr>pl_c := 47, pl_used_size := pl_a st, pl_at_start := True, pl_in_range := False, pl_a := 0, pl_b := 0\<rparr>)"
    "parselist_item nd (Some (CHR '','') # rest) st = Inr (rest, st\<lparr>pl_c := 44\<rparr>)"
  using assms by (simp_all add: parselist_char_def Let_def class_facts)

lemma symbols_not_space: "\<not> isspace 44" "\<not> isspace 45" "\<not> isspace 47" "\<not> isspace 58" "\<not> isspace 0"
  by (simp_all add: class_facts)

text \<open>The state at the start of an item.\<close>

definition item_start :: "plist \<Rightarrow> bool" where
  "item_start st \<longleftrightarrow> \<not> isspace (pl_c st) \<and> pl_b st = 0 \<and> \<not> pl_in_range st \<and> \<not> pl_in_partial st"

lemma read_range:
  assumes "item_start st"
  obtains st' where "parselist_item nd (map Some (dec_string a @ (if b = a then [] else ''-'' @ dec_string b)) @ rest) st = parselist_item nd rest st'"
    "\<not> isspace (pl_c st')" "pl_a st' = word_of_nat a" "pl_b st' = word_of_nat b" "\<not> pl_at_start st'" "\<not> pl_in_partial st'"
    "pl_totaldigits st < pl_totaldigits st'"
proof -
  let ?tail = "map Some (if b = a then [] else ''-'' @ dec_string b) @ rest"
  have st: "\<not> isspace (pl_c st)" "pl_b st = 0" using assms by (simp_all add: item_start_def)
  obtain c k where n: "\<not> isspace c" "0 < k"
    "parselist_item nd (map Some (dec_string a) @ ?tail) st =
     parselist_item nd ?tail (st\<lparr>pl_c := c, pl_b := word_of_nat a, pl_a := (if pl_in_range st then pl_a st else word_of_nat a),
       pl_at_start := False, pl_totaldigits := pl_totaldigits st + k\<rparr>)" (is "_ = parselist_item nd ?tail ?st1")
    using parselist_number [OF st] by blast
  show ?thesis
  proof (cases "b = a")
    case True
    then show ?thesis using n assms by (intro that [of ?st1]) (simp_all add: item_start_def)
  next
    case False
    let ?st2 = "?st1\<lparr>pl_c := 45, pl_b := 0, pl_in_range := True, pl_at_start := True\<rparr>"
    have s: "parselist_item nd ?tail ?st1 = parselist_item nd (map Some (dec_string b) @ rest) ?st2"
      using False parselist_symbols(1) [of ?st1 nd] n(1) assms by (simp add: item_start_def)
    obtain c' k' where m: "\<not> isspace c'" "0 < k'"
      "parselist_item nd (map Some (dec_string b) @ rest) ?st2 =
       parselist_item nd rest (?st2\<lparr>pl_c := c', pl_b := word_of_nat b, pl_a := (if pl_in_range ?st2 then pl_a ?st2 else word_of_nat b),
         pl_at_start := False, pl_totaldigits := pl_totaldigits ?st2 + k'\<rparr>)" (is "_ = parselist_item nd rest ?st3")
      using parselist_number [of ?st2 nd b rest] symbols_not_space by auto
    show ?thesis using n m s assms False by (intro that [of ?st3]) (simp_all add: item_start_def)
  qed
qed

lemma read_suffix:
  assumes "\<not> isspace (pl_c st)"
  obtains st' where "parselist_item nd (map Some ('':'' @ dec_string u @ ''/'' @ dec_string g) @ rest) st = parselist_item nd rest st'"
    "\<not> isspace (pl_c st')" "pl_old_a st' = pl_a st" "pl_old_b st' = pl_b st" "\<not> pl_at_start st'" "pl_in_partial st'"
    "pl_used_size st' = word_of_nat u" "pl_a st' = word_of_nat g" "pl_totaldigits st < pl_totaldigits st'"
proof -
  let ?st1 = "st\<lparr>pl_c := 58, pl_old_a := pl_a st, pl_old_b := pl_b st, pl_at_start := True, pl_in_range := False,
        pl_in_partial := True, pl_a := 0, pl_b := 0\<rparr>"
  let ?tail = "map Some (''/'' @ dec_string g) @ rest"
  obtain c k where n: "\<not> isspace c" "0 < k"
    "parselist_item nd (map Some (dec_string u) @ ?tail) ?st1 =
     parselist_item nd ?tail (?st1\<lparr>pl_c := c, pl_b := word_of_nat u, pl_a := (if pl_in_range ?st1 then pl_a ?st1 else word_of_nat u),
       pl_at_start := False, pl_totaldigits := pl_totaldigits ?st1 + k\<rparr>)" (is "_ = parselist_item nd ?tail ?st2")
    using parselist_number [of ?st1 nd u ?tail] symbols_not_space by auto
  let ?st3 = "?st2\<lparr>pl_c := 47, pl_used_size := pl_a ?st2, pl_at_start := True, pl_in_range := False, pl_a := 0, pl_b := 0\<rparr>"
  have s: "parselist_item nd ?tail ?st2 = parselist_item nd (map Some (dec_string g) @ rest) ?st3"
    using parselist_symbols(3) [of ?st2 nd] n(1) by simp
  obtain c' k' where m: "\<not> isspace c'" "0 < k'"
    "parselist_item nd (map Some (dec_string g) @ rest) ?st3 =
     parselist_item nd rest (?st3\<lparr>pl_c := c', pl_b := word_of_nat g, pl_a := (if pl_in_range ?st3 then pl_a ?st3 else word_of_nat g),
       pl_at_start := False, pl_totaldigits := pl_totaldigits ?st3 + k'\<rparr>)" (is "_ = parselist_item nd rest ?st4")
    using parselist_number [of ?st3 nd g rest] symbols_not_space by auto
  show ?thesis using n m s parselist_symbols(2) [OF assms, of nd] by (intro that [of ?st4]) simp_all
qed

end
