(* ===== verification/Bitmap_List.thy ===== *)
theory Bitmap_List
  imports Bitmap_Parse
begin

text \<open>
  \<open>__bitmap_parselist\<close> reads every list written in its documented syntax (\<open>item_text\<close>, \<open>list_text\<close>) as the
  union of the bits its items denote.
\<close>

fun item_read :: "range_item \<Rightarrow> plist \<Rightarrow> bool" where
  "item_read (a, b, p) st \<longleftrightarrow> \<not> pl_at_start st \<and>
     (case p of
        None \<Rightarrow> \<not> pl_in_partial st \<and> pl_a st = word_of_nat a \<and> pl_b st = word_of_nat b
      | Some (u, g) \<Rightarrow> pl_in_partial st \<and> pl_old_a st = word_of_nat a \<and> pl_old_b st = word_of_nat b \<and>
          pl_used_size st = word_of_nat u \<and> pl_a st = word_of_nat g)"

lemma read_item:
  assumes "item_start st"
  obtains st' where "parselist_item nd (map Some (item_text x) @ rest) st = parselist_item nd rest st'"
    "\<not> isspace (pl_c st')" "item_read x st'" "pl_totaldigits st < pl_totaldigits st'"
proof -
  obtain a b p where x: "x = (a, b, p)" by (cases x) auto
  let ?suffix = "map Some (case p of None \<Rightarrow> [] | Some (u, g) \<Rightarrow> '':'' @ dec_string u @ ''/'' @ dec_string g) @ rest"
  obtain st1 where r: "parselist_item nd (map Some (dec_string a @ (if b = a then [] else ''-'' @ dec_string b)) @ ?suffix) st = parselist_item nd ?suffix st1"
    "\<not> isspace (pl_c st1)" "pl_a st1 = word_of_nat a" "pl_b st1 = word_of_nat b" "\<not> pl_at_start st1" "\<not> pl_in_partial st1"
    "pl_totaldigits st < pl_totaldigits st1"
    using read_range [OF assms, of nd a b ?suffix] by blast
  have eq: "map Some (item_text x) @ rest = map Some (dec_string a @ (if b = a then [] else ''-'' @ dec_string b)) @ ?suffix"
    by (simp add: x)
  show ?thesis
  proof (cases p)
    case None
    show ?thesis
    proof (rule that [of st1])
      show "parselist_item nd (map Some (item_text x) @ rest) st = parselist_item nd rest st1" unfolding eq r(1) using None by simp
      show "item_read x st1" using r(3-6) x None by simp
    qed (use r(2,7) in simp_all)
  next
    case (Some ug)
    obtain u g where ug: "p = Some (u, g)" using Some by (cases ug) auto
    obtain st2 where t: "parselist_item nd ?suffix st1 = parselist_item nd rest st2"
      "\<not> isspace (pl_c st2)" "pl_old_a st2 = pl_a st1" "pl_old_b st2 = pl_b st1" "\<not> pl_at_start st2" "pl_in_partial st2"
      "pl_used_size st2 = word_of_nat u" "pl_a st2 = word_of_nat g" "pl_totaldigits st1 < pl_totaldigits st2"
      unfolding ug option.case prod.case using read_suffix [OF r(2), of nd u g rest] by blast
    show ?thesis
    proof (rule that [of st2])
      show "parselist_item nd (map Some (item_text x) @ rest) st = parselist_item nd rest st2" unfolding eq r(1) by (rule t(1))
      show "item_read x st2" using t r(3,4) x ug by simp
    qed (use t r(7) in simp_all)
  qed
qed

lemma parselist_set_plain:
  assumes "nd \<noteq> pl_totaldigits st" "\<not> pl_at_start st" "\<not> pl_in_partial st" "pl_a st \<le> pl_b st" "unat (pl_b st) < n"
    "pl_b st - pl_a st + 1 = g" "g \<noteq> 0"
  shows "parselist_set nd st m n = map_option (\<lambda>m. (m, st\<lparr>pl_used_size := g\<rparr>, 0)) (set_groups (pl_a st) (pl_b st) g g m)"
  unfolding parselist_set_def assms(6) using assms(1-5,7) by (simp add: Let_def)

lemma parselist_set_partial:
  assumes "nd \<noteq> pl_totaldigits st" "\<not> pl_at_start st" "pl_in_partial st" "pl_old_a st \<le> pl_old_b st" "unat (pl_old_b st) < n"
    "pl_used_size st \<le> pl_a st" "pl_a st \<noteq> 0"
  shows "parselist_set nd st m n = map_option (\<lambda>m. (m, st\<lparr>pl_old_a := 0, pl_old_b := 0\<rparr>, 0))
    (set_groups (pl_old_a st) (pl_old_b st) (pl_used_size st) (pl_a st) m)"
  unfolding parselist_set_def using assms by (simp add: Let_def)

lemma set_item:
  assumes "item_ok n x" "item_read x st" "n < 2 ^ 31" "n \<le> 64 * length m" "nd \<noteq> pl_totaldigits st"
  shows "\<exists>m' st'. parselist_set nd st m n = Some (m', st', 0) \<and> length m' = length m \<and> pl_c st' = pl_c st \<and> bits n m' = bits n m \<union> item_bits x"
proof -
  obtain a b p where x: "x = (a, b, p)" by (cases x) auto
  have ab: "a \<le> b" "b < n" using assms(1) x by simp_all
  let ?a = "word_of_nat a :: u32" and ?b = "word_of_nat b :: u32"
  have un: "unat ?a = a" "unat ?b = b" using ab assms(3) by (simp_all add: unat_u32)
  have le: "?a \<le> ?b" using ab un by (simp add: word_le_nat_alt)
  show ?thesis
  proof (cases p)
    case None
    let ?g = "?b - ?a + 1"
    have g: "unat ?g = b - a + 1" using group_len(1) [OF le] ab assms(3) un by simp
    then have "?g \<noteq> 0" by (metis add_is_0 one_neq_zero unsigned_0)
    have "unat ?b + unat ?g < 2 ^ 32" using g un ab assms(3) by simp
    with \<open>?g \<noteq> 0\<close> obtain m' where m': "set_groups ?a ?b ?g ?g m = Some m'" "length m' = length m"
        "bits n m' = bits n m \<union> {i. a \<le> i \<and> i \<le> b \<and> (i - a) mod (b - a + 1) < b - a + 1}"
      using set_groups_bits [of ?b ?g n m ?g ?a] ab assms(3,4) un g by (auto simp del: mod_less_divisor)
    have "parselist_set nd st m n = Some (m', st\<lparr>pl_used_size := ?g\<rparr>, 0)"
      using parselist_set_plain [of nd st n ?g m] assms(2,5) x None le \<open>?g \<noteq> 0\<close> ab un m'(1) by simp
    moreover have "bits n m' = bits n m \<union> item_bits x" using m'(3) x None by auto
    ultimately show ?thesis using m'(2) by fastforce
  next
    case (Some ug)
    obtain u g where ug: "p = Some (u, g)" using Some by (cases ug) auto
    then have ok: "0 < g" "u \<le> g" "b + g < 2 ^ 32" using assms(1) x by simp_all
    let ?u = "word_of_nat u :: u32" and ?g = "word_of_nat g :: u32"
    have ung: "unat ?g = g" "unat ?u = u" using ok by (simp_all add: unat_u32)
    have w: "?g \<noteq> 0" using ung(1) ok(1) by (metis less_irrefl unsigned_0)
    have "?u \<le> ?g" using ung ok(2) by (simp only: word_le_nat_alt)
    note w = w this
    from w obtain m' where m': "set_groups ?a ?b ?u ?g m = Some m'" "length m' = length m"
        "bits n m' = bits n m \<union> {i. a \<le> i \<and> i \<le> b \<and> (i - a) mod g < u}"
      using set_groups_bits [of ?b ?g n m ?u ?a] ab assms(3,4) un ung ok by auto
    have "parselist_set nd st m n = Some (m', st\<lparr>pl_old_a := 0, pl_old_b := 0\<rparr>, 0)"
      using parselist_set_partial [of nd st n m] assms(2,5) x ug le w ab un m'(1) by simp
    moreover have "bits n m' = bits n m \<union> item_bits x" using m'(3) x ug by simp
    ultimately show ?thesis using m'(2) by fastforce
  qed
qed

definition fresh :: "plist \<Rightarrow> plist" where
  "fresh st = st\<lparr>pl_at_start := True, pl_in_range := False, pl_in_partial := False, pl_a := 0, pl_b := 0\<rparr>"

lemma fresh_facts: "\<not> isspace (pl_c st) \<Longrightarrow> item_start (fresh st)" "pl_totaldigits (fresh st) = pl_totaldigits st"
  by (simp_all add: fresh_def item_start_def)

lemma parselist_loop_step:
  assumes "parselist_item (pl_totaldigits st) buf (fresh st) = Inr (rest, st1)" "parselist_set (pl_totaldigits st) st1 m n = Some (m1, st2, 0)"
  shows "parselist_loop buf st m n = (if rest \<noteq> [] \<and> pl_c st2 = 44 then parselist_loop rest st2 m1 n else Some (m1, 0))"
  using assms by (subst parselist_loop.simps) (simp add: Let_def fresh_def)

lemma parselist_loop_last:
  assumes "item_ok n x" "n < 2 ^ 31" "n \<le> 64 * length m" "\<not> isspace (pl_c st)"
  shows "\<exists>m'. parselist_loop (map Some (item_text x)) st m n = Some (m', 0) \<and> length m' = length m \<and> bits n m' = bits n m \<union> item_bits x"
proof -
  obtain st1 where r: "parselist_item (pl_totaldigits st) (map Some (item_text x) @ []) (fresh st) = parselist_item (pl_totaldigits st) [] st1"
      "item_read x st1" "pl_totaldigits st < pl_totaldigits st1"
    using read_item [OF fresh_facts(1) [OF assms(4)], of "pl_totaldigits st" x "[]"] unfolding fresh_facts(2) by blast
  obtain m' st2 where s: "parselist_set (pl_totaldigits st) st1 m n = Some (m', st2, 0)" "length m' = length m" "bits n m' = bits n m \<union> item_bits x"
    using set_item [OF assms(1) r(2) assms(2,3), of "pl_totaldigits st"] r(3) by auto
  have "parselist_item (pl_totaldigits st) (map Some (item_text x)) (fresh st) = Inr ([], st1)" using r(1) by simp
  from parselist_loop_step [OF this s(1)] show ?thesis using s(2,3) by simp
qed

lemma parselist_loop_comma:
  assumes "item_ok n x" "n < 2 ^ 31" "n \<le> 64 * length m" "\<not> isspace (pl_c st)" "rest \<noteq> []"
  shows "\<exists>m' st'. parselist_loop (map Some (item_text x) @ Some (CHR '','') # rest) st m n = parselist_loop rest st' m' n \<and>
    pl_c st' = 44 \<and> length m' = length m \<and> bits n m' = bits n m \<union> item_bits x"
proof -
  obtain st1 where r: "parselist_item (pl_totaldigits st) (map Some (item_text x) @ Some (CHR '','') # rest) (fresh st) =
        parselist_item (pl_totaldigits st) (Some (CHR '','') # rest) st1"
      "\<not> isspace (pl_c st1)" "item_read x st1" "pl_totaldigits st < pl_totaldigits st1"
    using read_item [OF fresh_facts(1) [OF assms(4)], of "pl_totaldigits st" x "Some (CHR '','') # rest"] unfolding fresh_facts(2) by blast
  let ?st1 = "st1\<lparr>pl_c := 44\<rparr>"
  have read: "item_read x ?st1" using r(3) by (cases x) (auto split: option.splits)
  obtain m1 st2 where s: "parselist_set (pl_totaldigits st) ?st1 m n = Some (m1, st2, 0)" "length m1 = length m" "pl_c st2 = 44"
      "bits n m1 = bits n m \<union> item_bits x"
    using set_item [OF assms(1) read assms(2,3), of "pl_totaldigits st"] r(4) by auto
  have "parselist_item (pl_totaldigits st) (map Some (item_text x) @ Some (CHR '','') # rest) (fresh st) = Inr (rest, ?st1)"
    unfolding r(1) by (rule parselist_symbols(4) [OF r(2)])
  from parselist_loop_step [OF this s(1)] show ?thesis using s(2-4) assms(5) by auto
qed

lemma list_text_nonempty: "xs \<noteq> [] \<Longrightarrow> list_text xs \<noteq> []"
proof (cases xs rule: list_text.cases)
  case (2 x)
  then show ?thesis by (cases x) (simp add: dec_string_def)
qed simp_all

lemma parselist_loop_items:
  assumes "xs \<noteq> []" "\<forall>x \<in> set xs. item_ok n x" "n < 2 ^ 31" "n \<le> 64 * length m" "\<not> isspace (pl_c st)"
  shows "\<exists>m'. parselist_loop (map Some (list_text xs)) st m n = Some (m', 0) \<and> length m' = length m \<and>
    bits n m' = bits n m \<union> (\<Union>x \<in> set xs. item_bits x)"
  using assms
proof (induction xs arbitrary: st m rule: list_text.induct)
  case (2 x)
  then show ?case using parselist_loop_last [of n x m st] by simp
next
  case (3 x y ys)
  let ?rest = "map Some (list_text (y # ys))"
  have shape: "map Some (list_text (x # y # ys)) = map Some (item_text x) @ Some (CHR '','') # ?rest" by simp
  have "?rest \<noteq> []" using list_text_nonempty by blast
  then obtain m' st' where s: "parselist_loop (map Some (list_text (x # y # ys))) st m n = parselist_loop ?rest st' m' n"
      "pl_c st' = 44" "length m' = length m" "bits n m' = bits n m \<union> item_bits x"
    using parselist_loop_comma [of n x m st ?rest] "3.prems" unfolding shape by fastforce
  have "\<not> isspace (pl_c st')" using s(2) symbols_not_space by simp
  then show ?case unfolding s(1) using "3.IH" [of m' st'] "3.prems" s(3,4) by auto
qed simp

lemma dec_string_no_newline: "CHR 10 \<notin> set (dec_string n)"
proof
  assume "CHR 10 \<in> set (dec_string n)"
  then obtain d where d: "d \<in> set (dec_digits n)" "CHR 10 = digit_char d" by (auto simp: dec_string_def)
  then have "of_char (CHR 10) = (48 + d :: nat)" using of_char_digit [OF dec_digits_lt [OF d(1)]] by simp
  then show False by simp
qed

lemma item_text_no_newline: "CHR 10 \<notin> set (item_text x)"
  by (cases x) (auto simp: dec_string_no_newline split: option.splits)

lemma list_text_no_newline: "CHR 10 \<notin> set (list_text xs)"
  by (induction xs rule: list_text.induct) (auto simp: item_text_no_newline simp del: item_text.simps)

lemma item_range: "{i. a \<le> i \<and> i \<le> b \<and> P i} = set (filter P [a ..< Suc b])" for a b :: nat
  by auto

end
