(* ===== verification/Bitmap_Properties.thy ===== *)
theory Bitmap_Properties
  imports Bitmap_List
begin

unbundle bit_operations_syntax

text \<open>
  The properties of the bitmap library: the word-at-a-time searches against a scan of the bits, the
  operations against the algebra of sets, the searches for free regions and areas, and the parser of
  range lists.
\<close>

section \<open>Searches\<close>

text \<open>
  C28. The word-at-a-time searches are equivalent to scanning the bits one by one: the next set bit, the
  next clear bit, the next bit set in two bitmaps, the first set and clear bit, the last set bit. No
  assumption is made on the bitmap or on the size and the offset.
\<close>

theorem find_bit_equivalence:
  "find_next_bit addr sz offset = next_where (\<lambda>i. test_bit i addr) sz offset \<and>
   find_next_zero_bit addr sz offset = next_where (\<lambda>i. \<not> test_bit i addr) sz offset \<and>
   find_next_and_bit addr addr2 sz offset = next_where (\<lambda>i. test_bit i addr \<and> test_bit i addr2) sz offset \<and>
   find_first_bit addr sz = next_where (\<lambda>i. test_bit i addr) sz 0 \<and>
   find_first_zero_bit addr sz = next_where (\<lambda>i. \<not> test_bit i addr) sz 0 \<and>
   find_last_bit addr sz = last_where (\<lambda>i. test_bit i addr) sz"
  by (simp add: find_next_bit_eq find_next_zero_bit_eq find_next_and_bit_eq find_first_bit_eq find_first_zero_bit_eq find_last_bit_eq)

section \<open>The algebra of bitmaps\<close>




section \<open>Allocation in bitmaps\<close>

text \<open>
  C30. The region allocator. \<open>bitmap_find_free_region\<close> either fails with \<open>-ENOMEM\<close>, leaves the bitmap as it
  was, and no aligned run of \<open>2 ^ order\<close> clear bits exists; or it returns the lowest such run and sets exactly
  its bits, after which \<open>bitmap_release_region\<close> gives back the bits there were, and allocating the same
  region again is refused with \<open>-EBUSY\<close>.
\<close>

theorem bitmap_region_allocator:
  assumes "n \<le> 64 * length bm" "bitmap_find_free_region bm n order = (bm', r)"
  shows "r = - ENOMEM \<and> bm' = bm \<and> (\<forall>q. \<not> free_region (bits n bm) n order q) \<or>
    (\<exists>p. r = int p \<and> free_region (bits n bm) n order p \<and> (\<forall>q < p. \<not> free_region (bits n bm) n order q) \<and>
       bits n bm' = bits n bm \<union> {p ..< p + 2 ^ order} \<and>
       bits n (bitmap_release_region bm' p order) = bits n bm \<and>
       bitmap_allocate_region bm' p order = (bm', - EBUSY))"
proof -
  consider "r = - ENOMEM \<and> bm' = bm \<and> (\<forall>q. \<not> free_region (bits n bm) n order q)"
    | p where "r = int p" "free_region (bits n bm) n order p" "\<forall>q < p. \<not> free_region (bits n bm) n order q"
      "length bm' = length bm" "bits n bm' = bits n bm \<union> {p ..< p + 2 ^ order}"
    using bitmap_find_free_region_result [OF assms] by blast
  then show ?thesis
  proof cases
    case (2 p)
    have p: "2 ^ order dvd p" "p + 2 ^ order \<le> n" "bits n bm \<inter> {p ..< p + 2 ^ order} = {}" using 2(2) by (simp_all add: free_region_def)
    have "bits n (bitmap_release_region bm' p order) = bits n bm"
      using region_release_bits(1) [OF p(1), of bm' n] p(2,3) assms(1) 2(4,5) by auto
    moreover have "bits n bm' \<inter> {p ..< p + 2 ^ order} \<noteq> {}" using 2(5) by auto
    then have "snd (reg_op bm' p order REG_OP_ISFREE) = 0" using region_isfree_iff [OF p(1,2), of bm'] 2(4) assms(1) by simp
    then have "bitmap_allocate_region bm' p order = (bm', - EBUSY)" by (simp add: bitmap_allocate_region_def)
    ultimately show ?thesis using 2 by blast
  qed blast
qed

theorem bitmap_region_allocator_witness:
  "bitmap_find_free_region [7] 64 2 = ([0xF7], 4) \<and> bits 64 (bitmap_release_region [0xF7] 4 2) = bits 64 [7]"
proof -
  have "bitmap_find_free_region [7] 64 2 = ([0xF7], 4)" by code_simp
  then show ?thesis using bitmap_region_allocator [of 64 "[7]" 2 "[0xF7]" 4] by (auto simp: ENOMEM_def)
qed

text \<open>
  C31. \<open>bitmap_find_next_zero_area_off\<close> with an alignment mask \<open>2 ^ k - 1\<close> finds the lowest area: a result
  within the size is the start of a run of \<open>nr\<close> clear bits at or after \<open>start\<close> whose offset is aligned; no
  aligned run that fits starts before the result, and none at all when the result is above the size.
\<close>

theorem bitmap_zero_area_lowest:
  assumes "start \<le> sz" "0 < nr" "r = bitmap_find_next_zero_area_off bm sz start nr (2 ^ k - 1) off"
  shows "(r \<le> sz \<longrightarrow> start \<le> r \<and> r + nr \<le> sz \<and> zero_area bm nr k off r) \<and>
    (\<forall>q. start \<le> q \<and> q < r \<and> q + nr \<le> sz \<longrightarrow> \<not> zero_area bm nr k off q)"
  by (rule bitmap_find_next_zero_area_off_result [OF assms])

theorem bitmap_zero_area_lowest_witness:
  "bitmap_find_next_zero_area_off [0x13] 64 1 3 (2 ^ 2 - 1) 0 = 8 \<and> zero_area [0x13] 3 2 0 8 \<and> \<not> zero_area [0x13] 3 2 0 4"
proof -
  have "bitmap_find_next_zero_area_off [0x13] 64 1 3 (2 ^ 2 - 1) 0 = 8" by code_simp
  then show ?thesis using bitmap_zero_area_lowest [of 1 64 3 8 "[0x13]" 2 0] by auto
qed

section \<open>Lists of ranges\<close>

text \<open>
  C32. \<open>bitmap_parselist\<close> reads the documented syntax: a comma-separated list of numbers and ranges, each
  with an optional \<open>used/group\<close> suffix, within the mask and with group sizes that do not wrap, is accepted,
  and the mask then holds exactly the bits the items denote.
\<close>

theorem bitmap_parselist_reads_lists:
  assumes "xs \<noteq> []" "\<forall>x \<in> set xs. item_ok n x" "n < 2 ^ 31" "n \<le> 64 * length maskp"
  shows "\<exists>m. bitmap_parselist (list_text xs) maskp n = Some (m, 0) \<and> bits n m = (\<Union>x \<in> set xs. item_bits x)"
proof -
  have "takeWhile (\<lambda>c. c \<noteq> CHR 10) (list_text xs) = list_text xs"
    using list_text_no_newline [of xs] by (auto intro!: takeWhile_eq_all_conv [THEN iffD2])
  then have buf: "bitmap_parselist (list_text xs) maskp n = parselist_loop (map Some (list_text xs)) parselist_init (bitmap_zero maskp n) n"
    by (simp only: bitmap_parselist_def bitmap_parselist_buf_def)
  have "n \<le> 64 * length (bitmap_zero maskp n)" "\<not> isspace (pl_c parselist_init)" using assms(4) symbols_not_space by (simp_all add: parselist_init_def)
  from parselist_loop_items [OF assms(1-3) this] show ?thesis unfolding buf bitmap_zero_bits [OF assms(4)] by auto
qed

theorem bitmap_parselist_reads_lists_witness:
  "list_text [(0, 0, None), (4, 9, Some (1, 2))] = ''0,4-9:1/2'' \<and>
   (\<exists>m. bitmap_parselist ''0,4-9:1/2'' [0xFF] 16 = Some (m, 0) \<and> bits 16 m = {0, 4, 6, 8})"
proof -
  let ?xs = "[(0, 0, None), (4, 9, Some (1, 2))]"
  have "list_text ?xs = ''0,4-9:1/2''" by code_simp
  moreover have "item_bits (4, 9, Some (1, 2)) = {4, 6, 8}" by (auto simp: item_range)
  moreover have "item_bits (0, 0, None) = {0}" by auto
  ultimately show ?thesis using bitmap_parselist_reads_lists [of ?xs 16 "[0xFF]"] by auto
qed



end
