(* ===== verification/Kstrtox.thy ===== *)
theory Kstrtox
  imports Ctype
begin

unbundle bit_operations_syntax

text \<open>
  Numbers from text (\<open>lib/kstrtox.c\<close>, \<open>simple_strto*\<close> of \<open>lib/vsprintf.c\<close>). A conversion yields \<open>Inl\<close> of the
  negative error code or \<open>Inr\<close> of what is stored in \<open>*res\<close>; signed types are words read with \<open>sint\<close>.
\<close>

section \<open>The routines\<close>

definition KSTRTOX_OVERFLOW :: u32 where
  "KSTRTOX_OVERFLOW = push_bit 31 1"

definition parse_integer_fixup_radix :: "string \<Rightarrow> nat \<Rightarrow> string \<times> nat" where
  "parse_integer_fixup_radix s base0 =
     (let base =
        (if base0 = 0 then
           if char_at s 0 = 48 then
             if fast_tolower (char_at s 1) = 120 \<and> isxdigit (char_at s 2) then 16 else 8
           else 10
         else base0)
      in (if base = 16 \<and> char_at s 0 = 48 \<and> fast_tolower (char_at s 1) = 120 then drop 2 s else s, base))"

definition digit_val :: "nat \<Rightarrow> nat option" where
  "digit_val c =
     (if 48 \<le> c \<and> c \<le> 57 then Some (c - 48)
      else if 97 \<le> fast_tolower c \<and> fast_tolower c \<le> 102 then Some (fast_tolower c - 97 + 10)
      else None)"

text \<open>The overflow test, made only when the top four bits of the value are in use.\<close>

definition step_overflows :: "u64 \<Rightarrow> nat \<Rightarrow> nat \<Rightarrow> bool" where
  "step_overflows res base val \<longleftrightarrow>
     res AND push_bit 60 (NOT 0) \<noteq> 0 \<and> (ULLONG_MAX - word_of_nat val) div word_of_nat base < res"

fun parse_integer_loop :: "string \<Rightarrow> nat \<Rightarrow> u64 \<Rightarrow> u32 \<Rightarrow> bool \<Rightarrow> u64 \<times> u32 \<times> bool" where
  "parse_integer_loop [] base res rv overflow = (res, rv, overflow)"
| "parse_integer_loop (ch # s) base res rv overflow =
     (let c = of_char ch in
      if c = 0 then (res, rv, overflow)
      else
        case digit_val c of
          None \<Rightarrow> (res, rv, overflow)
        | Some val \<Rightarrow>
            if base \<le> val then (res, rv, overflow)
            else parse_integer_loop s base (res * word_of_nat base + word_of_nat val) (rv + 1)
                   (if step_overflows res base val then True else overflow))"

definition parse_integer :: "string \<Rightarrow> nat \<Rightarrow> u32 \<times> u64" where
  "parse_integer s base =
     (case parse_integer_loop s base 0 0 False of
        (res, rv, overflow) \<Rightarrow> (if overflow then rv OR KSTRTOX_OVERFLOW else rv, res))"

definition kstrtoull_nosign :: "string \<Rightarrow> nat \<Rightarrow> int + u64" where
  "kstrtoull_nosign s0 base0 =
     (case parse_integer_fixup_radix s0 base0 of (s, base) \<Rightarrow>
      case parse_integer s base of (rv, res) \<Rightarrow>
        if rv AND KSTRTOX_OVERFLOW \<noteq> 0 then Inl (- ERANGE)
        else if rv = 0 then Inl (- EINVAL)
        else
          let s1 = drop (unat rv) s;
              s2 = (if char_at s1 0 = 10 then drop 1 s1 else s1)
          in if char_at s2 0 \<noteq> 0 then Inl (- EINVAL) else Inr res)"

definition kstrtoull :: "string \<Rightarrow> nat \<Rightarrow> int + u64" where
  "kstrtoull s base = kstrtoull_nosign (if char_at s 0 = 43 then drop 1 s else s) base"

definition kstrtoll :: "string \<Rightarrow> nat \<Rightarrow> int + u64" where
  "kstrtoll s base =
     (if char_at s 0 = 45 then
        case kstrtoull_nosign (drop 1 s) base of
          Inl e \<Rightarrow> Inl e
        | Inr tmp \<Rightarrow> if sint (- tmp) \<ge> 0 then Inl (- ERANGE) else Inr (- tmp)
      else
        case kstrtoull s base of
          Inl e \<Rightarrow> Inl e
        | Inr tmp \<Rightarrow> if sint tmp < 0 then Inl (- ERANGE) else Inr tmp)"

text \<open>The narrower types: the value must survive the conversion to the type and back.\<close>

definition narrow_unsigned :: "int + u64 \<Rightarrow> int + 'a::len word" where
  "narrow_unsigned r =
     (case r of
        Inl e \<Rightarrow> Inl e
      | Inr tmp \<Rightarrow> if tmp \<noteq> ucast (ucast tmp :: 'a word) then Inl (- ERANGE) else Inr (ucast tmp))"

definition narrow_signed :: "int + u64 \<Rightarrow> int + 'a::len word" where
  "narrow_signed r =
     (case r of
        Inl e \<Rightarrow> Inl e
      | Inr tmp \<Rightarrow> if tmp \<noteq> scast (ucast tmp :: 'a word) then Inl (- ERANGE) else Inr (ucast tmp))"

definition kstrtoul :: "string \<Rightarrow> nat \<Rightarrow> int + u64" where
  "kstrtoul s base = narrow_unsigned (kstrtoull s base)"

definition kstrtol :: "string \<Rightarrow> nat \<Rightarrow> int + u64" where
  "kstrtol s base = narrow_signed (kstrtoll s base)"

definition kstrtouint :: "string \<Rightarrow> nat \<Rightarrow> int + 32 word" where
  "kstrtouint s base = narrow_unsigned (kstrtoull s base)"

definition kstrtoint :: "string \<Rightarrow> nat \<Rightarrow> int + 32 word" where
  "kstrtoint s base = narrow_signed (kstrtoll s base)"

definition kstrtou16 :: "string \<Rightarrow> nat \<Rightarrow> int + 16 word" where
  "kstrtou16 s base = narrow_unsigned (kstrtoull s base)"

definition kstrtos16 :: "string \<Rightarrow> nat \<Rightarrow> int + 16 word" where
  "kstrtos16 s base = narrow_signed (kstrtoll s base)"

definition kstrtou8 :: "string \<Rightarrow> nat \<Rightarrow> int + 8 word" where
  "kstrtou8 s base = narrow_unsigned (kstrtoull s base)"

definition kstrtos8 :: "string \<Rightarrow> nat \<Rightarrow> int + 8 word" where
  "kstrtos8 s base = narrow_signed (kstrtoll s base)"

text \<open>
  \<open>kstrto_from_user\<close>: a sign, the binary digits, a newline and the terminator of the type's \<open>len\<close> bits fit
  into the buffer. A byte that cannot be copied from the user buffer is \<open>None\<close>.
\<close>

definition kstrto_from_user :: "nat \<Rightarrow> (string \<Rightarrow> nat \<Rightarrow> int + 'a::len word) \<Rightarrow> char option list \<Rightarrow> nat \<Rightarrow> nat \<Rightarrow> int + 'a word" where
  "kstrto_from_user len g s count0 base =
     (let count = min count0 (1 + len + 1 + 1 - 1);
          bytes = take count s
      in if None \<in> set bytes then Inl (- EFAULT) else g (map the bytes) base)"

definition simple_strtoull :: "string \<Rightarrow> nat \<Rightarrow> u64 \<times> string" where
  "simple_strtoull cp0 base0 =
     (case parse_integer_fixup_radix cp0 base0 of (cp, base) \<Rightarrow>
      case parse_integer cp base of (rv, result) \<Rightarrow>
        (result, drop (unat (rv AND NOT KSTRTOX_OVERFLOW)) cp))"

definition simple_strtoul :: "string \<Rightarrow> nat \<Rightarrow> u64 \<times> string" where
  "simple_strtoul cp base = simple_strtoull cp base"

definition simple_strtol :: "string \<Rightarrow> nat \<Rightarrow> u64 \<times> string" where
  "simple_strtol cp base =
     (if char_at cp 0 = 45 then (case simple_strtoul (drop 1 cp) base of (v, r) \<Rightarrow> (- v, r)) else simple_strtoul cp base)"

definition simple_strtoll :: "string \<Rightarrow> nat \<Rightarrow> u64 \<times> string" where
  "simple_strtoll cp base =
     (if char_at cp 0 = 45 then (case simple_strtoull (drop 1 cp) base of (v, r) \<Rightarrow> (- v, r)) else simple_strtoull cp base)"

text \<open>\<open>skip_atoi\<close> of the format parser; \<open>i\<close> is an \<open>int\<close>.\<close>

fun skip_atoi_loop :: "string \<Rightarrow> u32 \<Rightarrow> string \<times> u32" where
  "skip_atoi_loop [] i = ([], i)"
| "skip_atoi_loop (ch # s) i =
     (let c = of_char ch in if isdigit c then skip_atoi_loop s (i * 10 + word_of_nat c - 48) else (ch # s, i))"

definition skip_atoi :: "string \<Rightarrow> string \<times> u32" where
  "skip_atoi s = skip_atoi_loop s 0"

section \<open>What they compute\<close>

text \<open>The digits of a number at the start of a text, as unbounded arithmetic reads them.\<close>

fun digit_prefix :: "nat \<Rightarrow> string \<Rightarrow> nat list" where
  "digit_prefix base [] = []"
| "digit_prefix base (ch # s) =
     (case digit_val (of_char ch) of
        None \<Rightarrow> []
      | Some d \<Rightarrow> if d < base then d # digit_prefix base s else [])"

definition ends_here :: "string \<Rightarrow> bool" where
  "ends_here s \<longleftrightarrow> char_at s 0 = 0 \<or> char_at s 0 = 10 \<and> char_at s 1 = 0"

definition read_unsigned :: "string \<Rightarrow> nat \<Rightarrow> int + nat" where
  "read_unsigned s0 base0 =
     (let (s, base) = parse_integer_fixup_radix s0 base0;
          ds = digit_prefix base s
      in if 2 ^ 64 \<le> digits_value base ds then Inl (- ERANGE)
         else if ds = [] \<or> \<not> ends_here (drop (length ds) s) then Inl (- EINVAL)
         else Inr (digits_value base ds))"

section \<open>The word arithmetic does not lose anything\<close>

lemma top_bits: "res AND push_bit 60 (NOT 0) \<noteq> 0 \<longleftrightarrow> 2 ^ 60 \<le> unat res" for res :: u64
proof -
  have "res AND push_bit 60 (NOT 0) = 0 \<longleftrightarrow> take_bit 60 (unat res) = unat res"
    using bit_imp_le_length [of res] by (auto simp: bit_eq_iff bit_simps possible_bit_def)
  also have "\<dots> \<longleftrightarrow> unat res < 2 ^ 60" by (rule take_bit_nat_eq_self_iff)
  finally show ?thesis by (simp add: not_less)
qed

lemma step_overflows_iff:
  assumes "1 \<le> b" "b \<le> 16" "d < b"
  shows "step_overflows res b d \<longleftrightarrow> 2 ^ 64 \<le> unat res * b + d"
proof -
  have d: "unat (word_of_nat d :: u64) = d" "unat (word_of_nat b :: u64) = b" using assms by (simp_all add: unat_u64)
  have max: "unat (ULLONG_MAX - word_of_nat d) = 2 ^ 64 - 1 - d"
  proof -
    have m: "unat ULLONG_MAX = 2 ^ 64 - 1" by (simp add: ULLONG_MAX_def unsigned_minus_1_eq_mask mask_eq_exp_minus_1)
    then have "word_of_nat d \<le> ULLONG_MAX" using d assms by (simp add: word_le_nat_alt)
    then show ?thesis using d m by (simp add: unat_sub)
  qed
  have "(ULLONG_MAX - word_of_nat d) div word_of_nat b < res \<longleftrightarrow> (2 ^ 64 - 1 - d) div b < unat res"
    by (simp add: word_less_nat_alt unat_div d max)
  also have "\<dots> \<longleftrightarrow> 2 ^ 64 \<le> unat res * b + d"
    using assms div_less_iff_less_mult [of b "2 ^ 64 - 1 - d" "unat res"] by auto
  finally have q: "(ULLONG_MAX - word_of_nat d) div word_of_nat b < res \<longleftrightarrow> 2 ^ 64 \<le> unat res * b + d" .
  have "2 ^ 60 \<le> unat res" if "2 ^ 64 \<le> unat res * b + d"
  proof (rule ccontr)
    assume "\<not> 2 ^ 60 \<le> unat res"
    then have "unat res * b \<le> (2 ^ 60 - 1) * 16" using assms(2) by (intro mult_le_mono) auto
    then show False using that assms by simp
  qed
  then show ?thesis unfolding step_overflows_def top_bits q by blast
qed

lemma step_exact:
  fixes res :: u64
  assumes "b \<le> 16" "d < b" "unat res * b + d < 2 ^ 64"
  shows "unat (res * word_of_nat b + word_of_nat d) = unat res * b + d"
proof -
  have "res * word_of_nat b + word_of_nat d = word_of_nat (unat res * b + d)" by simp
  then show ?thesis using unat_u64 [OF assms(3)] by (simp only:)
qed

lemma digit_val_nul: "digit_val 0 = None"
  by (simp add: digit_val_def fast_tolower_def)

lemma parse_integer_loop_result:
  assumes "1 \<le> b" "b \<le> 16" "ov \<longleftrightarrow> 2 ^ 64 \<le> v" "\<not> ov \<Longrightarrow> unat res = v"
  shows "\<exists>res'. parse_integer_loop s b res rv ov =
      (res', rv + word_of_nat (length (digit_prefix b s)), 2 ^ 64 \<le> foldl (\<lambda>v d. v * b + d) v (digit_prefix b s)) \<and>
    (foldl (\<lambda>v d. v * b + d) v (digit_prefix b s) < 2 ^ 64 \<longrightarrow> unat res' = foldl (\<lambda>v d. v * b + d) v (digit_prefix b s))"
  using assms(3,4)
proof (induction s arbitrary: res rv ov v)
  case (Cons ch s)
  show ?case
  proof (cases "\<exists>d. digit_val (of_char ch) = Some d \<and> d < b")
    case True
    then obtain d where d: "digit_val (of_char ch) = Some d" "d < b" by blast
    then have nz: "of_char ch \<noteq> (0::nat)" using digit_val_nul by (metis option.distinct(1))
    let ?ov = "if step_overflows res b d then True else ov" and ?v = "v * b + d"
    have mono: "v \<le> v * b" using assms(1) by simp
    have ov: "?ov \<longleftrightarrow> 2 ^ 64 \<le> ?v"
    proof (cases ov)
      case True
      then show ?thesis using Cons.prems(1) mono by (simp add: le_trans trans_le_add1)
    next
      case False
      then show ?thesis using step_overflows_iff [OF assms(1,2) d(2), of res] Cons.prems(2) by simp
    qed
    have ex: "\<not> ?ov \<Longrightarrow> unat (res * word_of_nat b + word_of_nat d) = ?v"
      using step_exact [OF assms(2) d(2), of res] Cons.prems(2) ov by (auto simp: not_le split: if_splits)
    show ?thesis using Cons.IH [OF ov ex, of "rv + 1"] d nz by (simp add: Let_def algebra_simps)
  next
    case False
    then have "parse_integer_loop (ch # s) b res rv ov = (res, rv, ov)" "digit_prefix b (ch # s) = []"
      by (auto simp: Let_def not_less split: option.splits)
    then show ?thesis using Cons.prems by auto
  qed
qed auto

section \<open>Conversions against unbounded arithmetic\<close>

lemma digit_prefix_length: "length (digit_prefix b s) \<le> length s"
  by (induction b s rule: digit_prefix.induct) (auto split: option.splits)

lemma overflow_bit: "bit KSTRTOX_OVERFLOW n \<longleftrightarrow> n = 31"
  unfolding KSTRTOX_OVERFLOW_def by (simp only: bit_push_bit_iff bit_1_iff possible_bit_word) auto

lemma word_and_bit: "w AND KSTRTOX_OVERFLOW \<noteq> 0 \<longleftrightarrow> bit w 31"
proof
  assume "w AND KSTRTOX_OVERFLOW \<noteq> 0"
  then obtain n where "bit (w AND KSTRTOX_OVERFLOW) n" by (auto simp: bit_eq_iff)
  then show "bit w 31" by (auto simp: bit_and_iff overflow_bit)
next
  assume "bit w 31"
  then have "bit (w AND KSTRTOX_OVERFLOW) 31" by (simp add: bit_and_iff overflow_bit)
  then show "w AND KSTRTOX_OVERFLOW \<noteq> 0" by auto
qed

lemma count_bit: "n < 2 ^ 31 \<Longrightarrow> unat (word_of_nat n :: u32) = n" "n < 2 ^ 31 \<Longrightarrow> \<not> bit (word_of_nat n :: u32) 31"
proof -
  assume n: "n < 2 ^ 31"
  then show u: "unat (word_of_nat n :: u32) = n" by (simp add: unat_of_nat)
  have "\<not> bit n 31" using n by (simp add: bit_iff_odd)
  then show "\<not> bit (word_of_nat n :: u32) 31" by (simp add: bit_simps)
qed

lemma parse_integer_result:
  assumes "1 \<le> b" "b \<le> 16" "length s < 2 ^ 31"
  obtains rv res where "parse_integer s b = (rv, res)"
    "rv AND KSTRTOX_OVERFLOW \<noteq> 0 \<longleftrightarrow> 2 ^ 64 \<le> digits_value b (digit_prefix b s)"
    "unat (rv AND NOT KSTRTOX_OVERFLOW) = length (digit_prefix b s)"
    "digits_value b (digit_prefix b s) < 2 ^ 64 \<Longrightarrow> unat rv = length (digit_prefix b s)"
    "digits_value b (digit_prefix b s) < 2 ^ 64 \<Longrightarrow> unat res = digits_value b (digit_prefix b s)"
proof -
  let ?n = "length (digit_prefix b s)" and ?v = "digits_value b (digit_prefix b s)"
  have n: "?n < 2 ^ 31" using digit_prefix_length [of b s] assms(3) by simp
  note c = count_bit [OF n]
  obtain res where res: "parse_integer_loop s b 0 0 False = (res, word_of_nat ?n, 2 ^ 64 \<le> ?v)" "?v < 2 ^ 64 \<Longrightarrow> unat res = ?v"
    using parse_integer_loop_result [OF assms(1,2), of False 0 0 s 0] by (auto simp: digits_value_def)
  have clear: "w AND NOT KSTRTOX_OVERFLOW = word_of_nat ?n" if "w = word_of_nat ?n OR KSTRTOX_OVERFLOW \<or> w = word_of_nat ?n" for w
    by (rule bit_word_eqI) (use that c(2) in \<open>auto simp: bit_and_iff bit_or_iff bit_not_iff_eq overflow_bit\<close>)
  show ?thesis
  proof (rule that)
    show "parse_integer s b = (if 2 ^ 64 \<le> ?v then word_of_nat ?n OR KSTRTOX_OVERFLOW else word_of_nat ?n, res)"
      by (simp add: parse_integer_def res(1))
  qed (use c res(2) clear in \<open>auto simp: word_and_bit bit_or_iff overflow_bit\<close>)
qed

lemma fixup_radix_facts:
  assumes "base \<le> 16" "parse_integer_fixup_radix s base = (s', b)"
  shows "1 \<le> b" "b \<le> 16" "length s' \<le> length s"
  using assms by (auto simp: parse_integer_fixup_radix_def Let_def split: if_splits)

lemma char_at_drop: "char_at (drop k s) i = char_at s (k + i)"
  by (auto simp: char_at_def)

lemma kstrtoull_nosign_eq:
  assumes "base \<le> 16" "length s < 2 ^ 31"
  shows "kstrtoull_nosign s base = map_sum id word_of_nat (read_unsigned s base)"
proof -
  obtain s' b where fr: "parse_integer_fixup_radix s base = (s', b)" by (cases "parse_integer_fixup_radix s base") auto
  note f = fixup_radix_facts [OF assms(1) fr]
  have len: "length s' < 2 ^ 31" using f(3) assms(2) by simp
  let ?ds = "digit_prefix b s'"
  obtain rv res where p: "parse_integer s' b = (rv, res)" "rv AND KSTRTOX_OVERFLOW \<noteq> 0 \<longleftrightarrow> 2 ^ 64 \<le> digits_value b ?ds"
    "digits_value b ?ds < 2 ^ 64 \<Longrightarrow> unat rv = length ?ds" "digits_value b ?ds < 2 ^ 64 \<Longrightarrow> unat res = digits_value b ?ds"
    using parse_integer_result [OF f(1,2) len] by blast
  show ?thesis
  proof (cases "2 ^ 64 \<le> digits_value b ?ds")
    case True
    then show ?thesis using p by (simp add: kstrtoull_nosign_def read_unsigned_def fr)
  next
    case False
    then have lt: "digits_value b ?ds < 2 ^ 64" by (rule not_le_imp_less)
    have "res = word_of_nat (unat res)" by simp
    with p(3,4) [OF lt] have u: "unat rv = length ?ds" "res = word_of_nat (digits_value b ?ds)" by simp_all
    then have z: "rv = 0 \<longleftrightarrow> ?ds = []" by (metis length_0_conv unat_eq_zero)
    have "char_at (if char_at (drop (length ?ds) s') 0 = 10 then drop 1 (drop (length ?ds) s') else drop (length ?ds) s') 0 \<noteq> 0
        \<longleftrightarrow> \<not> ends_here (drop (length ?ds) s')"
      unfolding ends_here_def by (simp add: char_at_drop)
    then show ?thesis using False p(1,2) u z by (simp add: kstrtoull_nosign_def read_unsigned_def fr Let_def)
  qed
qed

lemma sint_u64: "- (2 ^ 63) \<le> k \<Longrightarrow> k < 2 ^ 63 \<Longrightarrow> sint (word_of_int k :: u64) = k"
  by (simp add: signed_of_int signed_take_bit_int_eq_self)

lemma u64_shift: "(word_of_int k :: u64) = word_of_int (k - 2 ^ 64)" "(word_of_int k :: u64) = word_of_int (k + 2 ^ 64)"
  by (simp_all add: of_int_diff of_int_add)

lemma sint_unsigned:
  assumes "v < 2 ^ 64"
  shows "sint (word_of_nat v :: u64) < 0 \<longleftrightarrow> 2 ^ 63 \<le> v" "v < 2 ^ 63 \<Longrightarrow> sint (word_of_nat v :: u64) = int v"
    "sint (- (word_of_nat v :: u64)) \<ge> 0 \<longleftrightarrow> v = 0 \<or> 2 ^ 63 < v" "v \<le> 2 ^ 63 \<Longrightarrow> sint (- (word_of_nat v :: u64)) = - int v"
proof -
  have pos: "(word_of_nat v :: u64) = word_of_int (int v)" and neg: "- (word_of_nat v :: u64) = word_of_int (- int v)" by simp_all
  show a: "v < 2 ^ 63 \<Longrightarrow> sint (word_of_nat v :: u64) = int v" unfolding pos by (rule sint_u64) simp_all
  show b: "v \<le> 2 ^ 63 \<Longrightarrow> sint (- (word_of_nat v :: u64)) = - int v" unfolding neg by (rule sint_u64) simp_all
  have c: "2 ^ 63 \<le> v \<Longrightarrow> sint (word_of_nat v :: u64) = int v - 2 ^ 64"
    unfolding pos u64_shift(1) [of "int v"] using assms by (intro sint_u64) simp_all
  have d: "2 ^ 63 < v \<Longrightarrow> sint (- (word_of_nat v :: u64)) = 2 ^ 64 - int v"
    unfolding neg u64_shift(2) [of "- int v"] using assms by (subst sint_u64) simp_all
  show "sint (word_of_nat v :: u64) < 0 \<longleftrightarrow> 2 ^ 63 \<le> v"
    using a c assms by (cases "2 ^ 63 \<le> v") auto
  show "sint (- (word_of_nat v :: u64)) \<ge> 0 \<longleftrightarrow> v = 0 \<or> 2 ^ 63 < v"
    using b d assms by (cases "v \<le> 2 ^ 63") auto
qed

lemma read_unsigned_lt: "read_unsigned s base = Inr v \<Longrightarrow> v < 2 ^ 64"
  by (auto simp: read_unsigned_def Let_def split: if_splits prod.splits)

text \<open>What a signed conversion reads; a zero with a minus sign is refused.\<close>

definition read_signed :: "string \<Rightarrow> nat \<Rightarrow> int + int" where
  "read_signed s base =
     (if char_at s 0 = 45 then
        case read_unsigned (drop 1 s) base of
          Inl e \<Rightarrow> Inl e
        | Inr v \<Rightarrow> if v = 0 \<or> 2 ^ 63 < v then Inl (- ERANGE) else Inr (- int v)
      else
        case read_unsigned (if char_at s 0 = 43 then drop 1 s else s) base of
          Inl e \<Rightarrow> Inl e
        | Inr v \<Rightarrow> if 2 ^ 63 \<le> v then Inl (- ERANGE) else Inr (int v))"

lemma kstrtoull_eq:
  assumes "base \<le> 16" "length s < 2 ^ 31"
  shows "kstrtoull s base = map_sum id word_of_nat (read_unsigned (if char_at s 0 = 43 then drop 1 s else s) base)"
  unfolding kstrtoull_def by (rule kstrtoull_nosign_eq) (use assms in auto)

lemma kstrtoll_eq:
  assumes "base \<le> 16" "length s < 2 ^ 31"
  shows "map_sum id sint (kstrtoll s base) = read_signed s base"
proof (cases "char_at s 0 = 45")
  case True
  have "kstrtoull_nosign (drop 1 s) base = map_sum id word_of_nat (read_unsigned (drop 1 s) base)"
    by (rule kstrtoull_nosign_eq) (use assms in auto)
  then show ?thesis using True
    by (auto simp: kstrtoll_def read_signed_def sint_unsigned [OF read_unsigned_lt] split: sum.splits)
next
  case False
  then show ?thesis using kstrtoull_eq [OF assms]
    by (auto simp: kstrtoll_def read_signed_def sint_unsigned [OF read_unsigned_lt] split: sum.splits)
qed

lemma ucast_ucast_u64:
  assumes "LENGTH('a::len) \<le> 64"
  shows "ucast (ucast w :: 'a word) = (w :: u64) \<longleftrightarrow> unat w < 2 ^ LENGTH('a)"
proof -
  have "ucast (ucast w :: 'a word) = take_bit LENGTH('a) w"
    by (rule bit_word_eqI) (auto simp: bit_simps)
  also have "\<dots> = w \<longleftrightarrow> take_bit LENGTH('a) (unat w) = unat w"
    by (metis unsigned_take_bit_eq word_unat_eq_iff)
  finally show ?thesis by (simp add: take_bit_nat_eq_self_iff)
qed

lemma narrow_unsigned_eq:
  assumes "LENGTH('a::len) \<le> 64"
  shows "(narrow_unsigned (Inr w) :: int + 'a word) = (if unat w < 2 ^ LENGTH('a) then Inr (ucast w) else Inl (- ERANGE))"
  using ucast_ucast_u64 [OF assms, of w] by (auto simp: narrow_unsigned_def)

lemma scast_ucast_u64:
  assumes "LENGTH('a::len) \<le> 64"
  shows "scast (ucast w :: 'a word) = (w :: u64) \<longleftrightarrow> - (2 ^ (LENGTH('a) - 1)) \<le> sint w \<and> sint w < 2 ^ (LENGTH('a) - 1)"
proof -
  let ?n = "LENGTH('a) - 1"
  have n: "?n \<le> 63" "?n < LENGTH('a)" "63 < LENGTH('a) \<Longrightarrow> ?n = 63" using assms by simp_all
  have "sint (scast (ucast w :: 'a word) :: u64) = signed_take_bit ?n (sint w)"
    by (rule bit_eqI) (use n in \<open>auto simp: bit_simps min_def not_le\<close>)
  then have "scast (ucast w :: 'a word) = w \<longleftrightarrow> signed_take_bit ?n (sint w) = sint w"
    by (metis signed_word_eqI)
  then show ?thesis by (simp add: signed_take_bit_int_eq_self_iff)
qed

lemma narrow_signed_eq:
  assumes "LENGTH('a::len) \<le> 64"
  shows "(narrow_signed (Inr w) :: int + 'a word) =
      (if - (2 ^ (LENGTH('a) - 1)) \<le> sint w \<and> sint w < 2 ^ (LENGTH('a) - 1) then Inr (ucast w) else Inl (- ERANGE))"
    "- (2 ^ (LENGTH('a) - 1)) \<le> sint w \<Longrightarrow> sint w < 2 ^ (LENGTH('a) - 1) \<Longrightarrow> sint (ucast w :: 'a word) = sint w"
proof -
  show "(narrow_signed (Inr w) :: int + 'a word) =
      (if - (2 ^ (LENGTH('a) - 1)) \<le> sint w \<and> sint w < 2 ^ (LENGTH('a) - 1) then Inr (ucast w) else Inl (- ERANGE))"
    using scast_ucast_u64 [OF assms, of w] by (auto simp: narrow_signed_def)
  let ?n = "LENGTH('a) - 1"
  have n: "?n \<le> 63" "?n < LENGTH('a)" "63 < LENGTH('a) \<Longrightarrow> ?n = 63" using assms by simp_all
  have "sint (ucast w :: 'a word) = signed_take_bit ?n (sint w)"
    by (rule bit_eqI) (use n in \<open>auto simp: bit_simps min_def not_le\<close>)
  then show "- (2 ^ ?n) \<le> sint w \<Longrightarrow> sint w < 2 ^ ?n \<Longrightarrow> sint (ucast w :: 'a word) = sint w"
    by (simp add: signed_take_bit_int_eq_self)
qed

text \<open>The values that fit a type of \<open>len\<close> bits; all others are out of range.\<close>

definition fit_unsigned :: "nat \<Rightarrow> int + nat \<Rightarrow> int + nat" where
  "fit_unsigned len r = (case r of Inl e \<Rightarrow> Inl e | Inr v \<Rightarrow> if v < 2 ^ len then Inr v else Inl (- ERANGE))"

definition fit_signed :: "nat \<Rightarrow> int + int \<Rightarrow> int + int" where
  "fit_signed len r = (case r of Inl e \<Rightarrow> Inl e | Inr v \<Rightarrow> if - (2 ^ (len - 1)) \<le> v \<and> v < 2 ^ (len - 1) then Inr v else Inl (- ERANGE))"

lemma narrow_fit_unsigned:
  assumes "LENGTH('a::len) \<le> 64" "\<And>v. r = Inr v \<Longrightarrow> v < 2 ^ 64"
  shows "map_sum id unat (narrow_unsigned (map_sum id word_of_nat r) :: int + 'a word) = fit_unsigned LENGTH('a) r"
proof (cases r)
  case (Inr v)
  then have "unat (word_of_nat v :: u64) = v" using assms(2) by (simp add: unat_u64)
  then show ?thesis using narrow_unsigned_eq [OF assms(1), of "word_of_nat v"]
    by (auto simp: Inr fit_unsigned_def unsigned_ucast_eq take_bit_nat_eq_self)
qed (simp add: narrow_unsigned_def fit_unsigned_def)

lemma narrow_fit_signed:
  assumes "LENGTH('a::len) \<le> 64"
  shows "map_sum id sint (narrow_signed r :: int + 'a word) = fit_signed LENGTH('a) (map_sum id sint r)"
proof (cases r)
  case (Inr w)
  then show ?thesis using narrow_signed_eq [OF assms, of w] by (auto simp: fit_signed_def)
qed (simp add: narrow_signed_def fit_signed_def)

end
