(* ===== verification/Vsprintf.thy ===== *)
theory Vsprintf
  imports Kstrtox
begin

unbundle bit_operations_syntax

text \<open>
  Text from numbers (\<open>lib/vsprintf.c\<close>): \<open>put_dec\<close> and its helpers with their divisions by multiplication,
  \<open>num_to_str\<close>, and \<open>number\<close> and \<open>string\<close>, which write a field into a buffer that ends at \<open>end\<close>. The output
  position runs on beyond \<open>end\<close>; characters there are dropped. \<open>field_width\<close> and \<open>precision\<close> are \<open>s16\<close>
  fields, words of 16 bits that wrap.
\<close>

section \<open>Decimal digits\<close>

definition div10_wide :: "u32 \<Rightarrow> u32" where
  "div10_wide q = ucast (drop_bit 32 (ucast q * 0x1999999a :: u64))"

definition out_digit :: "u32 \<Rightarrow> u32 \<Rightarrow> char" where
  "out_digit q r = char_of (unat (q - 10 * r + 48))"

definition put_dec_full9 :: "u32 \<Rightarrow> string" where
  "put_dec_full9 q0 =
     (let r1 = div10_wide q0; c1 = out_digit q0 r1;
          q1 = div10_wide r1; c2 = out_digit r1 q1;
          r2 = div10_wide q1; c3 = out_digit q1 r2;
          q2 = div10_wide r2; c4 = out_digit r2 q2;
          r3 = div10_wide q2; c5 = out_digit q2 r3;
          q3 = drop_bit 16 (r3 * 0x199a); c6 = out_digit r3 q3;
          r4 = drop_bit 11 (q3 * 0xcd); c7 = out_digit q3 r4;
          q4 = drop_bit 11 (r4 * 0xcd); c8 = out_digit r4 q4;
          c9 = char_of (unat (q4 + 48))
      in [c1, c2, c3, c4, c5, c6, c7, c8, c9])"

definition put_dec_trunc4 :: "u32 \<Rightarrow> string" where
  "put_dec_trunc4 r0 =
     (let q1 = drop_bit 16 (r0 * 0x199a); c1 = out_digit r0 q1 in
      if q1 = 0 then [c1]
      else
        let r1 = drop_bit 11 (q1 * 0xcd); c2 = out_digit q1 r1 in
        if r1 = 0 then [c1, c2]
        else
          let q2 = drop_bit 11 (r1 * 0xcd); c3 = out_digit r1 q2 in
          if q2 = 0 then [c1, c2, c3] else [c1, c2, c3, char_of (unat (q2 + 48))])"

lemma unat_drop_bit: "unat (drop_bit n w) = drop_bit n (unat w)" for w :: "'a::len word"
proof -
  have "unat w < 2 ^ LENGTH('a)" by (rule unsigned_less)
  then show ?thesis by (simp only: unsigned_drop_bit_eq take_bit_nat_eq_self)
qed

lemmas unat_drop_bit_div = trans [OF unat_drop_bit drop_bit_eq_div]

lemma unat_div10_wide: "unat (div10_wide r) = (unat r * 0x1999999a) div 2 ^ 32"
proof -
  define X where "X = (ucast r * 0x1999999a :: u64)"
  have r: "unat r < 2 ^ 32" using unsigned_less [of r] by simp
  then have "unat (ucast r :: u64) = unat r" by (simp add: unsigned_ucast_eq take_bit_nat_eq_self)
  moreover have "unat r * 0x1999999a < 2 ^ 64" using r by simp
  ultimately have X: "unat X = unat r * 0x1999999a" by (simp add: X_def unat_word_ariths)
  have lt: "unat r * 0x1999999a div 2 ^ 32 < 2 ^ 32" using r by (intro less_mult_imp_div_less) simp
  have "unat (div10_wide r) = take_bit 32 (drop_bit 32 (unat X))"
    unfolding div10_wide_def X_def [symmetric] by (simp add: unsigned_ucast_eq unat_drop_bit)
  also have "\<dots> = unat r * 0x1999999a div 2 ^ 32" unfolding X drop_bit_eq_div by (rule take_bit_nat_eq_self [OF lt])
  finally show ?thesis .
qed

function put_dec_trunc8 :: "u32 \<Rightarrow> string" where
  "put_dec_trunc8 r =
     (if r \<ge> 10000 then
        let q = r + 48; r1 = div10_wide r in char_of (unat (q - 10 * r1)) # put_dec_trunc8 r1
      else put_dec_trunc4 r)"
  by pat_completeness auto
termination
proof (relation "measure unat")
  fix r x xa :: u32 assume "10000 \<le> r" "xa = div10_wide r"
  moreover from this have "0 < unat r" by (simp add: word_le_nat_alt)
  then have "unat r * 0x1999999a < unat r * 2 ^ 32" by simp
  then have "unat r * 0x1999999a div 2 ^ 32 < unat r" by (rule less_mult_imp_div_less)
  ultimately show "(xa, r) \<in> measure unat" by (simp add: unat_div10_wide)
qed simp

declare put_dec_trunc8.simps [simp del]

text \<open>\<open>do_div\<close> yields the remainder and leaves the quotient in \<open>n\<close>.\<close>

function put_dec_loop :: "u64 \<Rightarrow> string \<times> u64" where
  "put_dec_loop n =
     (if n \<ge> 1000000000 then
        case put_dec_loop (n div 1000000000) of (s, n1) \<Rightarrow> (put_dec_full9 (ucast (n mod 1000000000)) @ s, n1)
      else ([], n))"
  by pat_completeness auto
termination
proof (relation "measure unat")
  fix n :: u64 assume "1000000000 \<le> n"
  then have "0 < unat n" by (simp add: word_le_nat_alt)
  then show "(n div 1000000000, n) \<in> measure unat" by (simp add: unat_div)
qed simp

declare put_dec_loop.simps [simp del]

definition put_dec :: "u64 \<Rightarrow> string" where
  "put_dec n =
     (if n \<ge> 100000000 then
        case put_dec_loop n of (s, n1) \<Rightarrow>
          if n1 \<ge> 100000000 then s @ put_dec_full9 (ucast n1) else s @ put_dec_trunc8 (ucast n1)
      else put_dec_trunc8 (ucast n))"

text \<open>\<open>num_to_str\<close>: the buffer and the length; the digits come out of \<open>put_dec\<close> in reverse order.\<close>

definition num_to_str :: "string \<Rightarrow> nat \<Rightarrow> u64 \<Rightarrow> string \<times> nat" where
  "num_to_str buf sz num =
     (let tmp = (if num \<le> 9 then [char_of (48 + unat num)] else put_dec num);
          len = length tmp
      in if len > sz then (buf, 0)
         else (fold (\<lambda>idx b. b[idx := tmp ! (len - idx - 1)]) [0 ..< len] buf, len))"

section \<open>Fields\<close>

definition ZEROPAD :: "8 word" where "ZEROPAD = 1"
definition SIGN :: "8 word" where "SIGN = 2"
definition PLUS :: "8 word" where "PLUS = 4"
definition SPACE :: "8 word" where "SPACE = 8"
definition LEFT :: "8 word" where "LEFT = 16"
definition SMALL :: "8 word" where "SMALL = 32"
definition SPECIAL :: "8 word" where "SPECIAL = 64"

record printf_spec =
  ps_type :: "8 word"
  ps_flags :: "8 word"
  ps_base :: "8 word"
  ps_qualifier :: "8 word"
  ps_field_width :: "16 word"
  ps_precision :: "16 word"

text \<open>\<open>if (buf < end) *buf = c; ++buf;\<close>\<close>

definition emit :: "nat \<Rightarrow> char \<Rightarrow> string \<times> nat \<Rightarrow> string \<times> nat" where
  "emit end c out = (case out of (mem, buf) \<Rightarrow> (if buf < end then mem[buf := c] else mem, buf + 1))"

text \<open>\<open>while (--spec.field_width >= 0)\<close> writing \<open>c\<close>; the new width and the output.\<close>

function pad_width :: "nat \<Rightarrow> char \<Rightarrow> 16 word \<Rightarrow> string \<times> nat \<Rightarrow> 16 word \<times> string \<times> nat" where
  "pad_width end c w out = (if sint (w - 1) \<ge> 0 then pad_width end c (w - 1) (emit end c out) else (w - 1, out))"
  by pat_completeness auto
termination
proof (relation "measure (\<lambda>(end, c, w, out). unat w)")
  fix "end" :: nat and c :: char and w :: "16 word" and out :: "string \<times> nat"
  assume a: "0 \<le> sint (w - 1)"
  have "w \<noteq> 0" using a by auto
  then have "unat (w - 1) < unat w" by (simp add: unat_minus_one unat_gt_0)
  then show "((end, c, w - 1, emit end c out), end, c, w, out) \<in> measure (\<lambda>(end, c, w, out). unat w)" by simp
qed simp

declare pad_width.simps [simp del]

text \<open>\<open>while (i <= --spec.precision)\<close> writing zeros.\<close>

lemma sint16_pred: "0 \<le> sint (w - 1) \<Longrightarrow> unat (w - 1) < unat w" for w :: "16 word"
proof -
  assume "0 \<le> sint (w - 1)"
  then have "w \<noteq> 0" by auto
  then show ?thesis by (simp add: unat_minus_one unat_gt_0)
qed

function pad_precision :: "nat \<Rightarrow> nat \<Rightarrow> 16 word \<Rightarrow> string \<times> nat \<Rightarrow> string \<times> nat" where
  "pad_precision end i p out = (if int i \<le> sint (p - 1) then pad_precision end i (p - 1) (emit end (CHR ''0'') out) else out)"
  by pat_completeness auto
termination
proof (relation "measure (\<lambda>(end, i, p, out). unat p)")
  fix "end" i :: nat and p :: "16 word" and out :: "string \<times> nat"
  assume "int i \<le> sint (p - 1)"
  then show "((end, i, p - 1, emit end (CHR ''0'') out), end, i, p, out) \<in> measure (\<lambda>(end, i, p, out). unat p)"
    using sint16_pred [of p] by simp
qed simp

declare pad_precision.simps [simp del]

definition digits_table :: string where
  "digits_table = ''0123456789ABCDEF''"

definition table_digit :: "8 word \<Rightarrow> nat \<Rightarrow> char" where
  "table_digit locase k = char_of (of_char (digits_table ! k) OR unat locase)"

text \<open>The digits in base 8 or 16, last digit first.\<close>

function shift_digits :: "8 word \<Rightarrow> 8 word \<Rightarrow> u64 \<Rightarrow> string" where
  "shift_digits base locase num =
     (let msk = base - 1;
          shift = (if base = 16 then 4 else 3);
          c = table_digit locase (unat (ucast num AND msk));
          num1 = drop_bit shift num
      in if num1 \<noteq> 0 then c # shift_digits base locase num1 else [c])"
  by pat_completeness auto
termination
proof (relation "measure (\<lambda>(base, locase, num). unat num)")
  fix base locase :: "8 word" and num :: u64 and msk :: "8 word" and shift :: nat and c num1
  assume a: "shift = (if base = 16 then 4 else 3)" "num1 = drop_bit shift num" "num1 \<noteq> 0"
  have "unat num1 = unat num div 2 ^ shift" unfolding a(2) by (rule unat_drop_bit_div)
  moreover have "0 < unat num" using a(2,3) by (auto simp: unat_gt_0)
  moreover have "1 < (2::nat) ^ shift" using a(1) by simp
  ultimately show "((base, locase, num1), base, locase, num) \<in> measure (\<lambda>(base, locase, num). unat num)"
    by (simp add: div_less_dividend)
qed simp

declare shift_digits.simps [simp del]

definition number_digits :: "8 word \<Rightarrow> 8 word \<Rightarrow> u64 \<Rightarrow> string" where
  "number_digits base locase num =
     (if num < ucast base then [table_digit locase (unat num)]
      else if base \<noteq> 10 then shift_digits base locase num
      else put_dec num)"

text \<open>The sign character, the magnitude and the field width that remains.\<close>

definition number_sign :: "8 word \<Rightarrow> u64 \<Rightarrow> 16 word \<Rightarrow> nat \<times> u64 \<times> 16 word" where
  "number_sign flags num width =
     (if flags AND SIGN \<noteq> 0 then
        if sint num < 0 then (45, - num, width - 1)
        else if flags AND PLUS \<noteq> 0 then (43, num, width - 1)
        else if flags AND SPACE \<noteq> 0 then (32, num, width - 1)
        else (0, num, width)
      else (0, num, width))"

definition number :: "nat \<Rightarrow> u64 \<Rightarrow> printf_spec \<Rightarrow> string \<times> nat \<Rightarrow> string \<times> nat" where
  "number end num0 spec out0 =
     (let base = ps_base spec;
          need_pfx = (ps_flags spec AND SPECIAL \<noteq> 0 \<and> base \<noteq> 10);
          is_zero = (num0 = 0);
          locase = ps_flags spec AND SMALL;
          flags = (if ps_flags spec AND LEFT \<noteq> 0 then ps_flags spec AND NOT ZEROPAD else ps_flags spec);
          (sign, num, width1) = number_sign flags num0 (ps_field_width spec);
          width2 = (if need_pfx then if base = 16 then width1 - 2 else if \<not> is_zero then width1 - 1 else width1 else width1);
          tmp = number_digits base locase num;
          i = length tmp;
          precision = (if int i > sint (ps_precision spec) then word_of_nat i else ps_precision spec);
          width3 = width2 - precision;
          (width4, out1) = (if flags AND (ZEROPAD + LEFT) = 0 then pad_width end (CHR '' '') width3 out0 else (width3, out0));
          out2 = (if sign \<noteq> 0 then emit end (char_of sign) out1 else out1);
          out3 = (if need_pfx \<and> (base = 16 \<or> \<not> is_zero) then emit end (CHR ''0'') out2 else out2);
          out4 = (if need_pfx \<and> base = 16 then emit end (char_of (88 OR unat locase)) out3 else out3);
          (width5, out5) =
            (if flags AND LEFT = 0
             then pad_width end (if flags AND ZEROPAD \<noteq> 0 then CHR ''0'' else CHR '' '') width4 out4 else (width4, out4));
          out6 = pad_precision end i precision out5;
          out7 = fold (emit end) (rev tmp) out6
      in snd (pad_width end (CHR '' '') width5 out7))"

text \<open>
  \<open>string\<close>: a pointer into the first page is \<open>None\<close>. \<open>while (len < spec.field_width--)\<close>; the width that
  remains and the output.
\<close>

function pad_string :: "nat \<Rightarrow> nat \<Rightarrow> 16 word \<Rightarrow> string \<times> nat \<Rightarrow> 16 word \<times> string \<times> nat" where
  "pad_string end len w out = (if int len < sint w then pad_string end len (w - 1) (emit end (CHR '' '') out) else (w - 1, out))"
  by pat_completeness auto
termination
proof (relation "measure (\<lambda>(end, len, w, out). unat w)")
  fix "end" len :: nat and w :: "16 word" and out :: "string \<times> nat"
  assume "int len < sint w"
  then have "w \<noteq> 0" by auto
  then show "((end, len, w - 1, emit end (CHR '' '') out), end, len, w, out) \<in> measure (\<lambda>(end, len, w, out). unat w)"
    by (simp add: unat_minus_one unat_gt_0)
qed simp

declare pad_string.simps [simp del]

definition strnlen :: "string \<Rightarrow> nat \<Rightarrow> nat" where
  "strnlen s n = length (takeWhile (\<lambda>c. of_char c \<noteq> (0 :: nat)) (take n s))"

definition string_field :: "nat \<Rightarrow> string option \<Rightarrow> printf_spec \<Rightarrow> string \<times> nat \<Rightarrow> string \<times> nat" where
  "string_field end ptr spec out0 =
     (let s = (case ptr of None \<Rightarrow> ''(null)'' | Some s \<Rightarrow> s);
          len = strnlen s (unat (scast (ps_precision spec) :: u64));
          (w, out1) = (if ps_flags spec AND LEFT = 0 then pad_string end len (ps_field_width spec) out0 else (ps_field_width spec, out0));
          out2 = fold (emit end) (take len s) out1
      in snd (pad_string end len w out2))"

section \<open>The digits are the decimal digits\<close>

text \<open>The digits of a number, last digit first: all of them, and exactly \<open>k\<close> of them.\<close>

definition rdigits :: "nat \<Rightarrow> nat list" where
  "rdigits n = rev (dec_digits n)"

primrec rfull :: "nat \<Rightarrow> nat \<Rightarrow> nat list" where
  "rfull 0 n = []"
| "rfull (Suc k) n = n mod 10 # rfull k (n div 10)"

lemma rdigits_rec: "rdigits n = (if n < 10 then [n] else n mod 10 # rdigits (n div 10))"
  unfolding rdigits_def by (subst dec_digits.simps) simp

lemma rdigits_split: "10 ^ k \<le> n \<Longrightarrow> rdigits n = rfull k n @ rdigits (n div 10 ^ k)"
proof (induction k arbitrary: n)
  case (Suc k)
  have "1 \<le> (10::nat) ^ k" by simp
  then have n: "10 \<le> n" using Suc.prems unfolding power_Suc by linarith
  have "10 ^ k \<le> n div 10" using Suc.prems by (simp add: less_eq_div_iff_mult_less_eq mult.commute)
  then show ?case using n Suc.IH [of "n div 10"] rdigits_rec [of n] by (simp add: div_mult2_eq)
qed simp

lemma rfull_mod: "rfull k (n mod 10 ^ k) = rfull k n"
proof (induction k arbitrary: n)
  case (Suc k)
  have "n mod 10 ^ Suc k mod 10 = n mod 10" by (simp add: mod_mod_cancel)
  moreover have "n mod 10 ^ Suc k div 10 = n div 10 mod 10 ^ k" by (simp add: mod_mult2_eq)
  ultimately show ?case using Suc.IH [of "n div 10"] by (simp del: power_Suc)
qed simp

lemma div_by_mul:
  fixes x m sh e :: nat
  assumes "10 * m = sh + e" "e * (x div 10) + 9 * m < sh"
  shows "x * m div sh = x div 10"
proof -
  define q r where "q = x div 10" and "r = x mod 10"
  have x: "x = 10 * q + r" "r \<le> 9" by (simp_all add: q_def r_def)
  have "x * m = q * (10 * m) + r * m" unfolding x(1) by (simp add: algebra_simps)
  then have xm: "x * m = q * sh + (e * q + r * m)" unfolding assms(1) by (simp add: algebra_simps)
  have "r * m \<le> 9 * m" using x(2) by (rule mult_le_mono1)
  then have "e * q + r * m < sh" using assms(2) unfolding q_def by linarith
  then show ?thesis unfolding xm q_def [symmetric] by simp
qed

lemma div10_wide: "unat q < 10 ^ 9 \<Longrightarrow> unat (div10_wide q) = unat q div 10"
  unfolding unat_div10_wide by (rule div_by_mul [where e = 4]) simp_all

lemma unat_mul_u32: "unat q * unat k < 2 ^ 32 \<Longrightarrow> unat (q * k) = unat q * unat k" for q k :: u32
  by (simp add: unat_word_ariths)

lemma mul_div10:
  fixes q :: u32
  shows "unat q < 10000 \<Longrightarrow> unat (drop_bit 16 (q * 0x199a)) = unat q div 10"
    "unat q < 1000 \<Longrightarrow> unat (drop_bit 11 (q * 0xcd)) = unat q div 10"
proof -
  assume q: "unat q < 10000"
  have "unat (q * 0x199a) = unat q * 0x199a" using unat_mul_u32 [of q "0x199a"] q by simp
  then show "unat (drop_bit 16 (q * 0x199a)) = unat q div 10"
    using div_by_mul [where m = "0x199a" and sh = "2 ^ 16" and e = 4 and x = "unat q"] q by (simp add: unat_drop_bit_div del: div_mult_mult1_if)
next
  assume q: "unat q < 1000"
  have "unat (q * 0xcd) = unat q * 0xcd" using unat_mul_u32 [of q "0xcd"] q by simp
  then show "unat (drop_bit 11 (q * 0xcd)) = unat q div 10"
    using div_by_mul [where m = "0xcd" and sh = "2 ^ 11" and e = 2 and x = "unat q"] q by (simp add: unat_drop_bit_div)
qed

lemma out_digit_div:
  assumes "unat r = unat q div 10"
  shows "out_digit q r = digit_char (unat q mod 10)"
proof -
  have "q - 10 * r + 48 = word_of_nat (unat q) - word_of_nat (10 * unat r) + 48" by simp
  also have "\<dots> = word_of_nat (unat q - 10 * unat r) + 48" using assms by (subst of_nat_diff) simp_all
  also have "\<dots> = word_of_nat (48 + unat q mod 10)" using assms minus_mult_div_eq_mod [of "unat q" 10] by simp
  finally have w: "q - 10 * r + 48 = word_of_nat (48 + unat q mod 10)" .
  have "unat q mod 10 < 10" by simp
  then have "48 + unat q mod 10 < 58" by linarith
  then have "48 + unat q mod 10 < 2 ^ 32" by (rule less_trans) simp
  then have "unat (q - 10 * r + 48) = 48 + unat q mod 10" unfolding w by (rule unat_u32)
  then show ?thesis by (simp add: out_digit_def digit_char_def)
qed

text \<open>The number formatters: each step is a division by ten and its remainder.\<close>

lemma digit_char_lt: "unat q < 10 \<Longrightarrow> char_of (unat (q + 48)) = digit_char (unat q)" for q :: u32
proof -
  assume q: "unat q < 10"
  then have "unat (q + 48) = 48 + unat q" by (simp add: unat_word_ariths)
  then show ?thesis by (simp add: digit_char_def)
qed

lemma rfull_9:
  "rfull 9 n = [n mod 10, n div 10 mod 10, n div 10 div 10 mod 10, n div 10 div 10 div 10 mod 10, n div 10 div 10 div 10 div 10 mod 10,
    n div 10 div 10 div 10 div 10 div 10 mod 10, n div 10 div 10 div 10 div 10 div 10 div 10 mod 10,
    n div 10 div 10 div 10 div 10 div 10 div 10 div 10 mod 10, n div 10 div 10 div 10 div 10 div 10 div 10 div 10 div 10 mod 10]"
proof -
  have "(9::nat) = Suc (Suc (Suc (Suc (Suc (Suc (Suc (Suc (Suc 0))))))))" by simp
  then show ?thesis by (simp only: rfull.simps)
qed

lemma put_dec_full9_eq:
  assumes "unat q < 10 ^ 9"
  shows "put_dec_full9 q = map digit_char (rfull 9 (unat q))"
proof -
  define r1 where "r1 = div10_wide q"
  define q1 where "q1 = div10_wide r1"
  define r2 where "r2 = div10_wide q1"
  define q2 where "q2 = div10_wide r2"
  define r3 where "r3 = div10_wide q2"
  define q3 where "q3 = drop_bit 16 (r3 * 0x199a)"
  define r4 where "r4 = drop_bit 11 (q3 * 0xcd)"
  define q4 where "q4 = drop_bit 11 (r4 * 0xcd)"
  have less: "unat a < 10 ^ 9" if "unat a = unat b div 10" "unat b < 10 ^ 9" for a b :: u32
    using that le_less_trans [OF div_le_dividend] by metis
  have u1: "unat r1 = unat q div 10" unfolding r1_def by (rule div10_wide [OF assms])
  note l1 = less [OF u1 assms]
  have u2: "unat q1 = unat r1 div 10" unfolding q1_def by (rule div10_wide [OF l1])
  note l2 = less [OF u2 l1]
  have u3: "unat r2 = unat q1 div 10" unfolding r2_def by (rule div10_wide [OF l2])
  note l3 = less [OF u3 l2]
  have u4: "unat q2 = unat r2 div 10" unfolding q2_def by (rule div10_wide [OF l3])
  note l4 = less [OF u4 l3]
  have u5: "unat r3 = unat q2 div 10" unfolding r3_def by (rule div10_wide [OF l4])
  have "unat q < 10000 * 10 ^ 5" using assms by simp
  then have l5: "unat r3 < 10000" unfolding u5 u4 u3 u2 u1 by (simp add: div_mult2_eq [symmetric] less_mult_imp_div_less)
  have u6: "unat q3 = unat r3 div 10" unfolding q3_def by (rule mul_div10(1) [OF l5])
  have u7: "unat r4 = unat q3 div 10" unfolding r4_def by (rule mul_div10(2)) (use l5 u6 in simp)
  have u8: "unat q4 = unat r4 div 10" unfolding q4_def by (rule mul_div10(2)) (use l5 u6 u7 in simp)
  have l8: "unat q4 < 10" unfolding u8 u7 u6 using l5 by simp
  have "put_dec_full9 q = [out_digit q r1, out_digit r1 q1, out_digit q1 r2, out_digit r2 q2, out_digit q2 r3, out_digit r3 q3,
      out_digit q3 r4, out_digit r4 q4, char_of (unat (q4 + 48))]"
    by (simp add: put_dec_full9_def Let_def r1_def q1_def r2_def q2_def r3_def q3_def r4_def q4_def)
  also have "\<dots> = map digit_char [unat q mod 10, unat r1 mod 10, unat q1 mod 10, unat r2 mod 10, unat q2 mod 10, unat r3 mod 10,
      unat q3 mod 10, unat r4 mod 10, unat q4 mod 10]"
    by (simp only: out_digit_div [OF u1] out_digit_div [OF u2] out_digit_div [OF u3] out_digit_div [OF u4] out_digit_div [OF u5]
        out_digit_div [OF u6] out_digit_div [OF u7] out_digit_div [OF u8] digit_char_lt [OF l8] mod_less [OF l8] list.map)
  also have "\<dots> = map digit_char (rfull 9 (unat q))"
    unfolding rfull_9 u1 [symmetric] u2 [symmetric] u3 [symmetric] u4 [symmetric] u5 [symmetric] u6 [symmetric] u7 [symmetric] u8 [symmetric] ..
  finally show ?thesis .
qed

lemma put_dec_trunc4_eq:
  assumes "unat r < 10000"
  shows "put_dec_trunc4 r = map digit_char (rdigits (unat r))"
proof -
  define q1 where "q1 = drop_bit 16 (r * 0x199a)"
  define r1 where "r1 = drop_bit 11 (q1 * 0xcd)"
  define q2 where "q2 = drop_bit 11 (r1 * 0xcd)"
  have u1: "unat q1 = unat r div 10" unfolding q1_def by (rule mul_div10(1) [OF assms])
  then have l1: "unat q1 < 1000" using assms by simp
  have u2: "unat r1 = unat q1 div 10" unfolding r1_def by (rule mul_div10(2) [OF l1])
  then have l2: "unat r1 < 100" using l1 by simp
  have u3: "unat q2 = unat r1 div 10" unfolding q2_def by (rule mul_div10(2)) (use l2 in simp)
  then have l3: "unat q2 < 10" using l2 by simp
  have zero: "w = 0 \<longleftrightarrow> unat w = 0" for w :: u32 by (simp add: unat_eq_zero)
  have step: "rdigits (unat a) = (if unat b = 0 then [unat a mod 10] else unat a mod 10 # rdigits (unat b))" if "unat b = unat a div 10" for a b :: u32
    using that rdigits_rec [of "unat a"] by (simp add: div_eq_0_iff)
  have "put_dec_trunc4 r = (if q1 = 0 then [out_digit r q1] else if r1 = 0 then [out_digit r q1, out_digit q1 r1]
      else if q2 = 0 then [out_digit r q1, out_digit q1 r1, out_digit r1 q2]
      else [out_digit r q1, out_digit q1 r1, out_digit r1 q2, char_of (unat (q2 + 48))])"
    by (simp add: put_dec_trunc4_def Let_def q1_def r1_def q2_def)
  moreover have "rdigits (unat q2) = [unat q2]" using l3 rdigits_rec [of "unat q2"] by simp
  ultimately show ?thesis
    by (simp add: step [OF u1] step [OF u2] step [OF u3] zero out_digit_div [OF u1] out_digit_div [OF u2] out_digit_div [OF u3] digit_char_lt [OF l3])
qed

lemma put_dec_trunc8_eq: "unat r < 10 ^ 8 \<Longrightarrow> put_dec_trunc8 r = map digit_char (rdigits (unat r))"
proof (induction r rule: put_dec_trunc8.induct)
  case (1 r)
  show ?case
  proof (cases "r \<ge> 10000")
    case True
    have u: "unat (div10_wide r) = unat r div 10" by (rule div10_wide) (use "1.prems" in simp)
    have ge: "\<not> unat r < 10" using True by (simp add: word_le_nat_alt)
    have "char_of (unat (r + 48 - 10 * div10_wide r)) = digit_char (unat r mod 10)"
      using out_digit_div [OF u] by (simp add: out_digit_def algebra_simps)
    moreover have "put_dec_trunc8 (div10_wide r) = map digit_char (rdigits (unat r div 10))"
      using "1.IH" [OF True refl refl] "1.prems" u by simp
    ultimately show ?thesis using True ge rdigits_rec [of "unat r"] by (subst put_dec_trunc8.simps) (simp add: Let_def)
  next
    case False
    then have "unat r < 10000" by (simp add: word_le_nat_alt)
    then show ?thesis using False put_dec_trunc4_eq by (subst put_dec_trunc8.simps) simp
  qed
qed

lemma rfull_snoc: "rfull (Suc k) n = rfull k n @ [n div 10 ^ k mod 10]"
proof (induction k arbitrary: n)
  case (Suc k)
  have "rfull (Suc (Suc k)) n = n mod 10 # rfull (Suc k) (n div 10)" by (simp only: rfull.simps)
  also have "\<dots> = n mod 10 # (rfull k (n div 10) @ [n div 10 div 10 ^ k mod 10])" by (simp only: Suc.IH)
  also have "n div 10 div 10 ^ k = n div 10 ^ Suc k" by (simp add: div_mult2_eq)
  finally show ?case by simp
qed simp

lemma rfull_9_rdigits:
  assumes "10 ^ 8 \<le> m" "m < 10 ^ 9"
  shows "rfull 9 m = rdigits m"
proof -
  have "m < 10 * 10 ^ 8" using assms(2) by simp
  then have l: "m div 10 ^ 8 < 10" by (rule less_mult_imp_div_less)
  have "rdigits m = rfull 8 m @ [m div 10 ^ 8]" using rdigits_split [OF assms(1)] rdigits_rec [of "m div 10 ^ 8"] l by simp
  moreover have "rfull 9 m = rfull 8 m @ [m div 10 ^ 8 mod 10]" using rfull_snoc [of 8 m] by simp
  ultimately show ?thesis using l by simp
qed

lemma unat_u64_mod_div:
  fixes n :: u64
  shows "unat (n div 1000000000) = unat n div 10 ^ 9" "unat (ucast (n mod 1000000000) :: u32) = unat n mod 10 ^ 9"
    "unat n < 10 ^ 9 \<Longrightarrow> unat (ucast n :: u32) = unat n"
proof -
  show "unat (n div 1000000000) = unat n div 10 ^ 9" by (simp add: unat_div)
  have "unat n mod 10 ^ 9 < 10 ^ 9" by simp
  then have "unat n mod 10 ^ 9 < 2 ^ 32" by (rule less_trans) simp
  then show "unat (ucast (n mod 1000000000) :: u32) = unat n mod 10 ^ 9"
    by (simp add: unsigned_ucast_eq unat_mod take_bit_nat_eq_self)
  show "unat n < 10 ^ 9 \<Longrightarrow> unat (ucast n :: u32) = unat n" by (simp add: unsigned_ucast_eq take_bit_nat_eq_self)
qed

lemma put_dec_loop_eq:
  assumes "put_dec_loop n = (s, n1)"
  shows "unat n1 < 10 ^ 9" "map digit_char (rdigits (unat n)) = s @ map digit_char (rdigits (unat n1))"
  using assms
proof (induction n arbitrary: s rule: put_dec_loop.induct)
  case (1 n)
  {
    case 1
    show ?case
    proof (cases "n \<ge> 1000000000")
      case True
      then show ?thesis using "1.IH"(1) [OF True] 1 by (subst (asm) (2) put_dec_loop.simps) (auto split: prod.splits)
    next
      case False
      then show ?thesis using 1 by (subst (asm) put_dec_loop.simps) (auto simp: word_le_nat_alt)
    qed
  next
    case 2
    show ?case
    proof (cases "n \<ge> 1000000000")
      case True
      obtain s' where s': "put_dec_loop (n div 1000000000) = (s', n1)" "s = put_dec_full9 (ucast (n mod 1000000000)) @ s'"
        using 2 True by (subst (asm) put_dec_loop.simps) (auto split: prod.splits)
      have ge: "10 ^ 9 \<le> unat n" using True by (simp add: word_le_nat_alt)
      have "put_dec_full9 (ucast (n mod 1000000000)) = map digit_char (rfull 9 (unat n mod 10 ^ 9))"
        using put_dec_full9_eq [of "ucast (n mod 1000000000)"] unat_u64_mod_div(2) [of n] by simp
      then show ?thesis using "1.IH"(2) [OF True s'(1)] s'(2) rdigits_split [OF ge] rfull_mod [of 9 "unat n"]
        by (simp add: unat_u64_mod_div(1))
    next
      case False
      then show ?thesis using 2 by (subst (asm) put_dec_loop.simps) simp
    qed
  }
qed

lemma put_dec_eq: "put_dec n = rev (dec_string (unat n))"
proof -
  have digits: "rev (dec_string (unat n)) = map digit_char (rdigits (unat n))" by (simp add: dec_string_def rdigits_def rev_map)
  obtain s n1 where l: "put_dec_loop n = (s, n1)" by (cases "put_dec_loop n") auto
  note p = put_dec_loop_eq [OF l]
  have u1: "unat (ucast n1 :: u32) = unat n1" using unat_u64_mod_div(3) [OF p(1)] .
  have ge: "m \<ge> 100000000 \<longleftrightarrow> 10 ^ 8 \<le> unat m" for m :: u64 by (simp add: word_le_nat_alt)
  show ?thesis
  proof (cases "n \<ge> 100000000")
    case True
    show ?thesis
    proof (cases "n1 \<ge> 100000000")
      case True
      then have "put_dec_full9 (ucast n1) = map digit_char (rdigits (unat n1))"
        using put_dec_full9_eq [of "ucast n1"] u1 p(1) rfull_9_rdigits [of "unat n1"] ge [of n1] by simp
      then show ?thesis using True \<open>n \<ge> 100000000\<close> p(2) by (simp add: put_dec_def l digits)
    next
      case False
      then have "put_dec_trunc8 (ucast n1) = map digit_char (rdigits (unat n1))"
        using put_dec_trunc8_eq [of "ucast n1"] u1 ge [of n1] by simp
      then show ?thesis using False \<open>n \<ge> 100000000\<close> p(2) by (simp add: put_dec_def l digits)
    qed
  next
    case False
    then have "unat n < 10 ^ 8" using ge [of n] by simp
    then have "put_dec_trunc8 (ucast n) = map digit_char (rdigits (unat n))"
      using put_dec_trunc8_eq [of "ucast n"] unat_u64_mod_div(3) [of n] by simp
    then show ?thesis using False by (simp add: put_dec_def digits)
  qed
qed

end
