(* ===== verification/Vsprintf_Number.thy ===== *)
theory Vsprintf_Number
  imports Vsprintf
begin

unbundle bit_operations_syntax

text \<open>
  What \<open>number\<close> writes: the text of a field as a list of characters (\<open>number_text\<close>), the digits of a number
  in base 8, 10 and 16, and that \<open>kstrtoull\<close> and \<open>kstrtoll\<close> read the text back.
\<close>

section \<open>Padding\<close>

lemma sint16: "- (2 ^ 15) \<le> k \<Longrightarrow> k < 2 ^ 15 \<Longrightarrow> sint (word_of_int k :: 16 word) = k"
  by (simp add: signed_of_int signed_take_bit_int_eq_self)

lemma sint16_dec:
  fixes w :: "16 word"
  assumes "- (2 ^ 15) < sint w"
  shows "sint (w - 1) = sint w - 1"
proof -
  have "w = word_of_int (sint w)" by simp
  then have "w - 1 = word_of_int (sint w - 1)" by (metis of_int_1 of_int_diff)
  moreover have "sint w < 2 ^ 15" using sint_less [of w] by simp
  ultimately show ?thesis using sint16 [of "sint w - 1"] assms by simp
qed

lemma pad_width_eq:
  assumes "- (2 ^ 15) < sint w"
  shows "pad_width end c w out = (word_of_int (min (sint w) 0 - 1), fold (emit end) (replicate (nat (sint w)) c) out)"
  using assms
proof (induction "nat (sint w)" arbitrary: w out)
  case 0
  then have "sint (w - 1) < 0" "w - 1 = word_of_int (sint (w - 1))" using sint16_dec [of w] by simp_all
  then show ?case using 0 sint16_dec [of w] by (subst pad_width.simps) (simp add: min_def)
next
  case (Suc k)
  then have d: "sint (w - 1) = sint w - 1" "0 \<le> sint (w - 1)" using sint16_dec [of w] by simp_all
  have k: "nat (sint w) = Suc (nat (sint (w - 1)))" using d by simp
  have "pad_width end c w out = pad_width end c (w - 1) (emit end c out)" using d by (subst pad_width.simps) simp
  also have "\<dots> = (word_of_int (min (sint (w - 1)) 0 - 1), fold (emit end) (replicate (nat (sint (w - 1))) c) (emit end c out))"
    by (rule Suc.hyps(1)) (use Suc.hyps(2) k d in simp_all)
  finally show ?case using d k by simp
qed

lemma pad_precision_eq:
  assumes "- (2 ^ 15) < sint p"
  shows "pad_precision end i p out = fold (emit end) (replicate (nat (sint p - int i)) (CHR ''0'')) out"
  using assms
proof (induction "nat (sint p - int i)" arbitrary: p out)
  case 0
  then have "\<not> int i \<le> sint (p - 1)" using sint16_dec [of p] by simp
  then show ?case using 0 by (subst pad_precision.simps) simp
next
  case (Suc k)
  then have d: "sint (p - 1) = sint p - 1" "int i \<le> sint (p - 1)" using sint16_dec [of p] by simp_all
  have k: "nat (sint p - int i) = Suc (nat (sint (p - 1) - int i))" using d by simp
  have "pad_precision end i p out = pad_precision end i (p - 1) (emit end (CHR ''0'') out)" using d by (subst pad_precision.simps) simp
  also have "\<dots> = fold (emit end) (replicate (nat (sint (p - 1) - int i)) (CHR ''0'')) (emit end (CHR ''0'') out)"
    by (rule Suc.hyps(1)) (use Suc.hyps(2) k d in simp_all)
  finally show ?case using k by simp
qed

section \<open>The text of a field\<close>

text \<open>The sign with the magnitude, the prefix, and the whole text with the width and the precision as integers.\<close>

definition sign_text :: "8 word \<Rightarrow> u64 \<Rightarrow> string \<times> u64" where
  "sign_text flags num =
     (if flags AND SIGN \<noteq> 0 then
        if sint num < 0 then (''-'', - num)
        else if flags AND PLUS \<noteq> 0 then (''+'', num) else if flags AND SPACE \<noteq> 0 then ('' '', num) else ([], num)
      else ([], num))"

definition prefix_text :: "8 word \<Rightarrow> 8 word \<Rightarrow> u64 \<Rightarrow> string" where
  "prefix_text flags base num =
     (if flags AND SPECIAL \<noteq> 0 \<and> base \<noteq> 10 then
        if base = 16 then [CHR ''0'', char_of (88 OR unat (flags AND SMALL))] else if num \<noteq> 0 then ''0'' else []
      else [])"

definition number_text :: "8 word \<Rightarrow> 8 word \<Rightarrow> u64 \<Rightarrow> int \<Rightarrow> int \<Rightarrow> string" where
  "number_text flags base num width precision =
     (let left = bit flags 4;
          zero = (bit flags 0 \<and> \<not> left);
          (sign, mag) = sign_text flags num;
          prefix = prefix_text flags base num;
          ds = rev (number_digits base (flags AND SMALL) mag);
          prec = max precision (int (length ds));
          n = nat (width - int (length sign) - int (length prefix) - prec)
      in (if left \<or> zero then [] else replicate n (CHR '' '')) @ sign @ prefix @ (if zero then replicate n (CHR ''0'') else []) @
         replicate (nat (prec - int (length ds))) (CHR ''0'') @ ds @ (if left then replicate n (CHR '' '') else []))"

lemma emit_append: "fold (emit end) xs (fold (emit end) ys out) = fold (emit end) (ys @ xs) out"
  by simp

text \<open>Flags as single bits.\<close>

lemma flag_bits:
  "(f AND ZEROPAD \<noteq> 0) = bit f 0" "(f AND SIGN \<noteq> 0) = bit f 1" "(f AND PLUS \<noteq> 0) = bit f 2" "(f AND SPACE \<noteq> 0) = bit f 3"
  "(f AND LEFT \<noteq> 0) = bit f 4" "(f AND SMALL \<noteq> 0) = bit f 5" "(f AND SPECIAL \<noteq> 0) = bit f 6"
  "(f AND (ZEROPAD + LEFT) = 0) = (\<not> bit f 0 \<and> \<not> bit f 4)"
proof -
  have p: "ZEROPAD = 2 ^ 0" "SIGN = 2 ^ 1" "PLUS = 2 ^ 2" "SPACE = 2 ^ 3" "LEFT = 2 ^ 4" "SMALL = 2 ^ 5" "SPECIAL = 2 ^ 6"
    by (simp_all add: ZEROPAD_def SIGN_def PLUS_def SPACE_def LEFT_def SMALL_def SPECIAL_def)
  show "(f AND ZEROPAD \<noteq> 0) = bit f 0" "(f AND SIGN \<noteq> 0) = bit f 1" "(f AND PLUS \<noteq> 0) = bit f 2" "(f AND SPACE \<noteq> 0) = bit f 3"
    "(f AND LEFT \<noteq> 0) = bit f 4" "(f AND SMALL \<noteq> 0) = bit f 5" "(f AND SPECIAL \<noteq> 0) = bit f 6"
    unfolding p and_exp_eq_0_iff_not_bit by simp_all
  have "ZEROPAD + LEFT = 2 ^ 0 OR 2 ^ 4" by (simp add: ZEROPAD_def LEFT_def)
  then show "(f AND (ZEROPAD + LEFT) = 0) = (\<not> bit f 0 \<and> \<not> bit f 4)"
    by (simp only: bit.conj_disj_distrib or_eq_0_iff and_exp_eq_0_iff_not_bit)
qed

lemma bit_not_zeropad: "bit (f AND NOT ZEROPAD) k \<longleftrightarrow> bit f k \<and> k \<noteq> 0"
  using bit_imp_le_length [of f k] by (auto simp: ZEROPAD_def bit_simps)

lemma pad_width_int:
  assumes "- (2 ^ 15) < k" "k < 2 ^ 15"
  shows "pad_width end c (word_of_int k) out = (word_of_int (min k 0 - 1), fold (emit end) (replicate (nat k) c) out)"
  using pad_width_eq [of "word_of_int k"] sint16 [of k] assms by simp

lemma number_sign_eq:
  assumes "sign_text flags num = (sg, mag)" "number_sign fl num (word_of_int k) = (sc, mag', w)" "\<And>b. b \<noteq> 0 \<Longrightarrow> bit fl b = bit flags b"
  shows "mag' = mag" "w = word_of_int (k - int (length sg))" "(if sc \<noteq> 0 then emit end (char_of sc) out else out) = fold (emit end) sg out"
proof -
  have *: "(fl AND SIGN \<noteq> 0) = (flags AND SIGN \<noteq> 0)" "(fl AND PLUS \<noteq> 0) = (flags AND PLUS \<noteq> 0)" "(fl AND SPACE \<noteq> 0) = (flags AND SPACE \<noteq> 0)"
    unfolding flag_bits using assms(3) by simp_all
  have c: "char_of (45 :: nat) = CHR ''-''" "char_of (43 :: nat) = CHR ''+''" "char_of (32 :: nat) = CHR '' ''" by code_simp+
  show "mag' = mag" "w = word_of_int (k - int (length sg))" "(if sc \<noteq> 0 then emit end (char_of sc) out else out) = fold (emit end) sg out"
    using assms(1,2) unfolding number_sign_def sign_text_def * by (auto simp: c split: if_splits)
qed

lemma number_prefix_eq:
  assumes "need \<longleftrightarrow> flags AND SPECIAL \<noteq> 0 \<and> base \<noteq> 10"
  shows "(if need then if base = 16 then word_of_int k - 2 else if \<not> num = 0 then word_of_int k - 1 else word_of_int k else word_of_int k) =
      (word_of_int (k - int (length (prefix_text flags base num))) :: 16 word)"
    "(let out3 = (if need \<and> (base = 16 \<or> \<not> num = 0) then emit end (CHR ''0'') out else out)
      in if need \<and> base = 16 then emit end (char_of (88 OR unat (flags AND SMALL))) out3 else out3) =
      fold (emit end) (prefix_text flags base num) out"
  unfolding prefix_text_def assms by simp_all

text \<open>The three places that pad, in order: at most one of them writes anything.\<close>

lemma number_pads:
  fixes tmp sg px :: string and "end" :: nat and "out" :: "string \<times> nat"
  assumes "- 32704 \<le> n" "n < 2 ^ 15" "length tmp \<le> 66" "int (length tmp) \<le> prec" "prec < 2 ^ 15"
  defines "F \<equiv> (\<lambda>left zero.
    let (width4, out1) = (if \<not> zero \<and> \<not> left then pad_width end (CHR '' '') (word_of_int n) out else (word_of_int n, out));
         out4 = fold (emit end) px (fold (emit end) sg out1);
         (width5, out5) = (if \<not> left then pad_width end (if zero then CHR ''0'' else CHR '' '') width4 out4 else (width4, out4));
         out6 = pad_precision end (length tmp) (word_of_int prec) out5;
         out7 = fold (emit end) (rev tmp) out6
     in snd (pad_width end (CHR '' '') width5 out7))"
  shows "F True False = fold (emit end) (sg @ px @ replicate (nat (prec - int (length tmp))) (CHR ''0'') @ rev tmp @ replicate (nat n) (CHR '' '')) out"
    "F False True = fold (emit end) (sg @ px @ replicate (nat n) (CHR ''0'') @ replicate (nat (prec - int (length tmp))) (CHR ''0'') @ rev tmp) out"
    "F False False = fold (emit end) (replicate (nat n) (CHR '' '') @ sg @ px @ replicate (nat (prec - int (length tmp))) (CHR ''0'') @ rev tmp) out"
proof -
  define k1 k2 k3 where "k1 = min n 0 - 1" and "k2 = min n 0 - 2" and "k3 = min n 0 - 3"
  have p1: "pad_width end c (word_of_int n) o' = (word_of_int k1, fold (emit end) (replicate (nat n) c) o')" for c o'
    using pad_width_int [of n] assms(1,2) by (simp add: k1_def)
  have p2: "pad_width end c (word_of_int k1) o' = (word_of_int k2, o')" for c o'
    using pad_width_int [of k1] assms(1,2) by (simp add: k1_def k2_def)
  have p3: "pad_width end c (word_of_int k2) o' = (word_of_int k3, o')" for c o'
    using pad_width_int [of k2] assms(1,2) by (simp add: k2_def k3_def)
  have "sint (word_of_int prec :: 16 word) = prec" using sint16 [of prec] assms(4,5) by simp
  then have prc: "pad_precision end (length tmp) (word_of_int prec) o' = fold (emit end) (replicate (nat (prec - int (length tmp))) (CHR ''0'')) o'" for o'
    using pad_precision_eq [of "word_of_int prec"] assms(3,4) by simp
  show "F True False = fold (emit end) (sg @ px @ replicate (nat (prec - int (length tmp))) (CHR ''0'') @ rev tmp @ replicate (nat n) (CHR '' '')) out"
    "F False True = fold (emit end) (sg @ px @ replicate (nat n) (CHR ''0'') @ replicate (nat (prec - int (length tmp))) (CHR ''0'') @ rev tmp) out"
    "F False False = fold (emit end) (replicate (nat n) (CHR '' '') @ sg @ px @ replicate (nat (prec - int (length tmp))) (CHR ''0'') @ rev tmp) out"
    unfolding F_def by (simp_all add: Let_def p1 p2 p3 prc del: fold_replicate)
qed

lemma number_eq:
  assumes "- 1 \<le> sint (ps_field_width spec)" "- 1 \<le> sint (ps_precision spec)" "sint (ps_precision spec) \<le> 32700"
    "\<And>m. length (number_digits (ps_base spec) (ps_flags spec AND SMALL) m) \<le> 66"
  shows "number end num spec out =
    fold (emit end) (number_text (ps_flags spec) (ps_base spec) num (sint (ps_field_width spec)) (sint (ps_precision spec))) out"
proof -
  let ?f = "ps_flags spec" and ?base = "ps_base spec" and ?W = "sint (ps_field_width spec)"
  define fl where "fl = (if ?f AND LEFT \<noteq> 0 then ?f AND NOT ZEROPAD else ?f)"
  have flb: "\<And>b. b \<noteq> 0 \<Longrightarrow> bit fl b = bit ?f b" "bit fl 0 \<longleftrightarrow> bit ?f 0 \<and> \<not> bit ?f 4"
    unfolding fl_def flag_bits by (auto simp: bit_not_zeropad)
  obtain sg mag where sg: "sign_text ?f num = (sg, mag)" by (cases "sign_text ?f num") auto
  obtain sc mag' w1 where ns: "number_sign fl num (word_of_int ?W) = (sc, mag', w1)" by (cases "number_sign fl num (word_of_int ?W)") auto
  have s: "mag' = mag" "w1 = word_of_int (?W - int (length sg))" "\<And>end out. (if sc \<noteq> 0 then emit end (char_of sc) out else out) = fold (emit end) sg out"
    using number_sign_eq [OF sg ns] flb(1) by blast+
  let ?px = "prefix_text ?f ?base num"
  define tmp where "tmp = number_digits ?base (?f AND SMALL) mag"
  define prec where "prec = max (sint (ps_precision spec)) (int (length tmp))"
  define n where "n = ?W - int (length sg) - int (length ?px) - prec"
  have tl: "length tmp \<le> 66" unfolding tmp_def by (rule assms(4))
  have pw: "(if int (length tmp) > sint (ps_precision spec) then word_of_nat (length tmp) else ps_precision spec) = word_of_int prec" "sint (word_of_int prec :: 16 word) = prec"
    using tl assms(2,3) sint16 [of prec] by (auto simp: prec_def max_def)
  have lens: "length sg \<le> 1" "length ?px \<le> 2" using sg by (auto simp: sign_text_def prefix_text_def split: if_splits)
  have "?W < 2 ^ 15" using sint_less [of "ps_field_width spec"] by simp
  then have nb: "- 32704 \<le> n" "n < 2 ^ 15" using lens tl assms(1-3) unfolding n_def prec_def by auto
  have fw: "ps_field_width spec = word_of_int ?W" by simp
  have w3: "(word_of_int (?W - int (length sg) - int (length ?px)) - word_of_int prec :: 16 word) = word_of_int n" by (simp add: n_def)
  have ns': "number_sign fl num (ps_field_width spec) = (sc, mag, w1)" using ns s(1) by simp
  note px = number_prefix_eq [OF refl, where flags = ?f and base = ?base and num = num, unfolded Let_def]
  have left0: "(fl AND LEFT = 0) = (\<not> bit fl 4)" using flag_bits(5) [of fl] by blast
  have main: "number end num spec out =
    (let (width4, out1) = (if \<not> bit fl 0 \<and> \<not> bit fl 4 then pad_width end (CHR '' '') (word_of_int n) out else (word_of_int n, out));
         out4 = fold (emit end) ?px (fold (emit end) sg out1);
         (width5, out5) = (if \<not> bit fl 4 then pad_width end (if bit fl 0 then CHR ''0'' else CHR '' '') width4 out4 else (width4, out4));
         out6 = pad_precision end (length tmp) (word_of_int prec) out5;
         out7 = fold (emit end) (rev tmp) out6
     in snd (pad_width end (CHR '' '') width5 out7))"
    unfolding number_def Let_def
    unfolding fl_def [symmetric] ns' prod.case
    unfolding tmp_def [symmetric] s(2) pw(1)
    unfolding px w3 s(3)
    unfolding flag_bits left0
    by (rule refl)
  have tx: "number_text ?f ?base num ?W (sint (ps_precision spec)) =
      (if bit ?f 4 \<or> bit fl 0 then [] else replicate (nat n) (CHR '' '')) @ sg @ ?px @ (if bit fl 0 then replicate (nat n) (CHR ''0'') else []) @
      replicate (nat (prec - int (length tmp))) (CHR ''0'') @ rev tmp @ (if bit ?f 4 then replicate (nat n) (CHR '' '') else [])"
    unfolding number_text_def Let_def sg prod.case tmp_def [symmetric] length_rev prec_def [symmetric] n_def [symmetric] flb(2) [symmetric] by (rule refl)
  have pb: "int (length tmp) \<le> prec" "prec < 2 ^ 15" using assms(3) tl by (auto simp: prec_def)
  consider "bit fl 4" "\<not> bit fl 0" | "\<not> bit fl 4" "bit fl 0" | "\<not> bit fl 4" "\<not> bit fl 0" using flb by auto
  then show ?thesis
    unfolding main tx flb(1) [of 4, simplified, symmetric]
    using number_pads(1-3) [OF nb tl pb, where sg = sg and px = ?px] by cases simp_all
qed

section \<open>Digits in a base\<close>

text \<open>The digits of a number in base \<open>b\<close>, last digit first.\<close>

function bdigits :: "nat \<Rightarrow> nat \<Rightarrow> nat list" where
  "bdigits b n = (if n < b \<or> b < 2 then [n] else n mod b # bdigits b (n div b))"
  by pat_completeness auto
termination
  by (relation "measure (\<lambda>(b, n). n)") (auto simp: not_less)

declare bdigits.simps [simp del]

lemma bdigits_value: "2 \<le> b \<Longrightarrow> digits_value b (rev (bdigits b n)) = n"
  by (induction b n rule: bdigits.induct) (subst bdigits.simps, simp add: digits_value_def)

lemma bdigits_lt: "2 \<le> b \<Longrightarrow> d \<in> set (bdigits b n) \<Longrightarrow> d < b"
  by (induction b n rule: bdigits.induct) (subst (asm) (2) bdigits.simps, auto split: if_splits)

lemma bdigits_nonempty [simp]: "bdigits b n \<noteq> []"
  by (subst bdigits.simps) simp

lemma bdigits_last: "2 \<le> b \<Longrightarrow> n \<noteq> 0 \<Longrightarrow> last (bdigits b n) \<noteq> 0"
proof (induction b n rule: bdigits.induct)
  case (1 b n)
  show ?case
  proof (cases "n < b")
    case False
    then have "n div b \<noteq> 0" using 1 by (simp add: div_eq_0_iff)
    then show ?thesis using 1 False by (subst bdigits.simps) simp
  qed (use 1 in \<open>subst bdigits.simps, simp\<close>)
qed

lemma bdigits_length: "2 \<le> b \<Longrightarrow> n < 2 ^ k \<Longrightarrow> length (bdigits b n) \<le> k + 1"
proof (induction k arbitrary: n)
  case (Suc k)
  have "n div b \<le> n div 2" using Suc.prems(1) by (simp add: div_le_mono2)
  also have "\<dots> < 2 ^ k" using Suc.prems(2) by simp
  finally show ?case using Suc.IH [of "n div b"] Suc.prems by (subst bdigits.simps) simp
qed (subst bdigits.simps, simp)

lemma rdigits_bdigits: "rdigits n = bdigits 10 n"
proof (induction n rule: dec_digits.induct)
  case (1 n)
  then show ?case by (subst rdigits_rec, subst bdigits.simps) simp
qed

text \<open>The characters of the digits.\<close>

lemma table_codes:
  assumes "lc = 0 \<or> lc = 32" "d < 16"
  shows "of_char (table_digit lc d) = (if d < 10 then 48 + d else if lc = 32 then 87 + d else 55 + d)"
proof -
  have "d \<in> {0, 1, 2, 3, 4, 5, 6, 7, 8, 9, 10, 11, 12, 13, 14, 15}" using assms(2) by (simp add: eval_nat_numeral less_Suc_eq)
  then show ?thesis using assms(1) by (auto simp: table_digit_def digits_table_def)
qed

lemma table_digit_facts:
  assumes "lc = 0 \<or> lc = 32" "d < 16"
  shows "digit_val (of_char (table_digit lc d)) = Some d" "isxdigit (of_char (table_digit lc d))"
    "fast_tolower (of_char (table_digit lc d)) \<noteq> 120" "of_char (table_digit lc d) \<notin> {0 :: nat, 10, 43, 45}"
    "of_char (table_digit lc d) = (48 :: nat) \<longleftrightarrow> d = 0" "d < 10 \<Longrightarrow> table_digit lc d = digit_char d"
proof -
  let ?c = "of_char (table_digit lc d) :: nat"
  note c = table_codes [OF assms]
  have f: "fast_tolower ?c = (if ?c mod 64 < 32 then ?c + 32 else ?c)" by (rule class_facts(5) [OF of_char_lt])
  have "d < 10 \<or> d \<in> {10, 11, 12, 13, 14, 15}" using assms(2) by auto
  then show "digit_val ?c = Some d" "fast_tolower ?c \<noteq> 120"
    using assms(1) unfolding digit_val_def f unfolding c by auto
  show "isxdigit ?c" unfolding class_facts(2) [OF of_char_lt] unfolding c using assms(2) by auto
  show "?c \<notin> {0 :: nat, 10, 43, 45}" "?c = (48 :: nat) \<longleftrightarrow> d = 0" unfolding c using assms(2) by auto
  show "d < 10 \<Longrightarrow> table_digit lc d = digit_char d"
    using c of_char_digit [of d] by (metis of_char_eq_iff)
qed

text \<open>The digits \<open>number\<close> writes.\<close>

lemma digit_mask:
  fixes num :: u64 and base :: "8 word"
  assumes "base = 8 \<or> base = 16"
  shows "unat (ucast num AND (base - 1)) = unat num mod unat base"
proof -
  define k :: nat where "k = (if base = 16 then 4 else 3)"
  have b: "base - 1 = mask k" "unat base = 2 ^ k" "k \<le> 8" using assms by (auto simp: k_def mask_eq_exp_minus_1)
  have "unat (ucast num AND (base - 1) :: 8 word) = take_bit k (take_bit 8 (unat num))"
    unfolding b(1) by (simp add: take_bit_eq_mask [symmetric] unsigned_take_bit_eq unsigned_ucast_eq)
  then show ?thesis using b(2,3) take_bit_take_bit [of k 8 "unat num"] by (simp add: min_absorb1 flip: take_bit_eq_mod)
qed

lemma shift_digits_eq:
  "base = 8 \<or> base = 16 \<Longrightarrow> shift_digits base lc num = map (table_digit lc) (bdigits (unat base) (unat num))"
proof (induction base lc num rule: shift_digits.induct)
  case (1 base lc num)
  let ?n = "drop_bit (if base = 16 then 4 else 3) num"
  have n: "unat ?n = unat num div unat base" using 1(2) by (auto simp: unat_drop_bit_div)
  have b2: "2 \<le> unat base" using 1(2) by auto
  have "?n = 0 \<longleftrightarrow> unat ?n = 0" by (rule unat_eq_0 [symmetric])
  then have z: "?n = 0 \<longleftrightarrow> unat num < unat base" unfolding n using b2 by (simp add: div_eq_0_iff)
  show ?case
  proof (cases "?n = 0")
    case True
    have "shift_digits base lc num = [table_digit lc (unat num mod unat base)]"
      using True by (subst shift_digits.simps) (simp only: Let_def digit_mask [OF 1(2)] simp_thms if_False)
    then show ?thesis using True z by (subst bdigits.simps) simp
  next
    case False
    then have IH: "shift_digits base lc ?n = map (table_digit lc) (bdigits (unat base) (unat num div unat base))"
      using 1(1) [OF refl refl refl refl _ 1(2)] n by simp
    have "shift_digits base lc num = table_digit lc (unat num mod unat base) # shift_digits base lc ?n"
      using False by (subst shift_digits.simps) (simp only: Let_def digit_mask [OF 1(2)] simp_thms if_True)
    then show ?thesis using False z IH b2 by (subst bdigits.simps) simp
  qed
qed

lemma number_digits_eq:
  assumes "base \<in> {8, 10, 16}" "lc = 0 \<or> lc = 32"
  shows "number_digits base lc num = map (table_digit lc) (bdigits (unat base) (unat num))"
proof (cases "num < ucast base")
  case True
  then have "unat num < unat base" using assms(1) by (auto simp: word_less_nat_alt)
  then show ?thesis using True by (subst bdigits.simps) (simp add: number_digits_def)
next
  case False
  show ?thesis
  proof (cases "base = 10")
    case True
    have "put_dec num = map digit_char (bdigits 10 (unat num))"
      by (simp add: put_dec_eq dec_string_def rdigits_bdigits [symmetric] rdigits_def rev_map)
    also have "\<dots> = map (table_digit lc) (bdigits 10 (unat num))"
      by (rule map_cong [OF refl], rule table_digit_facts(6) [symmetric])
        (use assms(2) bdigits_lt [of 10 _ "unat num"] in fastforce)+
    finally show ?thesis using False True by (simp add: number_digits_def)
  qed (use False assms shift_digits_eq [of base lc num] in \<open>auto simp: number_digits_def\<close>)
qed

lemma small_flag: "f AND SMALL = 0 \<or> f AND SMALL = 32"
proof -
  have "f AND 2 ^ 5 = (if bit f 5 then 2 ^ 5 else 0)"
    by (rule bit_word_eqI) (auto simp: bit_and_iff bit_exp_iff simp del: bit_numeral_word_iff power_numeral)
  then have "f AND SMALL = (if bit f 5 then 2 ^ 5 else 0)" by (simp add: SMALL_def)
  then show ?thesis by simp
qed

section \<open>Reading the text back\<close>

lemma digit_prefix_table:
  assumes "lc = 0 \<or> lc = 32" "b \<le> 16"
  shows "\<forall>d\<in>set ds. d < b \<Longrightarrow> digit_prefix b (map (table_digit lc) ds) = ds"
  by (induction ds) (use assms in \<open>simp_all add: table_digit_facts(1) less_le_trans\<close>)

lemma read_digits:
  assumes "parse_integer_fixup_radix s base0 = (map (table_digit lc) ds, b)" "lc = 0 \<or> lc = 32" "b \<le> 16"
    "\<forall>d\<in>set ds. d < b" "ds \<noteq> []" "digits_value b ds < 2 ^ 64"
  shows "read_unsigned s base0 = Inr (digits_value b ds)"
  using assms(1,5,6) by (simp add: read_unsigned_def digit_prefix_table [OF assms(2-4)] ends_here_def char_at_def)

lemma second_char:
  assumes "lc = 0 \<or> lc = 32" "\<forall>d\<in>set ds. d < 16"
  shows "fast_tolower (char_at (map (table_digit lc) ds) 1) \<noteq> 120"
proof (cases "1 < length ds")
  case True
  then show ?thesis using table_digit_facts(3) [OF assms(1), of "ds ! 1"] assms(2) by (simp add: char_at_def)
qed (simp add: char_at_def fast_tolower_def)

lemma first_char:
  assumes "lc = 0 \<or> lc = 32" "\<forall>d\<in>set ds. d < 16" "ds \<noteq> []"
  shows "char_at (map (table_digit lc) ds) 0 = 48 \<longleftrightarrow> hd ds = 0" "char_at (map (table_digit lc) ds) 0 \<notin> {0, 43, 45}"
  using table_digit_facts(4,5) [OF assms(1), of "hd ds"] assms(2,3) by (auto simp: char_at_def hd_conv_nth)

lemma fixup_plain:
  assumes "lc = 0 \<or> lc = 32" "\<forall>d\<in>set ds. d < 16"
  shows "parse_integer_fixup_radix (map (table_digit lc) ds) b =
    (map (table_digit lc) ds, if b = 0 then if char_at (map (table_digit lc) ds) 0 = 48 then 8 else 10 else b)"
  using second_char [OF assms] by (simp add: parse_integer_fixup_radix_def)

lemma x_char: "lc = 0 \<or> lc = 32 \<Longrightarrow> fast_tolower (of_char (char_of (88 OR unat lc) :: char)) = 120" for lc :: "8 word"
  by (auto simp: fast_tolower_def)

lemma fixup_hex:
  assumes "lc = 0 \<or> lc = 32" "\<forall>d\<in>set ds. d < 16" "ds \<noteq> []" "b = 0 \<or> b = 16"
  shows "parse_integer_fixup_radix (CHR ''0'' # char_of (88 OR unat lc) # map (table_digit lc) ds) b = (map (table_digit lc) ds, 16)"
proof -
  let ?s = "CHR ''0'' # char_of (88 OR unat lc) # map (table_digit lc) ds"
  have "char_at ?s 0 = 48" "fast_tolower (char_at ?s 1) = 120" "isxdigit (char_at ?s 2)"
    using x_char [OF assms(1)] table_digit_facts(2) [OF assms(1), of "hd ds"] assms(2,3)
    by (auto simp: char_at_def nth_Cons hd_conv_nth split: nat.splits)
  then show ?thesis using assms(4) by (auto simp: parse_integer_fixup_radix_def)
qed

lemma read_number:
  assumes base: "base \<in> {8, 10, 16}" and b0: "b0 = unat base \<or> b0 = 0 \<and> (base = 10 \<or> flags AND SPECIAL \<noteq> 0)"
  shows "read_unsigned (prefix_text flags base num @ rev (number_digits base (flags AND SMALL) num)) b0 = Inr (unat num)"
proof -
  define lc where "lc = flags AND SMALL"
  have lc: "lc = 0 \<or> lc = 32" unfolding lc_def by (rule small_flag)
  define ds where "ds = rev (bdigits (unat base) (unat num))"
  have b: "2 \<le> unat base" "unat base \<le> 16" using base by auto
  have ds: "rev (number_digits base lc num) = map (table_digit lc) ds" "ds \<noteq> []" "digits_value (unat base) ds = unat num" "\<forall>d\<in>set ds. d < unat base"
    "unat num \<noteq> 0 \<Longrightarrow> hd ds \<noteq> 0"
    using bdigits_lt [OF b(1)] bdigits_value [OF b(1)] bdigits_last [OF b(1)]
    by (auto simp: ds_def number_digits_eq [OF base lc] rev_map hd_rev)
  have d16: "\<forall>d\<in>set ds. d < 16" using ds(4) b(2) by auto
  have n64: "unat num < 2 ^ 64" using unsigned_less [of num] by simp
  note rd = read_digits [OF _ lc]
  consider "flags AND SPECIAL \<noteq> 0" "base = 16" | "flags AND SPECIAL \<noteq> 0" "base = 8" "num \<noteq> 0"
    | "prefix_text flags base num = []" "b0 = unat base \<or> num = 0 \<or> base = 10"
    using base b0 unfolding prefix_text_def by (cases "flags AND SPECIAL = 0"; cases "base = 10"; cases "num = 0"; cases "base = 16"; auto)
  then have "read_unsigned (prefix_text flags base num @ map (table_digit lc) ds) b0 = Inr (unat num)"
  proof cases
    case 1
    then have "prefix_text flags base num = [CHR ''0'', char_of (88 OR unat lc)]" by (simp add: prefix_text_def lc_def)
    then show ?thesis using rd [OF _ _ ds(4,2), of "prefix_text flags base num @ map (table_digit lc) ds" b0] fixup_hex [OF lc d16 ds(2), of b0] 1 b0 b n64 ds(3) by auto
  next
    case 2
    have z: "table_digit lc 0 = CHR ''0''" using table_digit_facts(6) [OF lc, of 0] by (simp add: digit_char_def) code_simp
    have s: "prefix_text flags base num @ map (table_digit lc) ds = map (table_digit lc) (0 # ds)" using 2 z by (simp add: prefix_text_def)
    have v: "digits_value 8 (0 # ds) = unat num" using ds(3) 2 by (simp add: digits_value_def)
    show ?thesis unfolding s
      using rd [of "map (table_digit lc) (0 # ds)" b0 "0 # ds" 8] fixup_plain [OF lc, of "0 # ds" b0] first_char(1) [OF lc, of "0 # ds"] ds(4) d16 2 b0 n64 v by auto
  next
    case 3
    show ?thesis
    proof (cases "num = 0")
      case True
      then have "ds = [0]" using b by (simp add: ds_def bdigits.simps)
      then show ?thesis using 3(1) rd [of "map (table_digit lc) ds" b0 ds] fixup_plain [OF lc d16, of b0] first_char(1) [OF lc d16 ds(2)] b True b0
        by (auto simp: digits_value_def)
    next
      case False
      then have "(if b0 = 0 then if char_at (map (table_digit lc) ds) 0 = 48 then 8 else 10 else b0) = unat base"
        using first_char(1) [OF lc d16 ds(2)] ds(5) b0 3(2) b by (auto simp: unat_eq_zero)
      then show ?thesis using 3(1) rd [OF _ b(2) ds(4,2), of "map (table_digit lc) ds" b0] fixup_plain [OF lc d16, of b0] n64 ds(3) by simp
    qed
  qed
  then show ?thesis using ds(1) by (simp add: lc_def)
qed

text \<open>With no width and no precision the text is the sign, the prefix and the digits.\<close>

lemma number_text_plain:
  assumes "sign_text flags num = (sg, mag)"
  shows "number_text flags base num (- 1) (- 1) = sg @ prefix_text flags base num @ rev (number_digits base (flags AND SMALL) mag)"
  by (simp add: number_text_def assms Let_def)

lemma number_length:
  assumes "base \<in> {8, 10, 16}"
  shows "length (number_digits base (flags AND SMALL) num) \<le> 66"
proof -
  have "length (bdigits (unat base) (unat num)) \<le> 64 + 1"
    by (rule bdigits_length) (use assms unsigned_less [of num] in auto)
  then show ?thesis by (simp add: number_digits_eq [OF assms small_flag])
qed

lemma number_first_char:
  assumes "base \<in> {8, 10, 16}"
  shows "char_at (prefix_text flags base num @ rev (number_digits base (flags AND SMALL) mag)) 0 \<notin> {0, 43, 45}"
proof (cases "prefix_text flags base num")
  case Nil
  have "2 \<le> unat base" "unat base \<le> 16" using assms by auto
  then have "\<forall>d\<in>set (rev (bdigits (unat base) (unat mag))). d < 16" using bdigits_lt [of "unat base" _ "unat mag"] by fastforce
  then show ?thesis using Nil first_char(2) [OF small_flag, of "rev (bdigits (unat base) (unat mag))"]
    by (simp add: number_digits_eq [OF assms small_flag] rev_map)
qed (auto simp: prefix_text_def char_at_def split: if_splits)

lemma unsigned_reads_back:
  assumes "base \<in> {8, 10, 16}" "b0 = unat base \<or> b0 = 0 \<and> (base = 10 \<or> flags AND SPECIAL \<noteq> 0)" "flags AND SIGN = 0"
  shows "kstrtoull (number_text flags base num (- 1) (- 1)) b0 = Inr num"
proof -
  define s where "s = prefix_text flags base num @ rev (number_digits base (flags AND SMALL) num)"
  have s: "number_text flags base num (- 1) (- 1) = s" using number_text_plain [of flags num "[]" num] assms(3) by (simp add: sign_text_def s_def)
  have r: "read_unsigned s b0 = Inr (unat num)" unfolding s_def by (rule read_number [OF assms(1,2)])
  have len: "length s < 2 ^ 31" using number_length [OF assms(1), of flags num] by (auto simp: s_def prefix_text_def)
  have "char_at s 0 \<noteq> 43" using number_first_char [OF assms(1), of flags num num] by (simp add: s_def)
  then show ?thesis unfolding s using kstrtoull_eq [OF _ len, of b0] assms(1,2) r by auto
qed

lemma magnitude:
  fixes num :: u64
  shows "sint num < 0 \<Longrightarrow> int (unat (- num)) = - sint num" "0 \<le> sint num \<Longrightarrow> int (unat num) = sint num"
proof -
  have w: "int (unat (word_of_int k :: u64)) = k" if "0 \<le> k" "k < 2 ^ 64" for k
    using that by (simp add: unsigned_of_int take_bit_int_eq_self)
  have rng: "- (2 ^ 63) \<le> sint num" "sint num < 2 ^ 63" using sint_ge [of num] sint_less [of num] by simp_all
  have "- num = word_of_int (- sint num)" by simp
  then show "sint num < 0 \<Longrightarrow> int (unat (- num)) = - sint num" using w [of "- sint num"] rng by simp
  have "num = word_of_int (sint num)" by simp
  then show "0 \<le> sint num \<Longrightarrow> int (unat num) = sint num" using w [of "sint num"] rng by simp
qed

lemma signed_reads_back:
  assumes "flags AND SIGN \<noteq> 0" "flags AND SPACE = 0" "b0 = 10 \<or> b0 = 0"
  shows "kstrtoll (number_text flags 10 num (- 1) (- 1)) b0 = Inr num"
proof -
  obtain sg mag where sg: "sign_text flags num = (sg, mag)" by (cases "sign_text flags num") auto
  have p: "prefix_text flags 10 num = []" "prefix_text flags 10 mag = []" by (simp_all add: prefix_text_def)
  define ds where "ds = rev (number_digits 10 (flags AND SMALL) mag)"
  define s where "s = number_text flags 10 num (- 1) (- 1)"
  have s: "s = sg @ ds" using number_text_plain [OF sg] by (simp add: s_def ds_def p)
  have r: "read_unsigned ds b0 = Inr (unat mag)"
    using read_number [of 10 b0 flags mag] assms(3) by (auto simp: p ds_def)
  have fc: "char_at ds 0 \<notin> {0, 43, 45}" using number_first_char [of 10 flags num mag] by (simp add: p ds_def)
  have len: "length s < 2 ^ 31" using number_length [of 10 flags mag] sg by (auto simp: s ds_def sign_text_def split: if_splits)
  have rng: "- (2 ^ 63) \<le> sint num" "sint num < 2 ^ 63" using sint_ge [of num] sint_less [of num] by simp_all
  define v where "v = unat mag"
  have "read_signed s b0 = Inr (sint num)"
  proof (cases "sint num < 0")
    case True
    then have "s = CHR ''-'' # ds" "mag = - num" using s sg assms(1) by (auto simp: sign_text_def)
    moreover have "int v = - sint num" unfolding v_def \<open>mag = - num\<close> by (rule magnitude(1) [OF True])
    ultimately show ?thesis using r [folded v_def] rng True by (auto simp: read_signed_def char_at_def)
  next
    case False
    then have "s = ds \<or> s = CHR ''+'' # ds" "mag = num" using s sg assms(1,2) by (auto simp: sign_text_def split: if_splits)
    moreover have "int v = sint num" unfolding v_def \<open>mag = num\<close> by (rule magnitude(2)) (use False in simp)
    ultimately show ?thesis using r [folded v_def] rng False fc by (auto simp: read_signed_def char_at_def)
  qed
  then have "map_sum id sint (kstrtoll s b0) = Inr (sint num)" using kstrtoll_eq [OF _ len, of b0] assms(3) by auto
  then show ?thesis unfolding s_def [symmetric] by (cases "kstrtoll s b0") (auto intro: signed_word_eqI)
qed

section \<open>What reaches the buffer\<close>

text \<open>A buffer never grows, and what lies past \<open>end\<close> is counted and not written, as \<open>snprintf\<close> needs.\<close>

lemma emit_fold:
  assumes "end \<le> length mem" "pos \<le> end"
  shows "fold (emit end) xs (mem, pos) =
    (take pos mem @ take (end - pos) xs @ drop (min end (pos + length xs)) mem, pos + length xs)"
  using assms
proof (induction xs arbitrary: mem pos)
  case (Cons x xs)
  show ?case
  proof (cases "pos < end")
    case True
    have "emit end x (mem, pos) = (mem[pos := x], Suc pos)" using True by (simp add: emit_def)
    with True have "fold (emit end) (x # xs) (mem, pos) =
      (take (Suc pos) (mem[pos := x]) @ take (end - Suc pos) xs @ drop (min end (Suc pos + length xs)) (mem[pos := x]), Suc pos + length xs)"
      using Cons.IH [of "mem[pos := x]" "Suc pos"] Cons.prems by simp
    moreover have "take (Suc pos) (mem[pos := x]) = take pos mem @ [x]" using True Cons.prems by (simp add: take_Suc_conv_app_nth)
    moreover have "drop (min end (Suc pos + length xs)) (mem[pos := x]) = drop (min end (Suc pos + length xs)) mem"
      using True by (intro drop_update_cancel) simp
    moreover have "take (end - pos) (x # xs) = x # take (end - Suc pos) xs" using True by (simp add: take_Cons' Suc_diff_Suc)
    ultimately show ?thesis by simp
  next
    case False
    then have "pos = end" using Cons.prems by simp
    moreover have "fold (emit end) ys (mem, p) = (mem, p + length ys)" if "end \<le> p" for ys p
      using that by (induction ys arbitrary: p) (simp_all add: emit_def)
    ultimately show ?thesis using Cons.prems by (simp del: fold.simps)
  qed
qed simp

end
