(* ===== verification/Number_Properties.thy ===== *)
theory Number_Properties
  imports Vsprintf_Number
begin

unbundle bit_operations_syntax

text \<open>
  The properties of the conversions between numbers and text: what the \<open>kstrto*\<close> routines read, what
  \<open>number\<close> of \<open>lib/vsprintf.c\<close> writes, and that reading gives back what was written.
\<close>

section \<open>Numbers from text\<close>

text \<open>
  C34. The conversions of \<open>lib/kstrtox.c\<close> are equivalent to reading the digits with unbounded arithmetic:
  the word arithmetic with its overflow test on the top four bits accepts exactly the numerals whose value
  fits the type, after the prefix that selects the radix, up to one final newline, and reports \<open>-ERANGE\<close>
  for the others and \<open>-EINVAL\<close> for what is no numeral. The reference \<open>read_signed\<close> refuses a zero with a
  minus sign, because the code does.
\<close>

theorem kstrtox_equivalence:
  assumes "base \<le> 16" "length s < 2 ^ 31"
  shows "let u = read_unsigned (if char_at s 0 = 43 then drop 1 s else s) base in
    map_sum id unat (kstrtoull s base) = u \<and> map_sum id sint (kstrtoll s base) = read_signed s base \<and>
    map_sum id unat (kstrtoul s base) = fit_unsigned 64 u \<and> map_sum id sint (kstrtol s base) = fit_signed 64 (read_signed s base) \<and>
    map_sum id unat (kstrtouint s base) = fit_unsigned 32 u \<and> map_sum id sint (kstrtoint s base) = fit_signed 32 (read_signed s base) \<and>
    map_sum id unat (kstrtou16 s base) = fit_unsigned 16 u \<and> map_sum id sint (kstrtos16 s base) = fit_signed 16 (read_signed s base) \<and>
    map_sum id unat (kstrtou8 s base) = fit_unsigned 8 u \<and> map_sum id sint (kstrtos8 s base) = fit_signed 8 (read_signed s base)"
proof -
  define u where "u = read_unsigned (if char_at s 0 = 43 then drop 1 s else s) base"
  have u: "kstrtoull s base = map_sum id word_of_nat u" unfolding u_def by (rule kstrtoull_eq [OF assms(1,2)])
  have lt: "u = Inr v \<Longrightarrow> v < 2 ^ 64" for v unfolding u_def by (rule read_unsigned_lt)
  have "map_sum id unat (map_sum id word_of_nat u :: int + u64) = u" using lt by (cases u) (simp_all add: unat_u64)
  moreover have "map_sum id unat (narrow_unsigned (map_sum id word_of_nat u) :: int + 64 word) = fit_unsigned 64 u"
    "map_sum id unat (narrow_unsigned (map_sum id word_of_nat u) :: int + 32 word) = fit_unsigned 32 u"
    "map_sum id unat (narrow_unsigned (map_sum id word_of_nat u) :: int + 16 word) = fit_unsigned 16 u"
    "map_sum id unat (narrow_unsigned (map_sum id word_of_nat u) :: int + 8 word) = fit_unsigned 8 u"
    using narrow_fit_unsigned [of u, where 'a = 64] narrow_fit_unsigned [of u, where 'a = 32]
      narrow_fit_unsigned [of u, where 'a = 16] narrow_fit_unsigned [of u, where 'a = 8] lt by simp_all
  ultimately show ?thesis
    unfolding u_def [symmetric] Let_def kstrtoul_def kstrtol_def kstrtouint_def kstrtoint_def kstrtou16_def kstrtos16_def kstrtou8_def kstrtos8_def u
    by (simp add: kstrtoll_eq [OF assms(1,2)] narrow_fit_signed)
qed

theorem kstrtox_equivalence_witness:
  "map_sum id sint (kstrtoint ''-0'' 0) = Inl (- ERANGE) \<and> map_sum id unat (kstrtou8 ''+0xfF'' 0) = Inr 255 \<and>
   map_sum id unat (kstrtou8 ''256'' 10) = Inl (- ERANGE) \<and> map_sum id sint (kstrtos8 ''-128'' 10) = Inr (- 128)"
proof -
  have r: "read_signed ''-0'' 0 = Inl (- ERANGE)" "read_unsigned ''0xfF'' 0 = Inr 255" "char_at ''+0xfF'' 0 = 43"
    "read_unsigned ''256'' 10 = Inr 256" "char_at ''256'' 0 = 50" "read_signed ''-128'' 10 = Inr (- 128)"
    by (simp_all add: read_signed_def read_unsigned_def parse_integer_fixup_radix_def char_at_def digit_val_def class_facts ends_here_def
        digits_value_def)
  show ?thesis
    using kstrtox_equivalence [of 0 "''-0''"] kstrtox_equivalence [of 0 "''+0xfF''"] kstrtox_equivalence [of 10 "''256''"]
      kstrtox_equivalence [of 10 "''-128''"]
    by (simp add: Let_def r fit_signed_def fit_unsigned_def)
qed

section \<open>Numbers to text\<close>

text \<open>
  C35. \<open>number\<close> writes its field into the buffer, cut off at \<open>end\<close>, and counts the whole of it: the sign,
  the prefix and the positional digits, padded with zeros to the precision and to the width with zeros
  after the prefix or with spaces on the side that the flags select. The arithmetic on the 16 bit width
  and precision does not wrap for a width of at least \<open>-1\<close> and a precision of at most 32700.
\<close>

theorem number_writes_text:
  fixes num m :: u64
  assumes "ps_base spec \<in> {8, 10, 16}" "- 1 \<le> sint (ps_field_width spec)"
    "- 1 \<le> sint (ps_precision spec)" "sint (ps_precision spec) \<le> 32700" "pos \<le> end" "end \<le> length mem"
  shows "let t = number_text (ps_flags spec) (ps_base spec) num (sint (ps_field_width spec)) (sint (ps_precision spec));
        lc = ps_flags spec AND SMALL in
    number end num spec (mem, pos) =
      (take pos mem @ take (end - pos) t @ drop (min end (pos + length t)) mem, pos + length t) \<and>
    number_digits (ps_base spec) lc m = map (table_digit lc) (bdigits (unat (ps_base spec)) (unat m)) \<and>
    max (sint (ps_field_width spec)) (sint (ps_precision spec)) \<le> int (length t)"
proof -
  define t where "t = number_text (ps_flags spec) (ps_base spec) num (sint (ps_field_width spec)) (sint (ps_precision spec))"
  have "number end num spec (mem, pos) = fold (emit end) t (mem, pos)"
    unfolding t_def by (rule number_eq) (use assms number_length in auto)
  moreover have "max (sint (ps_field_width spec)) (sint (ps_precision spec)) \<le> int (length t)"
    by (auto simp: t_def number_text_def Let_def split: prod.splits)
  ultimately show ?thesis using emit_fold [OF assms(6,5)] number_digits_eq [OF assms(1) small_flag] by (simp add: Let_def t_def)
qed

theorem number_writes_text_witness:
  "number 10 0xBEE \<lparr>ps_type = 0, ps_flags = 0x61, ps_base = 16, ps_qualifier = 0, ps_field_width = 10, ps_precision = - 1\<rparr> (''................'', 2) =
    (''..0x00000b......'', 12)"
proof -
  define spec where "spec = \<lparr>ps_type = 0, ps_flags = 0x61, ps_base = 16, ps_qualifier = 0, ps_field_width = 10, ps_precision = - 1\<rparr>"
  have "number_text 0x61 16 0xBEE 10 (- 1) = ''0x00000bee''" by code_simp
  then show ?thesis
    using number_writes_text [of spec 2 10 "''................''" "0xBEE" 0] by (simp add: spec_def Let_def)
qed

text \<open>
  C36. What \<open>number\<close> writes with no width and no precision, \<open>kstrtoull\<close> reads back to the same value in the same
  radix, and with the radix left to the prefix when the field is decimal or has the prefix; a signed decimal
  field is read back by \<open>kstrtoll\<close>, also for the most negative value.
\<close>

theorem number_roundtrip:
  assumes "ps_base spec \<in> {8, 10, 16}" "sint (ps_field_width spec) = - 1" "sint (ps_precision spec) = - 1"
    "number end num spec (mem, pos) = (mem', pos')" "pos \<le> end" "pos' \<le> end" "end \<le> length mem"
    "if ps_flags spec AND SIGN = 0 then b0 = unat (ps_base spec) \<or> b0 = 0 \<and> (ps_base spec = 10 \<or> ps_flags spec AND SPECIAL \<noteq> 0)
     else ps_flags spec AND SPACE = 0 \<and> ps_base spec = 10 \<and> (b0 = 10 \<or> b0 = 0)"
  shows "(if ps_flags spec AND SIGN = 0 then kstrtoull else kstrtoll) (take (pos' - pos) (drop pos mem')) b0 = Inr num"
proof -
  let ?t = "number_text (ps_flags spec) (ps_base spec) num (- 1) (- 1)"
  have "number end num spec (mem, pos) = fold (emit end) ?t (mem, pos)"
    using number_eq [of spec] assms(1-3) number_length by simp
  then have "take (pos' - pos) (drop pos mem') = ?t" using emit_fold [OF assms(7,5), of ?t] assms(4-7) by auto
  then show ?thesis using unsigned_reads_back [OF assms(1), of b0 "ps_flags spec" num] signed_reads_back [of "ps_flags spec" b0 num] assms(8)
    by (auto split: if_splits)
qed

theorem number_roundtrip_witness:
  "kstrtoll ''-128'' 10 = Inr (- 128) \<and> kstrtoull ''0755'' 0 = Inr 493"
proof -
  define s10 s8 where "s10 = \<lparr>ps_type = 0, ps_flags = 2, ps_base = 10, ps_qualifier = 0, ps_field_width = - 1, ps_precision = - 1\<rparr>"
    and "s8 = \<lparr>ps_type = 0, ps_flags = 0x40, ps_base = 8, ps_qualifier = 0, ps_field_width = - 1, ps_precision = - 1\<rparr>"
  have e: "number 4 (- 128) s10 (replicate 4 (CHR ''.''), 0) = (''-128'', 4)"
    "number 4 493 s8 (replicate 4 (CHR ''.''), 0) = (''0755'', 4)"
    unfolding s10_def s8_def by code_simp+
  show ?thesis
    using number_roundtrip [OF _ _ _ e(1), of 10] number_roundtrip [OF _ _ _ e(2), of 0]
    by (simp add: s10_def s8_def SIGN_def SPACE_def SPECIAL_def)
qed

end
