(* ===== verification/Cpumask.thy ===== *)
theory Cpumask
  imports Bitmap_Map
begin

unbundle bit_operations_syntax

text \<open>
  Sets of CPUs (\<open>include/linux/cpumask.h\<close>): bitmaps of \<open>NR_CPUS\<close> bits. The contract that the scheduler code relies on is
  the locale \<open>cpu_sets\<close>; its interpretation shows that the bitmap operations keep it.
\<close>

section \<open>The operations\<close>

text \<open>\<open>CONFIG_NR_CPUS\<close> of the configuration; the number of bits is a constant known to the compiler.\<close>

definition nr_cpumask_bits :: nat where
  "nr_cpumask_bits = 8"

type_synonym cpumask = bitmap

definition cpumask_first :: "cpumask \<Rightarrow> nat" where
  "cpumask_first srcp = find_first_bit srcp nr_cpumask_bits"

definition cpumask_next :: "int \<Rightarrow> cpumask \<Rightarrow> nat" where
  "cpumask_next cpu srcp = find_next_bit srcp nr_cpumask_bits (nat (cpu + 1))"

definition cpumask_set_cpu :: "nat \<Rightarrow> cpumask \<Rightarrow> cpumask" where
  "cpumask_set_cpu cpu dstp = set_bit_at cpu dstp"

definition cpumask_clear_cpu :: "nat \<Rightarrow> cpumask \<Rightarrow> cpumask" where
  "cpumask_clear_cpu cpu dstp = clear_bit_at cpu dstp"

definition cpumask_is_set :: "nat \<Rightarrow> cpumask \<Rightarrow> bool" where
  "cpumask_is_set cpu srcp \<longleftrightarrow> test_bit cpu srcp"

definition cpumask_and :: "cpumask \<Rightarrow> cpumask \<Rightarrow> cpumask \<Rightarrow> cpumask \<times> bool" where
  "cpumask_and dstp src1p src2p = bitmap_and True dstp src1p src2p nr_cpumask_bits"

definition cpumask_weight :: "cpumask \<Rightarrow> nat" where
  "cpumask_weight srcp = bitmap_weight True srcp nr_cpumask_bits"

text \<open>The values of the loop variable of \<open>for_each_cpu_mask\<close>.\<close>

function cpus_from :: "cpumask \<Rightarrow> nat \<Rightarrow> nat list" where
  "cpus_from msk cpu = (if cpu < nr_cpumask_bits then cpu # cpus_from msk (cpumask_next (int cpu) msk) else [])"
  by pat_completeness auto
termination
proof (relation "measure (\<lambda>(msk, cpu). nr_cpumask_bits - cpu)")
  fix msk cpu
  assume "cpu < nr_cpumask_bits"
  then show "((msk, cpumask_next (int cpu) msk), msk, cpu) \<in> measure (\<lambda>(msk, cpu). nr_cpumask_bits - cpu)"
    using next_bit_progress [of cpu nr_cpumask_bits msk] by (simp add: cpumask_next_def nat_add_distrib)
qed simp

declare cpus_from.simps [simp del]

definition for_each_cpu_mask :: "cpumask \<Rightarrow> (nat \<Rightarrow> 's \<Rightarrow> 's) \<Rightarrow> 's \<Rightarrow> 's" where
  "for_each_cpu_mask msk body s = fold body (cpus_from msk (cpumask_first msk)) s"

text \<open>\<open>cpu_set_possible\<close>: the mask and \<open>nr_possible_cpu_ids\<close>, which is the number of possible CPUs.\<close>

definition cpu_set_possible :: "nat \<Rightarrow> cpumask \<Rightarrow> cpumask \<times> nat" where
  "cpu_set_possible cpu possible = (let m = cpumask_set_cpu cpu possible in (m, cpumask_weight m))"

section \<open>The contract\<close>

lemma lower_set_card:
  fixes A :: "nat set"
  assumes "finite A" "\<And>c c'. c \<in> A \<Longrightarrow> c' < c \<Longrightarrow> c' \<in> A"
  shows "A = {..< card A}"
proof -
  define n where "n = (LEAST n. n \<notin> A)"
  have "\<exists>n. n \<notin> A" using assms(1) ex_new_if_finite infinite_UNIV_nat by blast
  then have n: "n \<notin> A" unfolding n_def by (rule LeastI_ex)
  have "k \<in> A" if "k < n" for k using not_less_Least [of k "\<lambda>n. n \<notin> A"] that by (auto simp: n_def)
  moreover have "k < n" if "k \<in> A" for k using that n assms(2) [of k n] by (metis linorder_neqE_nat)
  ultimately have "A = {..< n}" by auto
  then show ?thesis by simp
qed

locale cpu_sets =
  fixes cpus :: "'m \<Rightarrow> nat set" and ok :: "'m \<Rightarrow> bool" and limit :: nat
    and set_cpu clear_cpu :: "nat \<Rightarrow> 'm \<Rightarrow> 'm" and is_set :: "nat \<Rightarrow> 'm \<Rightarrow> bool"
    and and_masks :: "'m \<Rightarrow> 'm \<Rightarrow> 'm \<Rightarrow> 'm \<times> bool" and weight :: "'m \<Rightarrow> nat" and members :: "'m \<Rightarrow> nat list"
  assumes cpus_limit: "cpus m \<subseteq> {..< limit}"
    and ok_kept: "ok m \<Longrightarrow> ok (set_cpu c m)" "ok m \<Longrightarrow> ok (clear_cpu c m)" "ok d \<Longrightarrow> ok (fst (and_masks d m m'))"
    and cpus_set: "ok m \<Longrightarrow> c < limit \<Longrightarrow> cpus (set_cpu c m) = insert c (cpus m)"
    and cpus_clear: "ok m \<Longrightarrow> c < limit \<Longrightarrow> cpus (clear_cpu c m) = cpus m - {c}"
    and is_set_iff: "c < limit \<Longrightarrow> is_set c m \<longleftrightarrow> c \<in> cpus m"
    and cpus_and: "ok d \<Longrightarrow> cpus (fst (and_masks d m m')) = cpus m \<inter> cpus m'"
    and and_flag: "ok d \<Longrightarrow> snd (and_masks d m m') \<longleftrightarrow> cpus m \<inter> cpus m' \<noteq> {}"
    and weight_card: "weight m = card (cpus m)"
    and members_sorted: "members m = sorted_list_of_set (cpus m)"
begin

lemma finite_cpus: "finite (cpus m)"
  using cpus_limit finite_subset by blast

lemma set_members: "set (members m) = cpus m"
  by (simp add: members_sorted finite_cpus)

text \<open>Members and clearing.\<close>

lemma set_then_clear: "ok m \<Longrightarrow> c < limit \<Longrightarrow> cpus (clear_cpu c (set_cpu c m)) = cpus m - {c}"
  using ok_kept(1) by (simp add: cpus_clear cpus_set)

text \<open>A mask without holes holds exactly the CPUs below its weight.\<close>

lemma members_below_weight:
  assumes "\<And>c c'. c \<in> cpus m \<Longrightarrow> c' < c \<Longrightarrow> c' \<in> cpus m"
  shows "cpus m = {..< weight m}"
proof -
  have "cpus m = {..< card (cpus m)}"
    using finite_cpus [of m] assms by (rule lower_set_card)
  then show ?thesis by (simp add: weight_card)
qed

end

section \<open>The bitmap operations keep the contract\<close>

lemma cpus_from_eq: "cpus_from m cpu = set_bits_from m nr_cpumask_bits cpu"
proof (induction m cpu rule: cpus_from.induct)
  case (1 m cpu)
  then show ?case
    by (subst cpus_from.simps, subst set_bits_from.simps) (simp add: cpumask_next_def nat_add_distrib)
qed

lemma cpus_members: "cpus_from m (cpumask_first m) = sorted_list_of_set (bits nr_cpumask_bits m)"
proof -
  have "cpus_from m (cpumask_first m) = filter (\<lambda>i. test_bit i m) [0 ..< nr_cpumask_bits]"
    unfolding cpus_from_eq cpumask_first_def find_first_bit_eq find_next_bit_eq [symmetric] by (rule set_bits_from_eq)
  moreover have "set (filter (\<lambda>i. test_bit i m) [0 ..< nr_cpumask_bits]) = bits nr_cpumask_bits m" by (auto simp: bits_def)
  ultimately show ?thesis by (metis distinct_filter distinct_upt sorted_list_of_set.idem_if_sorted_distinct sorted_wrt_filter sorted_upt)
qed

interpretation cm: cpu_sets "bits nr_cpumask_bits" "\<lambda>m. length m = 1" nr_cpumask_bits cpumask_set_cpu cpumask_clear_cpu
  cpumask_is_set cpumask_and cpumask_weight "\<lambda>m. cpus_from m (cpumask_first m)"
proof unfold_locales
  fix m m' d :: cpumask and c :: nat
  show "bits nr_cpumask_bits m \<subseteq> {..< nr_cpumask_bits}" by (auto simp: bits_def)
  show "length m = 1 \<Longrightarrow> length (cpumask_set_cpu c m) = 1" "length m = 1 \<Longrightarrow> length (cpumask_clear_cpu c m) = 1"
    by (simp_all add: cpumask_set_cpu_def cpumask_clear_cpu_def clear_bit_at_def)
  show "length d = 1 \<Longrightarrow> length (fst (cpumask_and d m m')) = 1"
    by (simp add: cpumask_and_def bitmap_and_def small_const_nbits_def nr_cpumask_bits_def BITS_PER_LONG_def Let_def)
  show "length m = 1 \<Longrightarrow> c < nr_cpumask_bits \<Longrightarrow> bits nr_cpumask_bits (cpumask_set_cpu c m) = insert c (bits nr_cpumask_bits m)"
    by (auto simp: cpumask_set_cpu_def nr_cpumask_bits_def set_bit_bits)
  show "length m = 1 \<Longrightarrow> c < nr_cpumask_bits \<Longrightarrow> bits nr_cpumask_bits (cpumask_clear_cpu c m) = bits nr_cpumask_bits m - {c}"
    by (simp add: cpumask_clear_cpu_def nr_cpumask_bits_def clear_bit_bits)
  show "c < nr_cpumask_bits \<Longrightarrow> cpumask_is_set c m \<longleftrightarrow> c \<in> bits nr_cpumask_bits m"
    by (simp add: cpumask_is_set_def bits_def)
  show "length d = 1 \<Longrightarrow> bits nr_cpumask_bits (fst (cpumask_and d m m')) = bits nr_cpumask_bits m \<inter> bits nr_cpumask_bits m'"
    "length d = 1 \<Longrightarrow> snd (cpumask_and d m m') \<longleftrightarrow> bits nr_cpumask_bits m \<inter> bits nr_cpumask_bits m' \<noteq> {}"
    by (simp_all add: cpumask_and_def bitmap_and_bits nr_cpumask_bits_def)
  show "cpumask_weight m = card (bits nr_cpumask_bits m)" by (simp add: cpumask_weight_def bitmap_weight_card)
  show "cpus_from m (cpumask_first m) = sorted_list_of_set (bits nr_cpumask_bits m)" by (rule cpus_members)
qed

end
