(* ===== verification/Cpudeadline.thy ===== *)
theory Cpudeadline
  imports Cpumask
begin

text \<open>
  The heap of CPUs by the deadline of their earliest task (\<open>kernel/sched/cpudeadline.c\<close>). One array holds the heap in the
  fields \<open>cpu\<close> and \<open>dl\<close> and, indexed by CPU, the position of the CPU in the heap in the field \<open>idx\<close>. Every
  operation runs under \<open>cp->lock\<close> and is one step.
\<close>

section \<open>The operations\<close>

text \<open>\<open>dl_time_before\<close>: deadlines wrap around, so they are compared by the sign of the difference.\<close>

definition dl_time_before :: "u64 \<Rightarrow> u64 \<Rightarrow> bool" where
  "dl_time_before a b \<longleftrightarrow> sint (a - b) < 0"

definition IDX_INVALID :: int where
  "IDX_INVALID = - 1"

record cpudl_item =
  it_dl :: u64
  it_cpu :: nat
  it_idx :: int

record cpudl =
  cp_size :: nat
  cp_free_cpus :: cpumask
  cp_elements :: "cpudl_item list"

definition parent :: "nat \<Rightarrow> nat" where "parent i = (i - 1) div 2"

definition left_child :: "nat \<Rightarrow> nat" where "left_child i = 2 * i + 1"

definition right_child :: "nat \<Rightarrow> nat" where "right_child i = 2 * i + 2"

text \<open>The writes of \<open>cpu\<close> and \<open>dl\<close> at a position, followed by that of \<open>idx\<close> at the CPU.\<close>

definition put_item :: "nat \<Rightarrow> nat \<times> u64 \<Rightarrow> cpudl_item list \<Rightarrow> cpudl_item list" where
  "put_item i x el =
     (let el1 = el[i := (el ! i)\<lparr>it_cpu := fst x, it_dl := snd x\<rparr>]
      in el1[fst x := (el1 ! fst x)\<lparr>it_idx := int i\<rparr>])"

definition item_at :: "cpudl_item list \<Rightarrow> nat \<Rightarrow> nat \<times> u64" where
  "item_at el i = (it_cpu (el ! i), it_dl (el ! i))"

text \<open>The child that goes up, or the position itself; \<open>dl\<close> reads the array.\<close>

definition largest_child :: "nat \<Rightarrow> (nat \<Rightarrow> u64) \<Rightarrow> nat \<Rightarrow> u64 \<Rightarrow> nat" where
  "largest_child sz dl idx orig_dl =
     (let l = left_child idx;
          r = right_child idx;
          (largest, largest_dl) = (if l < sz \<and> dl_time_before orig_dl (dl l) then (l, dl l) else (idx, orig_dl))
      in if r < sz \<and> dl_time_before largest_dl (dl r) then r else largest)"

lemma largest_child_cases:
  "largest_child sz dl idx d = idx \<or> largest_child sz dl idx d = left_child idx \<and> left_child idx < sz \<or>
   largest_child sz dl idx d = right_child idx \<and> right_child idx < sz"
  by (simp add: largest_child_def Let_def)

lemma largest_child_down: "largest_child sz dl idx d \<noteq> idx \<Longrightarrow> idx < largest_child sz dl idx d \<and> largest_child sz dl idx d < sz"
  using largest_child_cases [of sz dl idx d] by (auto simp: left_child_def right_child_def)

function heapify_down_loop :: "nat \<Rightarrow> u64 \<Rightarrow> cpudl_item list \<Rightarrow> nat \<Rightarrow> cpudl_item list \<times> nat" where
  "heapify_down_loop sz orig_dl el idx =
     (let largest = largest_child sz (\<lambda>i. it_dl (el ! i)) idx orig_dl
      in if largest = idx then (el, idx) else heapify_down_loop sz orig_dl (put_item idx (item_at el largest) el) largest)"
  by pat_completeness auto
termination
proof (relation "measure (\<lambda>(sz, orig_dl, el, idx). sz - idx)")
  fix sz :: nat and orig_dl and el :: "cpudl_item list" and idx largest
  assume "largest = largest_child sz (\<lambda>i. it_dl (el ! i)) idx orig_dl" "largest \<noteq> idx"
  then show "((sz, orig_dl, put_item idx (item_at el largest) el, largest), sz, orig_dl, el, idx) \<in> measure (\<lambda>(sz, orig_dl, el, idx). sz - idx)"
    using largest_child_down [of sz "\<lambda>i. it_dl (el ! i)" idx orig_dl] by (auto intro: diff_less_mono2)
qed simp

declare heapify_down_loop.simps [simp del]

definition cpudl_heapify_down :: "nat \<Rightarrow> nat \<Rightarrow> cpudl_item list \<Rightarrow> cpudl_item list" where
  "cpudl_heapify_down sz idx el =
     (let orig = item_at el idx in
      if left_child idx \<ge> sz then el
      else case heapify_down_loop sz (snd orig) el idx of (el', idx') \<Rightarrow> put_item idx' orig el')"

text \<open>The \<open>do ... while (idx != 0)\<close> loop.\<close>

function heapify_up_loop :: "u64 \<Rightarrow> cpudl_item list \<Rightarrow> nat \<Rightarrow> cpudl_item list \<times> nat" where
  "heapify_up_loop orig_dl el idx =
     (let p = parent idx in
      if dl_time_before orig_dl (it_dl (el ! p)) then (el, idx)
      else let el' = put_item idx (item_at el p) el in if p \<noteq> 0 then heapify_up_loop orig_dl el' p else (el', p))"
  by pat_completeness auto
termination
  by (relation "measure (\<lambda>(orig_dl, el, idx). idx)") (auto simp: parent_def)

declare heapify_up_loop.simps [simp del]

definition cpudl_heapify_up :: "nat \<Rightarrow> cpudl_item list \<Rightarrow> cpudl_item list" where
  "cpudl_heapify_up idx el =
     (let orig = item_at el idx in
      if idx = 0 then el
      else case heapify_up_loop (snd orig) el idx of (el', idx') \<Rightarrow> put_item idx' orig el')"

definition cpudl_heapify :: "nat \<Rightarrow> nat \<Rightarrow> cpudl_item list \<Rightarrow> cpudl_item list" where
  "cpudl_heapify sz idx el =
     (if idx > 0 \<and> dl_time_before (it_dl (el ! parent idx)) (it_dl (el ! idx)) then cpudl_heapify_up idx el
      else cpudl_heapify_down sz idx el)"

definition cpudl_maximum :: "cpudl \<Rightarrow> nat" where
  "cpudl_maximum cp = it_cpu (cp_elements cp ! 0)"

text \<open>
  \<open>cpudl_find\<close> for a task with the given deadline and allowed CPUs: the result and \<open>*later_mask\<close>, which is
  overwritten as soon as it is given.
\<close>

definition cpudl_find :: "cpudl \<Rightarrow> u64 \<Rightarrow> cpumask \<Rightarrow> cpumask option \<Rightarrow> bool \<times> cpumask option" where
  "cpudl_find cp deadline cpus_allowed later_mask =
     (let (later, found) =
        (case later_mask of
           None \<Rightarrow> (None, False)
         | Some m \<Rightarrow> (case cpumask_and m (cp_free_cpus cp) cpus_allowed of (m', r) \<Rightarrow> (Some m', r)))
      in if found then (True, later)
         else let best_cpu = cpudl_maximum cp in
           if cpumask_is_set best_cpu cpus_allowed \<and> dl_time_before deadline (it_dl (cp_elements cp ! 0))
           then (True, map_option (cpumask_set_cpu best_cpu) later)
           else (False, later))"

definition cpudl_clear :: "cpudl \<Rightarrow> nat \<Rightarrow> cpudl" where
  "cpudl_clear cp cpu =
     (let el = cp_elements cp;
          old = it_idx (el ! cpu)
      in if old = IDX_INVALID then cp
         else let old_idx = nat old;
                  el1 = put_item old_idx (item_at el (cp_size cp - 1)) el;
                  sz = cp_size cp - 1;
                  el2 = el1[cpu := (el1 ! cpu)\<lparr>it_idx := IDX_INVALID\<rparr>]
              in cp\<lparr>cp_size := sz, cp_elements := cpudl_heapify sz old_idx el2,
                    cp_free_cpus := cpumask_set_cpu cpu (cp_free_cpus cp)\<rparr>)"

definition cpudl_set :: "cpudl \<Rightarrow> nat \<Rightarrow> u64 \<Rightarrow> cpudl" where
  "cpudl_set cp cpu dl =
     (let el = cp_elements cp;
          old = it_idx (el ! cpu)
      in if old = IDX_INVALID then
           let new_idx = cp_size cp in
           cp\<lparr>cp_size := new_idx + 1, cp_elements := cpudl_heapify_up new_idx (put_item new_idx (cpu, dl) el),
              cp_free_cpus := cpumask_clear_cpu cpu (cp_free_cpus cp)\<rparr>
         else cp\<lparr>cp_elements := cpudl_heapify (cp_size cp) (nat old) (el[nat old := (el ! nat old)\<lparr>it_dl := dl\<rparr>])\<rparr>)"

definition cpudl_set_freecpu :: "cpudl \<Rightarrow> nat \<Rightarrow> cpudl" where
  "cpudl_set_freecpu cp cpu = cp\<lparr>cp_free_cpus := cpumask_set_cpu cpu (cp_free_cpus cp)\<rparr>"

definition cpudl_clear_freecpu :: "cpudl \<Rightarrow> nat \<Rightarrow> cpudl" where
  "cpudl_clear_freecpu cp cpu = cp\<lparr>cp_free_cpus := cpumask_clear_cpu cpu (cp_free_cpus cp)\<rparr>"

text \<open>
  \<open>cpudl_init\<close>: the flags say whether the two allocations succeed, \<open>possible\<close> is \<open>cpu_possible_mask\<close> and
  \<open>nr_possible_cpu_ids\<close> its weight. \<open>None\<close> is a write past the end of the array.
\<close>

definition cpudl_init :: "cpumask \<Rightarrow> bool \<Rightarrow> bool \<Rightarrow> (int + cpudl) option" where
  "cpudl_init possible elements_ok mask_ok =
     (if \<not> elements_ok \<or> \<not> mask_ok then Some (Inl (- ENOMEM))
      else map_option (\<lambda>el. Inr \<lparr>cp_size = 0, cp_free_cpus = [0], cp_elements = el\<rparr>)
        (for_each_cpu_mask possible
          (\<lambda>i oel. case oel of None \<Rightarrow> None
             | Some el \<Rightarrow> if i < length el then Some (el[i := (el ! i)\<lparr>it_idx := IDX_INVALID\<rparr>]) else None)
          (Some (replicate (cpumask_weight possible) \<lparr>it_dl = 0, it_cpu = 0, it_idx = 0\<rparr>))))"

end
