(* ===== verification/Cpudeadline_Heap.thy ===== *)
theory Cpudeadline_Heap
  imports Cpudeadline
begin

text \<open>
  Why the heap of CPUs is right: moving a hole along a path is the same as exchanging neighbours, an exchange keeps the
  links between the heap and the CPUs, and a path of exchanges restores the order of the heap.
\<close>

section \<open>The two views of the array\<close>

definition slots :: "cpudl_item list \<Rightarrow> (nat \<times> u64) list" where
  "slots el = map (\<lambda>e. (it_cpu e, it_dl e)) el"

definition idxs :: "cpudl_item list \<Rightarrow> int list" where
  "idxs el = map it_idx el"

lemma view_lengths [simp]: "length (slots el) = length el" "length (idxs el) = length el"
  by (simp_all add: slots_def idxs_def)

lemma slots_nth: "i < length el \<Longrightarrow> slots el ! i = item_at el i" "i < length el \<Longrightarrow> idxs el ! i = it_idx (el ! i)"
  by (simp_all add: slots_def idxs_def item_at_def)

lemma length_put_item [simp]: "length (put_item i x el) = length el"
  by (simp add: put_item_def Let_def)

lemma view_update:
  "slots (el[i := e]) = (slots el)[i := (it_cpu e, it_dl e)]" "idxs (el[i := e]) = (idxs el)[i := it_idx e]"
  by (simp_all add: slots_def idxs_def map_update)

lemma view_same:
  "slots (el[c := (el ! c)\<lparr>it_idx := k\<rparr>]) = slots el" "idxs (el[i := (el ! i)\<lparr>it_cpu := c, it_dl := d\<rparr>]) = idxs el"
  "idxs (el[i := (el ! i)\<lparr>it_dl := d\<rparr>]) = idxs el"
  by (cases "c < length el"; cases "i < length el"; auto simp: slots_def idxs_def nth_list_update intro!: nth_equalityI)+

lemma slots_put_item: "slots (put_item i x el) = (slots el)[i := x]"
  by (simp add: put_item_def Let_def view_same) (simp add: view_update)

lemma idxs_put_item: "idxs (put_item i x el) = (idxs el)[fst x := int i]"
  unfolding put_item_def Let_def by (subst view_update(2)) (simp add: view_same)

section \<open>The links between the heap and the CPUs\<close>

text \<open>The heap has \<open>sz\<close> entries, for CPUs of \<open>P\<close>; every CPU of \<open>P\<close> knows its place or that it has none.\<close>

definition heap_linked :: "nat set \<Rightarrow> nat \<Rightarrow> (nat \<times> u64) list \<Rightarrow> int list \<Rightarrow> bool" where
  "heap_linked P sz V I \<longleftrightarrow> sz \<le> length V \<and> length I = length V \<and> P \<subseteq> {..< length V} \<and>
     (\<forall>i < sz. fst (V ! i) \<in> P \<and> I ! fst (V ! i) = int i) \<and>
     (\<forall>c \<in> P. I ! c \<noteq> IDX_INVALID \<longrightarrow> (\<exists>i < sz. I ! c = int i \<and> fst (V ! i) = c))"

lemma linkedD:
  assumes "heap_linked P sz V I"
  shows "sz \<le> length V" "length I = length V" "P \<subseteq> {..< length V}" "i < sz \<Longrightarrow> fst (V ! i) \<in> P" "i < sz \<Longrightarrow> I ! fst (V ! i) = int i"
    "c \<in> P \<Longrightarrow> I ! c \<noteq> IDX_INVALID \<Longrightarrow> \<exists>i < sz. I ! c = int i \<and> fst (V ! i) = c"
  using assms by (auto simp: heap_linked_def)

lemma linked_inj: "heap_linked P sz V I \<Longrightarrow> i < sz \<Longrightarrow> j < sz \<Longrightarrow> fst (V ! i) = fst (V ! j) \<Longrightarrow> i = j"
  by (metis linkedD(5) of_nat_eq_iff)

lemma linked_distinct: "heap_linked P sz V I \<Longrightarrow> distinct (map fst (take sz V))"
  using linkedD(1) [of P sz V I] linked_inj [of P sz V I] by (auto simp: distinct_conv_nth)

definition swap :: "'a list \<Rightarrow> nat \<Rightarrow> nat \<Rightarrow> 'a list" where
  "swap V i j = V[i := V ! j, j := V ! i]"

lemma length_swap [simp]: "length (swap V i j) = length V"
  by (simp add: swap_def)

lemma swap_nth: "i < length V \<Longrightarrow> j < length V \<Longrightarrow> k < length V \<Longrightarrow> swap V i j ! k = (if k = j then V ! i else if k = i then V ! j else V ! k)"
  by (simp add: swap_def nth_list_update)

lemma linked_swap:
  assumes "heap_linked P sz V I" "i < sz" "j < sz" "i \<noteq> j"
  shows "heap_linked P sz (swap V i j) (I[fst (V ! j) := int i, fst (V ! i) := int j])"
proof -
  note l = linkedD [OF assms(1)]
  let ?I = "I[fst (V ! j) := int i, fst (V ! i) := int j]"
  have ne: "fst (V ! i) \<noteq> fst (V ! j)" using linked_inj [OF assms(1-3)] assms(4) by blast
  have I: "?I ! c = (if c = fst (V ! i) then int j else if c = fst (V ! j) then int i else I ! c)" if "c \<in> P" for c
    using that l(2,3) by (auto simp: nth_list_update)
  have sw: "swap V i j ! k = (if k = j then V ! i else if k = i then V ! j else V ! k)" if "k < sz" for k
    using that l(1) assms by (simp add: swap_nth)
  have "fst (swap V i j ! k) \<in> P \<and> ?I ! fst (swap V i j ! k) = int k" if "k < sz" for k
    using that ne l(4) [OF assms(2)] l(4) [OF assms(3)] l(4) [OF that] l(5) [OF that] linked_inj [OF assms(1) that assms(2)] linked_inj [OF assms(1) that assms(3)]
    by (auto simp: sw I)
  moreover have "\<exists>k < sz. ?I ! c = int k \<and> fst (swap V i j ! k) = c" if c: "c \<in> P" "?I ! c \<noteq> IDX_INVALID" for c
  proof (cases "c = fst (V ! i) \<or> c = fst (V ! j)")
    case True
    then show ?thesis using c assms(2-4) ne by (auto simp: I sw)
  next
    case False
    then obtain k where "k < sz" "I ! c = int k" "fst (V ! k) = c" using l(6) [OF c(1)] c I by auto
    then show ?thesis using False c by (intro exI [of _ k]) (auto simp: I sw)
  qed
  ultimately show ?thesis using l(1-3) by (simp add: heap_linked_def)
qed

section \<open>Moving a hole is exchanging neighbours\<close>

function sift_down :: "nat \<Rightarrow> (nat \<times> u64) list \<Rightarrow> nat \<Rightarrow> (nat \<times> u64) list" where
  "sift_down sz V i =
     (let j = largest_child sz (\<lambda>k. snd (V ! k)) i (snd (V ! i)) in if j = i then V else sift_down sz (swap V i j) j)"
  by pat_completeness auto
termination
proof (relation "measure (\<lambda>(sz, V, i). sz - i)")
  fix sz :: nat and V :: "(nat \<times> u64) list" and i j
  assume "j = largest_child sz (\<lambda>k. snd (V ! k)) i (snd (V ! i))" "j \<noteq> i"
  then show "((sz, swap V i j, j), sz, V, i) \<in> measure (\<lambda>(sz, V, i). sz - i)"
    using largest_child_down [of sz "\<lambda>k. snd (V ! k)" i "snd (V ! i)"] by (auto intro: diff_less_mono2)
qed simp

declare sift_down.simps [simp del]

function sift_up :: "(nat \<times> u64) list \<Rightarrow> nat \<Rightarrow> (nat \<times> u64) list" where
  "sift_up V i = (if i = 0 \<or> dl_time_before (snd (V ! i)) (snd (V ! parent i)) then V else sift_up (swap V i (parent i)) (parent i))"
  by pat_completeness auto
termination
  by (relation "measure (\<lambda>(V, i). i)") (auto simp: parent_def)

declare sift_up.simps [simp del]

lemma largest_child_cong:
  assumes "\<And>k. k < sz \<Longrightarrow> k \<noteq> i \<Longrightarrow> dl k = dl' k"
  shows "largest_child sz dl i d = largest_child sz dl' i d"
proof -
  have "left_child i < sz \<Longrightarrow> dl (left_child i) = dl' (left_child i)" "right_child i < sz \<Longrightarrow> dl (right_child i) = dl' (right_child i)"
    by (rule assms; simp add: left_child_def right_child_def)+
  then show ?thesis by (auto simp: largest_child_def Let_def)
qed

lemma hole_swap:
  assumes "i < length S" "j < length S" "i \<noteq> j"
  shows "swap (S[i := x]) i j = S[i := S ! j, j := x]"
  using assms by (simp add: swap_def)

lemma hole_links: "I[oc := a, c := b, oc := d] = I[c := b, oc := d]"
  by (cases "oc = c") (simp_all add: list_update_swap)

lemma hole_step:
  assumes "heap_linked P sz ((slots el)[i := (oc, od)]) ((idxs el)[oc := int i])" "i < sz" "j < sz" "i \<noteq> j"
  shows "(slots (put_item i (item_at el j) el))[j := (oc, od)] = swap ((slots el)[i := (oc, od)]) i j"
    "heap_linked P sz ((slots (put_item i (item_at el j) el))[j := (oc, od)]) ((idxs (put_item i (item_at el j) el))[oc := int j])"
proof -
  have len: "i < length el" "j < length el" using linkedD(1) [OF assms(1)] assms(2,3) by auto
  show s: "(slots (put_item i (item_at el j) el))[j := (oc, od)] = swap ((slots el)[i := (oc, od)]) i j"
    using len assms(4) by (simp add: slots_put_item hole_swap slots_nth)
  have "heap_linked P sz (swap ((slots el)[i := (oc, od)]) i j) ((idxs el)[oc := int i, it_cpu (el ! j) := int i, oc := int j])"
    using linked_swap [OF assms] len assms(4) by (simp add: slots_nth item_at_def)
  then show "heap_linked P sz ((slots (put_item i (item_at el j) el))[j := (oc, od)]) ((idxs (put_item i (item_at el j) el))[oc := int j])"
    unfolding s by (simp add: idxs_put_item hole_links item_at_def)
qed

lemma down_loop_refines:
  assumes "heap_linked P sz ((slots el)[idx := (oc, od)]) ((idxs el)[oc := int idx])" "idx < sz"
    "heapify_down_loop sz od el idx = (el', idx')"
  shows "slots (put_item idx' (oc, od) el') = sift_down sz ((slots el)[idx := (oc, od)]) idx \<and>
    heap_linked P sz (slots (put_item idx' (oc, od) el')) (idxs (put_item idx' (oc, od) el')) \<and> length el' = length el"
  using assms
proof (induction sz od el idx rule: heapify_down_loop.induct)
  case (1 sz od el idx)
  let ?V = "(slots el)[idx := (oc, od)]" and ?j = "largest_child sz (\<lambda>i. it_dl (el ! i)) idx od"
  have len: "sz \<le> length el" using linkedD(1) [OF "1.prems"(1)] by simp
  have "?j = largest_child sz (\<lambda>k. snd (?V ! k)) idx od"
    by (rule largest_child_cong) (use len in \<open>simp add: slots_nth item_at_def\<close>)
  then have j: "?j = largest_child sz (\<lambda>k. snd (?V ! k)) idx (snd (?V ! idx))" using len "1.prems"(2) by simp
  show ?case
  proof (cases "?j = idx")
    case True
    then have "el' = el" "idx' = idx" using "1.prems"(3) by (simp_all add: heapify_down_loop.simps Let_def)
    moreover have "sift_down sz ?V idx = ?V" using True j by (subst sift_down.simps) (simp add: Let_def)
    ultimately show ?thesis using "1.prems"(1) by (simp add: slots_put_item idxs_put_item)
  next
    case False
    have lt: "?j < sz" using largest_child_down [OF False] by simp
    have r: "heapify_down_loop sz od (put_item idx (item_at el ?j) el) ?j = (el', idx')"
      using "1.prems"(3) False by (subst (asm) heapify_down_loop.simps) (simp add: Let_def)
    note st = hole_step [OF "1.prems"(1,2) lt False [symmetric]]
    have sd: "sift_down sz ?V idx = sift_down sz (swap ?V idx ?j) ?j" using False j by (subst sift_down.simps) (simp add: Let_def)
    show ?thesis using "1.IH" [OF refl False st(2) lt r] unfolding sd st(1) length_put_item .
  qed
qed

lemma parent_lt: "0 < i \<Longrightarrow> parent i < i"
  by (simp add: parent_def)

lemma up_loop_refines:
  assumes "heap_linked P sz ((slots el)[idx := (oc, od)]) ((idxs el)[oc := int idx])" "idx < sz" "0 < idx"
    "heapify_up_loop od el idx = (el', idx')"
  shows "slots (put_item idx' (oc, od) el') = sift_up ((slots el)[idx := (oc, od)]) idx \<and>
    heap_linked P sz (slots (put_item idx' (oc, od) el')) (idxs (put_item idx' (oc, od) el')) \<and> length el' = length el"
  using assms
proof (induction od el idx rule: heapify_up_loop.induct)
  case (1 od el idx)
  let ?V = "(slots el)[idx := (oc, od)]" and ?p = "parent idx"
  let ?el = "put_item idx (item_at el ?p) el"
  have len: "sz \<le> length el" using linkedD(1) [OF "1.prems"(1)] by simp
  have p: "?p < idx" "?p < sz" using parent_lt [OF "1.prems"(3)] "1.prems"(2) by simp_all
  have v: "snd (?V ! idx) = od" "snd (?V ! ?p) = it_dl (el ! ?p)" using len p "1.prems"(2) by (simp_all add: slots_nth item_at_def)
  show ?case
  proof (cases "dl_time_before od (it_dl (el ! ?p))")
    case True
    then have "el' = el" "idx' = idx" using "1.prems"(4) by (simp_all add: heapify_up_loop.simps Let_def)
    moreover have "sift_up ?V idx = ?V" using True v by (subst sift_up.simps) simp
    ultimately show ?thesis using "1.prems"(1) by (simp add: slots_put_item idxs_put_item)
  next
    case False
    note st = hole_step [OF "1.prems"(1,2) p(2) less_imp_neq [OF p(1), symmetric]]
    have su: "sift_up ?V idx = sift_up (swap ?V idx ?p) ?p" using False v "1.prems"(3) by (subst sift_up.simps) simp
    show ?thesis
    proof (cases "?p = 0")
      case True
      then have "el' = ?el" "idx' = ?p" using "1.prems"(4) False by (simp_all add: heapify_up_loop.simps Let_def)
      then show ?thesis using st p True unfolding su by (simp add: slots_put_item idxs_put_item sift_up.simps)
    next
      case pos: False
      have r: "heapify_up_loop od ?el ?p = (el', idx')"
        using "1.prems"(4) False pos by (subst (asm) heapify_up_loop.simps) (simp add: Let_def)
      show ?thesis
        using "1.IH" [OF refl False refl pos st(2) p(2) pos [unfolded neq0_conv] r] unfolding su st(1) length_put_item .
    qed
  qed
qed

lemma put_same:
  assumes "heap_linked P sz (slots el) (idxs el)" "idx < sz"
  shows "(slots el)[idx := item_at el idx] = slots el" "(idxs el)[it_cpu (el ! idx) := int idx] = idxs el"
proof -
  have len: "idx < length el" using linkedD(1) [OF assms(1)] assms(2) by simp
  show "(slots el)[idx := item_at el idx] = slots el" using len by (metis list_update_id slots_nth(1))
  have "it_cpu (el ! idx) = fst (slots el ! idx)" using len by (simp add: slots_nth item_at_def)
  then show "(idxs el)[it_cpu (el ! idx) := int idx] = idxs el" using linkedD(5) [OF assms] by (metis list_update_id)
qed

lemma heapify_down_refines:
  assumes "heap_linked P sz (slots el) (idxs el)" "idx < sz"
  shows "slots (cpudl_heapify_down sz idx el) = sift_down sz (slots el) idx \<and>
    heap_linked P sz (slots (cpudl_heapify_down sz idx el)) (idxs (cpudl_heapify_down sz idx el)) \<and>
    length (cpudl_heapify_down sz idx el) = length el"
proof (cases "left_child idx \<ge> sz")
  case True
  then have "largest_child sz dl idx d = idx" for dl d by (simp add: largest_child_def left_child_def right_child_def Let_def)
  then have "sift_down sz (slots el) idx = slots el" by (subst sift_down.simps) (simp add: Let_def)
  then show ?thesis using True assms(1) by (simp add: cpudl_heapify_down_def Let_def)
next
  case False
  obtain el' idx' where r: "heapify_down_loop sz (it_dl (el ! idx)) el idx = (el', idx')" by (cases "heapify_down_loop sz (it_dl (el ! idx)) el idx") auto
  show ?thesis
    using down_loop_refines [OF _ assms(2) r, of P "it_cpu (el ! idx)"] put_same [OF assms] assms(1) r False
    by (auto simp: cpudl_heapify_down_def item_at_def Let_def)
qed

lemma heapify_up_refines:
  assumes "heap_linked P sz (slots el) (idxs el)" "idx < sz"
  shows "slots (cpudl_heapify_up idx el) = sift_up (slots el) idx \<and>
    heap_linked P sz (slots (cpudl_heapify_up idx el)) (idxs (cpudl_heapify_up idx el)) \<and> length (cpudl_heapify_up idx el) = length el"
proof (cases "idx = 0")
  case True
  then show ?thesis using assms(1) by (simp add: cpudl_heapify_up_def Let_def sift_up.simps)
next
  case False
  obtain el' idx' where r: "heapify_up_loop (it_dl (el ! idx)) el idx = (el', idx')" by (cases "heapify_up_loop (it_dl (el ! idx)) el idx") auto
  show ?thesis
    using up_loop_refines [OF _ assms(2) _ r, of P "it_cpu (el ! idx)"] put_same [OF assms] assms(1) r False
    by (auto simp: cpudl_heapify_up_def item_at_def Let_def)
qed

section \<open>Exchanges keep the entries\<close>

lemma set_take_swap: "i < sz \<Longrightarrow> j < sz \<Longrightarrow> sz \<le> length V \<Longrightarrow> set (take sz (swap V i j)) = set (take sz V)"
proof -
  assume a: "i < sz" "j < sz" "sz \<le> length V"
  have "take sz (swap V i j) = swap (take sz V) i j" using a by (simp add: swap_def take_update_swap)
  then show ?thesis using a List.set_swap [of i "take sz V" j] by (simp add: swap_def)
qed

lemma sift_down_set: "i < sz \<Longrightarrow> sz \<le> length V \<Longrightarrow> set (take sz (sift_down sz V i)) = set (take sz V) \<and> length (sift_down sz V i) = length V"
proof (induction sz V i rule: sift_down.induct)
  case (1 sz V i)
  let ?j = "largest_child sz (\<lambda>k. snd (V ! k)) i (snd (V ! i))"
  show ?case
  proof (cases "?j = i")
    case False
    then show ?thesis using "1.IH" [OF refl False] "1.prems" largest_child_down [OF False] set_take_swap [of i sz ?j V]
      by (subst (1 2) sift_down.simps) (simp add: Let_def)
  qed (subst (1 2) sift_down.simps, simp add: Let_def)
qed

lemma sift_up_set: "i < sz \<Longrightarrow> sz \<le> length V \<Longrightarrow> set (take sz (sift_up V i)) = set (take sz V) \<and> length (sift_up V i) = length V"
proof (induction V i rule: sift_up.induct)
  case (1 V i)
  show ?case
  proof (cases "i = 0 \<or> dl_time_before (snd (V ! i)) (snd (V ! parent i))")
    case False
    then have "parent i < sz" using "1.prems" parent_lt [of i] by simp
    then show ?thesis using "1.IH" [OF False] False "1.prems" set_take_swap [of i sz "parent i" V]
      by (subst (1 2) sift_up.simps) simp
  qed (subst (1 2) sift_up.simps, simp)
qed

section \<open>The order of the heap\<close>

definition is_heap :: "nat \<Rightarrow> (nat \<times> u64) list \<Rightarrow> bool" where
  "is_heap sz V \<longleftrightarrow> (\<forall>k < sz. 0 < k \<longrightarrow> \<not> dl_time_before (snd (V ! parent k)) (snd (V ! k)))"

definition within :: "u64 set \<Rightarrow> nat \<Rightarrow> (nat \<times> u64) list \<Rightarrow> bool" where
  "within W sz V \<longleftrightarrow> sz \<le> length V \<and> snd ` set (take sz V) \<subseteq> W"

lemma within_nth: "within W sz V \<Longrightarrow> k < sz \<Longrightarrow> snd (V ! k) \<in> W"
  unfolding within_def by (metis (no_types, lifting) image_subset_iff length_take min.absorb2 nth_mem nth_take)

lemma within_swap: "within W sz V \<Longrightarrow> i < sz \<Longrightarrow> j < sz \<Longrightarrow> within W sz (swap V i j)"
  by (simp add: within_def set_take_swap)

text \<open>The order holds at position \<open>k\<close>; it holds everywhere but below \<open>i\<close>; it holds everywhere but at \<open>i\<close>.\<close>

definition edge :: "(u64 \<Rightarrow> int) \<Rightarrow> (nat \<times> u64) list \<Rightarrow> nat \<Rightarrow> bool" where
  "edge key V k \<longleftrightarrow> key (snd (V ! k)) \<le> key (snd (V ! parent k))"

definition open_below :: "(u64 \<Rightarrow> int) \<Rightarrow> nat \<Rightarrow> (nat \<times> u64) list \<Rightarrow> nat \<Rightarrow> bool" where
  "open_below key sz V i \<longleftrightarrow>
     (\<forall>k < sz. 0 < k \<longrightarrow> parent k \<noteq> i \<longrightarrow> edge key V k) \<and>
     (\<forall>k < sz. 0 < k \<longrightarrow> parent k = i \<longrightarrow> 0 < i \<longrightarrow> key (snd (V ! k)) \<le> key (snd (V ! parent i)))"

definition open_at :: "(u64 \<Rightarrow> int) \<Rightarrow> nat \<Rightarrow> (nat \<times> u64) list \<Rightarrow> nat \<Rightarrow> bool" where
  "open_at key sz V i \<longleftrightarrow>
     (\<forall>k < sz. 0 < k \<longrightarrow> k \<noteq> i \<longrightarrow> edge key V k) \<and>
     (\<forall>k < sz. 0 < k \<longrightarrow> parent k = i \<longrightarrow> 0 < i \<longrightarrow> key (snd (V ! k)) \<le> key (snd (V ! parent i)))"

lemma parent_iff: "0 < k \<Longrightarrow> parent k = i \<longleftrightarrow> k = left_child i \<or> k = right_child i"
  by (auto simp: parent_def left_child_def right_child_def)

locale deadline_order =
  fixes W :: "u64 set" and key :: "u64 \<Rightarrow> int"
  assumes before_key: "a \<in> W \<Longrightarrow> b \<in> W \<Longrightarrow> dl_time_before a b \<longleftrightarrow> key a < key b"
begin

lemma heap_edges: "within W sz V \<Longrightarrow> is_heap sz V \<longleftrightarrow> (\<forall>k < sz. 0 < k \<longrightarrow> edge key V k)"
proof -
  assume w: "within W sz V"
  have "\<not> dl_time_before (snd (V ! parent k)) (snd (V ! k)) \<longleftrightarrow> edge key V k" if "k < sz" "0 < k" for k
    using that parent_lt [OF that(2)] before_key [OF within_nth [OF w, of "parent k"] within_nth [OF w, of k]]
    by (simp add: edge_def not_less)
  then show ?thesis by (auto simp: is_heap_def)
qed

text \<open>The child that goes up is not below its sibling and above its parent.\<close>

lemma largest_child_max:
  assumes "within W sz V" "i < sz"
  defines "j \<equiv> largest_child sz (\<lambda>k. snd (V ! k)) i (snd (V ! i))"
  shows "k < sz \<Longrightarrow> 0 < k \<Longrightarrow> parent k = i \<Longrightarrow> key (snd (V ! k)) \<le> key (snd (V ! j))"
    "key (snd (V ! i)) \<le> key (snd (V ! j))" "j \<noteq> i \<Longrightarrow> j < sz \<and> i < j \<and> parent j = i"
proof -
  have w: "k < sz \<Longrightarrow> snd (V ! k) \<in> W" for k by (rule within_nth [OF assms(1)])
  have "key (snd (V ! i)) \<le> key (snd (V ! j)) \<and> (\<forall>k < sz. k = left_child i \<or> k = right_child i \<longrightarrow> key (snd (V ! k)) \<le> key (snd (V ! j)))"
    unfolding j_def largest_child_def Let_def using w assms(2) by (auto simp: before_key)
  then show "k < sz \<Longrightarrow> 0 < k \<Longrightarrow> parent k = i \<Longrightarrow> key (snd (V ! k)) \<le> key (snd (V ! j))" "key (snd (V ! i)) \<le> key (snd (V ! j))"
    using parent_iff by blast+
  show "j \<noteq> i \<Longrightarrow> j < sz \<and> i < j \<and> parent j = i"
    using largest_child_cases [of sz "\<lambda>k. snd (V ! k)" i "snd (V ! i)"] parent_iff [of j i]
    by (auto simp: j_def left_child_def right_child_def)
qed

lemma open_below_swap:
  assumes o: "open_below key sz V i" and W: "within W sz V" "i < sz" and "j < sz" "i < j" "parent j = i"
    and mx: "key (snd (V ! i)) \<le> key (snd (V ! j))" "\<And>k. k < sz \<Longrightarrow> 0 < k \<Longrightarrow> parent k = i \<Longrightarrow> key (snd (V ! k)) \<le> key (snd (V ! j))"
  shows "open_below key sz (swap V i j) j"
proof -
  have len: "sz \<le> length V" using W(1) by (simp add: within_def)
  have sw: "swap V i j ! k = (if k = j then V ! i else if k = i then V ! j else V ! k)" if "k < sz" for k
    using that len assms(3-5) by (simp add: swap_nth)
  have pk: "parent k < sz" if "k < sz" "0 < k" for k using parent_lt [OF that(2)] that(1) by simp
  have "edge key (swap V i j) k" if k: "k < sz" "0 < k" "parent k \<noteq> j" for k
  proof -
    have "parent k \<noteq> i \<Longrightarrow> key (snd (V ! k)) \<le> key (snd (V ! parent k))" using o k by (simp add: open_below_def edge_def)
    moreover have "0 < i \<Longrightarrow> parent i \<noteq> i \<and> key (snd (V ! j)) \<le> key (snd (V ! parent i))"
      using o assms(4-6) parent_lt [of i] by (auto simp: open_below_def)
    ultimately show ?thesis
      using k mx sw [OF k(1)] sw [OF pk [OF k(1,2)]] assms(3-6) by (auto simp: edge_def)
  qed
  moreover have "key (snd (swap V i j ! k)) \<le> key (snd (swap V i j ! parent j))" if k: "k < sz" "0 < k" "parent k = j" for k
  proof -
    have "k \<noteq> i" "k \<noteq> j" using parent_lt [OF k(2)] k(3) assms(5) by auto
    moreover have "key (snd (V ! k)) \<le> key (snd (V ! j))" using o k assms(5) by (auto simp: open_below_def edge_def)
    ultimately show ?thesis using sw [OF k(1)] sw [OF assms(3)] assms(5,6) by simp
  qed
  ultimately show ?thesis by (simp add: open_below_def)
qed

lemma sift_down_heap: "within W sz V \<Longrightarrow> i < sz \<Longrightarrow> open_below key sz V i \<Longrightarrow> is_heap sz (sift_down sz V i)"
proof (induction sz V i rule: sift_down.induct)
  case (1 sz V i)
  let ?j = "largest_child sz (\<lambda>k. snd (V ! k)) i (snd (V ! i))"
  note mx = largest_child_max [OF "1.prems"(1,2)]
  show ?case
  proof (cases "?j = i")
    case True
    have "edge key V k" if "k < sz" "0 < k" for k
      using that "1.prems"(3) mx(1) [OF that] True by (cases "parent k = i") (auto simp: open_below_def edge_def)
    then have "is_heap sz V" using heap_edges [OF "1.prems"(1)] by blast
    then show ?thesis using True by (subst sift_down.simps) (simp add: Let_def)
  next
    case False
    note j = mx(3) [OF False]
    have "open_below key sz (swap V i ?j) ?j"
      by (rule open_below_swap [OF "1.prems"(3,1,2)]) (use j mx(1,2) in auto)
    moreover have "within W sz (swap V i ?j)" using within_swap [OF "1.prems"(1,2)] j by blast
    ultimately show ?thesis using "1.IH" [OF refl False] j False by (subst sift_down.simps) (simp add: Let_def)
  qed
qed

end

context deadline_order
begin

lemma open_at_swap:
  assumes o: "open_at key sz V i" and W: "within W sz V" "i < sz" "0 < i" and le: "key (snd (V ! parent i)) \<le> key (snd (V ! i))"
  shows "open_at key sz (swap V i (parent i)) (parent i)"
proof -
  let ?p = "parent i"
  have len: "sz \<le> length V" using W(1) by (simp add: within_def)
  have p: "?p < i" "?p < sz" using parent_lt [OF W(3)] W(2) by simp_all
  have sw: "swap V i ?p ! k = (if k = ?p then V ! i else if k = i then V ! ?p else V ! k)" if "k < sz" for k
    using that len p W(2) by (simp add: swap_nth)
  have pk: "parent k < k" "parent k < sz" if "k < sz" "0 < k" for k using parent_lt [OF that(2)] that(1) by simp_all
  have e: "k \<noteq> i \<Longrightarrow> key (snd (V ! k)) \<le> key (snd (V ! parent k))" if "k < sz" "0 < k" for k
    using o that by (simp add: open_at_def edge_def)
  have c: "key (snd (V ! k)) \<le> key (snd (V ! ?p))" if "k < sz" "0 < k" "parent k = i" for k
    using o that W(3) by (simp add: open_at_def)
  have "edge key (swap V i ?p) k" if k: "k < sz" "0 < k" "k \<noteq> ?p" for k
  proof -
    consider "k = i" | "k \<noteq> i" "parent k = i" | "k \<noteq> i" "parent k = ?p" | "k \<noteq> i" "parent k \<noteq> i" "parent k \<noteq> ?p" by blast
    then show ?thesis
      using sw [OF k(1)] sw [OF pk(2) [OF k(1,2)]] e [OF k(1,2)] c [OF k(1,2)] le p k(3) by cases (auto simp: edge_def)
  qed
  moreover have "key (snd (swap V i ?p ! k)) \<le> key (snd (swap V i ?p ! parent ?p))" if k: "k < sz" "0 < k" "parent k = ?p" "0 < ?p" for k
  proof -
    have pp: "parent ?p < ?p" using parent_lt [OF k(4)] .
    have "key (snd (V ! ?p)) \<le> key (snd (V ! parent ?p))" using e [OF p(2) k(4)] p(1) by simp
    then show ?thesis using sw [OF k(1)] sw [of "parent ?p"] pp p e [OF k(1,2)] k pk(1) [OF k(1,2)] by (auto split: if_splits)
  qed
  ultimately show ?thesis by (simp add: open_at_def)
qed

lemma sift_up_heap: "within W sz V \<Longrightarrow> i < sz \<Longrightarrow> open_at key sz V i \<Longrightarrow> is_heap sz (sift_up V i)"
proof (induction V i rule: sift_up.induct)
  case (1 V i)
  show ?case
  proof (cases "i = 0 \<or> dl_time_before (snd (V ! i)) (snd (V ! parent i))")
    case True
    have "edge key V k" if "k < sz" "0 < k" for k
    proof (cases "k = i")
      case ki: True
      then have "key (snd (V ! i)) < key (snd (V ! parent i))"
        using True that before_key [OF within_nth [OF "1.prems"(1), of i] within_nth [OF "1.prems"(1), of "parent i"]] parent_lt [of i] by simp
      then show ?thesis using ki by (simp add: edge_def)
    qed (use that "1.prems"(3) in \<open>simp add: open_at_def\<close>)
    then have "is_heap sz V" using heap_edges [OF "1.prems"(1)] by blast
    then show ?thesis using True by (subst sift_up.simps) simp
  next
    case False
    then have p: "0 < i" "parent i < sz" using "1.prems"(2) parent_lt [of i] by simp_all
    have "key (snd (V ! parent i)) \<le> key (snd (V ! i))"
      using False before_key [OF within_nth [OF "1.prems"(1,2)] within_nth [OF "1.prems"(1) p(2)]] by simp
    note o = open_at_swap [OF "1.prems"(3,1,2) p(1) this]
    show ?thesis using "1.IH" [OF False within_swap [OF "1.prems"(1,2) p(2)] p(2) o] False by (subst sift_up.simps) simp
  qed
qed

text \<open>A heap in which one entry is changed is restored by \<open>cpudl_heapify\<close>.\<close>

lemma changed_entry:
  assumes h: "is_heap sz V" and W: "within W sz V" "snd x \<in> W" "i < sz"
  defines "V' \<equiv> V[i := x]"
  shows "within W sz V'" "0 < i \<Longrightarrow> key (snd (V ! parent i)) < key (snd x) \<Longrightarrow> open_at key sz V' i"
    "i = 0 \<or> key (snd x) \<le> key (snd (V ! parent i)) \<Longrightarrow> open_below key sz V' i"
proof -
  have len: "sz \<le> length V" using W(1) by (simp add: within_def)
  have "set (take sz V') \<subseteq> insert x (set (take sz V))"
    using W(3) by (simp add: V'_def take_update_swap set_update_subset_insert)
  then show "within W sz V'" using W(1,2) by (auto simp: within_def V'_def)
  have n: "V' ! k = (if k = i then x else V ! k)" if "k < sz" for k using that len by (simp add: V'_def nth_list_update)
  have e: "key (snd (V ! k)) \<le> key (snd (V ! parent k))" if "k < sz" "0 < k" for k
    using h heap_edges [OF W(1)] that by (auto simp: edge_def)
  have pk: "parent k < sz" "parent k \<noteq> k" if "k < sz" "0 < k" for k using parent_lt [OF that(2)] that(1) by simp_all
  have up: "key (snd (V' ! k)) \<le> key (snd (V' ! parent i))" if "k < sz" "0 < k" "parent k = i" "0 < i" for k
    using that e [OF that(1,2)] e [OF W(3) that(4)] pk [OF that(1,2)] pk [OF W(3) that(4)] n [OF that(1)] n [OF pk(1) [OF W(3) that(4)]]
    by auto
  show "open_at key sz V' i" if "0 < i" "key (snd (V ! parent i)) < key (snd x)"
  proof -
    have "edge key V' k" if k: "k < sz" "0 < k" "k \<noteq> i" for k
      using k \<open>0 < i\<close> \<open>key (snd (V ! parent i)) < key (snd x)\<close> e [OF k(1,2)] e [OF W(3) \<open>0 < i\<close>] n [OF k(1)] n [OF pk(1) [OF k(1,2)]] by (auto simp: edge_def)
    then show ?thesis using up by (simp add: open_at_def)
  qed
  show "open_below key sz V' i" if c: "i = 0 \<or> key (snd x) \<le> key (snd (V ! parent i))"
  proof -
    have "edge key V' k" if k: "k < sz" "0 < k" "parent k \<noteq> i" for k
      using k c e [OF k(1,2)] n [OF k(1)] n [OF pk(1) [OF k(1,2)]] by (auto simp: edge_def)
    then show ?thesis using up by (simp add: open_below_def)
  qed
qed

end

context deadline_order
begin

text \<open>Repairing keeps the links and the entries and restores the order.\<close>

lemma heapify_changed:
  assumes "heap_linked P sz (slots el) (idxs el)" "slots el = V[i := x]" "is_heap sz V" "within W sz V" "snd x \<in> W" "i < sz"
  shows "heap_linked P sz (slots (cpudl_heapify sz i el)) (idxs (cpudl_heapify sz i el)) \<and> is_heap sz (slots (cpudl_heapify sz i el)) \<and>
    set (take sz (slots (cpudl_heapify sz i el))) = set (take sz (slots el))"
proof -
  note ce = changed_entry [OF assms(3-6), folded assms(2)]
  have len: "sz \<le> length el" using linkedD(1) [OF assms(1)] by simp
  have d: "k < sz \<Longrightarrow> it_dl (el ! k) = snd (slots el ! k)" for k using len by (simp add: slots_nth item_at_def)
  have "i < length V" using assms(4,6) by (simp add: within_def)
  then have n: "snd (slots el ! i) = snd x" "0 < i \<Longrightarrow> slots el ! parent i = V ! parent i"
    using parent_lt [of i] by (simp_all add: assms(2))
  have b: "0 < i \<Longrightarrow> dl_time_before (it_dl (el ! parent i)) (it_dl (el ! i)) \<longleftrightarrow> key (snd (V ! parent i)) < key (snd x)"
    using before_key [OF within_nth [OF assms(4), of "parent i"] assms(5)] n d [of i] d [of "parent i"] parent_lt [of i] assms(6) by simp
  show ?thesis
  proof (cases "0 < i \<and> key (snd (V ! parent i)) < key (snd x)")
    case True
    then have "cpudl_heapify sz i el = cpudl_heapify_up i el" using b by (simp add: cpudl_heapify_def)
    then show ?thesis
      using heapify_up_refines [OF assms(1,6)] sift_up_heap [OF ce(1) assms(6) ce(2)] sift_up_set [OF assms(6), of "slots el"] True len by auto
  next
    case False
    then have "cpudl_heapify sz i el = cpudl_heapify_down sz i el" using b by (auto simp: cpudl_heapify_def)
    then show ?thesis
      using heapify_down_refines [OF assms(1,6)] sift_down_heap [OF ce(1) assms(6) ce(3)] sift_down_set [OF assms(6), of "slots el"] False len by auto
  qed
qed

lemma insert_last:
  assumes "heap_linked P (Suc sz) (slots el) (idxs el)" "is_heap sz (slots el)" "within W (Suc sz) (slots el)"
  shows "heap_linked P (Suc sz) (slots (cpudl_heapify_up sz el)) (idxs (cpudl_heapify_up sz el)) \<and> is_heap (Suc sz) (slots (cpudl_heapify_up sz el)) \<and>
    set (take (Suc sz) (slots (cpudl_heapify_up sz el))) = set (take (Suc sz) (slots el))"
proof -
  have w: "within W sz (slots el)" using assms(3) set_take_subset_set_take [of sz "Suc sz" "slots el"] by (auto simp: within_def)
  have "k < Suc sz \<Longrightarrow> 0 < k \<Longrightarrow> parent k \<noteq> sz" for k using parent_lt [of k] by auto
  then have "open_at key (Suc sz) (slots el) sz" using assms(2) heap_edges [OF w] by (auto simp: open_at_def)
  then show ?thesis
    using heapify_up_refines [OF assms(1) lessI] sift_up_heap [OF assms(3) lessI] sift_up_set [of sz "Suc sz" "slots el"] linkedD(1) [OF assms(1)] by auto
qed

lemma top_latest:
  assumes "is_heap sz V" "within W sz V" "k < sz"
  shows "\<not> dl_time_before (snd (V ! 0)) (snd (V ! k))"
proof -
  have "key (snd (V ! k)) \<le> key (snd (V ! 0))" using assms(3)
  proof (induction k rule: less_induct)
    case (less k)
    show ?case
    proof (cases "k = 0")
      case False
      then have "key (snd (V ! parent k)) \<le> key (snd (V ! 0))" using less parent_lt [of k] by simp
      moreover have "edge key V k" using assms(1) heap_edges [OF assms(2)] less.prems False by simp
      ultimately show ?thesis by (simp add: edge_def)
    qed simp
  qed
  then show ?thesis using before_key [OF within_nth [OF assms(2), of 0] within_nth [OF assms(2,3)]] assms(3) by simp
qed

end

section \<open>Deadlines within half of the range\<close>

definition window :: "u64 \<Rightarrow> u64 set" where
  "window t = {d. \<bar>sint (d - t)\<bar> < 2 ^ 62}"

definition dl_key :: "u64 \<Rightarrow> u64 \<Rightarrow> int" where
  "dl_key t d = sint (d - t)"

interpretation dl: deadline_order "window t" "dl_key t" for t
proof unfold_locales
  fix a b
  assume w: "a \<in> window t" "b \<in> window t"
  have "a - b = (a - t) - (b - t)" by simp
  also have "\<dots> = word_of_int (dl_key t a - dl_key t b)" by (simp add: dl_key_def)
  finally have "sint (a - b) = sint (word_of_int (dl_key t a - dl_key t b) :: u64)" by (rule arg_cong)
  also have "\<dots> = signed_take_bit 63 (dl_key t a - dl_key t b)" by (simp only: signed_of_int) simp
  also have "\<dots> = dl_key t a - dl_key t b"
    by (rule signed_take_bit_int_eq_self) (use w in \<open>auto simp: window_def dl_key_def\<close>)
  finally show "dl_time_before a b \<longleftrightarrow> dl_key t a < dl_key t b" by (simp add: dl_time_before_def)
qed

end
