(* ===== verification/Cpudeadline_Ops.thy ===== *)
theory Cpudeadline_Ops
  imports Cpudeadline_Heap
begin

text \<open>
  What the operations on the heap of CPUs do: they keep the structure well-formed, and seen from outside the structure
  is a map from CPUs to deadlines with a set of free CPUs.
\<close>

section \<open>Well-formedness and abstraction\<close>

definition cpudl_ok :: "nat set \<Rightarrow> cpudl \<Rightarrow> bool" where
  "cpudl_ok P cp \<longleftrightarrow> P \<subseteq> {..< nr_cpumask_bits} \<and> heap_linked P (cp_size cp) (slots (cp_elements cp)) (idxs (cp_elements cp)) \<and>
     is_heap (cp_size cp) (slots (cp_elements cp)) \<and> length (cp_free_cpus cp) = 1"

definition deadlines :: "cpudl \<Rightarrow> nat \<rightharpoonup> u64" where
  "deadlines cp = map_of (take (cp_size cp) (slots (cp_elements cp)))"

definition free_cpus :: "cpudl \<Rightarrow> nat set" where
  "free_cpus cp = bits nr_cpumask_bits (cp_free_cpus cp)"

lemma cpudl_okD:
  assumes "cpudl_ok P cp"
  shows "c \<in> P \<Longrightarrow> c < nr_cpumask_bits" "heap_linked P (cp_size cp) (slots (cp_elements cp)) (idxs (cp_elements cp))"
    "is_heap (cp_size cp) (slots (cp_elements cp))" "length (cp_free_cpus cp) = 1"
  using assms by (auto simp: cpudl_ok_def)

lemma map_of_set: "distinct (map fst xs) \<Longrightarrow> distinct (map fst ys) \<Longrightarrow> set xs = set ys \<Longrightarrow> map_of xs = map_of ys"
  by (simp add: map_of_inject_set)

lemma deadlines_within: "ran (deadlines cp) \<subseteq> W \<Longrightarrow> cpudl_ok P cp \<Longrightarrow> within W (cp_size cp) (slots (cp_elements cp))"
proof -
  assume a: "ran (deadlines cp) \<subseteq> W" "cpudl_ok P cp"
  note l = cpudl_okD(2) [OF a(2)]
  have "snd ` set (take (cp_size cp) (slots (cp_elements cp))) \<subseteq> ran (deadlines cp)"
    using linked_distinct [OF l] by (force simp: deadlines_def ran_def)
  then show ?thesis using a(1) linkedD(1) [OF l] by (auto simp: within_def)
qed

lemma place_of:
  assumes "cpudl_ok P cp" "cpu \<in> P"
  shows "it_idx (cp_elements cp ! cpu) = IDX_INVALID \<longleftrightarrow> cpu \<notin> dom (deadlines cp)"
    "it_idx (cp_elements cp ! cpu) \<noteq> IDX_INVALID \<Longrightarrow>
      \<exists>i < cp_size cp. it_idx (cp_elements cp ! cpu) = int i \<and> fst (slots (cp_elements cp) ! i) = cpu"
proof -
  let ?V = "slots (cp_elements cp)" and ?sz = "cp_size cp"
  note l = linkedD [OF cpudl_okD(2) [OF assms(1)]]
  have c: "idxs (cp_elements cp) ! cpu = it_idx (cp_elements cp ! cpu)" using l(3) assms(2) by (auto intro: slots_nth(2))
  show p: "\<exists>i < ?sz. it_idx (cp_elements cp ! cpu) = int i \<and> fst (?V ! i) = cpu" if "it_idx (cp_elements cp ! cpu) \<noteq> IDX_INVALID"
    using l(6) [OF assms(2)] that unfolding c by blast
  have q: "it_idx (cp_elements cp ! cpu) = int i" if "i < ?sz" "cpu = fst (?V ! i)" for i
    using l(5) [OF that(1)] c that(2) by simp
  have dom: "dom (deadlines cp) = {fst (?V ! i) |i. i < ?sz}"
    using l(1) by (simp add: deadlines_def dom_map_of_conv_image_fst set_conv_nth) (force simp: in_set_conv_nth)
  show "it_idx (cp_elements cp ! cpu) = IDX_INVALID \<longleftrightarrow> cpu \<notin> dom (deadlines cp)"
    using p q unfolding dom by (auto simp: IDX_INVALID_def)
qed

section \<open>Setting a deadline\<close>

text \<open>A CPU that is not in the heap finds room at its end.\<close>

lemma room:
  assumes "heap_linked P sz V I" "cpu \<in> P" "\<And>i. i < sz \<Longrightarrow> fst (V ! i) \<noteq> cpu"
  shows "sz < length V"
proof -
  have "fst ` set (take sz V) \<subseteq> P - {cpu}"
    using assms linkedD(1,4) [OF assms(1)] by (fastforce simp: in_set_conv_nth)
  moreover have P: "finite P" "card P \<le> length V"
    using linkedD(3) [OF assms(1)] by (auto intro: finite_subset) (metis card_lessThan card_mono finite_lessThan)
  ultimately have "card (fst ` set (take sz V)) \<le> card (P - {cpu})" by (simp add: card_mono)
  moreover have "card (fst ` set (take sz V)) = sz"
    using distinct_card [OF linked_distinct [OF assms(1)]] linkedD(1) [OF assms(1)] by simp
  moreover have "card (P - {cpu}) < card P" by (rule card_Diff1_less [OF P(1) assms(2)])
  ultimately show ?thesis using P(2) by linarith
qed

lemma linked_insert:
  assumes "heap_linked P sz V I" "cpu \<in> P" "\<And>i. i < sz \<Longrightarrow> fst (V ! i) \<noteq> cpu"
  shows "heap_linked P (Suc sz) (V[sz := (cpu, d)]) (I[cpu := int sz])"
proof -
  note l = linkedD [OF assms(1)]
  have sz: "sz < length V" by (rule room [OF assms])
  have I: "I[cpu := int sz] ! c = (if c = cpu then int sz else I ! c)" if "c \<in> P" for c
    using that l(2,3) by (auto simp: nth_list_update)
  have V: "V[sz := (cpu, d)] ! k = (if k = sz then (cpu, d) else V ! k)" if "k < Suc sz" for k
    using that sz by (simp add: nth_list_update)
  have "fst (V[sz := (cpu, d)] ! k) \<in> P \<and> I[cpu := int sz] ! fst (V[sz := (cpu, d)] ! k) = int k" if k: "k < Suc sz" for k
    using k assms(2,3) l(4,5) [of k] by (cases "k = sz") (auto simp: V I)
  moreover have "\<exists>k < Suc sz. I[cpu := int sz] ! c = int k \<and> fst (V[sz := (cpu, d)] ! k) = c"
    if c: "c \<in> P" "I[cpu := int sz] ! c \<noteq> IDX_INVALID" for c
  proof (cases "c = cpu")
    case False
    then obtain k where "k < sz" "I ! c = int k" "fst (V ! k) = c" using l(6) [OF c(1)] c(2) I [OF c(1)] by auto
    then show ?thesis using False by (intro exI [of _ k]) (simp add: I [OF c(1)] V)
  qed (use sz I [OF c(1)] V in \<open>auto intro: exI [of _ sz]\<close>)
  ultimately show ?thesis using sz l(2,3) by (simp add: heap_linked_def)
qed

lemma map_of_update:
  assumes "distinct (map fst xs)" "i < length xs" "fst (xs ! i) = c"
  shows "map_of (xs[i := (c, d)]) = (map_of xs)(c \<mapsto> d)"
  using assms
proof (induction xs arbitrary: i)
  case (Cons x xs)
  show ?case
  proof (cases i)
    case (Suc k)
    then have "c \<in> fst ` set xs" using Cons.prems by auto
    then have "fst x \<noteq> c" using Cons.prems(1) by auto
    then show ?thesis using Cons Suc by (cases x) (auto simp: fun_upd_twist)
  next
    case 0
    then show ?thesis using Cons.prems by (cases x) (auto simp: fun_eq_iff)
  qed
qed simp

lemma map_of_snoc: "c \<notin> fst ` set xs \<Longrightarrow> map_of (xs @ [(c, d)]) = (map_of xs)(c \<mapsto> d)"
  using map_of_eq_None_iff [of xs c] by (auto simp: map_add_def fun_eq_iff split: option.splits)

lemma linked_same_cpu:
  assumes "heap_linked P sz V I" "i < sz" "fst x = fst (V ! i)"
  shows "heap_linked P sz (V[i := x]) I"
proof -
  have "fst (V[i := x] ! k) = fst (V ! k)" for k
    using assms(2,3) linkedD(1) [OF assms(1)] by (cases "k = i") simp_all
  then show ?thesis using assms(1) by (simp add: heap_linked_def)
qed

lemma is_heap_update: "is_heap sz (V[sz := x]) \<longleftrightarrow> is_heap sz V"
proof -
  have "V[sz := x] ! k = V ! k \<and> V[sz := x] ! parent k = V ! parent k" if "k < sz" "0 < k" for k
    using that parent_lt [OF that(2)] by simp
  then show ?thesis by (auto simp: is_heap_def)
qed

lemma take_snoc_update: "sz < length V \<Longrightarrow> take (Suc sz) (V[sz := x]) = take sz V @ [x]"
  by (simp add: take_Suc_conv_app_nth)

lemma set_new:
  assumes "cpudl_ok P cp" "cpu \<in> P" "ran (deadlines cp) \<subseteq> window t" "dl \<in> window t" "cpu \<notin> dom (deadlines cp)"
  shows "cpudl_ok P (cpudl_set cp cpu dl) \<and> deadlines (cpudl_set cp cpu dl) = (deadlines cp)(cpu \<mapsto> dl) \<and>
    free_cpus (cpudl_set cp cpu dl) = free_cpus cp - {cpu}"
proof -
  let ?V = "slots (cp_elements cp)" and ?sz = "cp_size cp"
  define el where "el = put_item ?sz (cpu, dl) (cp_elements cp)"
  have r: "cpudl_set cp cpu dl = cp\<lparr>cp_size := Suc ?sz, cp_elements := cpudl_heapify_up ?sz el, cp_free_cpus := cpumask_clear_cpu cpu (cp_free_cpus cp)\<rparr>"
    using place_of(1) [OF assms(1,2)] assms(5) by (simp add: cpudl_set_def Let_def el_def)
  note ok = cpudl_okD [OF assms(1)]
  have keys: "cpu \<notin> fst ` set (take ?sz ?V)" using assms(5) by (simp add: deadlines_def dom_map_of_conv_image_fst)
  have n: "fst (?V ! i) \<noteq> cpu" if "i < ?sz" for i
  proof -
    have "?V ! i \<in> set (take ?sz ?V)" using that linkedD(1) [OF ok(2)] by (auto simp: in_set_conv_nth intro!: exI [of _ i])
    then show ?thesis using keys by blast
  qed
  note room = room [OF ok(2) assms(2) n]
  have el: "slots el = ?V[?sz := (cpu, dl)]" "idxs el = (idxs (cp_elements cp))[cpu := int ?sz]"
    unfolding el_def by (simp_all add: slots_put_item idxs_put_item)
  have tk: "take (Suc ?sz) (slots el) = take ?sz ?V @ [(cpu, dl)]" unfolding el(1) by (rule take_snoc_update [OF room])
  have "within (window t) ?sz ?V" by (rule deadlines_within [OF assms(3,1)])
  then have w: "within (window t) (Suc ?sz) (slots el)" using assms(4) room tk by (auto simp: within_def el(1))
  have l: "heap_linked P (Suc ?sz) (slots el) (idxs el)" unfolding el by (rule linked_insert [OF ok(2) assms(2) n])
  note i = dl.insert_last [OF l _ w]
  have h: "is_heap ?sz (slots el)" unfolding el is_heap_update by (rule ok(3))
  have c8: "cpu < nr_cpumask_bits" by (rule ok(1) [OF assms(2)])
  have "map_of (take (Suc ?sz) (slots (cpudl_heapify_up ?sz el))) = map_of (take (Suc ?sz) (slots el))"
    by (rule map_of_set) (use i [OF h] l linked_distinct in blast)+
  then have "deadlines (cpudl_set cp cpu dl) = (deadlines cp)(cpu \<mapsto> dl)"
    unfolding r by (simp add: deadlines_def tk map_of_snoc [OF keys] del: map_of_append)
  moreover have "cpudl_ok P (cpudl_set cp cpu dl)"
    using i [OF h] assms(1) cm.ok_kept(2) [OF ok(4)] unfolding r by (simp add: cpudl_ok_def)
  moreover have "free_cpus (cpudl_set cp cpu dl) = free_cpus cp - {cpu}"
    unfolding r using cm.cpus_clear [OF ok(4) c8] by (simp add: free_cpus_def)
  ultimately show ?thesis by blast
qed

lemma set_old:
  assumes "cpudl_ok P cp" "cpu \<in> P" "ran (deadlines cp) \<subseteq> window t" "dl \<in> window t" "cpu \<in> dom (deadlines cp)"
  shows "cpudl_ok P (cpudl_set cp cpu dl) \<and> deadlines (cpudl_set cp cpu dl) = (deadlines cp)(cpu \<mapsto> dl) \<and>
    free_cpus (cpudl_set cp cpu dl) = free_cpus cp"
proof -
  let ?V = "slots (cp_elements cp)" and ?sz = "cp_size cp"
  note ok = cpudl_okD [OF assms(1)]
  have valid: "it_idx (cp_elements cp ! cpu) \<noteq> IDX_INVALID" using place_of(1) [OF assms(1,2)] assms(5) by blast
  obtain i where i: "i < ?sz" "it_idx (cp_elements cp ! cpu) = int i" "fst (?V ! i) = cpu" using place_of(2) [OF assms(1,2) valid] by blast
  define el where "el = (cp_elements cp)[i := (cp_elements cp ! i)\<lparr>it_dl := dl\<rparr>]"
  have r: "cpudl_set cp cpu dl = cp\<lparr>cp_elements := cpudl_heapify ?sz i el\<rparr>"
    using valid i(2) by (simp add: cpudl_set_def Let_def el_def IDX_INVALID_def)
  have len: "i < length (cp_elements cp)" using i(1) linkedD(1) [OF ok(2)] by simp
  have el: "slots el = ?V[i := (cpu, dl)]" "idxs el = idxs (cp_elements cp)"
    using i(3) len unfolding el_def by (simp_all add: view_update(1) view_same slots_nth item_at_def)
  have l: "heap_linked P ?sz (slots el) (idxs el)" unfolding el by (rule linked_same_cpu [OF ok(2) i(1)]) (simp add: i(3))
  have dl: "snd (cpu, dl) \<in> window t" using assms(4) by simp
  note c = dl.heapify_changed [OF l el(1) ok(3) deadlines_within [OF assms(3,1)] dl i(1)]
  have "map_of (take ?sz (slots (cpudl_heapify ?sz i el))) = map_of (take ?sz (slots el))"
    by (rule map_of_set) (use c l linked_distinct in blast)+
  also have "\<dots> = (deadlines cp)(cpu \<mapsto> dl)"
    unfolding el(1) deadlines_def take_update_swap [symmetric]
    using map_of_update [OF linked_distinct [OF ok(2)], of i cpu dl] i len linkedD(1) [OF ok(2)] by (simp add: take_update_swap)
  finally have "deadlines (cpudl_set cp cpu dl) = (deadlines cp)(cpu \<mapsto> dl)" unfolding r by (simp add: deadlines_def)
  then show ?thesis using c assms(1) unfolding r by (simp add: cpudl_ok_def free_cpus_def)
qed

section \<open>Clearing a deadline\<close>

text \<open>The last entry moves into the place of the removed one.\<close>

lemma linked_remove:
  assumes "heap_linked P (Suc sz) V I" "i < Suc sz"
  shows "heap_linked P sz (V[i := V ! sz]) (I[fst (V ! sz) := int i, fst (V ! i) := IDX_INVALID])"
proof -
  note l = linkedD [OF assms(1)]
  define I' where "I' = I[fst (V ! sz) := int i, fst (V ! i) := IDX_INVALID]"
  have I: "I' ! c = (if c = fst (V ! i) then IDX_INVALID else if c = fst (V ! sz) then int i else I ! c)" if "c \<in> P" for c
    using that l(2,3) by (auto simp: I'_def nth_list_update)
  have V: "V[i := V ! sz] ! k = (if k = i then V ! sz else V ! k)" if "k < sz" for k
    using that assms(2) l(1) by (simp add: nth_list_update)
  have inj: "fst (V ! k) = fst (V ! k') \<longleftrightarrow> k = k'" if "k < Suc sz" "k' < Suc sz" for k k'
    using linked_inj [OF assms(1) that] by blast
  have "fst (V[i := V ! sz] ! k) \<in> P \<and> I' ! fst (V[i := V ! sz] ! k) = int k" if k: "k < sz" for k
    using k l(4) [of k] l(4) [of sz] l(5) [of k] inj [of k i] inj [of k sz] inj [of sz i] assms(2) by (cases "k = i") (auto simp: V I)
  moreover have "\<exists>k < sz. I' ! c = int k \<and> fst (V[i := V ! sz] ! k) = c" if c: "c \<in> P" "I' ! c \<noteq> IDX_INVALID" for c
  proof (cases "c = fst (V ! sz)")
    case True
    then have "i < sz" using c I [OF c(1)] assms(2) by (cases "i = sz") auto
    then show ?thesis using True c I [OF c(1)] V by auto
  next
    case False
    then obtain k where k: "k < Suc sz" "I ! c = int k" "fst (V ! k) = c" using l(6) [OF c(1)] c(2) I [OF c(1)] by (auto split: if_splits)
    then have "k \<noteq> sz" "k \<noteq> i" using False c(2) I [OF c(1)] by auto
    then show ?thesis using k False I [OF c(1)] c(2) V [of k] by (intro exI [of _ k]) auto
  qed
  ultimately show ?thesis using l(1-3) by (simp add: heap_linked_def I'_def)
qed

lemma set_remove:
  assumes "sz < length V" "i \<le> sz" "distinct (map fst (take (Suc sz) V))"
  shows "set (take sz (V[i := V ! sz])) = set (take (Suc sz) V) - {V ! i}"
proof -
  have dist: "distinct (take (Suc sz) V)" using assms(3) distinct_map by blast
  have d: "V ! k = V ! k' \<longleftrightarrow> k = k'" if "k \<le> sz" "k' \<le> sz" for k k'
    using assms(1) that nth_eq_iff_index_eq [OF dist, of k k'] by simp
  have "set (take n xs) = {xs ! k |k. k < n}" if "n \<le> length xs" for n and xs :: "('a \<times> 'b) list"
    unfolding nth_image [OF that, symmetric] by auto
  then have a: "set (take sz (V[i := V ! sz])) = {V[i := V ! sz] ! k |k. k < sz}" "set (take (Suc sz) V) = {V ! k |k. k \<le> sz}"
    using assms(1) by (simp_all add: less_Suc_eq_le)
  show ?thesis unfolding a
  proof (intro equalityI subsetI)
    fix y
    assume "y \<in> {V[i := V ! sz] ! k |k. k < sz}"
    then obtain k where "k < sz" "y = V[i := V ! sz] ! k" by blast
    then show "y \<in> {V ! k |k. k \<le> sz} - {V ! i}" using assms(1,2) d by (cases "k = i") auto
  next
    fix y
    assume "y \<in> {V ! k |k. k \<le> sz} - {V ! i}"
    then obtain k where k: "k \<le> sz" "y = V ! k" "k \<noteq> i" by blast
    then show "y \<in> {V[i := V ! sz] ! k |k. k < sz}"
    proof (cases "k = sz")
      case True
      then show ?thesis using k assms by (auto intro!: exI [of _ i])
    qed (auto intro!: exI [of _ k])
  qed
qed

lemma map_of_remove:
  assumes "distinct (map fst xs)" "distinct (map fst ys)" "(c, d) \<in> set xs" "set ys = set xs - {(c, d)}"
  shows "map_of ys = (map_of xs)(c := None)"
proof
  fix a
  have u: "(a, v) \<in> set xs \<longleftrightarrow> map_of xs a = Some v" "(a, v) \<in> set ys \<longleftrightarrow> map_of ys a = Some v" for v
    using map_of_eq_Some_iff [OF assms(1), of a v] map_of_eq_Some_iff [OF assms(2), of a v] by blast+
  have c: "map_of xs c = Some d" using assms(1,3) by simp
  show "map_of ys a = ((map_of xs)(c := None)) a"
  proof (cases "a = c")
    case True
    have "map_of ys c = None"
    proof (rule ccontr)
      assume "map_of ys c \<noteq> None"
      then obtain v where "(c, v) \<in> set ys" unfolding not_None_eq using u(2) unfolding True by blast
      then have v: "(c, v) \<in> set xs" "v \<noteq> d" unfolding assms(4) by simp_all
      then have "map_of xs c = Some v" using u(1) [of v] unfolding True by blast
      then show False using c v(2) by simp
    qed
    then show ?thesis using True by simp
  next
    case False
    have "(a, v) \<in> set ys \<longleftrightarrow> (a, v) \<in> set xs" for v unfolding assms(4) using False by simp
    then have "map_of ys a = Some v \<longleftrightarrow> map_of xs a = Some v" for v unfolding u .
    then have "map_of ys a = map_of xs a" by (metis option.exhaust)
    then show ?thesis using False by simp
  qed
qed

lemma is_heap_less: "is_heap sz V \<Longrightarrow> sz' \<le> sz \<Longrightarrow> is_heap sz' V"
  by (auto simp: is_heap_def)

lemma remove_heapify:
  assumes "heap_linked P sz (slots el) (idxs el)" "slots el = V[i := V ! sz]" "is_heap (Suc sz) V" "within (window t) (Suc sz) V" "i \<le> sz"
  shows "heap_linked P sz (slots (cpudl_heapify sz i el)) (idxs (cpudl_heapify sz i el)) \<and> is_heap sz (slots (cpudl_heapify sz i el)) \<and>
    set (take sz (slots (cpudl_heapify sz i el))) = set (take sz (slots el))"
proof (cases "i = sz")
  case True
  have len: "sz < length el" "slots el = V" using assms(2,4) True view_lengths(1) [of el] by (simp_all add: within_def)
  have "\<not> (0 < i \<and> dl_time_before (it_dl (el ! parent i)) (it_dl (el ! i)))"
    using assms(3) True len parent_lt [of i] slots_nth(1) [of i el] slots_nth(1) [of "parent i" el] by (auto simp: is_heap_def item_at_def)
  moreover have "sz \<le> left_child i" using True by (simp add: left_child_def)
  ultimately have "cpudl_heapify sz i el = el" by (auto simp: cpudl_heapify_def cpudl_heapify_down_def Let_def)
  then show ?thesis using assms(1) len(2) is_heap_less [OF assms(3)] by simp
next
  case False
  have "within (window t) sz V" using assms(4) set_take_subset_set_take [of sz "Suc sz" V] by (auto simp: within_def)
  then show ?thesis
    using dl.heapify_changed [OF assms(1,2) is_heap_less [OF assms(3)]] within_nth [OF assms(4), of sz] False assms(5) by simp
qed

lemma clear_old:
  assumes "cpudl_ok P cp" "cpu \<in> P" "ran (deadlines cp) \<subseteq> window t" "cpu \<in> dom (deadlines cp)"
  shows "cpudl_ok P (cpudl_clear cp cpu) \<and> deadlines (cpudl_clear cp cpu) = (deadlines cp)(cpu := None) \<and>
    free_cpus (cpudl_clear cp cpu) = insert cpu (free_cpus cp)"
proof -
  let ?V = "slots (cp_elements cp)"
  note ok = cpudl_okD [OF assms(1)]
  have valid: "it_idx (cp_elements cp ! cpu) \<noteq> IDX_INVALID" using place_of(1) [OF assms(1,2)] assms(4) by blast
  obtain i where i: "i < cp_size cp" "it_idx (cp_elements cp ! cpu) = int i" "fst (?V ! i) = cpu" using place_of(2) [OF assms(1,2) valid] by blast
  define sz where "sz = cp_size cp - 1"
  have sz: "cp_size cp = Suc sz" using i(1) by (simp add: sz_def)
  define el1 where "el1 = put_item i (item_at (cp_elements cp) sz) (cp_elements cp)"
  define el where "el = el1[cpu := (el1 ! cpu)\<lparr>it_idx := IDX_INVALID\<rparr>]"
  have r: "cpudl_clear cp cpu = cp\<lparr>cp_size := sz, cp_elements := cpudl_heapify sz i el, cp_free_cpus := cpumask_set_cpu cpu (cp_free_cpus cp)\<rparr>"
    using valid i(2) by (simp add: cpudl_clear_def Let_def el_def el1_def sz_def IDX_INVALID_def)
  note l = ok(2) [unfolded sz]
  have len: "sz < length (cp_elements cp)" "i \<le> sz" using linkedD(1) [OF l] i(1) sz by simp_all
  have el: "slots el = ?V[i := ?V ! sz]" "idxs el = (idxs (cp_elements cp))[fst (?V ! sz) := int i, fst (?V ! i) := IDX_INVALID]"
    using len i(3) unfolding el_def el1_def view_same(1)
    by (simp_all add: slots_put_item idxs_put_item view_update(2) slots_nth)
  have ll: "heap_linked P sz (slots el) (idxs el)" unfolding el by (rule linked_remove [OF l]) (use len in simp)
  note w = deadlines_within [OF assms(3,1), unfolded sz]
  note c = remove_heapify [OF ll el(1) ok(3) [unfolded sz] w len(2)]
  have xs: "set (take sz (slots el)) = set (take (Suc sz) ?V) - {?V ! i}"
    unfolding el(1) by (rule set_remove) (use len linked_distinct [OF l] in simp_all)
  have vi: "(cpu, snd (?V ! i)) = ?V ! i" using i(3) by (cases "?V ! i") simp
  have "map_of (take sz (slots (cpudl_heapify sz i el))) = (map_of (take (Suc sz) ?V))(cpu := None)"
  proof (rule map_of_remove [where d = "snd (?V ! i)"])
    show "distinct (map fst (take (Suc sz) ?V))" "distinct (map fst (take sz (slots (cpudl_heapify sz i el))))"
      using linked_distinct l c by blast+
    show "(cpu, snd (?V ! i)) \<in> set (take (Suc sz) ?V)"
      unfolding vi using len by (auto simp: in_set_conv_nth intro!: exI [of _ i])
    show "set (take sz (slots (cpudl_heapify sz i el))) = set (take (Suc sz) ?V) - {(cpu, snd (?V ! i))}" unfolding vi using c xs by simp
  qed
  then have "deadlines (cpudl_clear cp cpu) = (deadlines cp)(cpu := None)" unfolding r by (simp add: deadlines_def sz)
  moreover have "free_cpus (cpudl_clear cp cpu) = insert cpu (free_cpus cp)"
    unfolding r using cm.cpus_set [OF ok(4) ok(1) [OF assms(2)]] by (simp add: free_cpus_def)
  moreover have "cpudl_ok P (cpudl_clear cp cpu)"
    using c assms(1) cm.ok_kept(1) [OF ok(4)] unfolding r by (simp add: cpudl_ok_def)
  ultimately show ?thesis by blast
qed

lemma clear_none:
  assumes "cpudl_ok P cp" "cpu \<in> P" "cpu \<notin> dom (deadlines cp)"
  shows "cpudl_clear cp cpu = cp"
  using place_of(1) [OF assms(1,2)] assms(3) by (simp add: cpudl_clear_def Let_def)

section \<open>Initialisation\<close>

definition init_step :: "nat \<Rightarrow> cpudl_item list option \<Rightarrow> cpudl_item list option" where
  "init_step i oel = (case oel of None \<Rightarrow> None
     | Some el \<Rightarrow> if i < length el then Some (el[i := (el ! i)\<lparr>it_idx := IDX_INVALID\<rparr>]) else None)"

lemma init_none: "fold init_step cs None = None"
  by (induction cs) (simp_all add: init_step_def)

lemma init_fold_Cons:
  "fold init_step (c # cs) (Some el) = (if c < length el then fold init_step cs (Some (el[c := (el ! c)\<lparr>it_idx := IDX_INVALID\<rparr>])) else None)"
  by (simp add: init_step_def init_none)

lemma init_fold_None: "fold init_step cs (Some el) = None \<longleftrightarrow> \<not> set cs \<subseteq> {..< length el}"
proof (induction cs arbitrary: el)
  case (Cons c cs)
  then show ?case unfolding init_fold_Cons by auto
qed simp

lemma init_fold_Some:
  "fold init_step cs (Some el) = Some el' \<Longrightarrow> length el' = length el \<and>
    (\<forall>c < length el. c \<in> set cs \<or> it_idx (el ! c) = IDX_INVALID \<longrightarrow> it_idx (el' ! c) = IDX_INVALID)"
proof (induction cs arbitrary: el)
  case (Cons c cs)
  let ?el = "el[c := (el ! c)\<lparr>it_idx := IDX_INVALID\<rparr>]"
  have c: "c < length el" "fold init_step cs (Some ?el) = Some el'" using Cons.prems unfolding init_fold_Cons by (auto split: if_splits)
  have "it_idx (?el ! a) = IDX_INVALID" if "a < length el" "a = c \<or> it_idx (el ! a) = IDX_INVALID" for a
    using that c(1) by (auto simp: nth_list_update)
  then show ?case using Cons.IH [OF c(2)] by auto
qed simp

lemma cpudl_init_fold: "cpudl_init possible True True =
  map_option (\<lambda>el. Inr \<lparr>cp_size = 0, cp_free_cpus = [0], cp_elements = el\<rparr>)
    (fold init_step (cpus_from possible (cpumask_first possible)) (Some (replicate (cpumask_weight possible) \<lparr>it_dl = 0, it_cpu = 0, it_idx = 0\<rparr>)))"
  by (simp add: cpudl_init_def for_each_cpu_mask_def init_step_def [abs_def])

lemma init_fails_iff:
  "cpudl_init possible True True = None \<longleftrightarrow> \<not> bits nr_cpumask_bits possible \<subseteq> {..< cpumask_weight possible}"
  unfolding cpudl_init_fold using init_fold_None [of "cpus_from possible (cpumask_first possible)" "replicate (cpumask_weight possible) \<lparr>it_dl = 0, it_cpu = 0, it_idx = 0\<rparr>"]
  by (simp add: cm.set_members)

lemma init_ok:
  assumes "cpudl_init possible True True = Some (Inr cp)"
  shows "cpudl_ok (bits nr_cpumask_bits possible) cp \<and> deadlines cp = Map.empty \<and> free_cpus cp = {}"
proof -
  let ?P = "bits nr_cpumask_bits possible" and ?el0 = "replicate (cpumask_weight possible) \<lparr>it_dl = 0, it_cpu = 0, it_idx = 0\<rparr>"
  obtain el where f: "fold init_step (cpus_from possible (cpumask_first possible)) (Some ?el0) = Some el"
    and cp: "cp = \<lparr>cp_size = 0, cp_free_cpus = [0], cp_elements = el\<rparr>"
    using assms unfolding cpudl_init_fold by auto
  have el: "length el = cpumask_weight possible" "\<And>c. c < length el \<Longrightarrow> c \<in> ?P \<Longrightarrow> it_idx (el ! c) = IDX_INVALID"
    using init_fold_Some [OF f] by (simp_all add: cm.set_members)
  have P: "?P \<subseteq> {..< length el}" using assms init_fails_iff [of possible] el(1) by simp
  have "heap_linked ?P 0 (slots el) (idxs el)" using P el(2) by (auto simp: heap_linked_def slots_nth)
  moreover have "bits nr_cpumask_bits [0 :: u64] = {}" by (simp add: bits_def test_bit_def BIT_WORD_def BITS_PER_LONG_def nr_cpumask_bits_def)
  ultimately show ?thesis using cm.cpus_limit [of possible] by (simp add: cp cpudl_ok_def is_heap_def deadlines_def free_cpus_def)
qed

lemma init_cases: "cpudl_init possible e m = (if e \<and> m then cpudl_init possible True True else Some (Inl (- ENOMEM)))"
  by (simp add: cpudl_init_def)

lemma dense_iff:
  "bits nr_cpumask_bits possible \<subseteq> {..< cpumask_weight possible} \<longleftrightarrow> bits nr_cpumask_bits possible = {..< cpumask_weight possible}"
proof
  assume "bits nr_cpumask_bits possible \<subseteq> {..< cpumask_weight possible}"
  then show "bits nr_cpumask_bits possible = {..< cpumask_weight possible}"
    by (rule card_subset_eq [OF finite_lessThan]) (simp add: cm.weight_card)
qed simp

section \<open>Looking for a CPU\<close>

lemma maximum_latest:
  assumes "cpudl_ok P cp" "ran (deadlines cp) \<subseteq> window t" "deadlines cp \<noteq> Map.empty"
  shows "\<exists>d. deadlines cp (cpudl_maximum cp) = Some d \<and> it_dl (cp_elements cp ! 0) = d \<and>
    (\<forall>c d'. deadlines cp c = Some d' \<longrightarrow> \<not> dl_time_before d d')"
proof -
  let ?V = "slots (cp_elements cp)" and ?sz = "cp_size cp"
  note ok = cpudl_okD [OF assms(1)]
  have sz: "0 < ?sz" using assms(3) by (cases ?sz) (simp_all add: deadlines_def)
  have len: "?sz \<le> length ?V" by (rule linkedD(1) [OF ok(2)])
  have v0: "?V ! 0 = (cpudl_maximum cp, it_dl (cp_elements cp ! 0))"
    using slots_nth(1) [of 0 "cp_elements cp"] order_less_le_trans [OF sz len] by (simp add: cpudl_maximum_def item_at_def)
  have "?V ! 0 \<in> set (take ?sz ?V)" using sz len by (auto simp: in_set_conv_nth intro!: exI [of _ 0])
  then have "deadlines cp (cpudl_maximum cp) = Some (it_dl (cp_elements cp ! 0))"
    unfolding deadlines_def v0 by (rule map_of_is_SomeI [OF linked_distinct [OF ok(2)]])
  moreover have "\<not> dl_time_before (it_dl (cp_elements cp ! 0)) d'" if "deadlines cp c = Some d'" for c d'
  proof -
    have "(c, d') \<in> set (take ?sz ?V)" using that unfolding deadlines_def by (rule map_of_SomeD)
    then obtain k where k: "k < ?sz" "?V ! k = (c, d')" using len by (auto simp: in_set_conv_nth)
    then show ?thesis using dl.top_latest [OF ok(3) deadlines_within [OF assms(2,1)] k(1)] v0 by simp
  qed
  ultimately show ?thesis by blast
qed

lemma find_masks:
  assumes "cpudl_ok P cp" "length m = 1" "cpudl_maximum cp < nr_cpumask_bits" "cpudl_find cp deadline allowed (Some m) = (found, later)"
  defines "both \<equiv> free_cpus cp \<inter> bits nr_cpumask_bits allowed"
    and "best \<equiv> cpudl_maximum cp \<in> bits nr_cpumask_bits allowed \<and> dl_time_before deadline (it_dl (cp_elements cp ! 0))"
  shows "found \<longleftrightarrow> both \<noteq> {} \<or> best"
    "map_option (bits nr_cpumask_bits) later = Some (if both \<noteq> {} then both else if best then {cpudl_maximum cp} else {})"
proof -
  obtain m' r where a: "cpumask_and m (cp_free_cpus cp) allowed = (m', r)" by (cases "cpumask_and m (cp_free_cpus cp) allowed") auto
  have m': "bits nr_cpumask_bits m' = both" "r \<longleftrightarrow> both \<noteq> {}" "length m' = 1"
    using cm.cpus_and [OF assms(2), of "cp_free_cpus cp" allowed] cm.and_flag [OF assms(2), of "cp_free_cpus cp" allowed]
      cm.ok_kept(3) [OF assms(2), of "cp_free_cpus cp" allowed] by (simp_all add: a both_def free_cpus_def)
  have b: "best \<longleftrightarrow> cpumask_is_set (cpudl_maximum cp) allowed \<and> dl_time_before deadline (it_dl (cp_elements cp ! 0))"
    using cm.is_set_iff [OF assms(3)] by (simp add: best_def)
  have r: "(found, later) = (if r then (True, Some m') else if best then (True, Some (cpumask_set_cpu (cpudl_maximum cp) m')) else (False, Some m'))"
    using assms(4) by (cases r; cases best) (simp_all add: cpudl_find_def a Let_def b [symmetric])
  show "found \<longleftrightarrow> both \<noteq> {} \<or> best" using r m'(2) by (simp split: if_splits)
  show "map_option (bits nr_cpumask_bits) later = Some (if both \<noteq> {} then both else if best then {cpudl_maximum cp} else {})"
    using r m' cm.cpus_set [OF m'(3) assms(3)] by (auto split: if_splits)
qed

end
