(* ===== verification/Cpudeadline_Properties.thy ===== *)
theory Cpudeadline_Properties
  imports Cpudeadline_Ops
begin

text \<open>
  The properties of the heap of CPUs that the deadline scheduler searches.
\<close>

text \<open>A machine of two CPUs, of which the second runs a deadline task.\<close>

definition two_cpus :: cpudl where
  "two_cpus = \<lparr>cp_size = 1, cp_free_cpus = [1], cp_elements = [\<lparr>it_dl = 100, it_cpu = 1, it_idx = - 1\<rparr>, \<lparr>it_dl = 0, it_cpu = 0, it_idx = 0\<rparr>]\<rparr>"

lemma two_cpus_ok:
  "cpudl_ok {0, 1} two_cpus" "deadlines two_cpus = [1 \<mapsto> 100]" "100 \<in> window 0" "200 \<in> window 0" "ran (deadlines two_cpus) \<subseteq> window 0"
  by (auto simp: cpudl_ok_def heap_linked_def is_heap_def deadlines_def two_cpus_def slots_def idxs_def nr_cpumask_bits_def IDX_INVALID_def window_def)

text \<open>
  C37. The heap of CPUs stays well-formed: the array has room for every entry, each entry and its CPU point at each
  other, no child has a later deadline than its parent and the mask has its size. Every operation keeps this, for
  deadlines that lie within half of the range of the clock, and \<open>cpudl_init\<close> establishes it or fails with \<open>-ENOMEM\<close>.
  It writes past the end of the array exactly when the possible CPUs are not the CPUs from 0 on, because
  \<open>nr_possible_cpu_ids\<close> is the number of possible CPUs.
\<close>

theorem cpudl_well_formed:
  assumes "cpudl_ok P cp" "cpu \<in> P" "ran (deadlines cp) \<subseteq> window t" "dl \<in> window t"
  shows "cpudl_ok P (cpudl_set cp cpu dl) \<and> cpudl_ok P (cpudl_clear cp cpu) \<and>
    cpudl_ok P (cpudl_set_freecpu cp cpu) \<and> cpudl_ok P (cpudl_clear_freecpu cp cpu) \<and>
    (cpudl_init possible elements_ok mask_ok = None \<longleftrightarrow>
       elements_ok \<and> mask_ok \<and> bits nr_cpumask_bits possible \<noteq> {..< cpumask_weight possible}) \<and>
    (cpudl_init possible elements_ok mask_ok = Some (Inl e) \<longrightarrow> e = - ENOMEM) \<and>
    (cpudl_init possible elements_ok mask_ok = Some (Inr cp') \<longrightarrow> cpudl_ok (bits nr_cpumask_bits possible) cp')"
proof (intro conjI)
  show "cpudl_ok P (cpudl_set cp cpu dl)"
    using set_new [OF assms] set_old [OF assms] by (cases "cpu \<in> dom (deadlines cp)") simp_all
  show "cpudl_ok P (cpudl_clear cp cpu)"
    using clear_old [OF assms(1-3)] clear_none [OF assms(1,2)] assms(1) by (cases "cpu \<in> dom (deadlines cp)") simp_all
  show "cpudl_ok P (cpudl_set_freecpu cp cpu)" "cpudl_ok P (cpudl_clear_freecpu cp cpu)"
    using assms(1) cm.ok_kept by (simp_all add: cpudl_ok_def cpudl_set_freecpu_def cpudl_clear_freecpu_def)
  show "cpudl_init possible elements_ok mask_ok = None \<longleftrightarrow>
      elements_ok \<and> mask_ok \<and> bits nr_cpumask_bits possible \<noteq> {..< cpumask_weight possible}"
    unfolding init_cases [of possible elements_ok mask_ok] using init_fails_iff [of possible] dense_iff [of possible] by auto
  show "cpudl_init possible elements_ok mask_ok = Some (Inl e) \<longrightarrow> e = - ENOMEM"
    by (auto simp: cpudl_init_def split: if_splits)
  show "cpudl_init possible elements_ok mask_ok = Some (Inr cp') \<longrightarrow> cpudl_ok (bits nr_cpumask_bits possible) cp'"
    unfolding init_cases [of possible elements_ok mask_ok] using init_ok [of possible cp'] by simp
qed

theorem cpudl_well_formed_witness:
  "cpudl_ok {0, 1} (cpudl_set two_cpus 0 200) \<and> cpudl_ok {0, 1} (cpudl_clear two_cpus 0) \<and> cpudl_init [5] True True = None"
proof -
  have "2 \<in> bits nr_cpumask_bits [5 :: u64]" "1 \<notin> bits nr_cpumask_bits [5 :: u64]"
    by (simp_all add: bits_def test_bit_iff nr_cpumask_bits_def)
  then have "bits nr_cpumask_bits [5] \<noteq> {..< cpumask_weight [5]}" by (metis lessThan_iff one_less_numeral_iff less_trans semiring_norm(76))
  then show ?thesis
    using cpudl_well_formed [OF two_cpus_ok(1) _ two_cpus_ok(5,4), of 0 "[5]" True True] by blast
qed

text \<open>
  C38. Seen from outside, the heap is a map from CPUs to deadlines beside a set of free CPUs: \<open>cpudl_set\<close> enters the
  deadline and takes a new CPU out of the free set, \<open>cpudl_clear\<close> removes it and frees the CPU, \<open>cpudl_maximum\<close> is a CPU
  whose deadline no other is later than, and \<open>cpudl_find\<close> yields the allowed free CPUs or else that CPU, when it is
  allowed and its deadline is later than that of the task.
\<close>

theorem cpudl_refines_map:
  assumes "cpudl_ok P cp" "cpu \<in> P" "ran (deadlines cp) \<subseteq> window t" "dl \<in> window t" "deadlines cp \<noteq> Map.empty"
    "length m = 1" "cpudl_find cp deadline allowed (Some m) = (found, later)"
  shows "deadlines (cpudl_set cp cpu dl) = (deadlines cp)(cpu \<mapsto> dl) \<and>
    free_cpus (cpudl_set cp cpu dl) = (if cpu \<in> dom (deadlines cp) then free_cpus cp else free_cpus cp - {cpu}) \<and>
    deadlines (cpudl_clear cp cpu) = (deadlines cp)(cpu := None) \<and>
    free_cpus (cpudl_clear cp cpu) = (if cpu \<in> dom (deadlines cp) then insert cpu (free_cpus cp) else free_cpus cp) \<and>
    (\<exists>d. deadlines cp (cpudl_maximum cp) = Some d \<and> (\<forall>d' \<in> ran (deadlines cp). \<not> dl_time_before d d') \<and>
      (let both = free_cpus cp \<inter> bits nr_cpumask_bits allowed;
           best = (cpudl_maximum cp \<in> bits nr_cpumask_bits allowed \<and> dl_time_before deadline d)
       in (found \<longleftrightarrow> both \<noteq> {} \<or> best) \<and>
          map_option (bits nr_cpumask_bits) later = Some (if both \<noteq> {} then both else if best then {cpudl_maximum cp} else {})))"
proof -
  note s = set_new [OF assms(1-4)] set_old [OF assms(1-4)] clear_old [OF assms(1-3)] clear_none [OF assms(1,2)]
  obtain d where d: "deadlines cp (cpudl_maximum cp) = Some d" "it_dl (cp_elements cp ! 0) = d"
    "\<forall>c d'. deadlines cp c = Some d' \<longrightarrow> \<not> dl_time_before d d'"
    using maximum_latest [OF assms(1,3,5)] by blast
  have "dom (deadlines cp) \<subseteq> P"
    using linkedD(1,4) [OF cpudl_okD(2) [OF assms(1)]] unfolding deadlines_def dom_map_of_conv_image_fst
    by (fastforce simp: in_set_conv_nth)
  then have mx: "cpudl_maximum cp < nr_cpumask_bits" using d(1) cpudl_okD(1) [OF assms(1)] by blast
  have un: "(deadlines cp)(cpu := None) = deadlines cp" if "cpu \<notin> dom (deadlines cp)" using that by (simp add: fun_upd_idem domIff)
  show ?thesis using s d un find_masks [OF assms(1,6) mx assms(7)] by (auto simp: Let_def ran_def)
qed

theorem cpudl_refines_map_witness:
  "deadlines (cpudl_set two_cpus 0 200) = [1 \<mapsto> 100, 0 \<mapsto> 200] \<and> deadlines (cpudl_clear two_cpus 1) = Map.empty \<and>
   deadlines two_cpus (cpudl_maximum two_cpus) = Some 100 \<and> fst (cpudl_find two_cpus 50 [2] (Some [0]))"
proof -
  have "fst (cpudl_find two_cpus 50 [2] (Some [0]))" by code_simp
  then obtain later where f: "cpudl_find two_cpus 50 [2] (Some [0]) = (True, later)" by (metis prod.collapse)
  have "deadlines two_cpus \<noteq> Map.empty" using two_cpus_ok(2) by simp
  note r = cpudl_refines_map [OF two_cpus_ok(1) _ two_cpus_ok(5,4) this _ f]
  show ?thesis
    using r [of 0] r [of 1] f two_cpus_ok(2) by (auto simp: cpudl_maximum_def two_cpus_def)
qed

end
