(* ===== verification/Qrwlock.thy ===== *)
theory Qrwlock
  imports Kernel_Prelude
begin

unbundle bit_operations_syntax

text \<open>
  The queued reader/writer lock (\<open>include/asm-generic/qrwlock.h\<close>, \<open>kernel/locking/qrwlock.c\<close>) as a transition system. Any number of
  contexts, tasks and interrupt handlers, use one lock; a step is one atomic access of one context. The spin lock
  \<open>wait_lock\<close> is a lock with one owner. The accesses to \<open>cnts\<close> are to one location and are totally ordered.
\<close>

section \<open>The operations\<close>

definition QW_WAITING :: u32 where "QW_WAITING = 0x100"

definition QW_LOCKED :: u32 where "QW_LOCKED = 0x0ff"

definition QW_WMASK :: u32 where "QW_WMASK = 0x1ff"

definition QR_BIAS :: u32 where "QR_BIAS = push_bit 9 1"

record qrwlock =
  cnts :: u32
  wait_lock :: "nat option"

text \<open>Where a context is: before the named access, or holding the lock.\<close>

datatype pc = Idle | Reading | Writing
  | ReadTry | ReadTryUndo | ReadSlow | ReadWait | ReadQueued | ReadSpin | ReadPass
  | WriteTry | WriteWait | WriteQueued | WriteCas0 | WriteMark | WriteSpin | WriteCas | WritePass

definition queued_read_lock :: "qrwlock \<Rightarrow> qrwlock \<times> pc" where
  "queued_read_lock l =
     (let c = cnts l + QR_BIAS in (l\<lparr>cnts := c\<rparr>, if c AND QW_WMASK = 0 then Reading else ReadSlow))"

definition queued_write_lock :: "qrwlock \<Rightarrow> qrwlock \<times> pc" where
  "queued_write_lock l = (if cnts l = 0 then (l\<lparr>cnts := QW_LOCKED\<rparr>, Writing) else (l, WriteWait))"

definition queued_read_unlock :: "qrwlock \<Rightarrow> qrwlock \<times> pc" where
  "queued_read_unlock l = (l\<lparr>cnts := cnts l - QR_BIAS\<rparr>, Idle)"

text \<open>The store of the byte \<open>wlocked\<close>, the lowest of \<open>cnts\<close>.\<close>

definition queued_write_unlock :: "qrwlock \<Rightarrow> qrwlock \<times> pc" where
  "queued_write_unlock l = (l\<lparr>cnts := cnts l AND NOT 0xff\<rparr>, Idle)"

fun queued_read_trylock :: "pc \<Rightarrow> qrwlock \<Rightarrow> (qrwlock \<times> pc) option" where
  "queued_read_trylock Idle l = Some (l, if cnts l AND QW_WMASK = 0 then ReadTry else Idle)"
| "queued_read_trylock ReadTry l =
     (let c = cnts l + QR_BIAS in Some (l\<lparr>cnts := c\<rparr>, if c AND QW_WMASK = 0 then Reading else ReadTryUndo))"
| "queued_read_trylock ReadTryUndo l = Some (l\<lparr>cnts := cnts l - QR_BIAS\<rparr>, Idle)"
| "queued_read_trylock _ l = None"

fun queued_write_trylock :: "pc \<Rightarrow> qrwlock \<Rightarrow> (qrwlock \<times> pc) option" where
  "queued_write_trylock Idle l = Some (l, if cnts l = 0 then WriteTry else Idle)"
| "queued_write_trylock WriteTry l = Some (if cnts l = 0 then (l\<lparr>cnts := QW_LOCKED\<rparr>, Writing) else (l, Idle))"
| "queued_write_trylock _ l = None"

text \<open>
  The slow paths, one step from each of their places; \<open>None\<close> waits. \<open>irq\<close> is \<open>in_interrupt()\<close> and \<open>t\<close> the context.
\<close>

fun queued_read_lock_slowpath :: "bool \<Rightarrow> nat \<Rightarrow> pc \<Rightarrow> qrwlock \<Rightarrow> (qrwlock \<times> pc) option" where
  "queued_read_lock_slowpath irq t ReadSlow l =
     (if irq then if cnts l AND QW_LOCKED = 0 then Some (l, Reading) else None
      else Some (l\<lparr>cnts := cnts l - QR_BIAS\<rparr>, ReadWait))"
| "queued_read_lock_slowpath irq t ReadWait l =
     (if wait_lock l = None then Some (l\<lparr>wait_lock := Some t\<rparr>, ReadQueued) else None)"
| "queued_read_lock_slowpath irq t ReadQueued l = Some (l\<lparr>cnts := cnts l + QR_BIAS\<rparr>, ReadSpin)"
| "queued_read_lock_slowpath irq t ReadSpin l = (if cnts l AND QW_LOCKED = 0 then Some (l, ReadPass) else None)"
| "queued_read_lock_slowpath irq t ReadPass l = Some (l\<lparr>wait_lock := None\<rparr>, Reading)"
| "queued_read_lock_slowpath irq t _ l = None"

fun queued_write_lock_slowpath :: "nat \<Rightarrow> pc \<Rightarrow> qrwlock \<Rightarrow> (qrwlock \<times> pc) option" where
  "queued_write_lock_slowpath t WriteWait l =
     (if wait_lock l = None then Some (l\<lparr>wait_lock := Some t\<rparr>, WriteQueued) else None)"
| "queued_write_lock_slowpath t WriteQueued l = Some (l, if cnts l = 0 then WriteCas0 else WriteMark)"
| "queued_write_lock_slowpath t WriteCas0 l =
     Some (if cnts l = 0 then (l\<lparr>cnts := QW_LOCKED\<rparr>, WritePass) else (l, WriteMark))"
| "queued_write_lock_slowpath t WriteMark l = Some (l\<lparr>cnts := cnts l + QW_WAITING\<rparr>, WriteSpin)"
| "queued_write_lock_slowpath t WriteSpin l = (if cnts l = QW_WAITING then Some (l, WriteCas) else None)"
| "queued_write_lock_slowpath t WriteCas l =
     Some (if cnts l = QW_WAITING then (l\<lparr>cnts := QW_LOCKED\<rparr>, WritePass) else (l, WriteSpin))"
| "queued_write_lock_slowpath t WritePass l = Some (l\<lparr>wait_lock := None\<rparr>, Writing)"
| "queued_write_lock_slowpath t _ l = None"

section \<open>Contexts that use the lock\<close>

text \<open>\<open>local_step irq t a l l' b\<close>: context \<open>t\<close> at \<open>a\<close> accesses the lock and is then at \<open>b\<close>.\<close>

inductive local_step :: "bool \<Rightarrow> nat \<Rightarrow> pc \<Rightarrow> qrwlock \<Rightarrow> qrwlock \<Rightarrow> pc \<Rightarrow> bool" for irq t where
  read_lock: "queued_read_lock l = (l', b) \<Longrightarrow> local_step irq t Idle l l' b"
| write_lock: "queued_write_lock l = (l', b) \<Longrightarrow> local_step irq t Idle l l' b"
| read_trylock: "queued_read_trylock a l = Some (l', b) \<Longrightarrow> local_step irq t a l l' b"
| write_trylock: "queued_write_trylock a l = Some (l', b) \<Longrightarrow> local_step irq t a l l' b"
| read_slow: "queued_read_lock_slowpath irq t a l = Some (l', b) \<Longrightarrow> local_step irq t a l l' b"
| write_slow: "queued_write_lock_slowpath t a l = Some (l', b) \<Longrightarrow> local_step irq t a l l' b"
| read_unlock: "queued_read_unlock l = (l', b) \<Longrightarrow> local_step irq t Reading l l' b"
| write_unlock: "queued_write_unlock l = (l', b) \<Longrightarrow> local_step irq t Writing l l' b"

record rw_state =
  the_lock :: qrwlock
  at :: "nat \<Rightarrow> pc"

text \<open>The contexts are the numbers below \<open>n\<close>; those of \<open>I\<close> are interrupt handlers.\<close>

inductive rw_step :: "nat \<Rightarrow> nat set \<Rightarrow> rw_state \<Rightarrow> rw_state \<Rightarrow> bool" for n I where
  "t < n \<Longrightarrow> local_step (t \<in> I) t (at s t) (the_lock s) l' b \<Longrightarrow> rw_step n I s (s\<lparr>the_lock := l', at := (at s)(t := b)\<rparr>)"

inductive reachable :: "nat \<Rightarrow> nat set \<Rightarrow> rw_state \<Rightarrow> bool" for n I where
  start: "reachable n I \<lparr>the_lock = \<lparr>cnts = 0, wait_lock = None\<rparr>, at = (\<lambda>_. Idle)\<rparr>"
| step: "reachable n I s \<Longrightarrow> rw_step n I s s' \<Longrightarrow> reachable n I s'"

end
