(* ===== verification/Qrwlock_Safety.thy ===== *)
theory Qrwlock_Safety
  imports Qrwlock
begin

unbundle bit_operations_syntax

text \<open>
  Why the queued reader/writer lock excludes: the counter is the sum of what the contexts have added to it, and the
  owner of \<open>wait_lock\<close> is the one context in the middle of a slow path.
\<close>

section \<open>The contribution of a context\<close>

definition counted :: "pc \<Rightarrow> bool" where
  "counted a \<longleftrightarrow> a \<in> {ReadTryUndo, ReadSlow, ReadSpin, ReadPass, Reading}"

definition marked :: "pc \<Rightarrow> bool" where
  "marked a \<longleftrightarrow> a \<in> {WriteSpin, WriteCas}"

definition writer :: "pc \<Rightarrow> bool" where
  "writer a \<longleftrightarrow> a \<in> {WritePass, Writing}"

definition reader :: "pc \<Rightarrow> bool" where
  "reader a \<longleftrightarrow> a \<in> {ReadPass, Reading}"

definition owner :: "pc \<Rightarrow> bool" where
  "owner a \<longleftrightarrow> a \<in> {ReadQueued, ReadSpin, ReadPass, WriteQueued, WriteCas0, WriteMark, WriteSpin, WriteCas, WritePass}"

lemmas pc_classes = counted_def marked_def writer_def reader_def owner_def

definition tally :: "nat \<Rightarrow> (pc \<Rightarrow> bool) \<Rightarrow> (nat \<Rightarrow> pc) \<Rightarrow> nat" where
  "tally n p f = (\<Sum>t < n. of_bool (p (f t)))"

lemma tally_update: "t < n \<Longrightarrow> tally n p (f(t := b)) + of_bool (p (f t)) = tally n p f + of_bool (p b)"
proof -
  assume t: "t < n"
  have "tally n p g = of_bool (p (g t)) + (\<Sum>k \<in> {..< n} - {t}. of_bool (p (g k)))" for g
    unfolding tally_def using t by (subst sum.remove [of _ t]) simp_all
  note g = this [of f] this [of "f(t := b)"]
  have "(\<Sum>k \<in> {..< n} - {t}. of_bool (p ((f(t := b)) k))) = (\<Sum>k \<in> {..< n} - {t}. of_bool (p (f k)) :: nat)"
    by (rule sum.cong) auto
  then show ?thesis using g by simp
qed

lemma tally_0: "tally n p f = 0 \<longleftrightarrow> (\<forall>t < n. \<not> p (f t))"
  by (auto simp: tally_def)

lemma tally_pos: "t < n \<Longrightarrow> p (f t) \<Longrightarrow> 0 < tally n p f"
  using tally_0 [of n p f] by (metis neq0_conv)

lemma tally_le: "tally n p f \<le> n"
  using sum_bounded_above [of "{..< n}" "\<lambda>t. of_bool (p (f t)) :: nat" 1] by (simp add: tally_def)

lemma tally_le_1:
  assumes "\<And>t t'. t < n \<Longrightarrow> t' < n \<Longrightarrow> p (f t) \<Longrightarrow> p (f t') \<Longrightarrow> t = t'"
  shows "tally n p f \<le> 1"
proof (cases "\<exists>t < n. p (f t)")
  case True
  then obtain t where t: "t < n" "p (f t)" by blast
  have "tally n p f = (\<Sum>k < n. of_bool (k = t))" unfolding tally_def by (rule sum.cong) (use t assms in auto)
  then show ?thesis using t(1) by simp
next
  case False
  then have "tally n p f = 0" by (auto simp: tally_0)
  then show ?thesis by simp
qed

section \<open>The invariant\<close>

definition rw_inv :: "nat \<Rightarrow> rw_state \<Rightarrow> bool" where
  "rw_inv n s \<longleftrightarrow>
     unat (cnts (the_lock s)) = 512 * tally n counted (at s) + 256 * tally n marked (at s) + 255 * tally n writer (at s) \<and>
     (\<forall>t < n. owner (at s t) \<longleftrightarrow> wait_lock (the_lock s) = Some t) \<and>
     (\<forall>t < n. \<forall>t' < n. t \<noteq> t' \<longrightarrow> writer (at s t) \<longrightarrow> \<not> writer (at s t') \<and> \<not> reader (at s t')) \<and>
     (\<forall>t \<ge> n. at s t = Idle) \<and> (\<forall>t. wait_lock (the_lock s) = Some t \<longrightarrow> t < n)"

lemma rw_invD:
  assumes "rw_inv n s"
  shows "unat (cnts (the_lock s)) = 512 * tally n counted (at s) + 256 * tally n marked (at s) + 255 * tally n writer (at s)"
    "t < n \<Longrightarrow> owner (at s t) \<longleftrightarrow> wait_lock (the_lock s) = Some t"
    "t < n \<Longrightarrow> t' < n \<Longrightarrow> t \<noteq> t' \<Longrightarrow> writer (at s t) \<Longrightarrow> \<not> writer (at s t') \<and> \<not> reader (at s t')"
    "n \<le> t \<Longrightarrow> at s t = Idle" "wait_lock (the_lock s) = Some t \<Longrightarrow> t < n"
  using assms by (auto simp: rw_inv_def)

text \<open>What the bits of the counter tell.\<close>

lemma and_mask_0: "x AND (mask k :: u32) = 0 \<longleftrightarrow> unat x mod 2 ^ k = 0" if "k \<le> 32"
proof -
  have "unat (x AND mask k) = unat x mod 2 ^ k" using that by (simp only: take_bit_eq_mask [symmetric] unsigned_take_bit_eq) (simp add: take_bit_eq_mod min_absorb1)
  then show ?thesis by (metis unat_eq_0)
qed

lemma counter_digits:
  fixes c r m w :: nat
  assumes "c = 512 * r + 256 * m + 255 * w" "m \<le> 1" "w \<le> 1"
  shows "c mod 512 = 256 * m + 255 * w" "c mod 256 = 255 * w" "c = 256 \<longleftrightarrow> r = 0 \<and> m = 1 \<and> w = 0"
proof -
  have "256 * m + 255 * w < 512" "255 * w < 256" using assms(2,3) by linarith+
  moreover have "c = (256 * m + 255 * w) + 512 * r" "c = 255 * w + 256 * (2 * r + m)" using assms(1) by simp_all
  ultimately show "c mod 512 = 256 * m + 255 * w" "c mod 256 = 255 * w" by (metis mod_less mod_mult_self2)+
  have "m = 0 \<or> m = 1" "w = 0 \<or> w = 1" using assms(2,3) by linarith+
  then show "c = 256 \<longleftrightarrow> r = 0 \<and> m = 1 \<and> w = 0" using assms(1) by auto
qed

lemma bits_tell:
  assumes "rw_inv n s" "n < 2 ^ 22"
  defines "c \<equiv> cnts (the_lock s)"
  shows "tally n marked (at s) \<le> 1" "tally n writer (at s) \<le> 1"
    "c AND QW_WMASK = 0 \<longleftrightarrow> tally n marked (at s) = 0 \<and> tally n writer (at s) = 0"
    "c AND QW_LOCKED = 0 \<longleftrightarrow> tally n writer (at s) = 0"
    "c = 0 \<longleftrightarrow> tally n counted (at s) = 0 \<and> tally n marked (at s) = 0 \<and> tally n writer (at s) = 0"
    "c = QW_WAITING \<longleftrightarrow> tally n counted (at s) = 0 \<and> tally n marked (at s) = 1 \<and> tally n writer (at s) = 0"
proof -
  let ?r = "tally n counted (at s)" and ?m = "tally n marked (at s)" and ?w = "tally n writer (at s)"
  note i = rw_invD [OF assms(1)]
  have "marked a \<Longrightarrow> owner a" for a by (auto simp: pc_classes)
  then have mk: "marked (at s t) \<Longrightarrow> wait_lock (the_lock s) = Some t" if "t < n" for t using i(2) [OF that] by blast
  show m: "?m \<le> 1"
  proof (rule tally_le_1)
    fix t t'
    assume "t < n" "t' < n" "marked (at s t)" "marked (at s t')"
    then show "t = t'" using mk [of t] mk [of t'] by simp
  qed
  show w: "?w \<le> 1" by (intro tally_le_1) (use i(3) in blast)
  have c: "unat c = 512 * ?r + 256 * ?m + 255 * ?w" using i(1) by (simp add: c_def)
  note d = counter_digits [OF c m w]
  have k: "QW_WMASK = mask 9" "QW_LOCKED = mask 8" by (simp_all add: QW_WMASK_def QW_LOCKED_def mask_eq_exp_minus_1)
  show "c AND QW_WMASK = 0 \<longleftrightarrow> ?m = 0 \<and> ?w = 0" unfolding k using and_mask_0 [of 9 c] d(1) by simp
  show "c AND QW_LOCKED = 0 \<longleftrightarrow> ?w = 0" unfolding k using and_mask_0 [of 8 c] d(2) by simp
  show "c = 0 \<longleftrightarrow> ?r = 0 \<and> ?m = 0 \<and> ?w = 0" using c unat_eq_0 [of c] by auto
  have "c = QW_WAITING \<longleftrightarrow> unat c = unat QW_WAITING" by (auto intro: unsigned_word_eqI)
  then show "c = QW_WAITING \<longleftrightarrow> ?r = 0 \<and> ?m = 1 \<and> ?w = 0" using d(3) by (simp add: QW_WAITING_def)
qed

section \<open>One access\<close>

definition contribution :: "pc \<Rightarrow> nat" where
  "contribution a = 512 * of_bool (counted a) + 256 * of_bool (marked a) + 255 * of_bool (writer a)"

lemma unat_consts: "unat QR_BIAS = 512" "unat QW_WAITING = 256" "unat QW_LOCKED = 255"
  by (simp_all add: QR_BIAS_def QW_WAITING_def QW_LOCKED_def)

lemma unat_clear_byte: "unat (c AND NOT 0xff) = unat c - unat c mod 256" for c :: u32
proof -
  have m: "(0xff :: u32) = mask 8" by (simp add: mask_eq_exp_minus_1)
  have "c AND NOT 0xff = push_bit 8 (drop_bit 8 c)"
    unfolding m by (rule bit_word_eqI) (auto simp: bit_simps not_less)
  also have "\<dots> = c - take_bit 8 c" using bits_ident [of 8 c] by (simp add: algebra_simps)
  finally have e: "c AND NOT 0xff = c - take_bit 8 c" .
  have t: "unat (take_bit 8 c) = unat c mod 256" by (simp only: unsigned_take_bit_eq) (simp add: take_bit_eq_mod)
  then have "take_bit 8 c \<le> c" by (simp add: word_le_nat_alt)
  then show ?thesis unfolding e by (simp add: unat_sub t)
qed

text \<open>What the contexts have added, seen from one of them.\<close>

lemma counter_bounds:
  assumes "rw_inv n s" "n < 2 ^ 22" "t < n"
  defines "c \<equiv> unat (cnts (the_lock s))"
  shows "c + 512 < 2 ^ 32" "counted (at s t) \<Longrightarrow> 512 \<le> c" "writer (at s t) \<Longrightarrow> c mod 256 = 255" "contribution (at s t) \<le> c"
proof -
  note i = rw_invD [OF assms(1)] and b = bits_tell [OF assms(1,2)]
  have c: "c = 512 * tally n counted (at s) + 256 * tally n marked (at s) + 255 * tally n writer (at s)" using i(1) by (simp add: c_def)
  note d = counter_digits [OF c b(1,2)]
  show "c + 512 < 2 ^ 32" using c b(1,2) tally_le [of n counted "at s"] assms(2) by simp
  show "counted (at s t) \<Longrightarrow> 512 \<le> c" using c tally_pos [OF assms(3), of counted "at s"] by simp
  show w: "c mod 256 = 255" if "writer (at s t)"
    using d(2) b(2) tally_pos [OF assms(3), of writer "at s"] that by simp
  show "contribution (at s t) \<le> c"
    using c tally_pos [OF assms(3), of counted "at s"] tally_pos [OF assms(3), of marked "at s"] tally_pos [OF assms(3), of writer "at s"]
    by (auto simp: contribution_def of_bool_def)
qed

lemmas pc_table = contribution_def pc_classes

text \<open>The effect of an access, from what the counter is known to be.\<close>

definition effect :: "nat \<Rightarrow> bool \<Rightarrow> bool \<Rightarrow> pc \<Rightarrow> qrwlock \<Rightarrow> qrwlock \<Rightarrow> pc \<Rightarrow> bool" where
  "effect t R W a l l' b \<longleftrightarrow> unat (cnts l') + contribution a = unat (cnts l) + contribution b \<and>
    wait_lock l' = (if owner b then Some t else if owner a then None else wait_lock l) \<and>
    (owner b \<longrightarrow> owner a \<or> wait_lock l = None) \<and> (reader b \<longrightarrow> reader a \<or> W) \<and> (writer b \<longrightarrow> writer a \<or> R \<and> W)"

lemma access_effect:
  assumes "local_step irq t a l l' b"
    and add: "unat (cnts l + QR_BIAS) = unat (cnts l) + 512" "unat (cnts l + QW_WAITING) = unat (cnts l) + 256"
    and sub: "counted a \<longrightarrow> unat (cnts l - QR_BIAS) + 512 = unat (cnts l)" "writer a \<longrightarrow> unat (cnts l AND NOT 0xff) + 255 = unat (cnts l)"
    and free: "(cnts l + QR_BIAS) AND QW_WMASK = 0 \<longrightarrow> W" "cnts l AND QW_LOCKED = 0 \<longrightarrow> W" "cnts l = 0 \<longrightarrow> R \<and> W" "cnts l = QW_WAITING \<longrightarrow> R \<and> W"
    and own: "owner a \<longrightarrow> wait_lock l = Some t"
  shows "effect t R W a l l' b"
  using assms(1)
proof (cases rule: local_step.cases)
  case read_lock
  then have "l' = l\<lparr>cnts := cnts l + QR_BIAS\<rparr>" "b = (if (cnts l + QR_BIAS) AND QW_WMASK = 0 then Reading else ReadSlow)"
    by (simp_all add: queued_read_lock_def Let_def)
  then show ?thesis using read_lock(1) add(1) free(1) by (simp add: effect_def pc_table)
next
  case write_lock
  show ?thesis using write_lock(2) [symmetric] write_lock(1) free(3) unat_consts(3)
    by (cases "cnts l = 0") (simp_all add: queued_write_lock_def effect_def pc_table)
next
  case read_trylock
  show ?thesis using read_trylock [symmetric] add(1) sub(1) free(1)
    by (cases a; simp only: queued_read_trylock.simps option.distinct option.inject Let_def)
      (cases "(cnts l + QR_BIAS) AND QW_WMASK = 0"; simp add: effect_def pc_table)+
next
  case write_trylock
  show ?thesis using write_trylock [symmetric] free(3) unat_consts(3)
    by (cases a; simp only: queued_write_trylock.simps option.distinct option.inject) (cases "cnts l = 0"; simp add: effect_def pc_table)+
next
  case read_slow
  show ?thesis using read_slow [symmetric] add(1) sub(1) free(2) own
    by (cases a; simp only: queued_read_lock_slowpath.simps option.distinct option.inject split: if_splits) (simp add: effect_def pc_table)+
next
  case write_slow
  show ?thesis using write_slow [symmetric] add(2) free(3,4) own unat_consts
    by (cases a; simp only: queued_write_lock_slowpath.simps option.distinct option.inject split: if_splits) (simp add: effect_def pc_table)+
next
  case read_unlock
  show ?thesis using read_unlock(2) [symmetric] read_unlock(1) sub(1) by (simp add: queued_read_unlock_def effect_def pc_table)
next
  case write_unlock
  show ?thesis using write_unlock(2) [symmetric] write_unlock(1) sub(2) by (simp add: queued_write_unlock_def effect_def pc_table)
qed

lemma local_step_effect:
  assumes "rw_inv n s" "n < 2 ^ 22" "t < n" "local_step irq t (at s t) (the_lock s) l' b"
  shows "unat (cnts l') + contribution (at s t) = unat (cnts (the_lock s)) + contribution b"
    "wait_lock l' = (if owner b then Some t else if owner (at s t) then None else wait_lock (the_lock s))"
    "owner b \<Longrightarrow> owner (at s t) \<or> wait_lock (the_lock s) = None"
    "reader b \<Longrightarrow> reader (at s t) \<or> tally n writer (at s) = 0"
    "writer b \<Longrightarrow> writer (at s t) \<or> tally n counted (at s) = 0 \<and> tally n writer (at s) = 0"
proof -
  let ?c = "cnts (the_lock s)"
  note tell = bits_tell [OF assms(1,2)] and bnd = counter_bounds [OF assms(1-3)]
  have add: "unat (?c + QR_BIAS) = unat ?c + 512" "unat (?c + QW_WAITING) = unat ?c + 256"
    using bnd(1) by (simp_all add: unat_word_ariths(1) unat_consts)
  have sub: "counted (at s t) \<longrightarrow> unat (?c - QR_BIAS) + 512 = unat ?c"
    using bnd(2) by (simp add: unat_sub word_le_nat_alt unat_consts)
  have clr: "writer (at s t) \<longrightarrow> unat (?c AND NOT 0xff) + 255 = unat ?c"
    using bnd(3) mod_less_eq_dividend [of "unat ?c" 256] unfolding unat_clear_byte by auto
  have k: "QW_WMASK = mask 9" by (simp add: QW_WMASK_def mask_eq_exp_minus_1)
  have "(?c + QR_BIAS) AND QW_WMASK = 0 \<longleftrightarrow> ?c AND QW_WMASK = 0"
    unfolding k and_mask_0 [of 9, simplified] add(1) by simp
  then have w: "(?c + QR_BIAS) AND QW_WMASK = 0 \<longrightarrow> tally n writer (at s) = 0" using tell(3) by blast
  have "?c AND QW_LOCKED = 0 \<longrightarrow> tally n writer (at s) = 0" "?c = 0 \<longrightarrow> tally n counted (at s) = 0 \<and> tally n writer (at s) = 0"
    "?c = QW_WAITING \<longrightarrow> tally n counted (at s) = 0 \<and> tally n writer (at s) = 0" "owner (at s t) \<longrightarrow> wait_lock (the_lock s) = Some t"
    using tell(4-6) rw_invD(2) [OF assms(1,3)] by blast+
  note e = access_effect [OF assms(4) add sub clr w this, unfolded effect_def]
  show "unat (cnts l') + contribution (at s t) = unat (cnts (the_lock s)) + contribution b"
    "wait_lock l' = (if owner b then Some t else if owner (at s t) then None else wait_lock (the_lock s))"
    using e by simp_all
  note e = e [THEN conjunct2, THEN conjunct2]
  show "owner b \<Longrightarrow> owner (at s t) \<or> wait_lock (the_lock s) = None" using e by simp
  show "reader b \<Longrightarrow> reader (at s t) \<or> tally n writer (at s) = 0" using e by simp
  show "writer b \<Longrightarrow> writer (at s t) \<or> tally n counted (at s) = 0 \<and> tally n writer (at s) = 0" using e by simp
qed

section \<open>The invariant is kept\<close>

lemma reader_counted: "reader a \<Longrightarrow> counted a"
  by (auto simp: pc_classes)

lemma rw_inv_step:
  assumes "rw_inv n s" "n < 2 ^ 22" "rw_step n I s s'"
  shows "rw_inv n s'"
proof -
  obtain t l' b where 1: "s' = s\<lparr>the_lock := l', at := (at s)(t := b)\<rparr>" "t < n" "local_step (t \<in> I) t (at s t) (the_lock s) l' b"
    using assms(3) by (auto elim: rw_step.cases)
  note i = rw_invD [OF assms(1)] and e = local_step_effect [OF assms(1,2) 1(2,3)]
  let ?f = "(at s)(t := b)"
  have "unat (cnts l') = 512 * tally n counted ?f + 256 * tally n marked ?f + 255 * tally n writer ?f"
    using e(1) i(1) tally_update [OF 1(2), of counted "at s" b] tally_update [OF 1(2), of marked "at s" b] tally_update [OF 1(2), of writer "at s" b]
    unfolding contribution_def by algebra
  moreover have "owner (?f t') \<longleftrightarrow> wait_lock l' = Some t'" if "t' < n" for t'
    using e(2,3) i(2) [OF that] i(2) [OF 1(2)] by (cases "t' = t") auto
  moreover have "\<not> writer (?f u') \<and> \<not> reader (?f u')" if u: "u < n" "u' < n" "u \<noteq> u'" "writer (?f u)" for u u'
  proof -
    consider "u = t" "writer (at s t)" | "u = t" "tally n counted (at s) = 0" "tally n writer (at s) = 0" | "u \<noteq> t" using u(4) e(5) by fastforce
    then show ?thesis
    proof cases
      case 1
      then show ?thesis using i(3) [OF u(1-3)] u(3) by simp
    next
      case 2
      then show ?thesis using u reader_counted by (auto simp: tally_0)
    next
      case 3
      then have w: "writer (at s u)" using u(4) by simp
      then have "0 < tally n writer (at s)" using tally_pos u(1) by blast
      then show ?thesis using i(3) [OF u(1-3) w] e(4,5) by (cases "u' = t") auto
    qed
  qed
  moreover have "wait_lock l' = Some t' \<Longrightarrow> t' < n" for t' using e(2) i(5) [of t'] 1(2) by (auto split: if_splits)
  ultimately show ?thesis using i(4) 1(1,2) by (auto simp: rw_inv_def)
qed

lemma reachable_inv: "reachable n I s \<Longrightarrow> n < 2 ^ 22 \<Longrightarrow> rw_inv n s"
proof (induction rule: reachable.induct)
  case start
  then show ?case by (simp add: rw_inv_def tally_def pc_classes)
next
  case (step s s')
  then show ?case using rw_inv_step by blast
qed

section \<open>Progress\<close>

definition holds_lock :: "pc \<Rightarrow> bool" where
  "holds_lock a \<longleftrightarrow> a = Reading \<or> a = Writing"

definition waits :: "pc \<Rightarrow> bool" where
  "waits a \<longleftrightarrow> a \<noteq> Idle \<and> \<not> holds_lock a"

definition can_step :: "nat set \<Rightarrow> rw_state \<Rightarrow> nat \<Rightarrow> bool" where
  "can_step I s t \<longleftrightarrow> (\<exists>l' b. local_step (t \<in> I) t (at s t) (the_lock s) l' b)"

lemma cannot_step:
  assumes "\<not> can_step I s t"
  shows "queued_read_lock_slowpath (t \<in> I) t (at s t) (the_lock s) = None" "queued_write_lock_slowpath t (at s t) (the_lock s) = None"
    "queued_read_trylock (at s t) (the_lock s) = None" "queued_write_trylock (at s t) (the_lock s) = None"
  using assms local_step.intros(3-6) unfolding can_step_def by (metis not_None_eq surj_pair)+

text \<open>A context that waits and cannot go on is at one of three places, unless a writer holds the lock.\<close>

lemma blocked_at:
  assumes "waits (at s t)" "\<not> can_step I s t" "cnts (the_lock s) AND QW_LOCKED = 0"
  shows "at s t \<in> {ReadWait, WriteWait} \<and> wait_lock (the_lock s) \<noteq> None \<or> at s t = WriteSpin \<and> cnts (the_lock s) \<noteq> QW_WAITING"
  using cannot_step [OF assms(2)] assms(1,3)
  by (cases "at s t") (simp_all add: waits_def holds_lock_def Let_def split: if_splits)

lemma progress:
  assumes "rw_inv n s" "n < 2 ^ 22" "t < n" "waits (at s t)" "\<forall>t < n. \<not> holds_lock (at s t)"
  shows "\<exists>t < n. waits (at s t) \<and> can_step I s t"
proof (rule ccontr)
  assume none: "\<not> (\<exists>t < n. waits (at s t) \<and> can_step I s t)"
  have pass: "at s u \<noteq> WritePass" if "u < n" for u
    using none that cannot_step(2) [of I s u] by (force simp: waits_def holds_lock_def)
  have "\<not> writer (at s u)" if "u < n" for u using pass [OF that] assms(5) that by (auto simp: writer_def holds_lock_def)
  then have w: "tally n writer (at s) = 0" by (simp add: tally_0)
  note tell = bits_tell [OF assms(1,2)]
  have b: "at s u \<in> {ReadWait, WriteWait} \<and> wait_lock (the_lock s) \<noteq> None \<or> at s u = WriteSpin \<and> cnts (the_lock s) \<noteq> QW_WAITING"
    if "u < n" "waits (at s u)" for u
    by (rule blocked_at [of s u I]) (use none that tell(4) w in auto)
  have "\<not> counted (at s u)" if "u < n" for u
    using b [OF that] assms(5) that by (cases "waits (at s u)") (auto simp: waits_def holds_lock_def counted_def)
  then have r: "tally n counted (at s) = 0" by (simp add: tally_0)
  have spin: "at s u \<noteq> WriteSpin" if "u < n" for u
  proof
    assume u: "at s u = WriteSpin"
    then have "0 < tally n marked (at s)" by (intro tally_pos [OF that]) (simp add: marked_def)
    then have "cnts (the_lock s) = QW_WAITING" using tell(1,6) r w by simp
    then show False using b [OF that] u by (simp add: waits_def holds_lock_def)
  qed
  then obtain u where u: "wait_lock (the_lock s) = Some u" using b [OF assms(3,4)] assms(3) by auto
  then have "u < n" "owner (at s u)" using rw_invD(2,5) [OF assms(1)] by blast+
  then show False using b [of u] spin [of u] by (auto simp: owner_def waits_def holds_lock_def)
qed

section \<open>The abstract lock\<close>

text \<open>The readers and the writers; whoever is admitted when.\<close>

type_synonym rw_view = "nat set \<times> nat set"

inductive rw_spec :: "rw_view \<Rightarrow> rw_view \<Rightarrow> bool" where
  admit_reader: "rw_spec (R, {}) (insert t R, {})"
| admit_writer: "rw_spec ({}, {}) ({}, {t})"
| reader_leaves: "t \<in> R \<Longrightarrow> rw_spec (R, W) (R - {t}, W)"
| writer_leaves: "rw_spec (R, {t}) (R, {})"

definition rw_abs :: "rw_state \<Rightarrow> rw_view" where
  "rw_abs s = ({t. at s t = Reading}, {t. at s t = Writing})"

lemma leaving: "local_step irq t a l l' b \<Longrightarrow> holds_lock a \<Longrightarrow> b = Idle"
  by (erule local_step.cases) (auto simp: holds_lock_def queued_read_unlock_def queued_write_unlock_def)

lemma no_writer: "rw_inv n s \<Longrightarrow> tally n writer (at s) = 0 \<Longrightarrow> at s t \<noteq> Writing"
  using rw_invD(4) [of n s t] by (cases "t < n") (auto simp: tally_0 writer_def)

lemma no_reader: "rw_inv n s \<Longrightarrow> tally n counted (at s) = 0 \<Longrightarrow> at s t \<noteq> Reading"
  using rw_invD(4) [of n s t] by (cases "t < n") (auto simp: tally_0 counted_def)

lemma exclusive:
  assumes "rw_inv n s" "writer (at s t)" "t' \<noteq> t"
  shows "\<not> holds_lock (at s t')"
proof -
  have "t < n" using rw_invD(4) [OF assms(1), of t] assms(2) by (cases "t < n") (auto simp: writer_def)
  show ?thesis
  proof (cases "t' < n")
    case True
    then show ?thesis using rw_invD(3) [OF assms(1) \<open>t < n\<close> True assms(3) [symmetric] assms(2)] by (auto simp: holds_lock_def writer_def reader_def)
  next
    case False
    then show ?thesis using rw_invD(4) [OF assms(1), of t'] by (simp add: holds_lock_def)
  qed
qed

lemma step_refines:
  assumes "rw_inv n s" "n < 2 ^ 22" "rw_step n I s s'"
  shows "rw_abs s' = rw_abs s \<or> rw_spec (rw_abs s) (rw_abs s')"
proof -
  obtain t l' b where 1: "s' = s\<lparr>the_lock := l', at := (at s)(t := b)\<rparr>" "t < n" "local_step (t \<in> I) t (at s t) (the_lock s) l' b"
    using assms(3) by (auto elim: rw_step.cases)
  note e = local_step_effect [OF assms(1,2) 1(2,3)]
  have v: "rw_abs s' = ({u. (if u = t then b else at s u) = Reading}, {u. (if u = t then b else at s u) = Writing})"
    by (simp add: rw_abs_def 1(1))
  consider "at s t = Reading" | "at s t = Writing" | "\<not> holds_lock (at s t)" "b = Reading" | "\<not> holds_lock (at s t)" "b = Writing"
    | "\<not> holds_lock (at s t)" "\<not> holds_lock b" by (auto simp: holds_lock_def)
  then show ?thesis
  proof cases
    case 1
    then have "rw_abs s' = (fst (rw_abs s) - {t}, snd (rw_abs s))" using leaving [OF \<open>local_step _ _ _ _ _ _\<close>] unfolding v by (auto simp: rw_abs_def holds_lock_def)
    then show ?thesis using 1 reader_leaves [of t "fst (rw_abs s)" "snd (rw_abs s)"] by (simp add: rw_abs_def)
  next
    case 2
    have "at s u \<noteq> Reading \<and> (at s u = Writing \<longleftrightarrow> u = t)" for u
      using exclusive [OF assms(1), of t u] 2 by (cases "u = t") (auto simp: writer_def holds_lock_def)
    then have "rw_abs s = ({}, {t})" by (simp add: rw_abs_def)
    moreover have "rw_abs s' = ({}, {})" using leaving [OF \<open>local_step _ _ _ _ _ _\<close>] 2 calculation unfolding v by (auto simp: rw_abs_def holds_lock_def)
    ultimately show ?thesis using writer_leaves [of "{}" t] by simp
  next
    case 3
    have "at s u \<noteq> Writing" for u
    proof (cases "reader (at s t)")
      case True
      show ?thesis
      proof
        assume u: "at s u = Writing"
        then have "u \<noteq> t" "u < n" "writer (at s u)" using True rw_invD(4) [OF assms(1), of u] by (auto simp: reader_def writer_def not_less [symmetric])
        then show False using rw_invD(3) [OF assms(1) \<open>u < n\<close> 1(2)] True by blast
      qed
    qed (use no_writer [OF assms(1), of u] e(4) 3(2) in \<open>simp add: reader_def\<close>)
    then have "rw_abs s = (fst (rw_abs s), {})" "rw_abs s' = (insert t (fst (rw_abs s)), {})" using 3(2) unfolding v by (auto simp: rw_abs_def)
    then show ?thesis using admit_reader [of "fst (rw_abs s)" t] by simp
  next
    case 4
    have "\<not> holds_lock (at s u)" for u
      using exclusive [OF assms(1), of t u] e(5) 4 no_writer [OF assms(1), of u] no_reader [OF assms(1), of u]
      by (cases "u = t"; cases "writer (at s t)") (auto simp: holds_lock_def writer_def)
    then have "rw_abs s = ({}, {})" "rw_abs s' = ({}, {t})" using 4(2) unfolding v by (auto simp: rw_abs_def holds_lock_def)
    then show ?thesis using admit_writer [of t] by simp
  next
    case 5
    then show ?thesis unfolding v by (auto simp: rw_abs_def holds_lock_def)
  qed
qed

lemma waiting_writer_stops:
  assumes "rw_inv n s" "n < 2 ^ 22" "t < n" "at s t = WriteSpin"
  shows "snd (queued_read_lock (the_lock s)) = ReadSlow"
proof -
  let ?c = "cnts (the_lock s)"
  have k: "QW_WMASK = mask 9" by (simp add: QW_WMASK_def mask_eq_exp_minus_1)
  have "0 < tally n marked (at s)" by (rule tally_pos [OF assms(3)]) (simp add: assms(4) marked_def)
  then have "?c AND QW_WMASK \<noteq> 0" using bits_tell(3) [OF assms(1,2)] by simp
  moreover have "unat (?c + QR_BIAS) = unat ?c + 512"
    using counter_bounds(1) [OF assms(1-3)] by (simp add: unat_word_ariths(1) unat_consts)
  ultimately have "(?c + QR_BIAS) AND QW_WMASK \<noteq> 0" unfolding k and_mask_0 [of 9, simplified] by simp
  then show ?thesis by (simp add: queued_read_lock_def Let_def)
qed

end
