(* ===== verification/Qrwlock_Properties.thy ===== *)
theory Qrwlock_Properties
  imports Qrwlock_Safety
begin

text \<open>
  The properties of the queued reader/writer lock.
\<close>

text \<open>Three contexts: what the lock holds and where each of them is.\<close>

definition view :: "u32 \<Rightarrow> nat option \<Rightarrow> pc \<Rightarrow> pc \<Rightarrow> pc \<Rightarrow> rw_state" where
  "view c w x y z = \<lparr>the_lock = \<lparr>cnts = c, wait_lock = w\<rparr>, at = (\<lambda>_. Idle)(0 := x, 1 := y, 2 := z)\<rparr>"

lemma go:
  assumes "reachable 3 I (view c w x y z)"
  shows "local_step (0 \<in> I) 0 x \<lparr>cnts = c, wait_lock = w\<rparr> \<lparr>cnts = c', wait_lock = w'\<rparr> b \<Longrightarrow> reachable 3 I (view c' w' b y z)"
    "local_step (1 \<in> I) 1 y \<lparr>cnts = c, wait_lock = w\<rparr> \<lparr>cnts = c', wait_lock = w'\<rparr> b \<Longrightarrow> reachable 3 I (view c' w' x b z)"
    "local_step (2 \<in> I) 2 z \<lparr>cnts = c, wait_lock = w\<rparr> \<lparr>cnts = c', wait_lock = w'\<rparr> b \<Longrightarrow> reachable 3 I (view c' w' x y b)"
proof -
  have s: "reachable 3 I s'" if "t < 3" "local_step (t \<in> I) t (at (view c w x y z) t) (the_lock (view c w x y z)) l' b"
    "s' = (view c w x y z)\<lparr>the_lock := l', at := (at (view c w x y z))(t := b)\<rparr>" for t l' b s'
    using reachable.step [OF assms rw_step.intros [OF that(1,2)]] that(3) by simp
  show "local_step (0 \<in> I) 0 x \<lparr>cnts = c, wait_lock = w\<rparr> \<lparr>cnts = c', wait_lock = w'\<rparr> b \<Longrightarrow> reachable 3 I (view c' w' b y z)"
    by (rule s [of 0 "\<lparr>cnts = c', wait_lock = w'\<rparr>" b]) (auto simp: view_def fun_eq_iff)
  show "local_step (1 \<in> I) 1 y \<lparr>cnts = c, wait_lock = w\<rparr> \<lparr>cnts = c', wait_lock = w'\<rparr> b \<Longrightarrow> reachable 3 I (view c' w' x b z)"
    by (rule s [of 1 "\<lparr>cnts = c', wait_lock = w'\<rparr>" b]) (auto simp: view_def fun_eq_iff)
  show "local_step (2 \<in> I) 2 z \<lparr>cnts = c, wait_lock = w\<rparr> \<lparr>cnts = c', wait_lock = w'\<rparr> b \<Longrightarrow> reachable 3 I (view c' w' x y b)"
    by (rule s [of 2 "\<lparr>cnts = c', wait_lock = w'\<rparr>" b]) (auto simp: view_def fun_eq_iff)
qed

lemmas rw_consts = QR_BIAS_def QW_WMASK_def QW_WAITING_def QW_LOCKED_def

lemma first_accesses: "reachable 3 I (view 0x500 (Some 1) Reading WriteSpin ReadSlow)"
proof -
  have "reachable 3 I (view 0 None Idle Idle Idle)" using reachable.start [of 3 I] by (simp add: view_def fun_upd_idem)
  then have "reachable 3 I (view 0x200 None Reading Idle Idle)"
    by (rule go(1)) (rule read_lock, simp add: queued_read_lock_def Let_def rw_consts)
  then have "reachable 3 I (view 0x200 None Reading WriteWait Idle)"
    by (rule go(2)) (rule write_lock, simp add: queued_write_lock_def)
  then have "reachable 3 I (view 0x200 (Some 1) Reading WriteQueued Idle)" by (rule go(2)) (rule write_slow, simp)
  then have "reachable 3 I (view 0x200 (Some 1) Reading WriteMark Idle)" by (rule go(2)) (rule write_slow, simp)
  then have "reachable 3 I (view 0x300 (Some 1) Reading WriteSpin Idle)" by (rule go(2)) (rule write_slow, simp add: rw_consts)
  then show ?thesis by (rule go(3)) (rule read_lock, simp add: queued_read_lock_def Let_def rw_consts)
qed

text \<open>
  C39. The queued reader/writer lock is a reader/writer lock. For fewer than \<open>2 ^ 22\<close> contexts and every interleaving of their
  accesses, a writer excludes every other reader and writer; every access leaves the sets of readers and writers as they
  are or admits or dismisses one context as the abstract lock does; while contexts wait and none holds the lock, one of
  those that wait can go on; and while a writer is marked as waiting no new reader passes it on the fast path.
\<close>

theorem qrwlock_refines_spec:
  assumes "reachable n I s" "n < 2 ^ 22"
  shows "(\<forall>t t'. at s t = Writing \<longrightarrow> t' \<noteq> t \<longrightarrow> \<not> holds_lock (at s t')) \<and>
    (\<forall>s'. rw_step n I s s' \<longrightarrow> rw_abs s' = rw_abs s \<or> rw_spec (rw_abs s) (rw_abs s')) \<and>
    ((\<exists>t. waits (at s t)) \<longrightarrow> (\<forall>t. \<not> holds_lock (at s t)) \<longrightarrow> (\<exists>t. waits (at s t) \<and> can_step I s t)) \<and>
    ((\<exists>t. at s t = WriteSpin) \<longrightarrow> snd (queued_read_lock (the_lock s)) = ReadSlow)"
proof -
  note inv = reachable_inv [OF assms]
  have below: "at s t \<noteq> Idle \<Longrightarrow> t < n" for t using rw_invD(4) [OF inv, of t] by (cases "t < n") auto
  have "\<exists>t. waits (at s t) \<and> can_step I s t" if w: "waits (at s t)" "\<forall>t. \<not> holds_lock (at s t)" for t
    using progress [OF inv assms(2) _ w(1)] w below [of t] by (auto simp: waits_def)
  moreover have "snd (queued_read_lock (the_lock s)) = ReadSlow" if "at s t = WriteSpin" for t
    by (rule waiting_writer_stops [OF inv assms(2) below that]) (simp add: that)
  ultimately show ?thesis
    using exclusive [OF inv] step_refines [OF inv assms(2)] by (auto simp: writer_def)
qed

theorem qrwlock_refines_spec_witness:
  "\<not> holds_lock (at (view 0x500 (Some 1) Reading WriteSpin ReadSlow) 1) \<and>
   snd (queued_read_lock (the_lock (view 0x500 (Some 1) Reading WriteSpin ReadSlow))) = ReadSlow"
proof -
  have "at (view 0x500 (Some 1) Reading WriteSpin ReadSlow) 1 = WriteSpin" by (simp add: view_def)
  then show ?thesis using qrwlock_refines_spec [OF first_accesses, of "{}"] by (auto simp: holds_lock_def)
qed


end
